(* ===== verification/Prelude.thy ===== *)
theory Prelude
  imports Main "HOL-Library.Word" "HOL-Library.Signed_Division"
begin

text \<open>
  Shared vocabulary of the development.  The modelled sources are C; their
  values are represented as follows.

  \<^item> \<open>int16_t\<close>, \<open>int32_t\<close> and \<open>int\<close> are HOL integers.  A conversion to such a
    type (a cast, an assignment to a narrower variable) is written out with
    \<open>s16\<close> / \<open>s32\<close>, the two's complement reduction performed by the compilers
    the project is built with; \<open>u8\<close>, \<open>u16\<close>, \<open>u32\<close> are the conversions to the
    unsigned types.
  \<^item> \<open>>>\<close> on a signed operand is \<open>asr\<close> (arithmetic shift), \<open><<\<close> is \<open>shl\<close>; \<open>/\<close> on
    signed operands is the truncating \<open>sdiv\<close> of the library.
  \<^item> code that works on unsigned bit patterns (checksums, the arithmetic coder)
    uses the library's words directly.
  \<^item> \<open>size_t\<close> is a natural number below \<open>2 ^ 32\<close> (the 32-bit Windows target);
    its subtraction \<open>sz_sub\<close> wraps.
  \<^item> a possibly null pointer to a struct is an \<open>option\<close>.
\<close>

unbundle bit_operations_syntax

named_theorems c_conv \<open>conversions between C integer types, unfolded\<close>
named_theorems c_bound \<open>ranges of C integer conversions\<close>

subsection \<open>Integer conversions\<close>

definition s16 :: "int \<Rightarrow> int" where
  "s16 x = signed_take_bit 15 x"

definition s32 :: "int \<Rightarrow> int" where
  "s32 x = signed_take_bit 31 x"

definition u8 :: "int \<Rightarrow> int" where
  "u8 x = take_bit 8 x"

definition u16 :: "int \<Rightarrow> int" where
  "u16 x = take_bit 16 x"

definition u32 :: "int \<Rightarrow> int" where
  "u32 x = take_bit 32 x"

definition asr :: "int \<Rightarrow> nat \<Rightarrow> int" where
  "asr x n = drop_bit n x"

definition shl :: "int \<Rightarrow> nat \<Rightarrow> int" where
  "shl x n = push_bit n x"

definition is16 :: "int \<Rightarrow> bool" where
  "is16 x \<longleftrightarrow> -32768 \<le> x \<and> x \<le> 32767"

definition is32 :: "int \<Rightarrow> bool" where
  "is32 x \<longleftrightarrow> -2147483648 \<le> x \<and> x \<le> 2147483647"

lemmas c_conv_defs [c_conv] = s16_def s32_def u8_def u16_def u32_def asr_def shl_def

lemma asr_div [c_conv]: "asr x n = x div 2 ^ n"
  by (simp add: asr_def drop_bit_eq_div)

lemma shl_mult [c_conv]: "shl x n = x * 2 ^ n"
  by (simp add: shl_def push_bit_eq_mult)

lemma s16_id: "-32768 \<le> x \<Longrightarrow> x \<le> 32767 \<Longrightarrow> s16 x = x"
  by (simp add: s16_def signed_take_bit_int_eq_self)

lemma s32_id: "-2147483648 \<le> x \<Longrightarrow> x \<le> 2147483647 \<Longrightarrow> s32 x = x"
  by (simp add: s32_def signed_take_bit_int_eq_self)

lemma s16_is16 [simp]: "is16 x \<Longrightarrow> s16 x = x"
  by (simp add: is16_def s16_id)

lemma s32_is32 [simp]: "is32 x \<Longrightarrow> s32 x = x"
  by (simp add: is32_def s32_id)

lemma s16_lower [c_bound]: "-32768 \<le> s16 x"
  using signed_take_bit_int_greater_eq_minus_exp [of 15 x] by (simp add: s16_def)

lemma s16_upper [c_bound]: "s16 x \<le> 32767"
  using signed_take_bit_int_less_exp [of 15 x] by (simp add: s16_def)

lemma s32_lower [c_bound]: "-2147483648 \<le> s32 x"
  using signed_take_bit_int_greater_eq_minus_exp [of 31 x] by (simp add: s32_def)

lemma s32_upper [c_bound]: "s32 x \<le> 2147483647"
  using signed_take_bit_int_less_exp [of 31 x] by (simp add: s32_def)

lemma is16_s16 [simp, intro]: "is16 (s16 x)"
  by (simp add: is16_def c_bound)

lemma is32_s32 [simp, intro]: "is32 (s32 x)"
  by (simp add: is32_def c_bound)

lemma is16_is32: "is16 x \<Longrightarrow> is32 x"
  by (simp add: is16_def is32_def)

lemma u8_bounds [c_bound]: "0 \<le> u8 x" "u8 x < 256"
  by (simp_all add: u8_def take_bit_eq_mod)

lemma u16_bounds [c_bound]: "0 \<le> u16 x" "u16 x < 65536"
  by (simp_all add: u16_def take_bit_eq_mod)

lemma u32_bounds [c_bound]: "0 \<le> u32 x" "u32 x < 4294967296"
  by (simp_all add: u32_def take_bit_eq_mod)

lemma u8_id: "0 \<le> x \<Longrightarrow> x < 256 \<Longrightarrow> u8 x = x"
  by (simp add: u8_def take_bit_eq_mod)

lemma u16_id: "0 \<le> x \<Longrightarrow> x < 65536 \<Longrightarrow> u16 x = x"
  by (simp add: u16_def take_bit_eq_mod)

lemma u32_id: "0 \<le> x \<Longrightarrow> x < 4294967296 \<Longrightarrow> u32 x = x"
  by (simp add: u32_def take_bit_eq_mod)

lemma s16_eq_mod: "s16 x = (x + 32768) mod 65536 - 32768"
  by (simp add: s16_def signed_take_bit_eq_take_bit_shift take_bit_eq_mod)

lemma s32_eq_mod: "s32 x = (x + 2147483648) mod 4294967296 - 2147483648"
  by (simp add: s32_def signed_take_bit_eq_take_bit_shift take_bit_eq_mod)

lemma asr_bounds:
  assumes "l * 2 ^ n \<le> x" and "x < (u + 1) * 2 ^ n"
  shows "l \<le> asr x n" and "asr x n \<le> u"
proof -
  show "l \<le> asr x n"
    using zdiv_mono1 [OF assms(1), of "2 ^ n"] by (simp add: asr_div)
  have "0 \<le> x mod 2 ^ n" by simp
  then have "x div 2 ^ n * 2 ^ n \<le> x"
    using div_mult_mod_eq [of x "2 ^ n"] by linarith
  with assms(2) have "x div 2 ^ n * 2 ^ n < (u + 1) * 2 ^ n" by linarith
  then have "x div 2 ^ n < u + 1" by (simp add: mult_less_cancel_right)
  then show "asr x n \<le> u" by (simp add: asr_div)
qed

subsection \<open>Wrap-around, masks and floor division\<close>

lemma high_mask_eq_0:
  fixes x :: int
  assumes "0 \<le> x" and "x < 2 ^ M" and "k \<le> M"
  shows "(2 ^ M - 2 ^ k) AND x = 0 \<longleftrightarrow> x < 2 ^ k"
proof -
  have m: "(2 :: int) ^ M - 2 ^ k = push_bit k (mask (M - k))"
    using assms(3) by (simp add: push_bit_eq_mult mask_eq_exp_minus_1 algebra_simps flip: power_add)
  have top: "n < M" if "bit x n" for n
  proof (rule ccontr)
    assume "\<not> n < M"
    then have "(2 :: int) ^ M \<le> 2 ^ n" by simp
    with assms have "x div 2 ^ n = 0" by (intro div_pos_pos_trivial) linarith+
    with that show False by (simp add: bit_iff_odd)
  qed
  have "(2 ^ M - 2 ^ k) AND x = push_bit k (drop_bit k x)"
    unfolding m by (rule bit_eqI)
      (auto simp: bit_and_iff bit_push_bit_iff bit_mask_iff bit_drop_bit_eq dest: top)
  then have "(2 ^ M - 2 ^ k) AND x = 0 \<longleftrightarrow> x div 2 ^ k = 0"
    by (simp add: push_bit_eq_mult drop_bit_eq_div)
  also have "\<dots> \<longleftrightarrow> x < 2 ^ k"
    using assms(1) zero_less_power [of "2 :: int" k] by (auto simp: zdiv_eq_0_iff)
  finally show ?thesis .
qed

lemma div_pos_less:
  fixes x c d :: int
  assumes "0 < d"
  shows "x div d < c \<longleftrightarrow> x < d * c"
proof
  assume "x div d < c"
  then have "d * (x div d + 1) \<le> d * c" using assms by (intro mult_left_mono) simp_all
  then show "x < d * c" using pos_mod_bound [OF assms, of x] mult_div_mod_eq [of d x]
    unfolding distrib_left mult_1_right by linarith
next
  assume "x < d * c"
  then have "d * (x div d) < d * c" using pos_mod_sign [OF assms, of x] mult_div_mod_eq [of d x] by linarith
  then show "x div d < c" using assms by (simp add: mult_less_cancel_left)
qed

lemma or_power2:
  fixes m :: int
  shows "m * 2 ^ Suc n OR 2 ^ n = m * 2 ^ Suc n + 2 ^ n"
proof -
  have "m * 2 ^ Suc n AND 2 ^ n = 0"
    by (rule bit_eqI)
      (auto simp add: bit_and_iff bit_exp_iff bit_push_bit_iff bit_0 simp flip: push_bit_eq_mult simp del: power_Suc)
  then show ?thesis by (simp add: disjunctive_add_eq_or)
qed

lemma s32_wrap_up:
  assumes "-6442450944 \<le> x" "x < -2147483648"
  shows "s32 x = x + 4294967296"
proof -
  have "(x + 2147483648) mod 4294967296 = (x + 2147483648 + 4294967296) mod 4294967296"
    by (simp only: mod_add_self2)
  also have "\<dots> = x + 2147483648 + 4294967296" using assms by (intro mod_pos_pos_trivial) simp_all
  finally show ?thesis by (simp add: s32_eq_mod)
qed

lemma s32_wrap_down:
  assumes "2147483647 < x" "x \<le> 6442450943"
  shows "s32 x = x - 4294967296"
proof -
  have "(x + 2147483648) mod 4294967296 = (x + 2147483648 - 4294967296) mod 4294967296"
    by (simp only: minus_mod_self2)
  also have "\<dots> = x + 2147483648 - 4294967296" using assms by (intro mod_pos_pos_trivial) simp_all
  finally show ?thesis by (simp add: s32_eq_mod)
qed

lemma s32_cases:
  assumes "-6442450944 \<le> x" "x \<le> 6442450943"
  shows "s32 x = (if x < -2147483648 then x + 4294967296
                  else if x > 2147483647 then x - 4294967296 else x)"
  using assms by (simp add: s32_wrap_up s32_wrap_down s32_id)

lemma s32_add_left [simp]: "s32 (s32 a + b) = s32 (a + b)"
  unfolding s32_eq_mod by (simp add: mod_simps algebra_simps)

lemma s32_add_right [simp]: "s32 (a + s32 b) = s32 (a + b)"
  using s32_add_left [of b a] by (simp add: add.commute)

lemma s32_0 [simp]: "s32 0 = 0"
  by (simp add: s32_id)

lemma sum_list_abs_bound:
  fixes f :: "'a \<Rightarrow> int"
  assumes "\<And>x. x \<in> set xs \<Longrightarrow> \<bar>f x\<bar> \<le> B"
  shows "\<bar>sum_list (map f xs)\<bar> \<le> int (length xs) * B"
  using assms by (induction xs) (auto simp: algebra_simps intro: order_trans [OF abs_triangle_ineq add_mono])

lemma asr_abs_bound:
  assumes "\<bar>p\<bar> \<le> 2 ^ (e + sc)"
  shows "\<bar>asr p sc\<bar> \<le> 2 ^ e"
proof -
  have "(- (2 ^ e)) * 2 ^ sc \<le> p" "p < (2 ^ e + 1) * 2 ^ sc"
    using assms by (simp_all add: power_add abs_le_iff distrib_right) (smt (verit) zero_less_power)
  from asr_bounds [OF this] show ?thesis by simp
qed

lemma fold_s32_sum: "fold (\<lambda>x en. s32 (en + f x)) xs (s32 t) = s32 (t + (\<Sum>x\<leftarrow>xs. f x))"
  by (induction xs arbitrary: t) (simp_all add: add.assoc)

lemma sum_list_zip_nth:
  "length as = length bs \<Longrightarrow> (\<Sum>(a, b)\<leftarrow>zip as bs. f a b) = (\<Sum>j < length as. f (as ! j) (bs ! j))"
  by (simp add: sum_list_sum_nth atLeast0LessThan)

lemma fold_update:
  "n \<le> length xs \<Longrightarrow> fold (\<lambda>i ys. ys[i := f i]) [0..<n] xs = map f [0..<n] @ drop n xs"
  by (induction n) (auto simp: list_update_append upd_conv_take_nth_drop Cons_nth_drop_Suc [symmetric])

lemma s16_eqI:
  assumes "list_all (\<lambda>k. bit a k = bit b k) [0, 1, 2, 3, 4, 5, 6, 7, 8, 9, 10, 11, 12, 13, 14, 15]"
  shows "s16 a = s16 b"
proof (rule bit_eqI)
  fix n
  have "[0, 1, 2, 3, 4, 5, 6, 7, 8, 9, 10, 11, 12, 13, 14, 15] = [0..<16]" by code_simp
  then have "list_all (\<lambda>k. bit a k = bit b k) [0..<16]" using assms by metis
  then have "bit a (min 15 n) = bit b (min 15 n)" by (simp add: list_all_iff)
  then show "bit (s16 a) n = bit (s16 b) n" by (simp add: s16_def bit_signed_take_bit_iff)
qed

lemma u8_eqI:
  assumes "list_all (\<lambda>k. bit a k = bit b k) [0, 1, 2, 3, 4, 5, 6, 7]"
  shows "u8 a = u8 b"
proof (rule bit_eqI)
  fix n
  have "[0, 1, 2, 3, 4, 5, 6, 7] = [0..<8]" by code_simp
  then have "list_all (\<lambda>k. bit a k = bit b k) [0..<8]" using assms by metis
  then show "bit (u8 a) n = bit (u8 b) n" by (auto simp: u8_def bit_take_bit_iff list_all_iff)
qed

lemma mask_FF: "(0xFF :: int) = mask 8"
  by (simp add: mask_eq_exp_minus_1)

lemma s16_idem [simp]: "s16 (s16 x) = s16 x"
  by simp

subsection \<open>Truncating division\<close>

lemma sdiv_bounds:
  fixes a b :: int
  assumes "0 < b"
  shows "\<bar>a sdiv b\<bar> \<le> \<bar>a\<bar>"
proof -
  have "\<bar>a\<bar> div b \<le> \<bar>a\<bar>"
    using assms zdiv_mono2 [of "\<bar>a\<bar>" 1 b] by simp
  moreover have "0 \<le> \<bar>a\<bar> div b"
    using assms by (simp add: pos_imp_zdiv_nonneg_iff)
  ultimately show ?thesis
    using assms by (auto simp: signed_divide_int_def abs_mult sgn_if)
qed

subsection \<open>\<open>size_t\<close>\<close>

definition sz_sub :: "nat \<Rightarrow> nat \<Rightarrow> nat" where
  "sz_sub a b = (if b \<le> a then a - b else a + 2 ^ 32 - b)"

lemma sz_sub_le [simp]: "b \<le> a \<Longrightarrow> sz_sub a b = a - b"
  by (simp add: sz_sub_def)

subsection \<open>Blocks of memory\<close>

text \<open>
  \<open>memcpy dst k src\<close>: the bytes \<open>src\<close> copied to offset \<open>k\<close> of \<open>dst\<close>; what would be
  written past the end of \<open>dst\<close> is not part of the block and is dropped.
\<close>

definition memcpy :: "'a list \<Rightarrow> nat \<Rightarrow> 'a list \<Rightarrow> 'a list" where
  "memcpy dst k src = take (length dst) (take k dst @ src @ drop (k + length src) dst)"

lemma length_memcpy [simp]: "k \<le> length dst \<Longrightarrow> length (memcpy dst k src) = length dst"
  by (simp add: memcpy_def)

lemma memcpy_fits: "k + length src \<le> length dst \<Longrightarrow>
    memcpy dst k src = take k dst @ src @ drop (k + length src) dst"
  by (simp add: memcpy_def)

lemma memcpy_Nil [simp]: "memcpy dst k [] = dst"
  by (simp add: memcpy_def)

lemma memcpy_whole: "length src = length dst \<Longrightarrow> memcpy dst 0 src = src"
  by (simp add: memcpy_def)

lemma memcpy_append:
  assumes "length a + length b \<le> length dst"
  shows "memcpy (memcpy dst 0 a) (length a) b = memcpy dst 0 (a @ b)"
  using assms by (simp add: memcpy_fits add.commute)

lemma nth_memcpy:
  assumes "k + length src \<le> length dst" and "i < length dst"
  shows "memcpy dst k src ! i =
    (if i < k then dst ! i else if i < k + length src then src ! (i - k) else dst ! i)"
  using assms by (auto simp: memcpy_fits nth_append min_def)

subsection \<open>Byte strings\<close>

definition byte_list :: "int list \<Rightarrow> bool" where
  "byte_list s \<longleftrightarrow> list_all (\<lambda>x. 0 \<le> x \<and> x < 256) s"

lemma bytes_nth: "byte_list s \<Longrightarrow> i < length s \<Longrightarrow> 0 \<le> s ! i \<and> s ! i < 256"
  by (simp add: byte_list_def list_all_length)

lemma bytes_update: "byte_list s \<Longrightarrow> 0 \<le> x \<Longrightarrow> x < 256 \<Longrightarrow> byte_list (s[i := x])"
  by (cases "i < length s") (auto simp: byte_list_def list_all_length nth_list_update)

text \<open>Loop invariants of a fold.\<close>

lemma fold_inv: "P B \<Longrightarrow> (\<And>i B. i \<in> set is \<Longrightarrow> P B \<Longrightarrow> P (f i B)) \<Longrightarrow> P (fold f is B)"
  by (induction "is" arbitrary: B) simp_all

end
