(* ===== verification/Fifo.thy ===== *)
theory Fifo
  imports Prelude
begin

text \<open>
  Circular byte arrays and the bounded FIFO contract shared by the two ring
  buffers of the code base.  The first part is about an array \<open>D\<close> read and
  written circularly; the second part states the contract as a locale, whose
  client lemmas hold for every implementation that interprets it.
\<close>

subsection \<open>Circular arrays\<close>

definition ring_view :: "'b list \<Rightarrow> nat \<Rightarrow> nat \<Rightarrow> 'b list" where
  "ring_view D R A = map (\<lambda>i. D ! ((R + i) mod length D)) [0..<A]"

definition ring_put :: "'b list \<Rightarrow> nat \<Rightarrow> 'b list \<Rightarrow> 'b list" where
  "ring_put D W X =
    (if W + length X \<le> length D then memcpy D W X
     else memcpy (memcpy D W (take (length D - W) X)) 0 (drop (length D - W) X))"

lemma length_ring_view [simp]: "length (ring_view D R A) = A"
  by (simp add: ring_view_def)

lemma nth_ring_view [simp]: "i < A \<Longrightarrow> ring_view D R A ! i = D ! ((R + i) mod length D)"
  by (simp add: ring_view_def)

lemma ring_view_0 [simp]: "ring_view D R 0 = []"
  by (simp add: ring_view_def)

lemma ring_view_cong_mod:
  "R mod length D = R' mod length D \<Longrightarrow> ring_view D R A = ring_view D R' A"
  unfolding ring_view_def by (metis (no_types, lifting) mod_add_left_eq)

lemma take_ring_view: "take n (ring_view D R A) = ring_view D R (min n A)"
  by (rule nth_equalityI) simp_all

lemma drop_ring_view: "drop n (ring_view D R A) = ring_view D (R + n) (A - n)"
  by (rule nth_equalityI) (simp_all add: add.assoc)

lemma ring_view_regions:
  assumes "R \<le> length D" and "n \<le> length D"
  shows "ring_view D R n =
    (if R + n \<le> length D then take n (drop R D)
     else drop R D @ take (n - (length D - R)) D)"
proof (rule nth_equalityI)
  show "length (ring_view D R n) = length (if R + n \<le> length D then take n (drop R D)
     else drop R D @ take (n - (length D - R)) D)"
    using assms by auto
next
  fix i assume i: "i < length (ring_view D R n)"
  have "(R + i) mod length D = (if R + i < length D then R + i else R + i - length D)"
    using assms i by (simp add: le_mod_geq)
  with assms i show "ring_view D R n ! i = (if R + n \<le> length D then take n (drop R D)
     else drop R D @ take (n - (length D - R)) D) ! i"
    by (auto simp: nth_append add.commute)
qed

lemma length_ring_put [simp]:
  "W \<le> length D \<Longrightarrow> length (ring_put D W X) = length D"
  by (simp add: ring_put_def)

lemma ring_offset_mod:
  fixes j W N :: nat
  assumes "j < N" and "W \<le> N"
  shows "(j + N - W) mod N = (if W \<le> j then j - W else j + N - W)"
  using assms by (auto simp: mod_if)

lemma nth_ring_put:
  assumes "W \<le> length D" and "length X \<le> length D" and "j < length D"
  shows "ring_put D W X ! j =
    (if (j + length D - W) mod length D < length X
     then X ! ((j + length D - W) mod length D) else D ! j)"
proof (cases "W + length X \<le> length D")
  case True
  then show ?thesis
    using assms by (auto simp: ring_put_def nth_memcpy ring_offset_mod)
next
  case False
  have "length (drop (length D - W) X) \<le> length (memcpy D W (take (length D - W) X))"
    using assms by simp
  then show ?thesis
    using assms False
    by (auto simp: ring_put_def nth_memcpy ring_offset_mod min_def add.commute)
qed

lemma ring_view_put:
  assumes W: "W \<le> length D" and fits: "A + length X \<le> length D"
    and align: "W mod length D = (R + A) mod length D"
  shows "ring_view (ring_put D W X) R (A + length X) = ring_view D R A @ X"
proof (rule nth_equalityI)
  show "length (ring_view (ring_put D W X) R (A + length X)) = length (ring_view D R A @ X)"
    by simp
next
  fix i assume "i < length (ring_view (ring_put D W X) R (A + length X))"
  then have i: "i < A + length X" by simp
  define N where "N = length D"
  have N: "0 < N" using i fits by (auto simp: N_def)
  define j where "j = (R + i) mod N"
  have alignI: "int W mod int N = int (R + A) mod int N"
    using align by (metis N_def zmod_int)
  have jN: "j < N" using N by (simp add: j_def)
  have "int (j + N - W) = int j + int N - int W"
    using W by (simp add: N_def)
  then have "int ((j + N - W) mod N) = (int j + int N - int W) mod int N"
    by (simp add: zmod_int)
  also have "\<dots> = (int j - int W mod int N) mod int N"
    by (simp add: mod_diff_right_eq) (metis mod_add_self2 diff_add_eq)
  also have "\<dots> = (int (R + i) mod int N - int (R + A) mod int N) mod int N"
    using alignI by (simp add: j_def zmod_int)
  also have "\<dots> = (int i - int A) mod int N"
    by (simp add: mod_diff_eq)
  finally have off: "int ((j + N - W) mod N) = (int i - int A) mod int N" .
  show "ring_view (ring_put D W X) R (A + length X) ! i = (ring_view D R A @ X) ! i"
  proof (cases "i < A")
    case True
    have "(int i - int A) mod int N = (int i - int A + int N) mod int N"
      by simp
    also have "\<dots> = int i - int A + int N"
      using True fits by (intro mod_pos_pos_trivial) (auto simp: N_def)
    finally have "\<not> (j + N - W) mod N < length X"
      using off fits by (simp add: N_def)
    then show ?thesis
      using True i W fits jN by (simp add: nth_ring_put nth_append j_def N_def)
  next
    case False
    then have "(int i - int A) mod int N = int (i - A)"
      using i fits by (simp add: N_def)
    then have "(j + N - W) mod N = i - A" using off by linarith
    then show ?thesis
      using False i W fits jN by (auto simp: nth_ring_put nth_append j_def N_def)
  qed
qed

lemma shift_pos_mod:
  assumes "int a = int b + j * int n"
  shows "(a * es) mod (n * es) = (b * es) mod (n * es)"
proof -
  have "int (a * es) = int (b * es) + j * int (n * es)"
    using assms by (simp add: distrib_right)
  then have "int (a * es) mod int (n * es) = int (b * es) mod int (n * es)"
    by (simp only: mod_mult_self1)
  then show ?thesis by (metis of_nat_eq_iff zmod_int)
qed

subsection \<open>The bounded FIFO contract\<close>

text \<open>
  A client writes elements of \<open>unit s\<close> bytes and reads them back.  Operations are
  given as a list; \<open>fifo_run\<close> collects the bytes the queue accepted and the bytes
  it delivered.
\<close>

datatype 'b fifo_op = Put "'b list" nat | Get nat

fun fifo_run :: "('s \<Rightarrow> 'b list \<Rightarrow> nat \<Rightarrow> nat \<times> 's) \<Rightarrow> ('s \<Rightarrow> nat \<Rightarrow> 'b list \<times> 's) \<Rightarrow>
    ('s \<Rightarrow> nat) \<Rightarrow> 's \<Rightarrow> 'b fifo_op list \<Rightarrow> 'b list \<times> 'b list \<times> 's" where
  "fifo_run put get unit s [] = ([], [], s)"
| "fifo_run put get unit s (Put xs n # ops) =
     (let (m, s') = put s xs n;
          (acc, del, s'') = fifo_run put get unit s' ops
      in (take (m * unit s) xs @ acc, del, s''))"
| "fifo_run put get unit s (Get n # ops) =
     (let (ys, s') = get s n;
          (acc, del, s'') = fifo_run put get unit s' ops
      in (acc, ys @ del, s''))"

fun op_ok :: "nat \<Rightarrow> 'b fifo_op \<Rightarrow> bool" where
  "op_ok es (Put xs n) \<longleftrightarrow> n * es \<le> length xs"
| "op_ok es (Get n) \<longleftrightarrow> True"

locale fifo =
  fixes inv :: "'s \<Rightarrow> bool"
    and contents :: "'s \<Rightarrow> 'b list"
    and unit :: "'s \<Rightarrow> nat"
    and put :: "'s \<Rightarrow> 'b list \<Rightarrow> nat \<Rightarrow> nat \<times> 's"
    and get :: "'s \<Rightarrow> nat \<Rightarrow> 'b list \<times> 's"
  assumes put_inv: "inv s \<Longrightarrow> n * unit s \<le> length xs \<Longrightarrow> inv (snd (put s xs n))"
    and put_unit: "inv s \<Longrightarrow> n * unit s \<le> length xs \<Longrightarrow> unit (snd (put s xs n)) = unit s"
    and put_contents: "inv s \<Longrightarrow> n * unit s \<le> length xs \<Longrightarrow>
      contents (snd (put s xs n)) = contents s @ take (fst (put s xs n) * unit s) xs"
    and get_inv: "inv s \<Longrightarrow> inv (snd (get s n))"
    and get_unit: "inv s \<Longrightarrow> unit (snd (get s n)) = unit s"
    and get_bytes: "inv s \<Longrightarrow> fst (get s n) = take (n * unit s) (contents s)"
    and get_contents: "inv s \<Longrightarrow> contents (snd (get s n)) = drop (n * unit s) (contents s)"
begin

lemma run_order:
  assumes "inv s" and "list_all (op_ok (unit s)) ops"
    and "fifo_run put get unit s ops = (acc, del, s')"
  shows "contents s @ acc = del @ contents s' \<and> inv s' \<and> unit s' = unit s"
  using assms
proof (induction ops arbitrary: s acc del)
  case Nil
  then show ?case by simp
next
  case (Cons op ops)
  show ?case
  proof (cases op)
    case (Put xs n)
    have ok: "n * unit s \<le> length xs" using Cons.prems Put by simp
    obtain m s1 where p: "put s xs n = (m, s1)" by fastforce
    obtain acc' where run: "fifo_run put get unit s1 ops = (acc', del, s')"
      and acc: "acc = take (m * unit s) xs @ acc'"
      using Cons.prems(3) Put p by (auto split: prod.splits)
    have s1: "inv s1" "unit s1 = unit s" "contents s1 = contents s @ take (m * unit s) xs"
      using put_inv [OF Cons.prems(1) ok] put_unit [OF Cons.prems(1) ok]
        put_contents [OF Cons.prems(1) ok] p by simp_all
    with Cons.IH [OF s1(1) _ run] Cons.prems(2) acc show ?thesis by simp
  next
    case (Get n)
    obtain ys s1 where g: "get s n = (ys, s1)" by fastforce
    obtain del' where run: "fifo_run put get unit s1 ops = (acc, del', s')"
      and del: "del = ys @ del'"
      using Cons.prems(3) Get g by (auto split: prod.splits)
    have s1: "inv s1" "unit s1 = unit s" "contents s = ys @ contents s1"
      using get_inv [OF Cons.prems(1), of n] get_unit [OF Cons.prems(1), of n]
        get_bytes [OF Cons.prems(1), of n] get_contents [OF Cons.prems(1), of n] g by simp_all
    with Cons.IH [OF s1(1) _ run] Cons.prems(2) del show ?thesis by simp
  qed
qed

end

text \<open>A bounded queue also says how much it accepts: as much as there is room for.\<close>

locale bounded_fifo = fifo inv contents unit put get
  for inv :: "'s \<Rightarrow> bool" and contents :: "'s \<Rightarrow> 'b list" and unit :: "'s \<Rightarrow> nat"
    and put :: "'s \<Rightarrow> 'b list \<Rightarrow> nat \<Rightarrow> nat \<times> 's" and get :: "'s \<Rightarrow> nat \<Rightarrow> 'b list \<times> 's" +
  fixes capacity :: "'s \<Rightarrow> nat"
  assumes put_count: "inv s \<Longrightarrow> n * unit s \<le> length xs \<Longrightarrow>
      fst (put s xs n) = min n (capacity s - length (contents s) div unit s)"
    and unit_pos: "inv s \<Longrightarrow> 0 < unit s"
    and fill: "inv s \<Longrightarrow> length (contents s) \<le> capacity s * unit s"
begin

lemma put_all_when_room:
  assumes "inv s" and "n * unit s \<le> length xs"
    and "length (contents s) + n * unit s \<le> capacity s * unit s"
  shows "fst (put s xs n) = n"
proof -
  have "length (contents s) div unit s + n = (length (contents s) + n * unit s) div unit s"
    using unit_pos [OF assms(1)] by simp
  also have "\<dots> \<le> capacity s"
    using div_le_mono [OF assms(3), of "unit s"] unit_pos [OF assms(1)] by simp
  finally show ?thesis
    using put_count [OF assms(1,2)] by simp
qed

lemma put_then_get:
  assumes "inv s" and "n * unit s \<le> length xs" and "contents s = []" and "n \<le> capacity s"
  shows "fst (get (snd (put s xs n)) n) = take (n * unit s) xs"
proof -
  have "fst (put s xs n) = n"
    using put_all_when_room [OF assms(1,2)] assms(3,4) by simp
  then have "contents (snd (put s xs n)) = take (n * unit s) xs"
    using put_contents [OF assms(1,2)] assms(3) by simp
  then show ?thesis
    using get_bytes [OF put_inv [OF assms(1,2)], of n] put_unit [OF assms(1,2)]
    by simp
qed

end

end
