(* ===== verification/RingBuffer.thy ===== *)
theory RingBuffer
  imports Prelude Fifo
begin

text \<open>
  The byte ring buffer of \<^verbatim>\<open>webrtc/modules/audio_processing/utility/ring_buffer.c\<close>:
  the struct, every function of the file, the invariant of the read and write
  positions, and the refinement to a bounded FIFO queue of bytes (theory \<open>Fifo\<close>).
\<close>

type_synonym byte = "8 word"

datatype Wrap = SAME_WRAP | DIFF_WRAP

record RingBuffer =
  read_pos :: nat
  write_pos :: nat
  element_count :: nat
  element_size :: nat
  rw_wrap :: Wrap
  data :: "byte list"

subsection \<open>Operations\<close>

definition WebRtc_available_read :: "RingBuffer option \<Rightarrow> nat" where
  "WebRtc_available_read self = (case self of
     None \<Rightarrow> 0
   | Some rb \<Rightarrow>
      (if rw_wrap rb = SAME_WRAP then sz_sub (write_pos rb) (read_pos rb)
       else sz_sub (element_count rb) (read_pos rb) + write_pos rb))"

definition WebRtc_available_write :: "RingBuffer option \<Rightarrow> nat" where
  "WebRtc_available_write self = (case self of
     None \<Rightarrow> 0
   | Some rb \<Rightarrow> sz_sub (element_count rb) (WebRtc_available_read self))"

text \<open>
  The two regions \<open>GetBufferReadRegions\<close> hands out, as byte offsets into \<open>data\<close>;
  the second pointer is \<open>None\<close> where the C code stores \<open>NULL\<close>.
\<close>

record read_regions =
  read_elements :: nat
  data_ptr_1 :: nat
  data_ptr_bytes_1 :: nat
  data_ptr_2 :: "nat option"
  data_ptr_bytes_2 :: nat

definition GetBufferReadRegions :: "RingBuffer \<Rightarrow> nat \<Rightarrow> read_regions" where
  "GetBufferReadRegions buf count =
    (let readable_elements = WebRtc_available_read (Some buf);
         n = (if readable_elements < count then readable_elements else count);
         margin = sz_sub (element_count buf) (read_pos buf)
     in if n > margin
        then \<lparr>read_elements = n,
              data_ptr_1 = read_pos buf * element_size buf,
              data_ptr_bytes_1 = margin * element_size buf,
              data_ptr_2 = Some 0,
              data_ptr_bytes_2 = (n - margin) * element_size buf\<rparr>
        else \<lparr>read_elements = n,
              data_ptr_1 = read_pos buf * element_size buf,
              data_ptr_bytes_1 = n * element_size buf,
              data_ptr_2 = None,
              data_ptr_bytes_2 = 0\<rparr>)"

text \<open>
  \<open>malloc\<close> is a parameter: for the struct it gives an uninitialised record (or
  \<open>NULL\<close>), for the data a block for the requested number of bytes, a \<open>size_t\<close>,
  so the product wraps.
\<close>

definition WebRtc_CreateBuffer ::
  "RingBuffer option \<Rightarrow> (nat \<Rightarrow> byte list option) \<Rightarrow> nat \<Rightarrow> nat \<Rightarrow> RingBuffer option" where
  "WebRtc_CreateBuffer malloc_self malloc_data count sz =
    (if count = 0 \<or> sz = 0 then None
     else case malloc_self of
       None \<Rightarrow> None
     | Some self \<Rightarrow>
        (case malloc_data ((count * sz) mod 2 ^ 32) of
           None \<Rightarrow> None
         | Some block \<Rightarrow>
             Some (self\<lparr>data := block, element_count := count, element_size := sz\<rparr>)))"

definition WebRtc_InitBuffer :: "RingBuffer option \<Rightarrow> int \<times> RingBuffer option" where
  "WebRtc_InitBuffer self = (case self of
     None \<Rightarrow> (-1, None)
   | Some rb \<Rightarrow>
      (0, Some (rb\<lparr>read_pos := 0, write_pos := 0, rw_wrap := SAME_WRAP,
                   data := memcpy (data rb) 0
                             (replicate ((element_count rb * element_size rb) mod 2 ^ 32) 0)\<rparr>)))"

definition WebRtc_MoveReadPtr :: "RingBuffer option \<Rightarrow> int \<Rightarrow> int \<times> RingBuffer option" where
  "WebRtc_MoveReadPtr self count = (case self of
     None \<Rightarrow> (0, None)
   | Some rb \<Rightarrow>
      (let free_elements = s32 (int (WebRtc_available_write self));
           readable_elements = s32 (int (WebRtc_available_read self));
           pos0 = s32 (int (read_pos rb));
           c1 = (if count > readable_elements then readable_elements else count);
           c2 = (if c1 < - free_elements then - free_elements else c1);
           pos1 = s32 (pos0 + c2);
           (pos2, wrap2) =
             (if pos1 > s32 (int (element_count rb))
              then (s32 (pos1 - s32 (int (element_count rb))), SAME_WRAP)
              else (pos1, rw_wrap rb));
           (pos3, wrap3) =
             (if pos2 < 0 then (s32 (pos2 + s32 (int (element_count rb))), DIFF_WRAP)
              else (pos2, wrap2))
       in (c2, Some (rb\<lparr>read_pos := nat (u32 pos3), rw_wrap := wrap3\<rparr>))))"

text \<open>
  \<open>WebRtc_ReadBuffer\<close> either points into the ring buffer's own memory or copies
  into the caller's \<open>data\<close>.  The model takes the caller's block (\<open>None\<close> for
  \<open>NULL\<close>) and whether \<open>data_ptr\<close> is non-null, and returns the count, the caller's
  block afterwards, what \<open>*data_ptr\<close> is set to, and the new state.
\<close>

datatype read_ptr = InRing nat | InData

definition WebRtc_ReadBuffer ::
  "RingBuffer option \<Rightarrow> bool \<Rightarrow> byte list option \<Rightarrow> nat \<Rightarrow>
     nat \<times> byte list option \<times> read_ptr option \<times> RingBuffer option" where
  "WebRtc_ReadBuffer self want_ptr dst count = (case self of
     None \<Rightarrow> (0, dst, None, None)
   | Some rb \<Rightarrow> (case dst of
       None \<Rightarrow> (0, None, None, Some rb)
     | Some out \<Rightarrow>
        (let r = GetBufferReadRegions rb count;
             block1 = take (data_ptr_bytes_1 r) (drop (data_ptr_1 r) (data rb));
             block2 = take (data_ptr_bytes_2 r) (data rb);
             (out', ptr) =
               (if data_ptr_bytes_2 r > 0
                then (memcpy (memcpy out 0 block1) (data_ptr_bytes_1 r) block2, InData)
                else if \<not> want_ptr then (memcpy out 0 block1, InRing (data_ptr_1 r))
                else (out, InRing (data_ptr_1 r)));
             self' = snd (WebRtc_MoveReadPtr self (s32 (int (read_elements r))))
         in (read_elements r, Some out', if want_ptr then Some ptr else None, self'))))"

definition WebRtc_WriteBuffer ::
  "RingBuffer option \<Rightarrow> byte list option \<Rightarrow> nat \<Rightarrow> nat \<times> RingBuffer option" where
  "WebRtc_WriteBuffer self src count = (case self of
     None \<Rightarrow> (0, None)
   | Some rb \<Rightarrow> (case src of
       None \<Rightarrow> (0, Some rb)
     | Some bytes \<Rightarrow>
        (let es = element_size rb;
             free_elements = WebRtc_available_write self;
             write_elements = (if free_elements < count then free_elements else count);
             margin = sz_sub (element_count rb) (write_pos rb);
             (n, rb1) =
               (if write_elements > margin
                then (write_elements - margin,
                      rb\<lparr>data := memcpy (data rb) (write_pos rb * es) (take (margin * es) bytes),
                         write_pos := 0, rw_wrap := DIFF_WRAP\<rparr>)
                else (write_elements, rb));
             rb2 = rb1\<lparr>data := memcpy (data rb1) (write_pos rb1 * es)
                                (take (n * es) (drop ((write_elements - n) * es) bytes)),
                       write_pos := write_pos rb1 + n\<rparr>
         in (write_elements, Some rb2))))"

subsection \<open>Invariant and abstraction\<close>

definition rb_inv :: "RingBuffer \<Rightarrow> bool" where
  "rb_inv rb \<longleftrightarrow> 0 < element_count rb \<and> 0 < element_size rb \<and> element_count rb < 2 ^ 30
     \<and> length (data rb) = element_count rb * element_size rb
     \<and> read_pos rb \<le> element_count rb \<and> write_pos rb \<le> element_count rb
     \<and> (if rw_wrap rb = SAME_WRAP then read_pos rb \<le> write_pos rb
        else write_pos rb \<le> read_pos rb)"

definition rb_avail :: "RingBuffer \<Rightarrow> nat" where
  "rb_avail rb = WebRtc_available_read (Some rb)"

definition rb_contents :: "RingBuffer \<Rightarrow> byte list" where
  "rb_contents rb = ring_view (data rb) (read_pos rb * element_size rb) (rb_avail rb * element_size rb)"

lemmas rb_unfold = rb_inv_def rb_avail_def WebRtc_available_read_def WebRtc_available_write_def

lemma rb_avail_eq: "rb_inv rb \<Longrightarrow> rb_avail rb =
    (if rw_wrap rb = SAME_WRAP then write_pos rb - read_pos rb
     else element_count rb - read_pos rb + write_pos rb)"
  by (auto simp: rb_unfold)

lemma rb_avail_le: "rb_inv rb \<Longrightarrow> rb_avail rb \<le> element_count rb"
  by (auto simp: rb_avail_eq rb_inv_def)

lemma available_write_eq: "rb_inv rb \<Longrightarrow>
    WebRtc_available_write (Some rb) = element_count rb - rb_avail rb"
  using rb_avail_le [of rb] by (simp add: WebRtc_available_write_def rb_avail_def)

lemma wrap_pos_mod:
  fixes r w a n es :: nat
  assumes "w = r + a \<or> w + n = r + a"
  shows "(w * es) mod (n * es) = (r * es + a * es) mod (n * es)"
proof -
  from assms consider "w = r + a" | "w + n = r + a" by blast
  then show ?thesis
  proof cases
    case 1
    then show ?thesis by (simp add: distrib_right)
  next
    case 2
    have "r * es + a * es = w * es + n * es"
      using 2 by (metis distrib_right)
    then show ?thesis by simp
  qed
qed

lemma write_pos_aligned:
  assumes "rb_inv rb"
  shows "(write_pos rb * element_size rb) mod length (data rb) =
    (read_pos rb * element_size rb + rb_avail rb * element_size rb) mod length (data rb)"
proof -
  have "write_pos rb = read_pos rb + rb_avail rb \<or>
      write_pos rb + element_count rb = read_pos rb + rb_avail rb"
    using assms by (auto simp: rb_avail_eq rb_inv_def)
  then show ?thesis
    using assms wrap_pos_mod by (simp add: rb_inv_def)
qed

subsection \<open>Writing\<close>

definition rb_put :: "RingBuffer \<Rightarrow> byte list \<Rightarrow> nat \<Rightarrow> nat \<times> RingBuffer" where
  "rb_put rb xs n = (case WebRtc_WriteBuffer (Some rb) (Some xs) n of (m, s) \<Rightarrow> (m, the s))"

lemma write_data:
  assumes inv: "rb_inv rb" and len: "n * element_size rb \<le> length xs"
    and res: "rb_put rb xs n = (m, rb')"
  shows "m = min (element_count rb - rb_avail rb) n"
    and "data rb' = ring_put (data rb) (write_pos rb * element_size rb)
           (take (m * element_size rb) xs)"
    and "read_pos rb' = read_pos rb" and "element_size rb' = element_size rb"
    and "element_count rb' = element_count rb"
    and "write_pos rb' = (if m > element_count rb - write_pos rb
           then m - (element_count rb - write_pos rb) else write_pos rb + m)"
    and "rw_wrap rb' = (if m > element_count rb - write_pos rb then DIFF_WRAP else rw_wrap rb)"
proof -
  define es where "es = element_size rb"
  define f where "f = element_count rb - rb_avail rb"
  define g where "g = element_count rb - write_pos rb"
  have es: "0 < es" and w: "write_pos rb \<le> element_count rb"
    and ld: "length (data rb) = element_count rb * es"
    using inv by (auto simp: rb_inv_def es_def)
  have m: "m = min f n"
    using res inv by (auto simp: rb_put_def WebRtc_WriteBuffer_def available_write_eq f_def Let_def
        split: if_splits)
  have short: "m * es \<le> length xs"
    using m len by (intro order_trans [OF mult_le_mono1 [of m n es]]) (simp_all add: es_def)
  have ldw: "length (data rb) - write_pos rb * es = g * es"
    by (simp add: ld g_def diff_mult_distrib)
  have split: "(write_pos rb * es + length (take (m * es) xs) \<le> length (data rb)) = (m \<le> g)"
    using short w es by (simp add: ld g_def flip: add_mult_distrib) (simp add: le_diff_conv2 add.commute)
  have gm: "g \<le> m \<Longrightarrow> g * es \<le> m * es" by simp
  show "m = min (element_count rb - rb_avail rb) n" using m by (simp add: f_def)
  show "data rb' = ring_put (data rb) (write_pos rb * element_size rb)
           (take (m * element_size rb) xs)"
    using res inv m w split ldw gm
    by (auto simp: rb_put_def WebRtc_WriteBuffer_def available_write_eq Let_def ring_put_def
        es_def [symmetric] f_def [symmetric] g_def [symmetric] min_def drop_take diff_mult_distrib
        split: if_splits)
  show "read_pos rb' = read_pos rb" "element_size rb' = element_size rb"
    "element_count rb' = element_count rb"
    using res by (auto simp: rb_put_def WebRtc_WriteBuffer_def Let_def split: if_splits)
  show "write_pos rb' = (if m > element_count rb - write_pos rb
           then m - (element_count rb - write_pos rb) else write_pos rb + m)"
    "rw_wrap rb' = (if m > element_count rb - write_pos rb then DIFF_WRAP else rw_wrap rb)"
    using res w by (auto simp: rb_put_def WebRtc_WriteBuffer_def Let_def split: if_splits)
qed

lemma write_inv:
  assumes inv: "rb_inv rb" and len: "n * element_size rb \<le> length xs"
    and res: "rb_put rb xs n = (m, rb')"
  shows "rb_inv rb'" and "rb_avail rb' = rb_avail rb + m"
proof -
  note wd = write_data [OF assms]
  have "write_pos rb * element_size rb \<le> length (data rb)"
    using inv by (simp add: rb_inv_def)
  then have ld: "length (data rb') = length (data rb)" using wd(2) by simp
  have m: "m \<le> element_count rb - rb_avail rb" using wd(1) by simp
  show inv': "rb_inv rb'"
    using inv m wd(3-7) ld by (auto simp: rb_inv_def rb_avail_eq [OF inv] split: if_splits)
  show "rb_avail rb' = rb_avail rb + m"
    using inv m wd(3-7)
    by (auto simp: rb_inv_def rb_avail_eq [OF inv] rb_avail_eq [OF inv'] split: if_splits)
qed

lemma write_contents:
  assumes inv: "rb_inv rb" and len: "n * element_size rb \<le> length xs"
    and res: "rb_put rb xs n = (m, rb')"
  shows "rb_contents rb' = rb_contents rb @ take (m * element_size rb) xs"
proof -
  note wd = write_data [OF assms] and wi = write_inv [OF assms]
  define X where "X = take (m * element_size rb) xs"
  have mn: "m \<le> n" and mf: "rb_avail rb + m \<le> element_count rb"
    using wd(1) rb_avail_le [OF inv] by simp_all
  have lX: "length X = m * element_size rb"
    using order_trans [OF mult_le_mono1 [OF mn] len] by (simp add: X_def min_def)
  have "rb_avail rb * element_size rb + length X \<le> length (data rb)"
    using mult_le_mono1 [OF mf, of "element_size rb"] inv
    by (simp add: lX rb_inv_def add_mult_distrib)
  moreover have "write_pos rb * element_size rb \<le> length (data rb)"
    using inv by (simp add: rb_inv_def)
  ultimately have "ring_view (ring_put (data rb) (write_pos rb * element_size rb) X)
      (read_pos rb * element_size rb) (rb_avail rb * element_size rb + length X) = rb_contents rb @ X"
    unfolding rb_contents_def by (intro ring_view_put write_pos_aligned inv)
  then show ?thesis
    using wd wi lX by (simp add: rb_contents_def X_def add_mult_distrib)
qed

subsection \<open>Moving the read position\<close>

definition move_clamp :: "RingBuffer \<Rightarrow> int \<Rightarrow> int" where
  "move_clamp rb k = max (- int (element_count rb - rb_avail rb)) (min k (int (rb_avail rb)))"

lemma s32_nat [simp]: "x < 2 ^ 31 \<Longrightarrow> s32 (int x) = int x"
  by (rule s32_id) simp_all

definition move_result :: "RingBuffer \<Rightarrow> int \<Rightarrow> RingBuffer" where
  "move_result rb p =
    (if p > int (element_count rb)
     then rb\<lparr>read_pos := nat (p - int (element_count rb)), rw_wrap := SAME_WRAP\<rparr>
     else if p < 0 then rb\<lparr>read_pos := nat (p + int (element_count rb)), rw_wrap := DIFF_WRAP\<rparr>
     else rb\<lparr>read_pos := nat p\<rparr>)"

lemma move_clamp_bounds:
  assumes "rb_inv rb"
  shows "- int (element_count rb - rb_avail rb) \<le> move_clamp rb k"
    and "move_clamp rb k \<le> int (rb_avail rb)"
  by (auto simp: move_clamp_def)

lemma move_eq:
  assumes inv: "rb_inv rb"
  shows "WebRtc_MoveReadPtr (Some rb) k =
    (move_clamp rb k, Some (move_result rb (int (read_pos rb) + move_clamp rb k)))"
proof -
  have ec: "element_count rb < 2 ^ 30" and r: "read_pos rb \<le> element_count rb"
    and a: "rb_avail rb \<le> element_count rb"
    using inv rb_avail_le [OF inv] by (auto simp: rb_inv_def)
  define c where "c = move_clamp rb k"
  define p where "p = int (read_pos rb) + c"
  define e where "e = int (element_count rb)"
  have c: "c = (if (if k > int (rb_avail rb) then int (rb_avail rb) else k)
          < - int (element_count rb - rb_avail rb)
        then - int (element_count rb - rb_avail rb)
        else (if k > int (rb_avail rb) then int (rb_avail rb) else k))"
    by (auto simp: c_def move_clamp_def max_def min_def)
  have pb: "- e \<le> p" "p \<le> 2 * e" "0 \<le> e" "e < 2 ^ 30"
    using r a ec move_clamp_bounds [OF inv, of k] by (auto simp: p_def c_def e_def)
  have conv: "s32 p = p" "s32 (p - e) = p - e" "p < 0 \<Longrightarrow> s32 (p + e) = p + e"
    using pb by (auto intro!: s32_id)
  have un: "u32 x = x" if "0 \<le> x" "x \<le> 2 * e" for x
    using that pb by (auto intro!: u32_id)
  have av: "WebRtc_available_read (Some rb) = rb_avail rb" by (simp add: rb_avail_def)
  have small: "s32 (int (element_count rb - rb_avail rb)) = int (element_count rb - rb_avail rb)"
    "s32 (int (rb_avail rb)) = int (rb_avail rb)" "s32 (int (read_pos rb)) = int (read_pos rb)"
    "s32 (int (element_count rb)) = e"
    using ec r a by (auto simp: e_def intro!: s32_id)
  have unf: "WebRtc_MoveReadPtr (Some rb) k = (c, Some (
      let pos1 = s32 p;
          (pos2, wrap2) = (if pos1 > e then (s32 (pos1 - e), SAME_WRAP) else (pos1, rw_wrap rb));
          (pos3, wrap3) = (if pos2 < 0 then (s32 (pos2 + e), DIFF_WRAP) else (pos2, wrap2))
      in rb\<lparr>read_pos := nat (u32 pos3), rw_wrap := wrap3\<rparr>))"
    unfolding WebRtc_MoveReadPtr_def available_write_eq [OF inv] av option.case small p_def c
    by (simp only: Let_def split: prod.split) simp
  show ?thesis
    unfolding unf c_def [symmetric] p_def [symmetric] move_result_def e_def [symmetric]
    using pb conv un by (auto simp: Let_def)
qed

lemma move_inv:
  assumes inv: "rb_inv rb" and rb': "rb' = move_result rb (int (read_pos rb) + move_clamp rb k)"
  shows "rb_inv rb'" and "int (rb_avail rb') = int (rb_avail rb) - move_clamp rb k"
    and "data rb' = data rb" and "element_size rb' = element_size rb"
    and "element_count rb' = element_count rb"
proof -
  note mb = move_clamp_bounds [OF inv, of k]
  show inv': "rb_inv rb'"
    using inv mb unfolding rb' by (auto simp: move_result_def rb_inv_def rb_avail_eq [OF inv])
  show "int (rb_avail rb') = int (rb_avail rb) - move_clamp rb k"
    using inv mb unfolding rb_avail_eq [OF inv'] unfolding rb'
    by (auto simp: move_result_def rb_inv_def rb_avail_eq [OF inv] split: if_splits)
  show "data rb' = data rb" "element_size rb' = element_size rb"
    "element_count rb' = element_count rb"
    by (simp_all add: rb' move_result_def)
qed

lemma move_result_pos:
  assumes "rb_inv rb" and "rb' = move_result rb (int (read_pos rb) + move_clamp rb k)"
  shows "\<exists>j. int (read_pos rb') = int (read_pos rb) + move_clamp rb k + j * int (element_count rb)"
proof -
  define p where "p = int (read_pos rb) + move_clamp rb k"
  have "- int (element_count rb) \<le> p"
    using move_clamp_bounds [OF assms(1), of k] by (simp add: p_def)
  then have "int (read_pos rb') = p + (if p > int (element_count rb) then -1 else if p < 0 then 1 else 0)
      * int (element_count rb)"
    by (simp add: assms(2) move_result_def flip: p_def)
  then show ?thesis unfolding p_def by blast
qed

lemma move_forward_contents:
  assumes inv: "rb_inv rb" and n: "n \<le> rb_avail rb"
    and res: "WebRtc_MoveReadPtr (Some rb) (int n) = (c, Some rb')"
  shows "c = int n" and "rb_contents rb' = drop (n * element_size rb) (rb_contents rb)"
proof -
  have cl: "move_clamp rb (int n) = int n" using n by (simp add: move_clamp_def)
  have rb': "rb' = move_result rb (int (read_pos rb) + move_clamp rb (int n))"
    and c: "c = int n"
    using res cl by (auto simp: move_eq [OF inv])
  note mi = move_inv [OF inv rb']
  define es where "es = element_size rb"
  have av: "rb_avail rb' = rb_avail rb - n" using mi(2) cl n by simp
  have "read_pos rb' = read_pos rb + n \<or> read_pos rb' + element_count rb = read_pos rb + n"
    unfolding rb' cl by (auto simp: move_result_def nat_add_distrib)
  then have "(read_pos rb' * es) mod length (data rb) = (read_pos rb * es + n * es) mod length (data rb)"
    using wrap_pos_mod [of "read_pos rb'" "read_pos rb" n "element_count rb" es] inv
    by (simp add: rb_inv_def es_def)
  then have "ring_view (data rb) (read_pos rb' * es) (rb_avail rb' * es) =
      ring_view (data rb) (read_pos rb * es + n * es) (rb_avail rb' * es)"
    by (rule ring_view_cong_mod)
  then show "rb_contents rb' = drop (n * element_size rb) (rb_contents rb)"
    using mi av by (simp add: rb_contents_def drop_ring_view es_def diff_mult_distrib)
  show "c = int n" by (fact c)
qed

subsection \<open>Reading\<close>

text \<open>The bytes a reader finds at the place \<open>*data_ptr\<close> designates.\<close>

fun deref :: "RingBuffer \<Rightarrow> byte list \<Rightarrow> read_ptr \<Rightarrow> nat \<Rightarrow> byte list" where
  "deref rb out (InRing k) n = take n (drop k (data rb))"
| "deref rb out InData n = take n out"

lemma regions_view:
  assumes inv: "rb_inv rb" and r_def: "r = GetBufferReadRegions rb n"
  shows "read_elements r = min (rb_avail rb) n"
    and "take (data_ptr_bytes_1 r) (drop (data_ptr_1 r) (data rb)) @ take (data_ptr_bytes_2 r) (data rb) =
         take (n * element_size rb) (rb_contents rb)"
    and "data_ptr_bytes_1 r + data_ptr_bytes_2 r = read_elements r * element_size rb"
    and "data_ptr_1 r + data_ptr_bytes_1 r \<le> length (data rb)"
    and "data_ptr_bytes_2 r \<le> length (data rb)"
proof -
  define es where "es = element_size rb"
  define m where "m = min (rb_avail rb) n"
  define g where "g = element_count rb - read_pos rb"
  have es: "0 < es" and rp: "read_pos rb \<le> element_count rb" and ld: "length (data rb) = element_count rb * es"
    using inv by (auto simp: rb_inv_def es_def)
  have m: "m \<le> element_count rb" using rb_avail_le [OF inv] by (simp add: m_def)
  have r: "r = (if m > g then \<lparr>read_elements = m, data_ptr_1 = read_pos rb * es, data_ptr_bytes_1 = g * es,
              data_ptr_2 = Some 0, data_ptr_bytes_2 = (m - g) * es\<rparr>
        else \<lparr>read_elements = m, data_ptr_1 = read_pos rb * es, data_ptr_bytes_1 = m * es,
              data_ptr_2 = None, data_ptr_bytes_2 = 0\<rparr>)"
    using rp by (auto simp: r_def GetBufferReadRegions_def Let_def m_def g_def es_def rb_avail_def min_def)
  have tk: "take (n * es) (rb_contents rb) = ring_view (data rb) (read_pos rb * es) (m * es)"
    by (simp add: rb_contents_def take_ring_view m_def es_def nat_mult_min_left min.commute)
  have sp: "(read_pos rb * es + m * es \<le> length (data rb)) = (m \<le> g)"
    using es rp by (simp add: ld g_def flip: add_mult_distrib) (simp add: le_diff_conv2 add.commute)
  have g: "length (data rb) - read_pos rb * es = g * es"
    by (simp add: ld g_def diff_mult_distrib)
  show "take (data_ptr_bytes_1 r) (drop (data_ptr_1 r) (data rb)) @ take (data_ptr_bytes_2 r) (data rb) =
         take (n * element_size rb) (rb_contents rb)"
    unfolding es_def [symmetric] tk
    using ring_view_regions [of "read_pos rb * es" "data rb" "m * es"] sp g rp m
    by (auto simp: r ld diff_mult_distrib)
  show "read_elements r = min (rb_avail rb) n" by (simp add: r m_def)
  show "data_ptr_bytes_1 r + data_ptr_bytes_2 r = read_elements r * element_size rb"
    by (auto simp: r es_def simp flip: add_mult_distrib)
  have "read_pos rb * es + g * es = length (data rb)"
    using rp by (simp add: ld g_def flip: add_mult_distrib)
  then show "data_ptr_1 r + data_ptr_bytes_1 r \<le> length (data rb)"
    using sp by (auto simp: r)
  show "data_ptr_bytes_2 r \<le> length (data rb)"
    using m by (auto simp: r ld intro!: mult_le_mono1)
qed

lemma read_moves:
  assumes inv: "rb_inv rb"
    and res: "WebRtc_ReadBuffer (Some rb) want (Some out) n = (m, out', ptr, s')"
  shows "m = min (rb_avail rb) n"
    and "\<exists>rb'. s' = Some rb' \<and> WebRtc_MoveReadPtr (Some rb) (int m) = (int m, Some rb')
           \<and> rb_inv rb' \<and> element_size rb' = element_size rb \<and> data rb' = data rb
           \<and> element_count rb' = element_count rb
           \<and> rb_contents rb' = drop (n * element_size rb) (rb_contents rb)"
proof -
  note reg = regions_view [OF inv refl, of n]
  show m: "m = min (rb_avail rb) n"
    using res reg(1) by (auto simp: WebRtc_ReadBuffer_def Let_def split: prod.splits)
  then have "m < 2 ^ 31" using rb_avail_le [OF inv] inv by (auto simp: rb_inv_def)
  then have s': "s' = snd (WebRtc_MoveReadPtr (Some rb) (int m))"
    using res reg(1) m by (auto simp: WebRtc_ReadBuffer_def Let_def split: prod.splits)
  obtain c rb' where mv: "WebRtc_MoveReadPtr (Some rb) (int m) = (c, Some rb')"
    by (simp add: move_eq [OF inv])
  have ma: "m \<le> rb_avail rb" using m by simp
  note fwd = move_forward_contents [OF inv ma mv]
  have rb': "rb' = move_result rb (int (read_pos rb) + move_clamp rb (int m))"
    using mv by (auto simp: move_eq [OF inv])
  have "drop (m * element_size rb) (rb_contents rb) = drop (n * element_size rb) (rb_contents rb)"
    using m by (auto simp: min_def rb_contents_def drop_ring_view simp flip: diff_mult_distrib split: if_splits)
  then show "\<exists>rb'. s' = Some rb' \<and> WebRtc_MoveReadPtr (Some rb) (int m) = (int m, Some rb')
           \<and> rb_inv rb' \<and> element_size rb' = element_size rb \<and> data rb' = data rb
           \<and> element_count rb' = element_count rb
           \<and> rb_contents rb' = drop (n * element_size rb) (rb_contents rb)"
    using s' mv fwd move_inv [OF inv rb'] by simp
qed

lemma read_copies:
  assumes inv: "rb_inv rb" and room: "n * element_size rb \<le> length out"
    and res: "WebRtc_ReadBuffer (Some rb) want (Some out) n = (m, Some out', ptr, s')"
    and copied: "\<not> want \<or> ptr = Some InData"
  shows "take (m * element_size rb) out' = take (n * element_size rb) (rb_contents rb)"
proof -
  note reg = regions_view [OF inv refl, of n]
  define r where "r = GetBufferReadRegions rb n"
  define b1 where "b1 = take (data_ptr_bytes_1 r) (drop (data_ptr_1 r) (data rb))"
  define b2 where "b2 = take (data_ptr_bytes_2 r) (data rb)"
  have lens: "length b1 = data_ptr_bytes_1 r" "length b2 = data_ptr_bytes_2 r"
    using reg(4,5) by (auto simp: b1_def b2_def r_def)
  have m: "m = read_elements r"
    using res by (auto simp: WebRtc_ReadBuffer_def Let_def r_def split: prod.splits)
  then have tot: "length b1 + length b2 = m * element_size rb" using reg(3) lens by (simp add: r_def)
  have "m * element_size rb \<le> n * element_size rb"
    using m reg(1) by (intro mult_le_mono1) (simp add: r_def)
  with room tot have fit: "length b1 + length b2 \<le> length out" by (metis order_trans)
  have "out' = (if data_ptr_bytes_2 r > 0 then memcpy (memcpy out 0 b1) (length b1) b2 else memcpy out 0 b1)"
    using res copied lens
    by (auto simp: WebRtc_ReadBuffer_def Let_def r_def [symmetric] b1_def [symmetric] b2_def [symmetric]
        split: prod.splits if_splits)
  then have "take (length b1 + length b2) out' = b1 @ b2"
    using fit lens by (auto simp: memcpy_fits)
  then show ?thesis
    using reg(2) tot by (simp add: b1_def b2_def r_def)
qed

definition rb_get :: "RingBuffer \<Rightarrow> nat \<Rightarrow> byte list \<times> RingBuffer" where
  "rb_get rb n =
    (case WebRtc_ReadBuffer (Some rb) False (Some (replicate (n * element_size rb) 0)) n of
       (m, out, ptr, s) \<Rightarrow> (take (m * element_size rb) (the out), the s))"

lemma rb_get_spec:
  assumes inv: "rb_inv rb"
  shows "fst (rb_get rb n) = take (n * element_size rb) (rb_contents rb)"
    and "rb_contents (snd (rb_get rb n)) = drop (n * element_size rb) (rb_contents rb)"
    and "rb_inv (snd (rb_get rb n))" and "element_size (snd (rb_get rb n)) = element_size rb"
proof -
  obtain m out ptr s' where res: "WebRtc_ReadBuffer (Some rb) False
      (Some (replicate (n * element_size rb) 0)) n = (m, Some out, ptr, s')"
    by (cases "0 < data_ptr_bytes_2 (GetBufferReadRegions rb n)")
      (auto simp: WebRtc_ReadBuffer_def Let_def)
  from read_moves(2) [OF inv res] obtain rb' where "s' = Some rb'" "rb_inv rb'"
      "element_size rb' = element_size rb"
      "rb_contents rb' = drop (n * element_size rb) (rb_contents rb)" by blast
  then show "rb_contents (snd (rb_get rb n)) = drop (n * element_size rb) (rb_contents rb)"
      "rb_inv (snd (rb_get rb n))" "element_size (snd (rb_get rb n)) = element_size rb"
    by (simp_all add: rb_get_def res)
  show "fst (rb_get rb n) = take (n * element_size rb) (rb_contents rb)"
    using read_copies [OF inv _ res] by (simp add: rb_get_def res)
qed

lemma length_rb_contents [simp]: "length (rb_contents rb) = rb_avail rb * element_size rb"
  by (simp add: rb_contents_def)

interpretation rbq: bounded_fifo rb_inv rb_contents element_size rb_put rb_get element_count
proof
  fix s :: RingBuffer and n :: nat and xs :: "byte list"
  assume inv: "rb_inv s"
  show "rb_inv (snd (rb_get s n))" "element_size (snd (rb_get s n)) = element_size s"
    "fst (rb_get s n) = take (n * element_size s) (rb_contents s)"
    "rb_contents (snd (rb_get s n)) = drop (n * element_size s) (rb_contents s)"
    using rb_get_spec [OF inv] by simp_all
  show "0 < element_size s" using inv by (simp add: rb_inv_def)
  show "length (rb_contents s) \<le> element_count s * element_size s"
    using rb_avail_le [OF inv] by simp
  assume len: "n * element_size s \<le> length xs"
  obtain m s' where res: "rb_put s xs n = (m, s')" by fastforce
  note w = write_data [OF inv len res] write_inv [OF inv len res] write_contents [OF inv len res]
  show "rb_inv (snd (rb_put s xs n))" "element_size (snd (rb_put s xs n)) = element_size s"
    "rb_contents (snd (rb_put s xs n)) = rb_contents s @ take (fst (rb_put s xs n) * element_size s) xs"
    using w res by simp_all
  show "fst (rb_put s xs n) = min n (element_count s - length (rb_contents s) div element_size s)"
    using w(1) res inv by (simp add: rb_inv_def)
qed

subsection \<open>Properties\<close>

text \<open>C4: FIFO order.  For every sequence of reads and writes issued on a well-formed
  ring buffer, the bytes delivered by the reads followed by what is left in the buffer
  are exactly the bytes that were in it followed by those the writes accepted: nothing
  is lost, duplicated or reordered, across any number of wrap-arounds.\<close>

theorem rb_fifo_order:
  assumes "rb_inv rb" and "list_all (op_ok (element_size rb)) ops"
    and "fifo_run rb_put rb_get element_size rb ops = (acc, del, rb')"
  shows "rb_contents rb @ acc = del @ rb_contents rb' \<and> rb_inv rb'"
  using rbq.run_order [OF assms] by simp

definition rb_example :: RingBuffer where
  "rb_example = \<lparr>read_pos = 2, write_pos = 1, element_count = 3, element_size = 2,
     rw_wrap = DIFF_WRAP, data = [1, 2, 3, 4, 5, 6]\<rparr>"

theorem rb_fifo_order_witness:
  "rb_inv rb_example \<and>
   list_all (op_ok (element_size rb_example)) [Put [7, 8, 9, 10 :: byte] 2, Get 2] \<and>
   fifo_run rb_put rb_get element_size rb_example [Put [7, 8, 9, 10] 2, Get 2] =
     ([7, 8], [5, 6, 1, 2], \<lparr>read_pos = 1, write_pos = 2, element_count = 3, element_size = 2,
     rw_wrap = SAME_WRAP, data = [1, 2, 7, 8, 5, 6]\<rparr>) \<and>
   rb_contents rb_example @ [7, 8] = [5, 6, 1, 2] @ rb_contents
     \<lparr>read_pos = 1, write_pos = 2, element_count = 3, element_size = 2,
     rw_wrap = SAME_WRAP, data = [1, 2, 7, 8, 5, 6]\<rparr>"
proof -
  have i: "rb_inv rb_example" by (simp add: rb_inv_def rb_example_def)
  have o: "list_all (op_ok (element_size rb_example)) [Put [7, 8, 9, 10 :: byte] 2, Get 2]"
    by code_simp
  have r: "fifo_run rb_put rb_get element_size rb_example [Put [7, 8, 9, 10] 2, Get 2] =
     ([7, 8], [5, 6, 1, 2], \<lparr>read_pos = 1, write_pos = 2, element_count = 3, element_size = 2,
     rw_wrap = SAME_WRAP, data = [1, 2, 7, 8, 5, 6]\<rparr>)"
    by code_simp
  show ?thesis using i o r rb_fifo_order [OF i o r] by blast
qed

text \<open>C16: \<open>WebRtc_WriteBuffer\<close> accepts as many whole elements as there is room for,
  appends exactly those to the contents (wherever the write position is, also when the
  copy is split at the end of the block), and keeps the buffer well-formed.\<close>

theorem WebRtc_WriteBuffer_appends:
  assumes "rb_inv rb" and "count * element_size rb \<le> length src"
  shows "\<exists>rb'. WebRtc_WriteBuffer (Some rb) (Some src) count =
        (min (WebRtc_available_write (Some rb)) count, Some rb')
      \<and> rb_contents rb' = rb_contents rb @
          take (min (WebRtc_available_write (Some rb)) count * element_size rb) src
      \<and> rb_inv rb' \<and> element_size rb' = element_size rb \<and> element_count rb' = element_count rb"
proof -
  obtain m rb' where w: "WebRtc_WriteBuffer (Some rb) (Some src) count = (m, Some rb')"
    by (simp add: WebRtc_WriteBuffer_def Let_def case_prod_beta)
  then have res: "rb_put rb src count = (m, rb')" by (simp add: rb_put_def)
  show ?thesis
    using w write_data [OF assms res] write_inv [OF assms res] write_contents [OF assms res]
    by (simp add: available_write_eq [OF assms(1)])
qed

theorem WebRtc_WriteBuffer_appends_witness:
  "\<exists>rb'. WebRtc_WriteBuffer (Some rb_example) (Some [7, 8, 9, 10]) 2 =
        (min (WebRtc_available_write (Some rb_example)) 2, Some rb')
      \<and> rb_contents rb' = rb_contents rb_example @
          take (min (WebRtc_available_write (Some rb_example)) 2 * element_size rb_example) [7, 8, 9, 10]
      \<and> rb_inv rb' \<and> element_size rb' = element_size rb_example
      \<and> element_count rb' = element_count rb_example"
proof -
  have i: "rb_inv rb_example" by (simp add: rb_inv_def rb_example_def)
  have l: "2 * element_size rb_example \<le> length [7, 8, 9, 10 :: byte]" by (simp add: rb_example_def)
  show ?thesis by (rule WebRtc_WriteBuffer_appends [OF i l])
qed

text \<open>C17: \<open>WebRtc_ReadBuffer\<close> returns the oldest elements and consumes them.  Whether
  the caller asked for a pointer or a copy, and whether the data wrapped, the bytes found
  where the result is (in the ring through \<open>*data_ptr\<close>, or in the caller's block) are the
  first \<open>count\<close> elements of the contents, or all of them if there are fewer.\<close>

theorem WebRtc_ReadBuffer_consumes:
  assumes inv: "rb_inv rb" and room: "count * element_size rb \<le> length out"
  shows "\<exists>out' ptr rb'. WebRtc_ReadBuffer (Some rb) want (Some out) count =
        (min (rb_avail rb) count, Some out', ptr, Some rb')
      \<and> deref rb' out' (case ptr of Some p \<Rightarrow> p | None \<Rightarrow> InData)
            (min (rb_avail rb) count * element_size rb) =
          take (count * element_size rb) (rb_contents rb)
      \<and> rb_contents rb' = drop (count * element_size rb) (rb_contents rb)
      \<and> (want \<longleftrightarrow> ptr \<noteq> None) \<and> rb_inv rb'"
proof -
  obtain m out' ptr s' where res: "WebRtc_ReadBuffer (Some rb) want (Some out) count = (m, Some out', ptr, s')"
    by (cases "0 < data_ptr_bytes_2 (GetBufferReadRegions rb count)"; cases want)
      (auto simp: WebRtc_ReadBuffer_def Let_def)
  note mv = read_moves [OF inv res]
  obtain rb' where rb': "s' = Some rb'" "rb_inv rb'" "data rb' = data rb"
      "rb_contents rb' = drop (count * element_size rb) (rb_contents rb)"
    using mv(2) by blast
  have wp: "want \<longleftrightarrow> ptr \<noteq> None"
    using res by (auto simp: WebRtc_ReadBuffer_def Let_def split: prod.splits if_splits)
  have "deref rb' out' (case ptr of Some p \<Rightarrow> p | None \<Rightarrow> InData) (m * element_size rb) =
      take (count * element_size rb) (rb_contents rb)"
  proof (cases "\<exists>k. ptr = Some (InRing k)")
    case True
    then have "want" "data_ptr_bytes_2 (GetBufferReadRegions rb count) = 0"
      "ptr = Some (InRing (data_ptr_1 (GetBufferReadRegions rb count)))"
      using res by (auto simp: WebRtc_ReadBuffer_def Let_def split: prod.splits if_splits)
    then show ?thesis
      using regions_view(1-3) [OF inv refl, of count] mv(1) rb'(3) by simp
  next
    case False
    then have "\<not> want \<or> ptr = Some InData" and "(case ptr of Some p \<Rightarrow> p | None \<Rightarrow> InData) = InData"
      using wp by (cases ptr; simp; metis read_ptr.exhaust)+
    then show ?thesis using read_copies [OF inv room res] by simp
  qed
  then show ?thesis using res mv(1) rb' wp by blast
qed

theorem WebRtc_ReadBuffer_consumes_witness:
  "\<exists>out' ptr rb'. WebRtc_ReadBuffer (Some rb_example) True (Some (replicate 4 0)) 2 =
        (min (rb_avail rb_example) 2, Some out', ptr, Some rb')
      \<and> deref rb' out' (case ptr of Some p \<Rightarrow> p | None \<Rightarrow> InData)
            (min (rb_avail rb_example) 2 * element_size rb_example) =
          take (2 * element_size rb_example) (rb_contents rb_example)
      \<and> rb_contents rb' = drop (2 * element_size rb_example) (rb_contents rb_example)
      \<and> (True \<longleftrightarrow> ptr \<noteq> None) \<and> rb_inv rb'"
proof -
  have i: "rb_inv rb_example" by (simp add: rb_inv_def rb_example_def)
  have l: "2 * element_size rb_example \<le> length (replicate 4 (0::byte))"
    by (simp add: rb_example_def)
  show ?thesis by (rule WebRtc_ReadBuffer_consumes [OF i l])
qed

text \<open>C18: \<open>WebRtc_MoveReadPtr\<close> moves by the requested amount limited to what can be
  flushed or stuffed, reports the amount moved, changes the fill level by exactly that,
  never touches the data, and keeps the buffer well-formed; a move back is undone by the
  same move forward.\<close>

theorem WebRtc_MoveReadPtr_correct:
  assumes inv: "rb_inv rb"
  shows "\<exists>rb'. WebRtc_MoveReadPtr (Some rb) k = (move_clamp rb k, Some rb')
      \<and> rb_inv rb' \<and> data rb' = data rb
      \<and> int (WebRtc_available_read (Some rb')) = int (WebRtc_available_read (Some rb)) - move_clamp rb k
      \<and> (\<exists>rb''. WebRtc_MoveReadPtr (Some rb') (- move_clamp rb k) = (- move_clamp rb k, Some rb'')
          \<and> rb_contents rb'' = rb_contents rb)"
proof -
  define rb' where "rb' = move_result rb (int (read_pos rb) + move_clamp rb k)"
  note mi = move_inv [OF inv rb'_def]
  have undo: "move_clamp rb' (- move_clamp rb k) = - move_clamp rb k"
    using mi(2,5) move_clamp_bounds [OF inv, of k] rb_avail_le [OF inv] rb_avail_le [OF mi(1)]
    by (auto simp: move_clamp_def [of rb'])
  define rb'' where "rb'' = move_result rb' (int (read_pos rb') + move_clamp rb' (- move_clamp rb k))"
  note mi' = move_inv [OF mi(1) rb''_def]
  have av: "rb_avail rb'' = rb_avail rb" using mi(2) mi'(2) undo by simp
  obtain j where "int (read_pos rb') = int (read_pos rb) + move_clamp rb k + j * int (element_count rb)"
    using move_result_pos [OF inv rb'_def] by blast
  moreover obtain j' where "int (read_pos rb'') =
      int (read_pos rb') - move_clamp rb k + j' * int (element_count rb)"
    using move_result_pos [OF mi(1) rb''_def] undo mi(5) by auto
  ultimately have "int (read_pos rb'') = int (read_pos rb) + (j + j') * int (element_count rb)"
    by (simp add: distrib_right)
  then have "(read_pos rb'' * element_size rb) mod (element_count rb * element_size rb) =
      (read_pos rb * element_size rb) mod (element_count rb * element_size rb)"
    by (rule shift_pos_mod)
  then have "rb_contents rb'' = rb_contents rb"
    using mi mi' av inv by (auto simp: rb_contents_def rb_inv_def intro: ring_view_cong_mod)
  then show ?thesis
    using mi move_eq [OF inv, of k] move_eq [OF mi(1), of "- move_clamp rb k"] undo
    unfolding rb'_def [symmetric] rb''_def [symmetric] rb_avail_def by simp
qed

theorem WebRtc_MoveReadPtr_correct_witness:
  "\<exists>rb'. WebRtc_MoveReadPtr (Some rb_example) (-4) = (move_clamp rb_example (-4), Some rb')
      \<and> rb_inv rb' \<and> data rb' = data rb_example
      \<and> int (WebRtc_available_read (Some rb')) =
          int (WebRtc_available_read (Some rb_example)) - move_clamp rb_example (-4)
      \<and> (\<exists>rb''. WebRtc_MoveReadPtr (Some rb') (- move_clamp rb_example (-4)) =
            (- move_clamp rb_example (-4), Some rb'')
          \<and> rb_contents rb'' = rb_contents rb_example)"
proof -
  have i: "rb_inv rb_example" by (simp add: rb_inv_def rb_example_def)
  show ?thesis by (rule WebRtc_MoveReadPtr_correct [OF i])
qed

text \<open>A buffer obtained from \<open>WebRtc_CreateBuffer\<close> and \<open>WebRtc_InitBuffer\<close> is
  well-formed, empty, zero-filled and can take \<open>count\<close> elements, provided \<open>malloc\<close>
  returns blocks of the size asked for and the size in bytes fits a \<open>size_t\<close>.\<close>

theorem create_init_establishes:
  assumes malloc: "\<And>k block. malloc_data k = Some block \<Longrightarrow> length block = k"
    and size: "count * sz < 2 ^ 32" "count < 2 ^ 30"
    and created: "WebRtc_CreateBuffer malloc_self malloc_data count sz = Some rb"
  shows "\<exists>rb'. WebRtc_InitBuffer (Some rb) = (0, Some rb') \<and> rb_inv rb' \<and> rb_contents rb' = []
      \<and> WebRtc_available_write (Some rb') = count \<and> data rb' = replicate (count * sz) 0"
proof -
  have rb: "0 < count" "0 < sz" "element_count rb = count" "element_size rb = sz"
      "length (data rb) = count * sz"
    using created malloc size
    by (auto simp: WebRtc_CreateBuffer_def split: if_splits option.splits)
  define rb' where "rb' = rb\<lparr>read_pos := 0, write_pos := 0, rw_wrap := SAME_WRAP,
      data := replicate (count * sz) 0\<rparr>"
  have init: "WebRtc_InitBuffer (Some rb) = (0, Some rb')"
    using rb size by (simp add: WebRtc_InitBuffer_def rb'_def memcpy_whole)
  have inv: "rb_inv rb'" using rb size by (simp add: rb_inv_def rb'_def)
  have av: "rb_avail rb' = 0" by (simp add: rb_avail_eq [OF inv]) (simp add: rb'_def)
  show ?thesis
    using init inv av rb available_write_eq [OF inv] by (simp add: rb_contents_def) (simp add: rb'_def)
qed

theorem create_init_establishes_witness:
  "\<exists>rb'. WebRtc_InitBuffer (Some (rb_example\<lparr>data := replicate 6 9\<rparr>)) = (0, Some rb')
      \<and> rb_inv rb' \<and> rb_contents rb' = []
      \<and> WebRtc_available_write (Some rb') = 3 \<and> data rb' = replicate (3 * 2) 0"
proof -
  have m: "\<And>k block. (\<lambda>k. Some (replicate k (9 :: byte))) k = Some block \<Longrightarrow> length block = k" by auto
  have c: "WebRtc_CreateBuffer (Some rb_example) (\<lambda>k. Some (replicate k 9)) 3 2 =
      Some (rb_example\<lparr>data := replicate 6 9\<rparr>)"
    by (simp add: WebRtc_CreateBuffer_def rb_example_def)
  show ?thesis by (rule create_init_establishes [OF m _ _ c]) simp_all
qed

text \<open>C19: the size passed to \<open>malloc\<close> is a \<open>size_t\<close> product that is not checked for
  wrap-around: whenever the product of the counts does not fit 32 bits and \<open>malloc\<close> gives a struct and a
  block of the wrapped size, \<open>WebRtc_CreateBuffer\<close> accepts, \<open>WebRtc_InitBuffer\<close> reports success, and
  the fresh buffer advertises room for all \<open>count\<close> elements although its block is shorter than that.\<close>

theorem create_size_wraps:
  assumes big: "2 ^ 32 \<le> count * sz"
    and malloc: "malloc_data ((count * sz) mod 2 ^ 32) = Some block" "length block = (count * sz) mod 2 ^ 32"
  shows "\<exists>rb rb'. WebRtc_CreateBuffer (Some self) malloc_data count sz = Some rb \<and>
    WebRtc_InitBuffer (Some rb) = (0, Some rb') \<and>
    WebRtc_available_write (Some rb') = count \<and> element_size rb' = sz \<and>
    length (data rb') = (count * sz) mod 2 ^ 32 \<and>
    length (data rb') < WebRtc_available_write (Some rb') * element_size rb'"
proof -
  define rb where "rb = self\<lparr>data := block, element_count := count, element_size := sz\<rparr>"
  define rb' where "rb' = rb\<lparr>read_pos := 0, write_pos := 0, rw_wrap := SAME_WRAP,
      data := memcpy block 0 (replicate ((count * sz) mod 2 ^ 32) 0)\<rparr>"
  have "count \<noteq> 0" "sz \<noteq> 0" using big by (auto intro: ccontr)
  then have "WebRtc_CreateBuffer (Some self) malloc_data count sz = Some rb"
    using malloc by (simp add: WebRtc_CreateBuffer_def rb_def)
  moreover have "WebRtc_InitBuffer (Some rb) = (0, Some rb')"
    by (simp add: WebRtc_InitBuffer_def rb'_def rb_def)
  moreover have "WebRtc_available_write (Some rb') = count" "element_size rb' = sz"
    by (simp_all add: WebRtc_available_write_def WebRtc_available_read_def rb'_def rb_def)
  moreover have "length (data rb') = (count * sz) mod 2 ^ 32"
    using malloc(2) by (simp add: rb'_def)
  moreover have "(count * sz) mod 2 ^ 32 < count * sz" using big by (meson mod_less_divisor less_le_trans zero_less_numeral zero_less_power)
  ultimately show ?thesis by metis
qed

theorem create_size_wraps_witness:
  "\<exists>rb rb'. WebRtc_CreateBuffer (Some rb_example) (\<lambda>k. Some (replicate k 9)) 65536 65537 = Some rb \<and>
    WebRtc_InitBuffer (Some rb) = (0, Some rb') \<and>
    WebRtc_available_write (Some rb') = 65536 \<and> element_size rb' = 65537 \<and>
    length (data rb') = 65536 * 65537 mod 2 ^ 32 \<and>
    length (data rb') < WebRtc_available_write (Some rb') * element_size rb'"
  by (rule create_size_wraps [of 65536 65537 _ "replicate 65536 9"]) simp_all

end
