(* ===== verification/PaRingBuffer.thy ===== *)
theory PaRingBuffer
  imports Prelude Fifo
begin

text \<open>
  The power-of-two ring buffer of
  \<^verbatim>\<open>webrtc/modules/audio_device/mac/portaudio/pa_ringbuffer.c\<close>.  Indices run modulo
  twice the size so that full and empty differ; \<open>ring_buffer_size_t\<close> is a 32-bit
  signed integer.  The memory barriers have no effect in this sequential model.
\<close>

record PaUtilRingBuffer =
  bufferSize :: int
  writeIndex :: int
  readIndex :: int
  bigMask :: int
  smallMask :: int
  elementSizeBytes :: int
  buffer :: "8 word list"

definition PaUtil_FlushRingBuffer :: "PaUtilRingBuffer \<Rightarrow> PaUtilRingBuffer" where
  "PaUtil_FlushRingBuffer rbuf = rbuf\<lparr>writeIndex := 0, readIndex := 0\<rparr>"

definition PaUtil_InitializeRingBuffer ::
  "PaUtilRingBuffer \<Rightarrow> int \<Rightarrow> int \<Rightarrow> 8 word list \<Rightarrow> int \<times> PaUtilRingBuffer" where
  "PaUtil_InitializeRingBuffer rbuf sizeBytes elementCount dataPtr =
    (if (s32 (elementCount - 1)) AND elementCount \<noteq> 0 then (-1, rbuf)
     else (0, (PaUtil_FlushRingBuffer (rbuf\<lparr>bufferSize := elementCount, buffer := dataPtr\<rparr>))
                \<lparr>bigMask := s32 (s32 (elementCount * 2) - 1),
                 smallMask := s32 (elementCount - 1),
                 elementSizeBytes := sizeBytes\<rparr>))"

definition PaUtil_GetRingBufferReadAvailable :: "PaUtilRingBuffer \<Rightarrow> int" where
  "PaUtil_GetRingBufferReadAvailable rbuf =
     s32 (writeIndex rbuf - readIndex rbuf) AND bigMask rbuf"

definition PaUtil_GetRingBufferWriteAvailable :: "PaUtilRingBuffer \<Rightarrow> int" where
  "PaUtil_GetRingBufferWriteAvailable rbuf =
     s32 (bufferSize rbuf - PaUtil_GetRingBufferReadAvailable rbuf)"

text \<open>
  Both region functions return the number of elements and two regions: a byte
  offset into \<open>buffer\<close> (\<open>None\<close> for \<open>NULL\<close>) and a number of elements.
\<close>

definition split_regions ::
  "PaUtilRingBuffer \<Rightarrow> int \<Rightarrow> int \<Rightarrow> int \<times> int \<times> int \<times> int option \<times> int" where
  "split_regions rbuf index elementCount =
    (if s32 (index + elementCount) > bufferSize rbuf
     then let firstHalf = s32 (bufferSize rbuf - index)
          in (elementCount, s32 (index * elementSizeBytes rbuf), firstHalf,
              Some 0, s32 (elementCount - firstHalf))
     else (elementCount, s32 (index * elementSizeBytes rbuf), elementCount, None, 0))"

definition PaUtil_GetRingBufferWriteRegions ::
  "PaUtilRingBuffer \<Rightarrow> int \<Rightarrow> int \<times> int \<times> int \<times> int option \<times> int" where
  "PaUtil_GetRingBufferWriteRegions rbuf elementCount =
    (let available = PaUtil_GetRingBufferWriteAvailable rbuf;
         cnt = (if elementCount > available then available else elementCount);
         index = writeIndex rbuf AND smallMask rbuf
     in split_regions rbuf index cnt)"

definition PaUtil_AdvanceRingBufferWriteIndex ::
  "PaUtilRingBuffer \<Rightarrow> int \<Rightarrow> int \<times> PaUtilRingBuffer" where
  "PaUtil_AdvanceRingBufferWriteIndex rbuf elementCount =
    (let w = s32 (writeIndex rbuf + elementCount) AND bigMask rbuf
     in (w, rbuf\<lparr>writeIndex := w\<rparr>))"

definition PaUtil_GetRingBufferReadRegions ::
  "PaUtilRingBuffer \<Rightarrow> int \<Rightarrow> int \<times> int \<times> int \<times> int option \<times> int" where
  "PaUtil_GetRingBufferReadRegions rbuf elementCount =
    (let available = PaUtil_GetRingBufferReadAvailable rbuf;
         cnt = (if elementCount > available then available else elementCount);
         index = readIndex rbuf AND smallMask rbuf
     in split_regions rbuf index cnt)"

definition PaUtil_AdvanceRingBufferReadIndex ::
  "PaUtilRingBuffer \<Rightarrow> int \<Rightarrow> int \<times> PaUtilRingBuffer" where
  "PaUtil_AdvanceRingBufferReadIndex rbuf elementCount =
    (let r = s32 (readIndex rbuf + elementCount) AND bigMask rbuf
     in (r, rbuf\<lparr>readIndex := r\<rparr>))"

definition PaUtil_WriteRingBuffer ::
  "PaUtilRingBuffer \<Rightarrow> 8 word list \<Rightarrow> int \<Rightarrow> int \<times> PaUtilRingBuffer" where
  "PaUtil_WriteRingBuffer rbuf src elementCount =
    (case PaUtil_GetRingBufferWriteRegions rbuf elementCount of
       (numWritten, data1, size1, data2, size2) \<Rightarrow>
        let bytes1 = nat (s32 (size1 * elementSizeBytes rbuf));
            bytes2 = nat (s32 (size2 * elementSizeBytes rbuf));
            buf1 = memcpy (buffer rbuf) (nat data1) (take bytes1 src);
            buf2 = (if size2 > 0
                    then memcpy buf1 (nat (the data2)) (take bytes2 (drop bytes1 src))
                    else buf1)
        in (numWritten, snd (PaUtil_AdvanceRingBufferWriteIndex (rbuf\<lparr>buffer := buf2\<rparr>) numWritten)))"

definition PaUtil_ReadRingBuffer ::
  "PaUtilRingBuffer \<Rightarrow> 8 word list \<Rightarrow> int \<Rightarrow> int \<times> 8 word list \<times> PaUtilRingBuffer" where
  "PaUtil_ReadRingBuffer rbuf dst elementCount =
    (case PaUtil_GetRingBufferReadRegions rbuf elementCount of
       (numRead, data1, size1, data2, size2) \<Rightarrow>
        let bytes1 = nat (s32 (size1 * elementSizeBytes rbuf));
            bytes2 = nat (s32 (size2 * elementSizeBytes rbuf));
            dst1 = memcpy dst 0 (take bytes1 (drop (nat data1) (buffer rbuf)));
            dst2 = (if size2 > 0
                    then memcpy dst1 bytes1 (take bytes2 (drop (nat (the data2)) (buffer rbuf)))
                    else dst1)
        in (numRead, dst2, snd (PaUtil_AdvanceRingBufferReadIndex rbuf numRead)))"

subsection \<open>Masks\<close>

lemma and_pow2_mask: "(x :: int) AND (2 ^ k - 1) = x mod 2 ^ k"
  by (metis mask_eq_exp_minus_1 take_bit_eq_mask take_bit_eq_mod)

lemma and_pred_0_iff:
  assumes "0 < x"
  shows "(x - 1) AND x = (0 :: int) \<longleftrightarrow> (\<exists>k. x = 2 ^ k)"
  using assms
proof (induction "nat x" arbitrary: x rule: less_induct)
  case less
  show ?case
  proof (cases "even x")
    case True
    then obtain y where y: "x = 2 * y" by blast
    with less.prems have y0: "0 < y" by simp
    have "(2 * y - 1) div 2 = y - 1" by presburger
    then have "(x - 1) AND x = 2 * ((y - 1) AND y)"
      using y and_rec [of "2 * y - 1" "2 * y"] by simp
    moreover have "(y - 1) AND y = 0 \<longleftrightarrow> (\<exists>k. y = 2 ^ k)"
      using less.hyps [of y] y y0 by simp
    moreover have "(\<exists>k. y = 2 ^ k) \<longleftrightarrow> (\<exists>k. x = 2 ^ k)"
    proof
      assume "\<exists>k. y = 2 ^ k"
      then obtain k where "y = 2 ^ k" ..
      then have "x = 2 ^ Suc k" using y by simp
      then show "\<exists>k. x = 2 ^ k" ..
    next
      assume "\<exists>k. x = 2 ^ k"
      then obtain k where k: "x = 2 ^ k" ..
      with True have "k \<noteq> 0" by (cases k) auto
      then obtain j where "k = Suc j" by (cases k) auto
      with k y show "\<exists>k. y = 2 ^ k" by auto
    qed
    ultimately show ?thesis by simp
  next
    case False
    then obtain y where y: "x = 2 * y + 1" by (blast elim: oddE)
    with less.prems have y0: "0 \<le> y" by simp
    have "(x - 1) AND x = 2 * y"
      using y by (simp add: and_rec [of "2 * y"])
    moreover have "(\<exists>k. x = 2 ^ k) \<longleftrightarrow> y = 0"
    proof
      assume "\<exists>k. x = 2 ^ k"
      then obtain k where k: "x = 2 ^ k" ..
      with False have "k = 0" by (cases k) auto
      with k y show "y = 0" by simp
    next
      assume "y = 0"
      then have "x = 2 ^ 0" using y by simp
      then show "\<exists>k. x = 2 ^ k" ..
    qed
    ultimately show ?thesis by simp
  qed
qed

subsection \<open>Invariant and abstraction\<close>

definition pa_inv :: "PaUtilRingBuffer \<Rightarrow> bool" where
  "pa_inv rb \<longleftrightarrow> (\<exists>k. bufferSize rb = 2 ^ k) \<and> 0 < elementSizeBytes rb
     \<and> bufferSize rb * elementSizeBytes rb < 536870912
     \<and> bigMask rb = 2 * bufferSize rb - 1 \<and> smallMask rb = bufferSize rb - 1
     \<and> 0 \<le> writeIndex rb \<and> writeIndex rb < 2 * bufferSize rb
     \<and> 0 \<le> readIndex rb \<and> readIndex rb < 2 * bufferSize rb
     \<and> (writeIndex rb - readIndex rb) mod (2 * bufferSize rb) \<le> bufferSize rb
     \<and> int (length (buffer rb)) = bufferSize rb * elementSizeBytes rb"

definition pa_size :: "PaUtilRingBuffer \<Rightarrow> nat" where
  "pa_size rb = nat (bufferSize rb)"

definition pa_unit :: "PaUtilRingBuffer \<Rightarrow> nat" where
  "pa_unit rb = nat (elementSizeBytes rb)"

definition pa_avail :: "PaUtilRingBuffer \<Rightarrow> nat" where
  "pa_avail rb = nat (PaUtil_GetRingBufferReadAvailable rb)"

definition pa_contents :: "PaUtilRingBuffer \<Rightarrow> 8 word list" where
  "pa_contents rb = ring_view (buffer rb) (nat (readIndex rb mod bufferSize rb) * pa_unit rb)
     (pa_avail rb * pa_unit rb)"

lemma pa_inv_bounds:
  assumes "pa_inv rb"
  shows "1 \<le> bufferSize rb" and "bufferSize rb < 536870912" and "1 \<le> elementSizeBytes rb"
proof -
  obtain k where "bufferSize rb = 2 ^ k" using assms by (auto simp: pa_inv_def)
  then show "1 \<le> bufferSize rb" by simp
  show "1 \<le> elementSizeBytes rb" using assms by (simp add: pa_inv_def)
  then have "bufferSize rb * 1 \<le> bufferSize rb * elementSizeBytes rb"
    using \<open>1 \<le> bufferSize rb\<close> by (intro mult_left_mono) auto
  moreover have "bufferSize rb * elementSizeBytes rb < 536870912" using assms by (simp add: pa_inv_def)
  ultimately show "bufferSize rb < 536870912" by linarith
qed

lemma pa_offset:
  assumes "pa_inv rb" and "0 \<le> n" "n \<le> bufferSize rb"
  shows "s32 (n * elementSizeBytes rb) = n * elementSizeBytes rb"
proof -
  have "n * elementSizeBytes rb \<le> bufferSize rb * elementSizeBytes rb"
    using assms pa_inv_bounds [OF assms(1)] by (intro mult_right_mono) auto
  moreover have "0 \<le> n * elementSizeBytes rb" using assms pa_inv_bounds [OF assms(1)] by simp
  moreover have "bufferSize rb * elementSizeBytes rb < 536870912" using assms by (simp add: pa_inv_def)
  ultimately show ?thesis by (intro s32_id) linarith+
qed

lemma pa_masks:
  assumes "pa_inv rb"
  shows "x AND bigMask rb = x mod (2 * bufferSize rb)" and "x AND smallMask rb = x mod bufferSize rb"
proof -
  obtain k where k: "bufferSize rb = 2 ^ k" using assms by (auto simp: pa_inv_def)
  have "x AND bigMask rb = x mod 2 ^ Suc k"
    using assms k and_pow2_mask [of x "Suc k"] by (simp add: pa_inv_def)
  then show "x AND bigMask rb = x mod (2 * bufferSize rb)" by (simp add: k)
  show "x AND smallMask rb = x mod bufferSize rb"
    using assms k and_pow2_mask [of x k] by (simp add: pa_inv_def)
qed

lemma pa_read_available:
  assumes "pa_inv rb"
  shows "PaUtil_GetRingBufferReadAvailable rb = (writeIndex rb - readIndex rb) mod (2 * bufferSize rb)"
    and "0 \<le> PaUtil_GetRingBufferReadAvailable rb"
    and "PaUtil_GetRingBufferReadAvailable rb \<le> bufferSize rb"
    and "int (pa_avail rb) = PaUtil_GetRingBufferReadAvailable rb"
    and "PaUtil_GetRingBufferWriteAvailable rb = bufferSize rb - PaUtil_GetRingBufferReadAvailable rb"
proof -
  note b = pa_inv_bounds [OF assms]
  have "s32 (writeIndex rb - readIndex rb) = writeIndex rb - readIndex rb"
    using assms b by (intro s32_id) (auto simp: pa_inv_def)
  then show eq: "PaUtil_GetRingBufferReadAvailable rb = (writeIndex rb - readIndex rb) mod (2 * bufferSize rb)"
    by (simp add: PaUtil_GetRingBufferReadAvailable_def pa_masks [OF assms])
  show nn: "0 \<le> PaUtil_GetRingBufferReadAvailable rb" using b by (simp add: eq)
  show le: "PaUtil_GetRingBufferReadAvailable rb \<le> bufferSize rb"
    using assms by (simp add: eq pa_inv_def)
  show "int (pa_avail rb) = PaUtil_GetRingBufferReadAvailable rb" using nn by (simp add: pa_avail_def)
  show "PaUtil_GetRingBufferWriteAvailable rb = bufferSize rb - PaUtil_GetRingBufferReadAvailable rb"
    unfolding PaUtil_GetRingBufferWriteAvailable_def using nn le b by (intro s32_id) auto
qed

lemma pa_split:
  assumes inv: "pa_inv rb" and i: "0 \<le> i" "i < bufferSize rb" and n: "0 \<le> n" "n \<le> bufferSize rb"
  shows "split_regions rb i n =
    (if i + n > bufferSize rb
     then (n, i * elementSizeBytes rb, bufferSize rb - i, Some 0, n - (bufferSize rb - i))
     else (n, i * elementSizeBytes rb, n, None, 0))"
proof -
  note b = pa_inv_bounds [OF inv]
  have "s32 (i * elementSizeBytes rb) = i * elementSizeBytes rb"
    using pa_offset [OF inv] i by simp
  moreover have "s32 (i + n) = i + n" "s32 (bufferSize rb - i) = bufferSize rb - i"
      "s32 (n - (bufferSize rb - i)) = n - (bufferSize rb - i)"
    using i n b by (auto intro!: s32_id)
  ultimately show ?thesis by (simp add: split_regions_def Let_def)
qed

lemma pa_bytes:
  assumes "pa_inv rb" and "0 \<le> n" "n \<le> bufferSize rb"
  shows "nat (s32 (n * elementSizeBytes rb)) = nat n * pa_unit rb"
  using pa_offset [OF assms] assms by (simp add: pa_unit_def nat_mult_distrib)

lemma pa_length: "pa_inv rb \<Longrightarrow> length (buffer rb) = pa_size rb * pa_unit rb"
  using pa_inv_bounds [of rb] by (auto simp: pa_inv_def pa_size_def pa_unit_def simp flip: nat_mult_distrib)

lemma mod_step_le:
  fixes a b n m :: int
  assumes "0 < m" and "(a - b) mod m + n < m" and "0 \<le> n"
  shows "((a + n) mod m - b) mod m = (a - b) mod m + n"
proof -
  have "((a + n) mod m - b) mod m = ((a - b) mod m + n) mod m"
    by (metis diff_add_eq mod_add_left_eq mod_diff_left_eq)
  then show ?thesis using assms by simp
qed

subsection \<open>Writing\<close>

definition pa_put :: "PaUtilRingBuffer \<Rightarrow> 8 word list \<Rightarrow> nat \<Rightarrow> nat \<times> PaUtilRingBuffer" where
  "pa_put rb xs n = (case PaUtil_WriteRingBuffer rb xs (int n) of (m, rb') \<Rightarrow> (nat m, rb'))"

lemma pa_put_eq:
  assumes inv: "pa_inv rb" and len: "n * pa_unit rb \<le> length xs"
  shows "pa_put rb xs n = (min (pa_size rb - pa_avail rb) n,
    rb\<lparr>buffer := ring_put (buffer rb) (nat (writeIndex rb mod bufferSize rb) * pa_unit rb)
                   (take (min (pa_size rb - pa_avail rb) n * pa_unit rb) xs),
       writeIndex := (writeIndex rb + int (min (pa_size rb - pa_avail rb) n)) mod (2 * bufferSize rb)\<rparr>)"
proof -
  note b = pa_inv_bounds [OF inv] and av = pa_read_available [OF inv]
  define m where "m = min (pa_size rb - pa_avail rb) n"
  define i where "i = writeIndex rb mod bufferSize rb"
  define es where "es = elementSizeBytes rb"
  have im: "int m = (if int n > PaUtil_GetRingBufferWriteAvailable rb
      then PaUtil_GetRingBufferWriteAvailable rb else int n)"
    using av b by (auto simp: m_def pa_size_def min_def)
  have i: "0 \<le> i" "i < bufferSize rb" using b by (auto simp: i_def)
  have mb: "int m \<le> bufferSize rb" using av b by (auto simp: m_def pa_size_def)
  have adv: "s32 (writeIndex rb + int m) = writeIndex rb + int m"
    using inv b mb by (intro s32_id) (auto simp: pa_inv_def)
  have reg: "PaUtil_GetRingBufferWriteRegions rb (int n) = split_regions rb i (int m)"
    by (simp add: PaUtil_GetRingBufferWriteRegions_def Let_def im pa_masks [OF inv] i_def)
  have lm: "m * pa_unit rb \<le> length xs"
    using len by (rule order_trans [rotated]) (simp add: m_def mult_le_mono1)
  have len': "length (buffer rb) = pa_size rb * pa_unit rb" by (rule pa_length [OF inv])
  have u: "0 < pa_unit rb" using b by (simp add: pa_unit_def)
  have sp: "(nat i * pa_unit rb + length (take (m * pa_unit rb) xs) \<le> length (buffer rb)) =
      (i + int m \<le> bufferSize rb)"
    using lm i b u by (simp add: len' min_def pa_size_def flip: add_mult_distrib)
      (auto simp: nat_le_iff le_nat_iff)
  have fst_bytes: "nat (s32 ((bufferSize rb - i) * es)) = length (buffer rb) - nat i * pa_unit rb"
    using pa_bytes [OF inv, of "bufferSize rb - i"] i b
    by (simp add: es_def len' pa_size_def nat_diff_distrib flip: diff_mult_distrib)
  have off: "nat (i * es) = nat i * pa_unit rb"
    using i by (simp add: es_def pa_unit_def nat_mult_distrib)
  show ?thesis
  proof (cases "i + int m > bufferSize rb")
    case False
    then show ?thesis
      unfolding pa_put_def PaUtil_WriteRingBuffer_def reg m_def [symmetric] i_def [symmetric]
      using pa_split [OF inv i _ mb] pa_bytes [OF inv _ mb] sp off adv
      by (simp add: Let_def PaUtil_AdvanceRingBufferWriteIndex_def pa_masks [OF inv] ring_put_def es_def)
  next
    case True
    have snd_bytes: "nat (s32 ((int m - (bufferSize rb - i)) * es)) =
        m * pa_unit rb - (length (buffer rb) - nat i * pa_unit rb)"
      using pa_bytes [OF inv, of "int m - (bufferSize rb - i)"] True mb i b
      by (simp add: es_def len' pa_size_def nat_diff_distrib flip: diff_mult_distrib)
    define L where "L = length (buffer rb) - nat i * pa_unit rb"
    have "length (take (m * pa_unit rb) xs) = m * pa_unit rb" using lm by simp
    then have "L \<le> m * pa_unit rb" using sp True unfolding L_def by linarith
    then have X: "take L (take (m * pa_unit rb) xs) = take L xs"
        "drop L (take (m * pa_unit rb) xs) = take (m * pa_unit rb - L) (drop L xs)"
      by (simp_all add: min_def drop_take)
    have put: "ring_put (buffer rb) (nat i * pa_unit rb) (take (m * pa_unit rb) xs) =
        memcpy (memcpy (buffer rb) (nat i * pa_unit rb) (take L xs)) 0
          (take (m * pa_unit rb - L) (drop L xs))"
      using sp True unfolding ring_put_def L_def [symmetric] X by simp
    have spl: "split_regions rb i (int m) = (int m, i * es, bufferSize rb - i, Some 0, int m - (bufferSize rb - i))"
      using pa_split [OF inv i _ mb] True by (simp add: es_def)
    show ?thesis
      unfolding pa_put_def PaUtil_WriteRingBuffer_def reg m_def [symmetric] i_def [symmetric] put spl
        es_def [symmetric] fst_bytes snd_bytes prod.case Let_def L_def [symmetric]
      using True off adv
      by (simp add: PaUtil_AdvanceRingBufferWriteIndex_def pa_masks [OF inv] Let_def)
  qed
qed

lemma pa_aligned:
  assumes inv: "pa_inv rb"
  shows "nat (writeIndex rb mod bufferSize rb) * pa_unit rb mod length (buffer rb) =
    (nat (readIndex rb mod bufferSize rb) * pa_unit rb + pa_avail rb * pa_unit rb) mod length (buffer rb)"
proof -
  note b = pa_inv_bounds [OF inv] and av = pa_read_available [OF inv]
  define N where "N = bufferSize rb"
  define w where "w = writeIndex rb"
  define r where "r = readIndex rb"
  have "(w - r) mod (2 * N) mod N = (w - r) mod N"
    by (rule mod_mod_cancel) simp
  then have "(r mod N + (w - r) mod (2 * N)) mod N = (r mod N + (w - r) mod N) mod N"
    by (metis mod_add_right_eq)
  also have "\<dots> = w mod N" by (simp add: mod_add_eq)
  finally have "(w mod N) mod N = (r mod N + (w - r) mod (2 * N)) mod N" by simp
  then obtain j where j: "w mod N = r mod N + (w - r) mod (2 * N) + j * N"
    by (metis mod_eqE mult.commute)
  have "0 \<le> w mod N" "0 \<le> r mod N" using b by (simp_all add: N_def)
  then have "int (nat (w mod N)) = int (nat (r mod N) + pa_avail rb) + j * int (nat N)"
    using j av(1,4) b by (simp only: int_nat_eq of_nat_add) (simp add: N_def w_def r_def)
  from shift_pos_mod [OF this, of "pa_unit rb"] show ?thesis
    by (simp add: pa_length [OF inv] pa_size_def N_def w_def r_def add_mult_distrib)
qed

lemma pa_put_spec:
  assumes inv: "pa_inv rb" and len: "n * pa_unit rb \<le> length xs" and res: "pa_put rb xs n = (m, rb')"
  shows "m = min (pa_size rb - pa_avail rb) n" and "pa_inv rb'" and "pa_unit rb' = pa_unit rb"
    and "pa_contents rb' = pa_contents rb @ take (m * pa_unit rb) xs"
proof -
  note b = pa_inv_bounds [OF inv] and av = pa_read_available [OF inv]
  define N where "N = bufferSize rb"
  define X where "X = take (m * pa_unit rb) xs"
  have m: "m = min (pa_size rb - pa_avail rb) n"
    and rb': "rb' = rb\<lparr>buffer := ring_put (buffer rb) (nat (writeIndex rb mod N) * pa_unit rb) X,
       writeIndex := (writeIndex rb + int m) mod (2 * N)\<rparr>"
    using res unfolding pa_put_eq [OF inv len] N_def X_def by auto
  show "m = min (pa_size rb - pa_avail rb) n" by (fact m)
  have am: "pa_avail rb + m \<le> pa_size rb"
    using m av(3,4) by (simp add: pa_size_def)
  have wi: "nat (writeIndex rb mod N) \<le> pa_size rb"
    using b by (simp add: N_def pa_size_def nat_le_iff less_imp_le)
  then have lw: "nat (writeIndex rb mod N) * pa_unit rb \<le> length (buffer rb)"
    by (simp add: pa_length [OF inv])
  have step: "((writeIndex rb + int m) mod (2 * N) - readIndex rb) mod (2 * N) =
      (writeIndex rb - readIndex rb) mod (2 * N) + int m"
    using am av b by (intro mod_step_le) (auto simp: N_def pa_size_def)
  show inv': "pa_inv rb'"
    using inv b am av step lw by (auto simp: pa_inv_def rb' N_def pa_size_def)
  show u: "pa_unit rb' = pa_unit rb" by (simp add: rb' pa_unit_def)
  have av': "pa_avail rb' = pa_avail rb + m"
    using pa_read_available(1,4) [OF inv'] av(1,4) step by (simp add: rb' N_def)
  have "m * pa_unit rb \<le> length xs"
    using len by (rule order_trans [rotated]) (simp add: m mult_le_mono1)
  then have lX: "length X = m * pa_unit rb" by (simp add: X_def)
  have "pa_avail rb * pa_unit rb + length X \<le> length (buffer rb)"
    using mult_le_mono1 [OF am, of "pa_unit rb"] by (simp add: lX pa_length [OF inv] add_mult_distrib)
  from ring_view_put [OF lw this] pa_aligned [OF inv]
  show "pa_contents rb' = pa_contents rb @ take (m * pa_unit rb) xs"
    using av' u lX by (simp add: pa_contents_def rb' N_def X_def add_mult_distrib)
qed

subsection \<open>Reading\<close>

definition pa_get :: "PaUtilRingBuffer \<Rightarrow> nat \<Rightarrow> 8 word list \<times> PaUtilRingBuffer" where
  "pa_get rb n = (case PaUtil_ReadRingBuffer rb (replicate (n * pa_unit rb) 0) (int n) of
     (m, dst, rb') \<Rightarrow> (take (nat m * pa_unit rb) dst, rb'))"

lemma pa_read_eq:
  assumes inv: "pa_inv rb" and len: "n * pa_unit rb \<le> length dst"
  shows "PaUtil_ReadRingBuffer rb dst (int n) =
    (int (min (pa_avail rb) n),
     memcpy dst 0 (take (n * pa_unit rb) (pa_contents rb)),
     rb\<lparr>readIndex := (readIndex rb + int (min (pa_avail rb) n)) mod (2 * bufferSize rb)\<rparr>)"
proof -
  note b = pa_inv_bounds [OF inv] and av = pa_read_available [OF inv]
  define m where "m = min (pa_avail rb) n"
  define i where "i = readIndex rb mod bufferSize rb"
  define es where "es = elementSizeBytes rb"
  define u where "u = pa_unit rb"
  have im: "int m = (if int n > PaUtil_GetRingBufferReadAvailable rb
      then PaUtil_GetRingBufferReadAvailable rb else int n)"
    using av by (auto simp: m_def min_def)
  have i: "0 \<le> i" "i < bufferSize rb" using b by (auto simp: i_def)
  have mb: "int m \<le> bufferSize rb" using av by (auto simp: m_def)
  have adv: "s32 (readIndex rb + int m) = readIndex rb + int m"
    using inv b mb by (intro s32_id) (auto simp: pa_inv_def)
  have reg: "PaUtil_GetRingBufferReadRegions rb (int n) = split_regions rb i (int m)"
    by (simp add: PaUtil_GetRingBufferReadRegions_def Let_def im pa_masks [OF inv] i_def)
  have len': "length (buffer rb) = pa_size rb * u" by (simp add: pa_length [OF inv] u_def)
  have u0: "0 < u" using b by (simp add: pa_unit_def u_def)
  have ml: "m * u \<le> length dst"
    using len by (rule order_trans [rotated]) (simp add: m_def u_def mult_le_mono1)
  have mN: "m * u \<le> length (buffer rb)"
    using mb by (simp add: len' pa_size_def mult_le_mono1 le_nat_iff)
  have iN: "nat i * u \<le> length (buffer rb)"
    using i by (simp add: len' pa_size_def mult_le_mono1 nat_le_iff)
  have sp: "(nat i * u + m * u \<le> length (buffer rb)) = (i + int m \<le> bufferSize rb)"
    using i b u0 by (simp add: len' pa_size_def flip: add_mult_distrib) (auto simp: le_nat_iff)
  have view: "take (n * u) (pa_contents rb) = ring_view (buffer rb) (nat i * u) (m * u)"
    by (simp add: pa_contents_def take_ring_view m_def u_def i_def nat_mult_min_left min.commute)
  have off: "nat (i * es) = nat i * u"
    using i by (simp add: es_def u_def pa_unit_def nat_mult_distrib)
  show ?thesis
  proof (cases "i + int m > bufferSize rb")
    case False
    then show ?thesis
      unfolding PaUtil_ReadRingBuffer_def reg m_def [symmetric] u_def [symmetric] view
      using pa_split [OF inv i _ mb] pa_bytes [OF inv _ mb] sp off adv
        ring_view_regions [OF iN mN]
      by (simp add: Let_def PaUtil_AdvanceRingBufferReadIndex_def pa_masks [OF inv] es_def u_def)
  next
    case True
    have b1: "nat (s32 ((bufferSize rb - i) * es)) = length (buffer rb) - nat i * u"
      using pa_bytes [OF inv, of "bufferSize rb - i"] i b
      by (simp add: es_def len' pa_size_def u_def nat_diff_distrib flip: diff_mult_distrib)
    have b2: "nat (s32 ((int m - (bufferSize rb - i)) * es)) = m * u - (length (buffer rb) - nat i * u)"
      using pa_bytes [OF inv, of "int m - (bufferSize rb - i)"] True mb i b
      by (simp add: es_def len' pa_size_def u_def nat_diff_distrib flip: diff_mult_distrib)
    define T where "T = take (m * u - (length (buffer rb) - nat i * u)) (buffer rb)"
    have "length (drop (nat i * u) (buffer rb)) + length T \<le> length dst"
      using ml iN mN sp True by (simp add: T_def)
    from memcpy_append [OF this]
    have cp: "memcpy (memcpy dst 0 (drop (nat i * u) (buffer rb))) (length (buffer rb) - nat i * u) T =
        memcpy dst 0 (drop (nat i * u) (buffer rb) @ T)" by simp
    show ?thesis
      unfolding PaUtil_ReadRingBuffer_def reg m_def [symmetric] u_def [symmetric] view
      using True pa_split [OF inv i _ mb] sp off adv b1 b2 ml iN mN
        ring_view_regions [OF iN mN] cp
      by (simp add: Let_def PaUtil_AdvanceRingBufferReadIndex_def pa_masks [OF inv] es_def T_def)
  qed
qed

lemma pa_get_spec:
  assumes inv: "pa_inv rb"
  shows "fst (pa_get rb n) = take (n * pa_unit rb) (pa_contents rb)"
    and "pa_inv (snd (pa_get rb n))" and "pa_unit (snd (pa_get rb n)) = pa_unit rb"
    and "pa_contents (snd (pa_get rb n)) = drop (n * pa_unit rb) (pa_contents rb)"
proof -
  note b = pa_inv_bounds [OF inv] and av = pa_read_available [OF inv]
  define m where "m = min (pa_avail rb) n"
  define N where "N = bufferSize rb"
  define rb' where "rb' = rb\<lparr>readIndex := (readIndex rb + int m) mod (2 * N)\<rparr>"
  define u where "u = pa_unit rb"
  have len: "n * u \<le> length (replicate (n * u) (0 :: 8 word))" by simp
  have lt: "length (take (n * u) (pa_contents rb)) = m * u"
    by (simp add: pa_contents_def m_def u_def nat_mult_min_left min.commute)
  have get: "pa_get rb n = (take (m * u) (memcpy (replicate (n * u) 0) 0 (take (n * u) (pa_contents rb))), rb')"
    using pa_read_eq [OF inv, of n "replicate (n * u) 0"]
    by (simp add: pa_get_def u_def m_def rb'_def N_def)
  have mu: "m * u \<le> n * u" by (simp add: m_def)
  have "take (m * u) (memcpy (replicate (n * u) 0) 0 T) = T" if "length T = m * u" for T :: "8 word list"
    using that mu by (simp add: memcpy_fits)
  from this [OF lt] show "fst (pa_get rb n) = take (n * pa_unit rb) (pa_contents rb)"
    by (simp add: get u_def)
  have neg: "(writeIndex rb - (readIndex rb + int m) mod (2 * N)) mod (2 * N) =
      (writeIndex rb - readIndex rb) mod (2 * N) - int m"
  proof -
    have "(writeIndex rb - (readIndex rb + int m) mod (2 * N)) mod (2 * N) =
        ((writeIndex rb - readIndex rb) mod (2 * N) - int m) mod (2 * N)"
      by (simp add: mod_diff_right_eq mod_diff_left_eq algebra_simps)
    also have "\<dots> = (writeIndex rb - readIndex rb) mod (2 * N) - int m"
      using av b by (intro mod_pos_pos_trivial) (auto simp: N_def m_def)
    finally show ?thesis .
  qed
  have inv': "pa_inv rb'"
    using inv b av neg by (auto simp: pa_inv_def rb'_def N_def)
  then show "pa_inv (snd (pa_get rb n))" by (simp add: get)
  show "pa_unit (snd (pa_get rb n)) = pa_unit rb" by (simp add: get rb'_def pa_unit_def)
  have av': "pa_avail rb' = pa_avail rb - m"
    using pa_read_available(1,4) [OF inv'] av(1,4) neg by (simp add: rb'_def N_def m_def)
  have "((readIndex rb + int m) mod (2 * N)) mod N = (readIndex rb + int m) mod N"
    by (rule mod_mod_cancel) simp
  then have "((readIndex rb + int m) mod (2 * N)) mod N mod N = (readIndex rb mod N + int m) mod N"
    by (simp add: mod_add_left_eq)
  then obtain j where "((readIndex rb + int m) mod (2 * N)) mod N = readIndex rb mod N + int m + j * N"
    by (metis mod_eqE mult.commute)
  moreover have "0 \<le> readIndex rb' mod N" "0 \<le> readIndex rb mod N" "0 \<le> N"
    using b by (simp_all add: N_def)
  ultimately have "int (nat (readIndex rb' mod N)) = int (nat (readIndex rb mod N) + m) + j * int (nat N)"
    by (simp only: int_nat_eq of_nat_add) (simp add: rb'_def)
  from shift_pos_mod [OF this, of u]
  have "nat (readIndex rb' mod N) * u mod length (buffer rb) =
      (nat (readIndex rb mod N) * u + m * u) mod length (buffer rb)"
    by (simp add: pa_length [OF inv] pa_size_def N_def u_def add_mult_distrib)
  then have "pa_contents rb' = ring_view (buffer rb) (nat (readIndex rb mod N) * u + m * u)
      ((pa_avail rb - m) * u)"
    using av' by (simp add: pa_contents_def rb'_def N_def u_def pa_unit_def) (rule ring_view_cong_mod)
  also have "\<dots> = drop (m * u) (pa_contents rb)"
    by (simp add: pa_contents_def drop_ring_view diff_mult_distrib N_def u_def)
  also have "\<dots> = drop (n * u) (pa_contents rb)"
    by (cases "n \<le> pa_avail rb") (simp_all add: m_def pa_contents_def u_def)
  finally show "pa_contents (snd (pa_get rb n)) = drop (n * pa_unit rb) (pa_contents rb)"
    by (simp add: get u_def)
qed

interpretation paq: bounded_fifo pa_inv pa_contents pa_unit pa_put pa_get pa_size
proof
  fix s :: PaUtilRingBuffer and n :: nat and xs :: "8 word list"
  assume inv: "pa_inv s"
  show "pa_inv (snd (pa_get s n))" "pa_unit (snd (pa_get s n)) = pa_unit s"
    "fst (pa_get s n) = take (n * pa_unit s) (pa_contents s)"
    "pa_contents (snd (pa_get s n)) = drop (n * pa_unit s) (pa_contents s)"
    using pa_get_spec [OF inv] by simp_all
  show u: "0 < pa_unit s" using pa_inv_bounds [OF inv] by (simp add: pa_unit_def)
  show "length (pa_contents s) \<le> pa_size s * pa_unit s"
    using pa_read_available(3,4) [OF inv] by (auto simp: pa_contents_def pa_size_def intro!: mult_le_mono1)
  assume len: "n * pa_unit s \<le> length xs"
  obtain m s' where res: "pa_put s xs n = (m, s')" by fastforce
  show "pa_inv (snd (pa_put s xs n))" "pa_unit (snd (pa_put s xs n)) = pa_unit s"
    "pa_contents (snd (pa_put s xs n)) = pa_contents s @ take (fst (pa_put s xs n) * pa_unit s) xs"
    "fst (pa_put s xs n) = min n (pa_size s - length (pa_contents s) div pa_unit s)"
    using pa_put_spec [OF inv len res] res u by (simp_all add: pa_contents_def)
qed

subsection \<open>Properties\<close>

text \<open>C14: the power-of-two ring buffer keeps FIFO order: for every sequence of reads and
  writes, the delivered bytes followed by what is left are the initial contents followed
  by the accepted bytes.\<close>

theorem pa_fifo_order:
  assumes "pa_inv rb" and "list_all (op_ok (pa_unit rb)) ops"
    and "fifo_run pa_put pa_get pa_unit rb ops = (acc, del, rb')"
  shows "pa_contents rb @ acc = del @ pa_contents rb' \<and> pa_inv rb'"
  using paq.run_order [OF assms] by simp

definition pa_example :: PaUtilRingBuffer where
  "pa_example = \<lparr>bufferSize = 2, writeIndex = 1, readIndex = 3, bigMask = 3, smallMask = 1,
     elementSizeBytes = 1, buffer = [5, 6]\<rparr>"

lemma pa_example_inv: "pa_inv pa_example"
proof -
  have "(2 :: int) = 2 ^ 1" by simp
  then have "\<exists>k. (2 :: int) = 2 ^ k" by blast
  then show ?thesis by (simp add: pa_inv_def pa_example_def)
qed

theorem pa_fifo_order_witness:
  "fifo_run pa_put pa_get pa_unit pa_example [Put [7] 1, Get 1, Put [8] 1] =
     ([8], [6], pa_example\<lparr>writeIndex := 2, readIndex := 0, buffer := [5, 8]\<rparr>) \<and>
   pa_contents pa_example @ [8] = [6] @ pa_contents
     (pa_example\<lparr>writeIndex := 2, readIndex := 0, buffer := [5, 8]\<rparr>)"
proof -
  have o: "list_all (op_ok (pa_unit pa_example)) [Put [7 :: 8 word] 1, Get 1, Put [8] 1]"
    by code_simp
  have r: "fifo_run pa_put pa_get pa_unit pa_example [Put [7] 1, Get 1, Put [8] 1] =
     ([8], [6], pa_example\<lparr>writeIndex := 2, readIndex := 0, buffer := [5, 8]\<rparr>)"
    by code_simp
  show ?thesis using r pa_fifo_order [OF pa_example_inv o r] by blast
qed

lemma initialize_pow2:
  assumes n: "0 < n" "n < 2 ^ 31"
  shows "fst (PaUtil_InitializeRingBuffer rb sz n dat) = 0 \<longleftrightarrow> (\<exists>k. n = 2 ^ k)"
proof -
  have "s32 (n - 1) = n - 1" using n by (intro s32_id) auto
  then show ?thesis
    using and_pred_0_iff [of n] n by (auto simp: PaUtil_InitializeRingBuffer_def)
qed

text \<open>\<open>PaUtil_InitializeRingBuffer\<close> on a positive power of two sets up an empty
  well-formed buffer of that many elements, ready for the contract of C7.\<close>

theorem PaUtil_InitializeRingBuffer_establishes:
  assumes "0 < sz" and "int (length dat) = 2 ^ k * sz" and "2 ^ k * sz < 536870912"
  shows "\<exists>rb'. PaUtil_InitializeRingBuffer rb sz (2 ^ k) dat = (0, rb')
      \<and> pa_inv rb' \<and> pa_contents rb' = [] \<and> pa_size rb' = 2 ^ k \<and> int (pa_unit rb') = sz"
proof -
  define n :: int where "n = 2 ^ k"
  have n0: "0 < n" by (simp add: n_def)
  have "n * 1 \<le> n * sz" using n0 assms(1) by (intro mult_left_mono) auto
  then have small: "n < 536870912" using assms(3) unfolding n_def by linarith
  have "fst (PaUtil_InitializeRingBuffer rb sz n dat) = 0"
    using initialize_pow2 [of n] n0 small n_def by auto
  then obtain rb' where i: "PaUtil_InitializeRingBuffer rb sz n dat = (0, rb')"
    by (metis prod.collapse)
  have s: "s32 (n - 1) = n - 1" "s32 (n * 2) = n * 2" "s32 (n * 2 - 1) = n * 2 - 1"
    using small n0 by (auto intro!: s32_id)
  have rb': "rb' = rb\<lparr>bufferSize := n, buffer := dat, writeIndex := 0, readIndex := 0,
      bigMask := n * 2 - 1, smallMask := n - 1, elementSizeBytes := sz\<rparr>"
    using i s by (simp add: PaUtil_InitializeRingBuffer_def PaUtil_FlushRingBuffer_def split: if_splits)
  have inv: "pa_inv rb'"
    using assms n0 unfolding pa_inv_def rb' n_def by auto
  moreover have "pa_avail rb' = 0"
    using pa_read_available(1,4) [OF inv] by (simp add: rb')
  ultimately have "pa_inv rb' \<and> pa_contents rb' = [] \<and> pa_size rb' = 2 ^ k \<and> int (pa_unit rb') = sz"
    using assms(1) by (simp add: pa_contents_def pa_size_def pa_unit_def) (simp add: rb' n_def nat_power_eq)
  then show ?thesis using i unfolding n_def by blast
qed

theorem PaUtil_InitializeRingBuffer_establishes_witness:
  "\<exists>rb'. PaUtil_InitializeRingBuffer pa_example 3 (2 ^ 2) (replicate 12 0) = (0, rb')
      \<and> pa_inv rb' \<and> pa_contents rb' = [] \<and> pa_size rb' = 2 ^ 2 \<and> int (pa_unit rb') = 3"
proof -
  have a: "(0 :: int) < 3" "int (length (replicate 12 (0 :: 8 word))) = 2 ^ 2 * 3"
    "(2 :: int) ^ 2 * 3 < 536870912" by simp_all
  show ?thesis by (rule PaUtil_InitializeRingBuffer_establishes [OF a])
qed

text \<open>C20: among the non-negative 32-bit element counts, \<open>PaUtil_InitializeRingBuffer\<close>
  accepts the powers of two, as documented, and also zero, which is not one: the
  documented -1 is not returned for it.\<close>

theorem PaUtil_InitializeRingBuffer_accepts:
  assumes "0 \<le> n" and "n < 2 ^ 31"
  shows "fst (PaUtil_InitializeRingBuffer rb sz n dat) = 0 \<longleftrightarrow> n = 0 \<or> (\<exists>k. n = 2 ^ k)"
proof (cases "n = 0")
  case True
  then show ?thesis by (simp add: PaUtil_InitializeRingBuffer_def)
next
  case False
  then show ?thesis using initialize_pow2 [of n rb sz dat] assms by auto
qed

theorem PaUtil_InitializeRingBuffer_accepts_witness:
  "fst (PaUtil_InitializeRingBuffer pa_example 1 0 []) = 0 \<longleftrightarrow> (0 :: int) = 0 \<or> (\<exists>k. (0 :: int) = 2 ^ k)"
  by (rule PaUtil_InitializeRingBuffer_accepts) simp_all

end
