(* ===== verification/SplMath.thy ===== *)
theory SplMath
  imports Prelude
begin

text \<open>
  The scalar part of the signal processing library
  (\<^verbatim>\<open>webrtc/common_audio/signal_processing\<close>): saturating arithmetic and
  normalisation of \<^verbatim>\<open>include/spl_inl.h\<close>, the divisions of
  \<^verbatim>\<open>division_operations.c\<close>, the integer square root of \<^verbatim>\<open>spl_sqrt_floor.c\<close>
  and the generators of \<^verbatim>\<open>randomization_functions.c\<close>, with the lemmas that say
  what each of them computes.
\<close>

subsection \<open>Macros of \<open>signal_processing_library.h\<close>\<close>

definition WEBRTC_SPL_MUL :: "int \<Rightarrow> int \<Rightarrow> int" where
  "WEBRTC_SPL_MUL a b = s32 (s32 a * s32 b)"

definition WEBRTC_SPL_MUL_16_16 :: "int \<Rightarrow> int \<Rightarrow> int" where
  "WEBRTC_SPL_MUL_16_16 a b = s32 (s16 a * s16 b)"

definition WEBRTC_SPL_MUL_16_16_RSFT :: "int \<Rightarrow> int \<Rightarrow> nat \<Rightarrow> int" where
  "WEBRTC_SPL_MUL_16_16_RSFT a b c = asr (WEBRTC_SPL_MUL_16_16 a b) c"

subsection \<open>Saturation\<close>

definition WEBRTC_SPL_SAT :: "int \<Rightarrow> int \<Rightarrow> int \<Rightarrow> int" where
  "WEBRTC_SPL_SAT a b c = (if b > a then a else if b < c then c else b)"

definition WebRtcSpl_SatW32ToW16 :: "int \<Rightarrow> int" where
  "WebRtcSpl_SatW32ToW16 value32 =
    (if value32 > 32767 then 32767 else if value32 < -32768 then -32768 else s16 value32)"

definition WebRtcSpl_AddSatW16 :: "int \<Rightarrow> int \<Rightarrow> int" where
  "WebRtcSpl_AddSatW16 a b = WebRtcSpl_SatW32ToW16 (s32 (a + b))"

definition WebRtcSpl_SubSatW16 :: "int \<Rightarrow> int \<Rightarrow> int" where
  "WebRtcSpl_SubSatW16 var1 var2 = WebRtcSpl_SatW32ToW16 (s32 (var1 - var2))"

definition WebRtcSpl_AddSatW32 :: "int \<Rightarrow> int \<Rightarrow> int" where
  "WebRtcSpl_AddSatW32 l_var1 l_var2 =
    (let l_sum = s32 (l_var1 + l_var2)
     in if l_var1 < 0 then (if l_var2 < 0 \<and> l_sum \<ge> 0 then s32 0x80000000 else l_sum)
        else (if l_var2 > 0 \<and> l_sum < 0 then 0x7FFFFFFF else l_sum))"

definition WebRtcSpl_SubSatW32 :: "int \<Rightarrow> int \<Rightarrow> int" where
  "WebRtcSpl_SubSatW32 l_var1 l_var2 =
    (let l_diff = s32 (l_var1 - l_var2)
     in if l_var1 < 0 then (if l_var2 > 0 \<and> l_diff > 0 then s32 0x80000000 else l_diff)
        else (if l_var2 < 0 \<and> l_diff < 0 then 0x7FFFFFFF else l_diff))"

subsection \<open>Bit sizes and normalisation\<close>

text \<open>
  One line \<open>if (mask & (n >> bits)) bits += s\<close> of \<open>WebRtcSpl_GetSizeInBits\<close> and one
  line \<open>if (!(mask & (a << zeros))) zeros += s\<close> of the \<open>Norm\<close> functions.
\<close>

definition size_step :: "int \<Rightarrow> nat \<Rightarrow> int \<Rightarrow> nat \<Rightarrow> nat" where
  "size_step m s n bits = (if m AND drop_bit bits n \<noteq> 0 then bits + s else bits)"

definition WebRtcSpl_GetSizeInBits :: "int \<Rightarrow> nat" where
  "WebRtcSpl_GetSizeInBits n =
    (let bits = (if 0xFFFF0000 AND n \<noteq> 0 then 16 else 0);
         bits = size_step 0x0000FF00 8 n bits;
         bits = size_step 0x000000F0 4 n bits;
         bits = size_step 0x0000000C 2 n bits;
         bits = size_step 0x00000002 1 n bits
     in size_step 0x00000001 1 n bits)"

definition norm_step :: "int \<Rightarrow> nat \<Rightarrow> int \<Rightarrow> nat \<Rightarrow> nat" where
  "norm_step m s a zeros = (if m AND u32 (shl a zeros) = 0 then zeros + s else zeros)"

definition WebRtcSpl_NormW32 :: "int \<Rightarrow> nat" where
  "WebRtcSpl_NormW32 a =
    (if a = 0 then 0
     else let a = (if a < 0 then not a else a);
              zeros = norm_step 0xFFFF8000 16 a 0;
              zeros = norm_step 0xFF800000 8 a zeros;
              zeros = norm_step 0xF8000000 4 a zeros;
              zeros = norm_step 0xE0000000 2 a zeros
          in norm_step 0xC0000000 1 a zeros)"

definition WebRtcSpl_NormU32 :: "int \<Rightarrow> nat" where
  "WebRtcSpl_NormU32 a =
    (if a = 0 then 0
     else let zeros = norm_step 0xFFFF0000 16 a 0;
              zeros = norm_step 0xFF000000 8 a zeros;
              zeros = norm_step 0xF0000000 4 a zeros;
              zeros = norm_step 0xC0000000 2 a zeros
          in norm_step 0x80000000 1 a zeros)"

definition WebRtcSpl_NormW16 :: "int \<Rightarrow> nat" where
  "WebRtcSpl_NormW16 a =
    (if a = 0 then 0
     else let a = (if a < 0 then not a else a);
              zeros = norm_step 0xFF80 8 a 0;
              zeros = norm_step 0xF800 4 a zeros;
              zeros = norm_step 0xE000 2 a zeros
          in norm_step 0xC000 1 a zeros)"

subsection \<open>Division\<close>

definition WebRtcSpl_DivU32U16 :: "int \<Rightarrow> int \<Rightarrow> int" where
  "WebRtcSpl_DivU32U16 num den = (if den \<noteq> 0 then num div den else 0xFFFFFFFF)"

definition WebRtcSpl_DivW32W16 :: "int \<Rightarrow> int \<Rightarrow> int" where
  "WebRtcSpl_DivW32W16 num den = (if den \<noteq> 0 then s32 (num sdiv den) else 0x7FFFFFFF)"

definition WebRtcSpl_DivW32W16ResW16 :: "int \<Rightarrow> int \<Rightarrow> int" where
  "WebRtcSpl_DivW32W16ResW16 num den = (if den \<noteq> 0 then s16 (num sdiv den) else 0x7FFF)"

primrec div_q31_loop :: "nat \<Rightarrow> int \<Rightarrow> int \<Rightarrow> int \<Rightarrow> int" where
  "div_q31_loop 0 L_den L_num quot = quot"
| "div_q31_loop (Suc k) L_den L_num quot =
    (let quot = s32 (shl quot 1); L_num = s32 (shl L_num 1)
     in if L_num \<ge> L_den then div_q31_loop k L_den (s32 (L_num - L_den)) (s32 (quot + 1))
        else div_q31_loop k L_den L_num quot)"

definition WebRtcSpl_DivResultInQ31 :: "int \<Rightarrow> int \<Rightarrow> int" where
  "WebRtcSpl_DivResultInQ31 num den =
    (if num = 0 then 0
     else let L_num = (if num < 0 then s32 (- num) else num);
              L_den = (if den < 0 then s32 (- den) else den);
              change_sign = (if num < 0 then 1 else 0) + (if den < 0 then 1 else (0 :: nat));
              quot = div_q31_loop 31 L_den L_num 0
          in if change_sign = 1 then s32 (- quot) else quot)"

definition WebRtcSpl_DivW32HiLow :: "int \<Rightarrow> int \<Rightarrow> int \<Rightarrow> int" where
  "WebRtcSpl_DivW32HiLow num den_hi den_low =
    (let approx = s16 (WebRtcSpl_DivW32W16 0x1FFFFFFF den_hi);
         tmpW32 = s32 (s32 (shl (WEBRTC_SPL_MUL_16_16 den_hi approx) 1)
                    + s32 (shl (asr (WEBRTC_SPL_MUL_16_16 den_low approx) 15) 1));
         tmpW32 = s32 (0x7fffffff - tmpW32);
         tmp_hi = s16 (asr tmpW32 16);
         tmp_low = s16 (asr (s32 (tmpW32 - s32 (shl tmp_hi 16))) 1);
         tmpW32 = s32 (shl (s32 (WEBRTC_SPL_MUL_16_16 tmp_hi approx
                    + asr (WEBRTC_SPL_MUL_16_16 tmp_low approx) 15)) 1);
         tmp_hi = s16 (asr tmpW32 16);
         tmp_low = s16 (asr (s32 (tmpW32 - s32 (shl tmp_hi 16))) 1);
         num_hi = s16 (asr num 16);
         num_low = s16 (asr (s32 (num - s32 (shl num_hi 16))) 1);
         tmpW32 = s32 (s32 (WEBRTC_SPL_MUL_16_16 num_hi tmp_hi
                    + asr (WEBRTC_SPL_MUL_16_16 num_hi tmp_low) 15)
                    + asr (WEBRTC_SPL_MUL_16_16 num_low tmp_hi) 15)
     in s32 (shl tmpW32 3))"

subsection \<open>Integer square root\<close>

text \<open>The macro \<open>WEBRTC_SPL_SQRT_ITER(N)\<close> on the pair of variables \<open>value\<close>, \<open>root\<close>.\<close>

definition WEBRTC_SPL_SQRT_ITER :: "nat \<Rightarrow> int \<times> int \<Rightarrow> int \<times> int" where
  "WEBRTC_SPL_SQRT_ITER N = (\<lambda>(value, root).
    let try1 = s32 (root + shl 1 N)
    in if value \<ge> s32 (shl try1 N)
       then (s32 (value - s32 (shl try1 N)), root OR shl 2 N)
       else (value, root))"

definition WebRtcSpl_SqrtFloor :: "int \<Rightarrow> int" where
  "WebRtcSpl_SqrtFloor value =
    (let (_, root) = fold WEBRTC_SPL_SQRT_ITER
           [15, 14, 13, 12, 11, 10, 9, 8, 7, 6, 5, 4, 3, 2, 1, 0] (value, 0)
     in asr root 1)"

subsection \<open>Pseudo random numbers\<close>

definition kMaxSeedUsed :: int where
  "kMaxSeedUsed = 0x80000000"

definition kRandNTable :: "int list" where
  "kRandNTable = [
    9178, -7260, 40, 10189, 4894, -3531, -13779, 14764, -4008, -8884, -8990, 1008, 7368, 5184,
    3251, -5817, -9786, 5963, 1770, 8066, -7135, 10772, -2298, 1361, 6484, 2241, -8633, 792,
    199, -3344, 6553, -10079, -15040, 95, 11608, -12469, 14161, -4176, 2476, 6403, 13685, -16005,
    6646, 2239, 10916, -3004, -602, -3141, 2142, 14144, -5829, 5305, 8209, 4713, 2697, -5112,
    16092, -1210, -2891, -6631, -5360, -11878, -6781, -2739, -6392, 536, 10923, 10872, 5059, -4748,
    -7770, 5477, 38, -1025, -2892, 1638, 6304, 14375, -11028, 1553, -1565, 10762, -393, 4040,
    5257, 12310, 6554, -4799, 4899, -6354, 1603, -1048, -2220, 8247, -186, -8944, -12004, 2332,
    4801, -4933, 6371, 131, 8614, -5927, -8287, -22760, 4033, -15162, 3385, 3246, 3153, -5250,
    3766, 784, 6494, -62, 3531, -1582, 15572, 662, -3952, -330, -3196, 669, 7236, -2678,
    -6569, 23319, -8645, -741, 14830, -15976, 4903, 315, -11342, 10311, 1858, -7777, 2145, 5436,
    5677, -113, -10033, 826, -1353, 17210, 7768, 986, -1471, 8291, -4982, 8207, -14911, -6255,
    -2449, -11881, -7059, -11703, -4338, 8025, 7538, -2823, -12490, 9470, -1613, -2529, -10092, -7807,
    9480, 6970, -12844, 5123, 3532, 4816, 4803, -8455, -5045, 14032, -4378, -1643, 5756, -11041,
    -2732, -16618, -6430, -18375, -3320, 6098, 5131, -4269, -8840, 2482, -7048, 1547, -21890, -6505,
    -7414, -424, -11722, 7955, 1653, -17299, 1823, 473, -9232, 3337, 1111, 873, 4018, -8982,
    9889, 3531, -11763, -3799, 7373, -4539, 3231, 7054, -8537, 7616, 6244, 16635, 447, -2915,
    13967, 705, -2669, -1520, -1771, -16188, 5956, 5117, 6371, -9936, -1448, 2480, 5128, 7550,
    -8130, 5236, 8213, -6443, 7707, -1950, -13811, 7218, 7031, -3883, 67, 5731, -2874, 13480,
    -3743, 9298, -3280, 3552, -4425, -18, -3785, -9988, -5357, 5477, -11794, 2117, 1416, -9935,
    3376, 802, -5079, -8243, 12652, 66, 3653, -2368, 6781, -21895, -7227, 2487, 7839, -385,
    6646, -7016, -4658, 5531, -1705, 834, 129, 3694, -1343, 2238, -22640, -6417, -11139, 11301,
    -2945, -3494, -5626, 185, -3615, -2041, -7972, -3106, -60, -23497, -1566, 17064, 3519, 2518,
    304, -6805, -10269, 2105, 1936, -426, -736, -8122, -1467, 4238, -6939, -13309, 360, 7402,
    -7970, 12576, 3287, 12194, -6289, -16006, 9171, 4042, -9193, 9123, -2512, 6388, -4734, -8739,
    1028, -5406, -1696, 5889, -666, -4736, 4971, 3565, 9362, -6292, 3876, -3652, -19666, 7523,
    -4061, 391, -11773, 7502, -3763, 4929, -9478, 13278, 2805, 4496, 7814, 16419, 12455, -14773,
    2127, -2746, 3763, 4847, 3698, 6978, 4751, -6957, -3581, -45, 6252, 1513, -4797, -7925,
    11270, 16188, -2359, -5269, 9376, -10777, 7262, 20031, -6515, -2208, -5353, 8085, -1341, -1303,
    7333, 5576, 3625, 5763, -7931, 9833, -3371, -10305, 6534, -13539, -9971, 997, 8464, -4064,
    -1495, 1857, 13624, 5458, 9490, -11086, -4524, 12022, -550, -198, 408, -8455, -7068, 10289,
    9712, -3366, 9028, -7621, -5243, 2362, 6909, 4672, -4933, -1799, 4709, -4563, -62, -566,
    1624, -7010, 14730, -17791, -3697, -2344, -1741, 7099, -9509, -6855, -1989, 3495, -2289, 2031,
    12784, 891, 14189, -3963, -5683, 421, -12575, 1724, -12682, -5970, -8169, 3143, -1824, -5488,
    -5130, 8536, 12799, 794, 5738, 3459, -11689, -258, -3738, -3775, -8742, 2333, 8312, -9383,
    10331, 13119, 8398, 10644, -19433, -6446, -16277, -11793, 16284, 9345, 15222, 15834, 2009, -7349,
    130, -14547, 338, -5998, 3337, 21492, 2406, 7703, -951, 11196, -564, 3406, 2217, 4806,
    2374, -5797, 11839, 8940, -11874, 18213, 2855, 10492]"

definition IncreaseSeed :: "int \<Rightarrow> int" where
  "IncreaseSeed seed = u32 (seed * 69069 + 1) AND (kMaxSeedUsed - 1)"

definition WebRtcSpl_RandU :: "int \<Rightarrow> int \<times> int" where
  "WebRtcSpl_RandU seed = (let seed = IncreaseSeed seed in (s16 (drop_bit 16 seed), seed))"

definition WebRtcSpl_RandN :: "int \<Rightarrow> int \<times> int" where
  "WebRtcSpl_RandN seed = (let seed = IncreaseSeed seed in (kRandNTable ! nat (drop_bit 23 seed), seed))"

primrec rand_u_loop :: "nat \<Rightarrow> int \<Rightarrow> int list \<times> int" where
  "rand_u_loop 0 seed = ([], seed)"
| "rand_u_loop (Suc n) seed =
    (let (x, seed) = WebRtcSpl_RandU seed; (xs, seed) = rand_u_loop n seed in (x # xs, seed))"

definition WebRtcSpl_RandUArray :: "int list \<Rightarrow> int \<Rightarrow> int \<Rightarrow> int \<times> int list \<times> int" where
  "WebRtcSpl_RandUArray vector vector_length seed =
    (let (xs, seed) = rand_u_loop (nat vector_length) seed
     in (vector_length, memcpy vector 0 xs, seed))"

subsection \<open>Normalisation\<close>

text \<open>\<open>a\<close> shifted by \<open>z\<close> lies between \<open>2 ^ j\<close> and \<open>2 ^ t\<close>.\<close>

definition normed :: "nat \<Rightarrow> nat \<Rightarrow> int \<Rightarrow> nat \<Rightarrow> bool" where
  "normed t j a z \<longleftrightarrow> 0 < a \<and> 2 ^ j \<le> a * 2 ^ z \<and> a * 2 ^ z < 2 ^ t"

lemma norm_step_ok:
  assumes a: "normed t j a z"
    and m: "m = 2 ^ M - 2 ^ k" and k: "t = k + s" "k \<le> j + s" "t \<le> M" "M \<le> 32"
  shows "normed t k a (norm_step m s a z)"
proof -
  define x where "x = a * 2 ^ z"
  have x: "0 \<le> x" "x < 2 ^ t" "2 ^ j \<le> x" using a by (simp_all add: x_def normed_def)
  have "(2 :: int) ^ t \<le> 2 ^ M" "(2 :: int) ^ M \<le> 2 ^ 32" using k by (simp_all only: power_increasing one_le_numeral)
  with x have xM: "x < 2 ^ M" "x < 2 ^ 32" by linarith+
  have test: "m AND u32 (shl a z) = 0 \<longleftrightarrow> x < 2 ^ k"
    using high_mask_eq_0 [of x M k] x xM k by (simp add: shl_mult u32_id x_def m)
  have e: "a * 2 ^ norm_step m s a z = (if x < 2 ^ k then x * 2 ^ s else x)"
    by (simp add: norm_step_def test x_def power_add)
  have "(2 :: int) ^ k \<le> 2 ^ (j + s)" using k(2) by (simp only: power_increasing one_le_numeral)
  also have "\<dots> \<le> x * 2 ^ s" using x(3) by (simp add: power_add)
  finally have "2 ^ k \<le> x * 2 ^ s" .
  then show ?thesis
    using x a k(1) unfolding normed_def e by (auto simp: power_add)
qed

lemma norm_w32_normed:
  assumes "0 < a" "a < 2147483648"
  shows "normed 31 30 a (WebRtcSpl_NormW32 a)"
proof -
  have "normed 31 0 a 0" using assms by (simp add: normed_def)
  then have "normed 31 15 a (norm_step 0xFFFF8000 16 a 0)"
    by (rule norm_step_ok [where M = 32]) simp_all
  then have "normed 31 23 a (norm_step 0xFF800000 8 a (norm_step 0xFFFF8000 16 a 0))"
    by (rule norm_step_ok [where M = 32]) simp_all
  then have "normed 31 27 a (norm_step 0xF8000000 4 a (norm_step 0xFF800000 8 a
      (norm_step 0xFFFF8000 16 a 0)))"
    by (rule norm_step_ok [where M = 32]) simp_all
  then have "normed 31 29 a (norm_step 0xE0000000 2 a (norm_step 0xF8000000 4 a
      (norm_step 0xFF800000 8 a (norm_step 0xFFFF8000 16 a 0))))"
    by (rule norm_step_ok [where M = 32]) simp_all
  then have "normed 31 30 a (norm_step 0xC0000000 1 a (norm_step 0xE0000000 2 a
      (norm_step 0xF8000000 4 a (norm_step 0xFF800000 8 a (norm_step 0xFFFF8000 16 a 0)))))"
    by (rule norm_step_ok [where M = 32]) simp_all
  then show ?thesis using assms by (simp add: WebRtcSpl_NormW32_def Let_def)
qed

lemma norm_u32_normed:
  assumes "0 < a" "a < 4294967296"
  shows "normed 32 31 a (WebRtcSpl_NormU32 a)"
proof -
  have "normed 32 0 a 0" using assms by (simp add: normed_def)
  then have "normed 32 16 a (norm_step 0xFFFF0000 16 a 0)"
    by (rule norm_step_ok [where M = 32]) simp_all
  then have "normed 32 24 a (norm_step 0xFF000000 8 a (norm_step 0xFFFF0000 16 a 0))"
    by (rule norm_step_ok [where M = 32]) simp_all
  then have "normed 32 28 a (norm_step 0xF0000000 4 a (norm_step 0xFF000000 8 a
      (norm_step 0xFFFF0000 16 a 0)))"
    by (rule norm_step_ok [where M = 32]) simp_all
  then have "normed 32 30 a (norm_step 0xC0000000 2 a (norm_step 0xF0000000 4 a
      (norm_step 0xFF000000 8 a (norm_step 0xFFFF0000 16 a 0))))"
    by (rule norm_step_ok [where M = 32]) simp_all
  then have "normed 32 31 a (norm_step 0x80000000 1 a (norm_step 0xC0000000 2 a
      (norm_step 0xF0000000 4 a (norm_step 0xFF000000 8 a (norm_step 0xFFFF0000 16 a 0)))))"
    by (rule norm_step_ok [where M = 32]) simp_all
  then show ?thesis using assms by (simp add: WebRtcSpl_NormU32_def Let_def)
qed

lemma norm_w16_normed:
  assumes "0 < a" "a < 32768"
  shows "normed 15 14 a (WebRtcSpl_NormW16 a)"
proof -
  have "normed 15 0 a 0" using assms by (simp add: normed_def)
  then have "normed 15 7 a (norm_step 0xFF80 8 a 0)"
    by (rule norm_step_ok [where M = 16]) simp_all
  then have "normed 15 11 a (norm_step 0xF800 4 a (norm_step 0xFF80 8 a 0))"
    by (rule norm_step_ok [where M = 16]) simp_all
  then have "normed 15 13 a (norm_step 0xE000 2 a (norm_step 0xF800 4 a (norm_step 0xFF80 8 a 0)))"
    by (rule norm_step_ok [where M = 16]) simp_all
  then have "normed 15 14 a (norm_step 0xC000 1 a (norm_step 0xE000 2 a
      (norm_step 0xF800 4 a (norm_step 0xFF80 8 a 0))))"
    by (rule norm_step_ok [where M = 16]) simp_all
  then show ?thesis using assms by (simp add: WebRtcSpl_NormW16_def Let_def)
qed

lemma norm_w32_neg: "a < -1 \<Longrightarrow> WebRtcSpl_NormW32 a = WebRtcSpl_NormW32 (not a)"
  by (simp add: WebRtcSpl_NormW32_def not_int_def Let_def)

lemma norm_w16_neg: "a < -1 \<Longrightarrow> WebRtcSpl_NormW16 a = WebRtcSpl_NormW16 (not a)"
  by (simp add: WebRtcSpl_NormW16_def not_int_def Let_def)

lemma norm_neg_range:
  assumes "normed (Suc j) j (- a - 1) z"
  shows "- (2 ^ Suc j) \<le> a * 2 ^ z" and "a * 2 ^ z < - (2 ^ j)"
proof -
  define b where "b = - a - 1"
  have b: "0 < b" "2 ^ j \<le> b * 2 ^ z" "b * 2 ^ z < 2 ^ Suc j"
    using assms unfolding normed_def b_def by blast+
  have a: "a * 2 ^ z = - (b * 2 ^ z) - 2 ^ z" by (simp add: b_def algebra_simps)
  show "a * 2 ^ z < - (2 ^ j)" using b(2) a zero_less_power [of "2 :: int" z] by linarith
  have "1 * 2 ^ z \<le> b * 2 ^ z" using b(1) by (intro mult_right_mono) simp_all
  then have "(2 :: int) ^ z < 2 ^ Suc j" using b(3) by linarith
  then have z: "z \<le> Suc j" by (metis less_imp_le_nat power_increasing one_le_numeral linorder_not_le)
  have p: "(2 :: int) ^ Suc j = 2 ^ (Suc j - z) * 2 ^ z"
    using z by (metis le_add_diff_inverse2 power_add)
  then have "b < 2 ^ (Suc j - z)" using b(3) by simp
  then have "(b + 1) * 2 ^ z \<le> 2 ^ (Suc j - z) * 2 ^ z" by (intro mult_right_mono) simp_all
  then show "- (2 ^ Suc j) \<le> a * 2 ^ z" using p by (simp add: b_def algebra_simps)
qed

lemma size_step_ok:
  assumes b: "0 \<le> n" "2 ^ b \<le> n" "n < 2 ^ (b + t)" and m: "m = 2 ^ t - 2 ^ k" and k: "t = 2 * k"
  shows "2 ^ size_step m k n b \<le> n" and "n < 2 ^ (size_step m k n b + k)"
proof -
  have d: "0 \<le> drop_bit b n" "drop_bit b n < 2 ^ t"
    using b by (simp_all add: drop_bit_eq_div power_add div_pos_less pos_imp_zdiv_nonneg_iff)
  have "drop_bit b n < 2 ^ k \<longleftrightarrow> n < 2 ^ (b + k)"
    by (simp add: drop_bit_eq_div power_add div_pos_less)
  then have test: "m AND drop_bit b n \<noteq> 0 \<longleftrightarrow> 2 ^ (b + k) \<le> n"
    using high_mask_eq_0 [OF d, of k] k by (auto simp: m)
  show "2 ^ size_step m k n b \<le> n" "n < 2 ^ (size_step m k n b + k)"
    using b k test by (auto simp: size_step_def add.assoc mult_2)
qed

lemma GetSizeInBits_pos:
  assumes "0 < n" "n < 4294967296"
  shows "0 < WebRtcSpl_GetSizeInBits n" and "2 ^ (WebRtcSpl_GetSizeInBits n - 1) \<le> n"
    and "n < 2 ^ WebRtcSpl_GetSizeInBits n"
proof -
  define b0 where "b0 = size_step 0xFFFF0000 16 n 0"
  define b1 where "b1 = size_step 0x0000FF00 8 n b0"
  define b2 where "b2 = size_step 0x000000F0 4 n b1"
  define b3 where "b3 = size_step 0x0000000C 2 n b2"
  define b4 where "b4 = size_step 0x00000002 1 n b3"
  have i: "0 \<le> n" "2 ^ 0 \<le> n" "n < 2 ^ (0 + 32)" using assms by simp_all
  have b0: "2 ^ b0 \<le> n" "n < 2 ^ (b0 + 16)"
    unfolding b0_def by (rule size_step_ok [OF i]; simp)+
  have b1: "2 ^ b1 \<le> n" "n < 2 ^ (b1 + 8)"
    unfolding b1_def by (rule size_step_ok [OF i(1) b0]; simp)+
  have b2: "2 ^ b2 \<le> n" "n < 2 ^ (b2 + 4)"
    unfolding b2_def by (rule size_step_ok [OF i(1) b1]; simp)+
  have b3: "2 ^ b3 \<le> n" "n < 2 ^ (b3 + 2)"
    unfolding b3_def by (rule size_step_ok [OF i(1) b2]; simp)+
  have b4: "2 ^ b4 \<le> n" "n < 2 ^ (b4 + 1)"
    unfolding b4_def by (rule size_step_ok [OF i(1) b3]; simp)+
  have "n div 2 ^ b4 = 1"
    using b4 by (intro int_div_pos_eq [where r = "n - 2 ^ b4"]) simp_all
  then have "size_step 1 1 n b4 = Suc b4"
    by (simp add: size_step_def drop_bit_eq_div)
  moreover have "WebRtcSpl_GetSizeInBits n = size_step 1 1 n b4"
    unfolding WebRtcSpl_GetSizeInBits_def Let_def b0_def b1_def b2_def b3_def b4_def
    by (simp only: size_step_def [of _ _ _ 0] drop_bit_0 id_apply add_0)
  ultimately show "0 < WebRtcSpl_GetSizeInBits n" "2 ^ (WebRtcSpl_GetSizeInBits n - 1) \<le> n"
    "n < 2 ^ WebRtcSpl_GetSizeInBits n" using b4 by simp_all
qed

lemma GetSizeInBits_0 [simp]: "WebRtcSpl_GetSizeInBits 0 = 0"
  by (simp add: WebRtcSpl_GetSizeInBits_def size_step_def)

lemma GetSizeInBits_upper: "0 \<le> n \<Longrightarrow> n < 4294967296 \<Longrightarrow> n < 2 ^ WebRtcSpl_GetSizeInBits n"
  using GetSizeInBits_pos(3) [of n] by (cases "n = 0") auto

definition clamp16 :: "int \<Rightarrow> int" where
  "clamp16 x = max (- 32768) (min 32767 x)"

lemma SatW32ToW16_clamp16: "WebRtcSpl_SatW32ToW16 x = clamp16 x" "is16 (clamp16 x)"
  by (auto simp: WebRtcSpl_SatW32ToW16_def clamp16_def is16_def s16_id)

lemma SatW32ToW16_clamp: "WebRtcSpl_SatW32ToW16 x = max (-32768) (min 32767 x)"
  by (auto simp: WebRtcSpl_SatW32ToW16_def s16_id max_def min_def)

lemma AddSatW32_clamp:
  assumes "is32 a" "is32 b"
  shows "WebRtcSpl_AddSatW32 a b = max (-2147483648) (min 2147483647 (a + b))"
  using assms by (auto simp: is32_def WebRtcSpl_AddSatW32_def Let_def s32_cases max_def min_def)

lemma SubSatW32_clamp:
  assumes "is32 a" "is32 b"
  shows "WebRtcSpl_SubSatW32 a b = max (-2147483648) (min 2147483647 (a - b))"
  using assms by (auto simp: is32_def WebRtcSpl_SubSatW32_def Let_def s32_cases max_def min_def)

lemma is16_mul: "is16 a \<Longrightarrow> is16 b \<Longrightarrow> \<bar>a * b\<bar> \<le> 1073741824"
proof -
  assume "is16 a" "is16 b"
  then have "\<bar>a\<bar> \<le> 32768" "\<bar>b\<bar> \<le> 32768" by (auto simp: is16_def)
  then have "\<bar>a\<bar> * \<bar>b\<bar> \<le> 32768 * 32768" by (intro mult_mono) simp_all
  then show ?thesis by (simp add: abs_mult)
qed

lemma MUL_16_16_exact: "is16 a \<Longrightarrow> is16 b \<Longrightarrow> WEBRTC_SPL_MUL_16_16 a b = a * b"
  using is16_mul [of a b] by (simp add: WEBRTC_SPL_MUL_16_16_def s32_id)

lemma AddSatW16_clamp:
  assumes "is16 a" "is16 b"
  shows "WebRtcSpl_AddSatW16 a b = max (-32768) (min 32767 (a + b))"
    and "WebRtcSpl_SubSatW16 a b = max (-32768) (min 32767 (a - b))"
  using assms by (simp_all add: is16_def WebRtcSpl_AddSatW16_def WebRtcSpl_SubSatW16_def s32_id SatW32ToW16_clamp)

subsection \<open>The square root loop\<close>

text \<open>After the iterations down to \<open>n\<close>: \<open>root\<close> is twice a multiple \<open>r\<close> of \<open>2 ^ n\<close> with
  \<open>r\<^sup>2 \<le> v < (r + 2 ^ n)\<^sup>2\<close>, and \<open>value\<close> holds the remainder.\<close>

definition sqrt_inv :: "int \<Rightarrow> nat \<Rightarrow> int \<times> int \<Rightarrow> bool" where
  "sqrt_inv v n = (\<lambda>(value, root). \<exists>m. 0 \<le> m \<and> root = 2 * (m * 2 ^ n)
     \<and> value = v - (m * 2 ^ n)\<^sup>2 \<and> 0 \<le> value \<and> v < (m * 2 ^ n + 2 ^ n)\<^sup>2)"

lemma sqrt_iter_inv:
  assumes inv: "sqrt_inv v (Suc n) st" and v: "v < 2147483648" and n: "n \<le> 14"
  shows "sqrt_inv v n (WEBRTC_SPL_SQRT_ITER n st)"
proof -
  obtain val root where st: "st = (val, root)" by (cases st)
  obtain m where m: "0 \<le> m" "root = 2 * (m * 2 ^ Suc n)" "val = v - (m * 2 ^ Suc n)\<^sup>2"
      "0 \<le> val" "v < (m * 2 ^ Suc n + 2 ^ Suc n)\<^sup>2"
    using inv by (auto simp: sqrt_inv_def st)
  define r where "r = m * 2 ^ Suc n"
  define p where "p = (2 :: int) ^ n"
  have p: "0 < p" "p \<le> 16384"
    using n power_increasing [of n 14 "2 :: int"] by (simp_all add: p_def)
  have r0: "0 \<le> r" using m(1) by (simp add: r_def)
  have rt: "root = 2 * r" and vl: "val = v - r\<^sup>2" and up: "v < (r + 2 * p)\<^sup>2"
    using m(2,3,5) by (simp_all add: r_def p_def)
  have "r < 46341"
  proof (rule ccontr)
    assume "\<not> r < 46341"
    then have "46341 * 46341 \<le> r * r" by (intro mult_mono) simp_all
    with m(3,4) v show False by (simp add: r_def power2_eq_square)
  qed
  then have "(2 * r + p) * p \<le> (92680 + 16384) * 16384"
    using p r0 by (intro mult_mono) simp_all
  then have tr: "(2 * r + p) * p \<le> 1786904576" "0 \<le> (2 * r + p) * p" "2 * r + p \<le> 2147483647"
    using p r0 \<open>r < 46341\<close> by simp_all
  have try1: "s32 (root + shl 1 n) = 2 * r + p"
    using tr p r0 s32_id [of "2 * r + p"] by (simp add: rt shl_mult flip: p_def)
  have sq: "(r + p)\<^sup>2 = r\<^sup>2 + (2 * r + p) * p" by (simp add: power2_eq_square algebra_simps)
  have or: "root OR shl 2 n = 2 * (r + p)"
    using or_power2 [of m "Suc n"] unfolding rt r_def p_def by (simp add: shl_mult algebra_simps)
  have it: "WEBRTC_SPL_SQRT_ITER n st = (if val \<ge> (2 * r + p) * p then (val - (2 * r + p) * p, 2 * (r + p)) else (val, 2 * r))"
  proof -
    have "s32 (shl (2 * r + p) n) = (2 * r + p) * p"
      using tr s32_id [of "(2 * r + p) * p"] by (simp add: shl_mult flip: p_def)
    moreover have "(2 * r + p) * p \<le> val \<Longrightarrow> s32 (val - (2 * r + p) * p) = val - (2 * r + p) * p"
      using tr(2) v vl zero_le_power2 [of r] by (intro s32_id) linarith+
    ultimately show ?thesis
      using or rt unfolding st WEBRTC_SPL_SQRT_ITER_def Let_def case_prod_conv try1 by simp
  qed
  show ?thesis
  proof (cases "val \<ge> (2 * r + p) * p")
    case True
    have "\<exists>k. 0 \<le> k \<and> r + p = k * p"
      by (rule exI [of _ "2 * m + 1"]) (use m(1) in \<open>simp add: r_def p_def algebra_simps\<close>)
    then obtain k where k: "0 \<le> k" "r + p = k * p" by blast
    have "v < (k * p + p)\<^sup>2" using up by (simp add: algebra_simps flip: k(2))
    then show ?thesis
      using True it k vl sq unfolding sqrt_inv_def p_def [symmetric]
      by (auto intro!: exI [of _ k])
  next
    case False
    have "\<exists>k. 0 \<le> k \<and> r = k * p"
      by (rule exI [of _ "2 * m"]) (use m(1) in \<open>simp add: r_def p_def algebra_simps\<close>)
    then obtain k where k: "0 \<le> k" "r = k * p" by blast
    have "v < (k * p + p)\<^sup>2" using False vl sq by (simp flip: k(2))
    then show ?thesis
      using False it k vl m(4) unfolding sqrt_inv_def p_def [symmetric]
      by (auto intro!: exI [of _ k])
  qed
qed

lemma sqrt_iter_15:
  assumes "0 \<le> v" "v < 2147483648"
  shows "sqrt_inv v 15 (WEBRTC_SPL_SQRT_ITER 15 (v, 0))"
proof (cases "v \<ge> 1073741824")
  case True
  then have "WEBRTC_SPL_SQRT_ITER 15 (v, 0) = (v - 1073741824, 65536)"
    using assms by (simp add: WEBRTC_SPL_SQRT_ITER_def shl_mult s32_id)
  then show ?thesis using True assms by (auto simp: sqrt_inv_def intro!: exI [of _ 1])
next
  case False
  then have "WEBRTC_SPL_SQRT_ITER 15 (v, 0) = (v, 0)"
    by (simp add: WEBRTC_SPL_SQRT_ITER_def shl_mult s32_id)
  then show ?thesis using False assms by (auto simp: sqrt_inv_def intro!: exI [of _ 0])
qed

lemma sqrt_iters_inv:
  "sqrt_inv v n st \<Longrightarrow> v < 2147483648 \<Longrightarrow> n \<le> 15 \<Longrightarrow>
    sqrt_inv v 0 (fold WEBRTC_SPL_SQRT_ITER (rev [0..<n]) st)"
  by (induction n arbitrary: st) (simp_all add: sqrt_iter_inv)

lemma sqrt_floor_inv:
  assumes "0 \<le> v" "v < 2147483648"
  shows "sqrt_inv v 0 (fold WEBRTC_SPL_SQRT_ITER
           [15, 14, 13, 12, 11, 10, 9, 8, 7, 6, 5, 4, 3, 2, 1, 0] (v, 0))"
proof -
  have "rev [0..<15] = [14, 13, 12, 11, 10, 9, 8, 7, 6, 5, 4, 3, 2, 1, 0]" by code_simp
  then show ?thesis using sqrt_iters_inv [OF sqrt_iter_15 [OF assms] assms(2)] by simp
qed

lemma SqrtFloor_nonneg:
  assumes "0 \<le> v" "v < 2147483648"
  shows "(WebRtcSpl_SqrtFloor v)\<^sup>2 \<le> v" and "v < (WebRtcSpl_SqrtFloor v + 1)\<^sup>2"
    and "0 \<le> WebRtcSpl_SqrtFloor v"
proof -
  define st where "st = fold WEBRTC_SPL_SQRT_ITER
           [15, 14, 13, 12, 11, 10, 9, 8, 7, 6, 5, 4, 3, 2, 1, 0] (v, 0)"
  have "sqrt_inv v 0 st" unfolding st_def by (rule sqrt_floor_inv [OF assms])
  then obtain m where m: "0 \<le> m" "snd st = 2 * m" "m\<^sup>2 \<le> v" "v < (m + 1)\<^sup>2"
    by (auto simp: sqrt_inv_def)
  have "WebRtcSpl_SqrtFloor v = m"
    using m(2) unfolding WebRtcSpl_SqrtFloor_def st_def [symmetric] by (simp add: case_prod_beta asr_div)
  then show "(WebRtcSpl_SqrtFloor v)\<^sup>2 \<le> v" "v < (WebRtcSpl_SqrtFloor v + 1)\<^sup>2"
    "0 \<le> WebRtcSpl_SqrtFloor v" using m by simp_all
qed

lemma sqrt_iter_neg: "v < 0 \<Longrightarrow> N \<le> 15 \<Longrightarrow> WEBRTC_SPL_SQRT_ITER N (v, 0) = (v, 0)"
proof -
  assume v: "v < 0" and N: "N \<le> 15"
  have "(2 :: int) ^ N \<le> 2 ^ 15" using N by (simp only: power_increasing one_le_numeral)
  then have N': "(2 :: int) ^ N \<le> 32768" by simp
  then have "(2 :: int) ^ N * 2 ^ N \<le> 32768 * 32768" by (intro mult_mono) simp_all
  then have "s32 (2 ^ N) = 2 ^ N" "s32 (2 ^ N * 2 ^ N) = 2 ^ N * 2 ^ N"
    using N' by (auto intro!: s32_id order_trans [OF _ zero_le_power] order_trans [OF _ mult_nonneg_nonneg])
  then show ?thesis using v
    by (simp add: WEBRTC_SPL_SQRT_ITER_def shl_mult) (smt (verit) zero_less_power mult_pos_pos)
qed

lemma SqrtFloor_neg: "v < 0 \<Longrightarrow> WebRtcSpl_SqrtFloor v = 0"
  by (simp add: WebRtcSpl_SqrtFloor_def sqrt_iter_neg asr_div)

subsection \<open>The Q31 division loop and the generators\<close>

lemma div_q31_loop_correct:
  assumes "0 \<le> n" "n < d" "d \<le> 1073741824" "0 \<le> q" "(q + 1) * 2 ^ k \<le> 2147483648"
  shows "div_q31_loop k d n q = q * 2 ^ k + (n * 2 ^ k) div d"
  using assms
proof (induction k arbitrary: n q)
  case 0
  then show ?case by simp
next
  case (Suc k)
  have two: "2 * (q + 1) \<le> 2147483648"
  proof -
    have "(q + 1) * 2 \<le> (q + 1) * (2 * 2 ^ k)" using Suc.prems(4) by (intro mult_left_mono) simp_all
    then show ?thesis using Suc.prems(5) by simp
  qed
  have shifts: "s32 (shl q (Suc 0)) = 2 * q" "s32 (shl n (Suc 0)) = 2 * n"
    using Suc.prems two by (simp_all add: shl_mult s32_id)
  show ?case
  proof (cases "2 * n \<ge> d")
    case True
    have "div_q31_loop (Suc k) d n q = div_q31_loop k d (2 * n - d) (2 * q + 1)"
      using True Suc.prems two by (simp add: shifts s32_id Let_def)
    also have "\<dots> = (2 * q + 1) * 2 ^ k + ((2 * n - d) * 2 ^ k) div d"
      using True Suc.prems by (intro Suc.IH) (simp_all add: algebra_simps)
    also have "(2 * n - d) * 2 ^ k = n * 2 ^ Suc k + (- (2 ^ k)) * d" by (simp add: algebra_simps)
    also have "\<dots> div d = n * 2 ^ Suc k div d - 2 ^ k"
      using Suc.prems(1,2) by (subst div_mult_self1) simp_all
    finally show ?thesis by (simp add: algebra_simps)
  next
    case False
    have "div_q31_loop (Suc k) d n q = div_q31_loop k d (2 * n) (2 * q)"
      using False by (simp add: shifts Let_def)
    also have "\<dots> = 2 * q * 2 ^ k + (2 * n * 2 ^ k) div d"
    proof (rule Suc.IH)
      show "(2 * q + 1) * 2 ^ k \<le> 2147483648"
        by (rule order_trans [OF _ Suc.prems(5)]) (simp add: algebra_simps)
    qed (use False Suc.prems in simp_all)
    finally show ?thesis by (simp add: algebra_simps)
  qed
qed

lemma DivResultInQ31_sdiv:
  assumes "\<bar>num\<bar> < \<bar>den\<bar>" "\<bar>den\<bar> \<le> 1073741824"
  shows "WebRtcSpl_DivResultInQ31 num den = (num * 2147483648) sdiv den"
proof -
  have ids: "s32 (- num) = - num" "s32 (- den) = - den" using assms by (simp_all add: s32_id)
  define q where "q = (\<bar>num\<bar> * 2147483648) div \<bar>den\<bar>"
  have loop: "div_q31_loop 31 \<bar>den\<bar> \<bar>num\<bar> 0 = q"
    using div_q31_loop_correct [of "\<bar>num\<bar>" "\<bar>den\<bar>" 0 31] assms by (simp add: q_def)
  have "\<bar>num\<bar> * 2147483648 < \<bar>den\<bar> * 2147483648" using assms by simp
  then have q: "0 \<le> q" "q < 2147483648"
    using assms unfolding q_def by (simp_all add: div_pos_less pos_imp_zdiv_nonneg_iff)
  have "WebRtcSpl_DivResultInQ31 num den = sgn num * sgn den * q"
    using assms q loop ids by (auto simp: WebRtcSpl_DivResultInQ31_def Let_def s32_id sgn_if abs_if split: if_splits)
  then show ?thesis
    by (simp add: signed_divide_int_def q_def abs_mult sgn_mult)
qed

lemma seed_range: "0 \<le> IncreaseSeed s" "IncreaseSeed s < 2147483648"
proof -
  have "kMaxSeedUsed - 1 = mask 31" by (simp add: kMaxSeedUsed_def mask_eq_exp_minus_1)
  then have "IncreaseSeed s = (s * 69069 + 1) mod 2147483648"
    by (simp add: IncreaseSeed_def u32_def flip: take_bit_eq_mask) (simp add: take_bit_eq_mod)
  then show "0 \<le> IncreaseSeed s" "IncreaseSeed s < 2147483648" by simp_all
qed

lemma rand_u_range: "0 \<le> fst (WebRtcSpl_RandU s)" "fst (WebRtcSpl_RandU s) \<le> 32767"
proof -
  have "0 \<le> IncreaseSeed s div 65536" "IncreaseSeed s div 65536 < 32768"
    using seed_range [of s] by (simp_all add: div_pos_less pos_imp_zdiv_nonneg_iff)
  then show "0 \<le> fst (WebRtcSpl_RandU s)" "fst (WebRtcSpl_RandU s) \<le> 32767"
    by (simp_all add: WebRtcSpl_RandU_def Let_def drop_bit_eq_div s16_id)
qed

lemma length_kRandNTable: "length kRandNTable = 512"
  by (simp add: kRandNTable_def)

lemma rand_n_index: "nat (drop_bit 23 (IncreaseSeed s)) < 256"
  using seed_range [of s] by (simp add: drop_bit_eq_div div_pos_less nat_less_iff pos_imp_zdiv_nonneg_iff)

subsection \<open>Properties\<close>

text \<open>\<open>WebRtcSpl_NormW32\<close> returns the number of left shifts that normalises its argument:
  the shifted value fits \<open>int32_t\<close> and uses the bit below the sign bit, for every non-zero value,
  positive or negative (also -1 and the most negative one).\<close>

theorem NormW32_normalises:
  assumes "is32 a" and "a \<noteq> 0"
  shows "if 0 < a then 2 ^ 30 \<le> a * 2 ^ WebRtcSpl_NormW32 a \<and> a * 2 ^ WebRtcSpl_NormW32 a < 2 ^ 31
    else - (2 ^ 31) \<le> a * 2 ^ WebRtcSpl_NormW32 a \<and> a * 2 ^ WebRtcSpl_NormW32 a < - (2 ^ 30)"
proof -
  consider "0 < a" | "a = -1" | "a < -1" using assms(2) by linarith
  then show ?thesis
  proof cases
    case 1
    then show ?thesis using norm_w32_normed [of a] assms(1) by (simp add: normed_def is32_def)
  next
    case 2
    have "WebRtcSpl_NormW32 (-1) = 31" by code_simp
    then show ?thesis using 2 by simp
  next
    case 3
    then have "normed 31 30 (- a - 1) (WebRtcSpl_NormW32 a)"
      using norm_w32_normed [of "- a - 1"] norm_w32_neg [OF 3] assms(1)
      by (simp add: is32_def not_int_def)
    then show ?thesis using norm_neg_range [of 30 a] 3 by simp
  qed
qed

theorem NormW32_normalises_witness:
  "- (2 ^ 31) \<le> (-5 :: int) * 2 ^ WebRtcSpl_NormW32 (-5) \<and> (-5) * 2 ^ WebRtcSpl_NormW32 (-5) < - (2 ^ 30 :: int)"
proof -
  have "is32 (-5)" "(-5 :: int) \<noteq> 0" by (simp_all add: is32_def)
  from NormW32_normalises [OF this] show ?thesis by simp
qed

text \<open>The 32-bit saturating addition and subtraction detect overflow from the signs of the
  operands and of the wrapped result; they return the exact result limited to the
  \<open>int32_t\<close> range for all operands.\<close>

theorem saturating_add_sub_W32:
  assumes "is32 a" and "is32 b"
  shows "WebRtcSpl_AddSatW32 a b = max (-2147483648) (min 2147483647 (a + b))
    \<and> WebRtcSpl_SubSatW32 a b = max (-2147483648) (min 2147483647 (a - b))"
  using assms by (simp add: AddSatW32_clamp SubSatW32_clamp)

theorem saturating_add_sub_W32_witness:
  "WebRtcSpl_AddSatW32 2147483647 1 = 2147483647 \<and> WebRtcSpl_SubSatW32 (-2147483648) 2147483647 = -2147483648"
  using saturating_add_sub_W32 [of 2147483647 1] saturating_add_sub_W32 [of "-2147483648" 2147483647]
  by (simp add: is32_def)

text \<open>C40: \<open>WebRtcSpl_SqrtFloor\<close> returns the integer square root of every non-negative
  \<open>int32_t\<close> and 0 for a negative one; no intermediate value overflows.\<close>

theorem SqrtFloor_correct:
  assumes "is32 v"
  shows "if 0 \<le> v then 0 \<le> WebRtcSpl_SqrtFloor v \<and> (WebRtcSpl_SqrtFloor v)\<^sup>2 \<le> v
        \<and> v < (WebRtcSpl_SqrtFloor v + 1)\<^sup>2
    else WebRtcSpl_SqrtFloor v = 0"
  using assms SqrtFloor_nonneg [of v] SqrtFloor_neg [of v] by (auto simp: is32_def)

theorem SqrtFloor_correct_witness:
  "0 \<le> WebRtcSpl_SqrtFloor 2147483647 \<and> (WebRtcSpl_SqrtFloor 2147483647)\<^sup>2 \<le> 2147483647
        \<and> 2147483647 < (WebRtcSpl_SqrtFloor 2147483647 + 1)\<^sup>2"
  using SqrtFloor_correct [of 2147483647] by (simp add: is32_def)

text \<open>\<open>WebRtcSpl_DivResultInQ31\<close> computes the quotient in Q31, truncated towards zero, for
  every numerator smaller in magnitude than the denominator as long as the denominator is at
  most \<open>2 ^ 30\<close> in magnitude (so the doubled remainder does not overflow), with all four
  combinations of signs.\<close>

theorem DivResultInQ31_correct:
  assumes "\<bar>num\<bar> < \<bar>den\<bar>" and "\<bar>den\<bar> \<le> 2 ^ 30"
  shows "WebRtcSpl_DivResultInQ31 num den = (num * 2 ^ 31) sdiv den"
  using DivResultInQ31_sdiv [of num den] assms by simp

theorem DivResultInQ31_correct_witness: "WebRtcSpl_DivResultInQ31 (-1) 3 = ((-1) * 2 ^ 31) sdiv 3"
proof -
  have "\<bar>-1 :: int\<bar> < \<bar>3\<bar>" "\<bar>3 :: int\<bar> \<le> 2 ^ 30" by simp_all
  then show ?thesis by (rule DivResultInQ31_correct)
qed

text \<open>The random generators: whatever the seed, \<open>WebRtcSpl_RandU\<close> returns a value between 0
  and 32767, never a negative one, and \<open>WebRtcSpl_RandN\<close> reads one of the first 256 entries of
  its table of 512.\<close>

theorem random_ranges:
  shows "0 \<le> fst (WebRtcSpl_RandU seed) \<and> fst (WebRtcSpl_RandU seed) \<le> 32767
    \<and> fst (WebRtcSpl_RandN seed) \<in> set (take 256 kRandNTable) \<and> length kRandNTable = 512"
proof -
  have i: "nat (drop_bit 23 (IncreaseSeed seed)) < 256" by (rule rand_n_index)
  then have "fst (WebRtcSpl_RandN seed) = take 256 kRandNTable ! nat (drop_bit 23 (IncreaseSeed seed))"
    by (simp add: WebRtcSpl_RandN_def Let_def)
  moreover have "nat (drop_bit 23 (IncreaseSeed seed)) < length (take 256 kRandNTable)"
    using i by (simp add: length_kRandNTable)
  ultimately have "fst (WebRtcSpl_RandN seed) \<in> set (take 256 kRandNTable)" by (metis nth_mem)
  then show ?thesis using rand_u_range [of seed] length_kRandNTable by blast
qed

end
