(* ===== verification/SplVector.thy ===== *)
theory SplVector
  imports SplMath
begin

text \<open>
  The vector part of the signal processing library
  (\<^verbatim>\<open>webrtc/common_audio/signal_processing\<close>): extrema (\<^verbatim>\<open>min_max_operations.c\<close>),
  copying and setting (\<^verbatim>\<open>copy_set_operations.c\<close>), scaling
  (\<^verbatim>\<open>vector_scaling_operations.c\<close>, \<^verbatim>\<open>ilbc_specific_functions.c\<close>), inner products
  (\<^verbatim>\<open>dot_product_with_scale.c\<close>, \<^verbatim>\<open>cross_correlation.c\<close>, \<^verbatim>\<open>auto_correlation.c\<close>),
  energy (\<^verbatim>\<open>get_scaling_square.c\<close>, \<^verbatim>\<open>energy.c\<close>) and decimation
  (\<^verbatim>\<open>downsample_fast.c\<close>).

  An array is a list; a loop over the first \<open>len\<close> elements runs over \<open>take (nat len)\<close>, the
  caller guaranteeing that the array has so many.  An output array is passed in and returned
  updated.  The generic C versions behind the library's function pointers are modelled.
\<close>

subsection \<open>Extrema\<close>

definition max_step :: "int \<Rightarrow> int \<Rightarrow> int" where
  "max_step x maximum = (if x > maximum then x else maximum)"

definition min_step :: "int \<Rightarrow> int \<Rightarrow> int" where
  "min_step x minimum = (if x < minimum then x else minimum)"

definition WebRtcSpl_MaxAbsValueW16C :: "int list option \<Rightarrow> int \<Rightarrow> int" where
  "WebRtcSpl_MaxAbsValueW16C vector len = (case vector of
     None \<Rightarrow> -1
   | Some v \<Rightarrow>
      if len \<le> 0 then -1
      else let maximum = fold (\<lambda>x. max_step \<bar>x\<bar>) (take (nat len) v) 0;
               maximum = (if maximum > 32767 then 32767 else maximum)
           in s16 maximum)"

definition WebRtcSpl_MaxAbsValueW32C :: "int list option \<Rightarrow> int \<Rightarrow> int" where
  "WebRtcSpl_MaxAbsValueW32C vector len = (case vector of
     None \<Rightarrow> -1
   | Some v \<Rightarrow>
      if len \<le> 0 then -1
      else let maximum = fold (\<lambda>x. max_step (u32 (s32 \<bar>x\<bar>))) (take (nat len) v) 0;
               maximum = (if maximum < 0x7fffffff then maximum else 0x7fffffff)
           in s32 maximum)"

definition WebRtcSpl_MaxValueW16C :: "int list option \<Rightarrow> int \<Rightarrow> int" where
  "WebRtcSpl_MaxValueW16C vector len = (case vector of
     None \<Rightarrow> -32768
   | Some v \<Rightarrow> if len \<le> 0 then -32768 else fold max_step (take (nat len) v) (-32768))"

definition WebRtcSpl_MaxValueW32C :: "int list option \<Rightarrow> int \<Rightarrow> int" where
  "WebRtcSpl_MaxValueW32C vector len = (case vector of
     None \<Rightarrow> -2147483648
   | Some v \<Rightarrow> if len \<le> 0 then -2147483648 else fold max_step (take (nat len) v) (-2147483648))"

definition WebRtcSpl_MinValueW16C :: "int list option \<Rightarrow> int \<Rightarrow> int" where
  "WebRtcSpl_MinValueW16C vector len = (case vector of
     None \<Rightarrow> 32767
   | Some v \<Rightarrow> if len \<le> 0 then 32767 else fold min_step (take (nat len) v) 32767)"

definition WebRtcSpl_MinValueW32C :: "int list option \<Rightarrow> int \<Rightarrow> int" where
  "WebRtcSpl_MinValueW32C vector len = (case vector of
     None \<Rightarrow> 2147483647
   | Some v \<Rightarrow> if len \<le> 0 then 2147483647 else fold min_step (take (nat len) v) 2147483647)"

text \<open>
  The loop of the index functions: \<open>i\<close> runs over the vector, \<open>better\<close> is the comparison, the
  state is the extremum and its index.
\<close>

primrec index_loop :: "(int \<Rightarrow> int \<Rightarrow> bool) \<Rightarrow> int list \<Rightarrow> int \<Rightarrow> int \<Rightarrow> int \<Rightarrow> int" where
  "index_loop better [] i best index = index"
| "index_loop better (x # xs) i best index =
    (if better x best then index_loop better xs (i + 1) x i
     else index_loop better xs (i + 1) best index)"

definition WebRtcSpl_MaxAbsIndexW16 :: "int list option \<Rightarrow> int \<Rightarrow> int" where
  "WebRtcSpl_MaxAbsIndexW16 vector len = (case vector of
     None \<Rightarrow> -1
   | Some v \<Rightarrow> if len \<le> 0 then -1 else index_loop (>) (map abs (take (nat len) v)) 0 0 0)"

definition WebRtcSpl_MaxIndexW16 :: "int list option \<Rightarrow> int \<Rightarrow> int" where
  "WebRtcSpl_MaxIndexW16 vector len = (case vector of
     None \<Rightarrow> -1
   | Some v \<Rightarrow> if len \<le> 0 then -1 else index_loop (>) (take (nat len) v) 0 (-32768) 0)"

definition WebRtcSpl_MaxIndexW32 :: "int list option \<Rightarrow> int \<Rightarrow> int" where
  "WebRtcSpl_MaxIndexW32 vector len = (case vector of
     None \<Rightarrow> -1
   | Some v \<Rightarrow> if len \<le> 0 then -1 else index_loop (>) (take (nat len) v) 0 (-2147483648) 0)"

definition WebRtcSpl_MinIndexW16 :: "int list option \<Rightarrow> int \<Rightarrow> int" where
  "WebRtcSpl_MinIndexW16 vector len = (case vector of
     None \<Rightarrow> -1
   | Some v \<Rightarrow> if len \<le> 0 then -1 else index_loop (<) (take (nat len) v) 0 32767 0)"

definition WebRtcSpl_MinIndexW32 :: "int list option \<Rightarrow> int \<Rightarrow> int" where
  "WebRtcSpl_MinIndexW32 vector len = (case vector of
     None \<Rightarrow> -1
   | Some v \<Rightarrow> if len \<le> 0 then -1 else index_loop (<) (take (nat len) v) 0 2147483647 0)"

subsection \<open>Copying and setting\<close>

definition WebRtcSpl_MemSetW16 :: "int list \<Rightarrow> int \<Rightarrow> int \<Rightarrow> int list" where
  "WebRtcSpl_MemSetW16 ptr set_value len = memcpy ptr 0 (replicate (nat len) set_value)"

definition WebRtcSpl_MemSetW32 :: "int list \<Rightarrow> int \<Rightarrow> int \<Rightarrow> int list" where
  "WebRtcSpl_MemSetW32 ptr set_value len = memcpy ptr 0 (replicate (nat len) set_value)"

text \<open>\<open>dest\<close> points to element \<open>dpos\<close> of its block and is written downwards from there.\<close>

primrec copy_down :: "int list \<Rightarrow> nat \<Rightarrow> int list \<Rightarrow> int list" where
  "copy_down dest dpos [] = dest"
| "copy_down dest dpos (x # xs) = copy_down (dest[dpos := x]) (dpos - 1) xs"

definition WebRtcSpl_MemCpyReversedOrder :: "int list \<Rightarrow> nat \<Rightarrow> int list \<Rightarrow> int \<Rightarrow> int list" where
  "WebRtcSpl_MemCpyReversedOrder dest dpos src len = copy_down dest dpos (take (nat len) src)"

definition WebRtcSpl_CopyFromEndW16 :: "int list \<Rightarrow> int \<Rightarrow> int \<Rightarrow> int list \<Rightarrow> int \<times> int list" where
  "WebRtcSpl_CopyFromEndW16 vector_in len samples vector_out =
    (samples, memcpy vector_out 0 (take (nat samples) (drop (nat (len - samples)) vector_in)))"

definition WebRtcSpl_ZerosArrayW16 :: "int list \<Rightarrow> int \<Rightarrow> int \<times> int list" where
  "WebRtcSpl_ZerosArrayW16 vector len = (len, WebRtcSpl_MemSetW16 vector 0 len)"

definition WebRtcSpl_ZerosArrayW32 :: "int list \<Rightarrow> int \<Rightarrow> int \<times> int list" where
  "WebRtcSpl_ZerosArrayW32 vector len = (len, WebRtcSpl_MemSetW32 vector 0 len)"

definition WebRtcSpl_OnesArrayW16 :: "int list \<Rightarrow> int \<Rightarrow> int \<times> int list" where
  "WebRtcSpl_OnesArrayW16 vector len = (len, memcpy vector 0 (replicate (nat len) 1))"

definition WebRtcSpl_OnesArrayW32 :: "int list \<Rightarrow> int \<Rightarrow> int \<times> int list" where
  "WebRtcSpl_OnesArrayW32 vector len = (len, memcpy vector 0 (replicate (nat len) 1))"

subsection \<open>Scaling\<close>

definition WebRtcSpl_VectorBitShiftW16 :: "int list \<Rightarrow> int \<Rightarrow> int list \<Rightarrow> int \<Rightarrow> int list" where
  "WebRtcSpl_VectorBitShiftW16 res len inp right_shifts = memcpy res 0
    (if right_shifts > 0 then map (\<lambda>x. asr x (nat right_shifts)) (take (nat len) inp)
     else map (\<lambda>x. s16 (s32 (shl x (nat (- right_shifts))))) (take (nat len) inp))"

definition WebRtcSpl_VectorBitShiftW32 :: "int list \<Rightarrow> int \<Rightarrow> int list \<Rightarrow> int \<Rightarrow> int list" where
  "WebRtcSpl_VectorBitShiftW32 out_vector len in_vector right_shifts = memcpy out_vector 0
    (if right_shifts > 0 then map (\<lambda>x. asr x (nat right_shifts)) (take (nat len) in_vector)
     else map (\<lambda>x. s32 (shl x (nat (- right_shifts)))) (take (nat len) in_vector))"

definition WebRtcSpl_VectorBitShiftW32ToW16 :: "int list \<Rightarrow> int \<Rightarrow> int list \<Rightarrow> int \<Rightarrow> int list" where
  "WebRtcSpl_VectorBitShiftW32ToW16 out len inp right_shifts = memcpy out 0
    (if right_shifts \<ge> 0
     then map (\<lambda>x. WebRtcSpl_SatW32ToW16 (asr x (nat right_shifts))) (take (nat len) inp)
     else let left_shifts = s16 (- right_shifts)
          in map (\<lambda>x. WebRtcSpl_SatW32ToW16 (s32 (shl x (nat left_shifts)))) (take (nat len) inp))"

definition WebRtcSpl_ScaleVector :: "int list \<Rightarrow> int list \<Rightarrow> int \<Rightarrow> int \<Rightarrow> nat \<Rightarrow> int list" where
  "WebRtcSpl_ScaleVector in_vector out_vector gain len right_shifts = memcpy out_vector 0
    (map (\<lambda>x. s16 (WEBRTC_SPL_MUL_16_16_RSFT x gain right_shifts)) (take (nat len) in_vector))"

definition WebRtcSpl_ScaleVectorWithSat :: "int list \<Rightarrow> int list \<Rightarrow> int \<Rightarrow> int \<Rightarrow> nat \<Rightarrow> int list" where
  "WebRtcSpl_ScaleVectorWithSat in_vector out_vector gain len right_shifts = memcpy out_vector 0
    (map (\<lambda>x. WebRtcSpl_SatW32ToW16 (WEBRTC_SPL_MUL_16_16_RSFT x gain right_shifts))
      (take (nat len) in_vector))"

definition WebRtcSpl_ScaleAndAddVectors ::
  "int list \<Rightarrow> int \<Rightarrow> nat \<Rightarrow> int list \<Rightarrow> int \<Rightarrow> nat \<Rightarrow> int list \<Rightarrow> int \<Rightarrow> int list" where
  "WebRtcSpl_ScaleAndAddVectors in1 gain1 shift1 in2 gain2 shift2 out len = memcpy out 0
    (map2 (\<lambda>x y. s16 (s16 (WEBRTC_SPL_MUL_16_16_RSFT gain1 x shift1)
                    + s16 (WEBRTC_SPL_MUL_16_16_RSFT gain2 y shift2)))
      (take (nat len) in1) (take (nat len) in2))"

definition WebRtcSpl_ScaleAndAddVectorsWithRoundC ::
  "int list option \<Rightarrow> int \<Rightarrow> int list option \<Rightarrow> int \<Rightarrow> int \<Rightarrow> int list option \<Rightarrow> int \<Rightarrow>
     int \<times> int list option" where
  "WebRtcSpl_ScaleAndAddVectorsWithRoundC in_vector1 scale1 in_vector2 scale2 right_shifts out_vector len =
    (let round_value = asr (s32 (shl 1 (nat right_shifts))) 1
     in case (in_vector1, in_vector2, out_vector) of
       (Some v1, Some v2, Some out) \<Rightarrow>
         if len \<le> 0 \<or> right_shifts < 0 then (-1, out_vector)
         else (0, Some (memcpy out 0
           (map2 (\<lambda>x y. s16 (asr (s32 (s32 (WEBRTC_SPL_MUL_16_16 x scale1
                              + WEBRTC_SPL_MUL_16_16 y scale2) + round_value)) (nat right_shifts)))
             (take (nat len) v1) (take (nat len) v2))))
     | _ \<Rightarrow> (-1, out_vector))"

text \<open>\<open>win\<close> points to element \<open>wpos\<close> of its block and is read downwards from there.\<close>

definition WebRtcSpl_ReverseOrderMultArrayElements ::
  "int list \<Rightarrow> int list \<Rightarrow> int list \<Rightarrow> nat \<Rightarrow> int \<Rightarrow> nat \<Rightarrow> int list" where
  "WebRtcSpl_ReverseOrderMultArrayElements out inp win wpos len right_shifts = memcpy out 0
    (map2 (\<lambda>x w. s16 (WEBRTC_SPL_MUL_16_16_RSFT x w right_shifts))
      (take (nat len) inp) (rev (take (Suc wpos) win)))"

definition WebRtcSpl_ElementwiseVectorMult ::
  "int list \<Rightarrow> int list \<Rightarrow> int list \<Rightarrow> int \<Rightarrow> nat \<Rightarrow> int list" where
  "WebRtcSpl_ElementwiseVectorMult out inp win len right_shifts = memcpy out 0
    (map2 (\<lambda>x w. s16 (WEBRTC_SPL_MUL_16_16_RSFT x w right_shifts)) (take (nat len) inp) (take (nat len) win))"

definition WebRtcSpl_AddVectorsAndShift ::
  "int list \<Rightarrow> int list \<Rightarrow> int list \<Rightarrow> int \<Rightarrow> nat \<Rightarrow> int list" where
  "WebRtcSpl_AddVectorsAndShift out in1 in2 len right_shifts = memcpy out 0
    (map2 (\<lambda>x y. s16 (asr (x + y) right_shifts)) (take (nat len) in1) (take (nat len) in2))"

definition WebRtcSpl_AddAffineVectorToVector ::
  "int list \<Rightarrow> int list \<Rightarrow> int \<Rightarrow> int \<Rightarrow> nat \<Rightarrow> int \<Rightarrow> int list" where
  "WebRtcSpl_AddAffineVectorToVector out inp gain add_constant right_shifts len = memcpy out 0
    (map2 (\<lambda>y x. s16 (y + s16 (asr (s32 (WEBRTC_SPL_MUL_16_16 x gain + add_constant)) right_shifts)))
      (take (nat len) out) (take (nat len) inp))"

definition WebRtcSpl_AffineTransformVector ::
  "int list \<Rightarrow> int list \<Rightarrow> int \<Rightarrow> int \<Rightarrow> nat \<Rightarrow> int \<Rightarrow> int list" where
  "WebRtcSpl_AffineTransformVector out inp gain add_constant right_shifts len = memcpy out 0
    (map (\<lambda>x. s16 (asr (s32 (WEBRTC_SPL_MUL_16_16 x gain + add_constant)) right_shifts))
      (take (nat len) inp))"

subsection \<open>Inner products\<close>

definition mac :: "nat \<Rightarrow> int \<Rightarrow> int \<Rightarrow> int \<Rightarrow> int" where
  "mac scaling x y acc = s32 (acc + asr (s32 (x * y)) scaling)"

text \<open>
  The two loops of \<open>WebRtcSpl_DotProductWithScale\<close> and of \<open>WebRtcSpl_AutoCorrelation\<close>: four
  products at a time while at least four are left, then one at a time.
\<close>

fun dot_unrolled :: "nat \<Rightarrow> int list \<Rightarrow> int list \<Rightarrow> int \<Rightarrow> int" where
  "dot_unrolled scaling (a0 # a1 # a2 # a3 # as) (b0 # b1 # b2 # b3 # bs) acc =
    dot_unrolled scaling as bs
      (mac scaling a3 b3 (mac scaling a2 b2 (mac scaling a1 b1 (mac scaling a0 b0 acc))))"
| "dot_unrolled scaling (a # as) (b # bs) acc = dot_unrolled scaling as bs (mac scaling a b acc)"
| "dot_unrolled scaling _ _ acc = acc"

definition WebRtcSpl_DotProductWithScale :: "int list \<Rightarrow> int list \<Rightarrow> int \<Rightarrow> nat \<Rightarrow> int" where
  "WebRtcSpl_DotProductWithScale vector1 vector2 len scaling =
    dot_unrolled scaling (take (nat len) vector1) (take (nat len) vector2) 0"

text \<open>\<open>step_seq2\<close> may be negative: \<open>seq2\<close> points to element \<open>base2\<close> of its block.\<close>

definition WebRtcSpl_CrossCorrelationC ::
  "int list \<Rightarrow> int list \<Rightarrow> int list \<Rightarrow> nat \<Rightarrow> int \<Rightarrow> int \<Rightarrow> nat \<Rightarrow> int \<Rightarrow> int list" where
  "WebRtcSpl_CrossCorrelationC cross_correlation seq1 seq2 base2 dim_seq dim_cross right_shifts step_seq2 =
    memcpy cross_correlation 0
      (map (\<lambda>i. fold (\<lambda>j. mac right_shifts (seq1 ! j) (seq2 ! nat (int base2 + step_seq2 * int i + int j)))
              [0..<nat dim_seq] 0)
        [0..<nat dim_cross])"

definition autocorr_scaling :: "int \<Rightarrow> int \<Rightarrow> nat" where
  "autocorr_scaling smax len =
    (if smax = 0 then 0
     else let nbits = WebRtcSpl_GetSizeInBits (u32 len);
              t = WebRtcSpl_NormW32 (WEBRTC_SPL_MUL smax smax)
          in if t > nbits then 0 else nbits - t)"

definition WebRtcSpl_AutoCorrelation ::
  "int list \<Rightarrow> int \<Rightarrow> int \<Rightarrow> int list \<Rightarrow> int \<times> int list \<times> nat option" where
  "WebRtcSpl_AutoCorrelation in_vector len order result =
    (if order > len then (-1, result, None)
     else let order = (if order < 0 then len else order);
              smax = WebRtcSpl_MaxAbsValueW16C (Some in_vector) len;
              scaling = autocorr_scaling smax len;
              sums = map (\<lambda>i. dot_unrolled scaling (take (nat len - i) in_vector)
                                (take (nat len - i) (drop i in_vector)) 0) [0..<nat (order + 1)]
          in (order + 1, memcpy result 0 sums, Some scaling))"

subsection \<open>Energy\<close>

definition WebRtcSpl_GetScalingSquare :: "int list \<Rightarrow> int \<Rightarrow> int \<Rightarrow> nat" where
  "WebRtcSpl_GetScalingSquare in_vector len ntimes =
    (let nbits = WebRtcSpl_GetSizeInBits (u32 ntimes);
         smax = fold (\<lambda>x smax. let sabs = s16 (if x > 0 then x else - x)
                               in if sabs > smax then sabs else smax)
                  (take (nat len) in_vector) (-1);
         t = WebRtcSpl_NormW32 (WEBRTC_SPL_MUL smax smax)
     in if smax = 0 then 0 else if t > nbits then 0 else nbits - t)"

definition WebRtcSpl_Energy :: "int list \<Rightarrow> int \<Rightarrow> int \<times> nat" where
  "WebRtcSpl_Energy vector len =
    (let scaling = WebRtcSpl_GetScalingSquare vector len len;
         en = fold (\<lambda>x en. s32 (en + WEBRTC_SPL_MUL_16_16_RSFT x x scaling)) (take (nat len) vector) 0
     in (en, scaling))"

subsection \<open>Decimation\<close>

text \<open>
  \<open>data_in\<close> points to element \<open>base\<close> of its block; the filter reads up to
  \<open>coefficients_length - 1\<close> samples before position \<open>delay\<close>.  The loop over \<open>i\<close> does not end for
  \<open>factor = 0\<close>: the result is then \<open>None\<close>.
\<close>

definition downsample_tap :: "int list \<Rightarrow> nat \<Rightarrow> int list \<Rightarrow> int \<Rightarrow> int \<Rightarrow> int" where
  "downsample_tap blk base coefficients coefficients_length i =
    WebRtcSpl_SatW32ToW16 (asr
      (fold (\<lambda>j out_s32. s32 (out_s32 + coefficients ! j * blk ! nat (int base + i - int j)))
        [0..<nat coefficients_length] 2048) 12)"

partial_function (option) downsample_loop ::
  "int list \<Rightarrow> nat \<Rightarrow> int list \<Rightarrow> int \<Rightarrow> int \<Rightarrow> int \<Rightarrow> int \<Rightarrow> int list option" where
  "downsample_loop blk base coefficients coefficients_length factor endpos i =
    (if i < endpos
     then Option.bind (downsample_loop blk base coefficients coefficients_length factor endpos (i + factor))
            (\<lambda>rest. Some (downsample_tap blk base coefficients coefficients_length i # rest))
     else Some [])"

definition WebRtcSpl_DownsampleFastC ::
  "int list \<Rightarrow> nat \<Rightarrow> int \<Rightarrow> int list \<Rightarrow> int \<Rightarrow> int list \<Rightarrow> int \<Rightarrow> int \<Rightarrow> int \<Rightarrow>
     (int \<times> int list) option" where
  "WebRtcSpl_DownsampleFastC blk base data_in_length data_out data_out_length coefficients coefficients_length factor delay =
    (let endpos = delay + factor * (data_out_length - 1) + 1
     in if data_out_length \<le> 0 \<or> coefficients_length \<le> 0 \<or> data_in_length < endpos
        then Some (-1, data_out)
        else Option.bind (downsample_loop blk base coefficients coefficients_length factor endpos delay)
               (\<lambda>out. Some (0, memcpy data_out 0 out)))"

subsection \<open>Extrema\<close>

lemma fold_max_step: "fold max_step xs m = Max (insert m (set xs))"
proof -
  have "max_step = max" by (auto simp: fun_eq_iff max_step_def max_def)
  then show ?thesis using Max.set_eq_fold [of m xs] by simp
qed

lemma fold_min_step: "fold min_step xs m = Min (insert m (set xs))"
proof -
  have "min_step = min" by (auto simp: fun_eq_iff min_step_def min_def)
  then show ?thesis using Min.set_eq_fold [of m xs] by simp
qed

text \<open>
  The index functions share one search; its contract is that the comparison is a strict
  total order.
\<close>

locale extremum_search =
  fixes better :: "int \<Rightarrow> int \<Rightarrow> bool"
  assumes better_irrefl: "\<not> better x x"
    and better_trans: "better x y \<Longrightarrow> better y z \<Longrightarrow> better x z"
    and better_total: "better x y \<or> x = y \<or> better y x"
begin

lemma loop_extends:
  assumes "k < length ps" and "\<And>j. j < length ps \<Longrightarrow> \<not> better (ps ! j) (ps ! k)"
    and "\<And>j. j < k \<Longrightarrow> better (ps ! k) (ps ! j)"
  shows "\<exists>k'. index_loop better qs (int (length ps)) (ps ! k) (int k) = int k' \<and> k' < length (ps @ qs)
    \<and> (\<forall>j < length (ps @ qs). \<not> better ((ps @ qs) ! j) ((ps @ qs) ! k'))
    \<and> (\<forall>j < k'. better ((ps @ qs) ! k') ((ps @ qs) ! j))"
  using assms
proof (induction qs arbitrary: ps k)
  case Nil
  then show ?case by auto
next
  case (Cons x qs)
  define ps' where "ps' = ps @ [x]"
  have ps': "ps @ x # qs = ps' @ qs" "length ps' = Suc (length ps)" by (simp_all add: ps'_def)
  have nth: "j < length ps \<Longrightarrow> ps' ! j = ps ! j" for j by (simp add: ps'_def nth_append)
  have last: "ps' ! length ps = x" by (simp add: ps'_def)
  show ?case
  proof (cases "better x (ps ! k)")
    case True
    have "better x (ps ! j)" if "j < length ps" for j
      using that True Cons.prems(2) [of j] better_trans better_total [of "ps ! j" "ps ! k"] by metis
    then have "\<exists>k'. index_loop better qs (int (length ps')) (ps' ! length ps) (int (length ps)) = int k'
      \<and> k' < length (ps' @ qs) \<and> (\<forall>j < length (ps' @ qs). \<not> better ((ps' @ qs) ! j) ((ps' @ qs) ! k'))
      \<and> (\<forall>j < k'. better ((ps' @ qs) ! k') ((ps' @ qs) ! j))"
      using better_irrefl better_trans
      by (intro Cons.IH) (auto simp: ps' nth last less_Suc_eq, metis)
    then show ?thesis using True unfolding ps' by (simp add: last add.commute)
  next
    case False
    have "\<exists>k'. index_loop better qs (int (length ps')) (ps' ! k) (int k) = int k'
      \<and> k' < length (ps' @ qs) \<and> (\<forall>j < length (ps' @ qs). \<not> better ((ps' @ qs) ! j) ((ps' @ qs) ! k'))
      \<and> (\<forall>j < k'. better ((ps' @ qs) ! k') ((ps' @ qs) ! j))"
      using Cons.prems False
      by (intro Cons.IH) (auto simp: ps' nth last less_Suc_eq)
    then show ?thesis using False Cons.prems(1) unfolding ps' by (simp add: nth add.commute)
  qed
qed

lemma loop_first_best:
  assumes "xs \<noteq> []" and "\<And>x. x \<in> set xs \<Longrightarrow> \<not> better worst x"
  shows "\<exists>k. index_loop better xs 0 worst 0 = int k \<and> k < length xs
    \<and> (\<forall>j < length xs. \<not> better (xs ! j) (xs ! k)) \<and> (\<forall>j < k. better (xs ! k) (xs ! j))"
proof -
  obtain y ys where xs: "xs = y # ys" using assms(1) by (cases xs) auto
  have "index_loop better xs 0 worst 0 = index_loop better ys 1 y 0"
    using assms(2) [of y] better_total [of y worst] by (auto simp: xs)
  then show ?thesis
    using loop_extends [of 0 "[y]" ys] better_irrefl by (simp add: xs)
qed

end

interpretation largest: extremum_search "(>)"
  by unfold_locales auto

interpretation smallest: extremum_search "(<)"
  by unfold_locales auto

lemma fold_max_step_map: "fold (\<lambda>x. max_step (f x)) xs m = fold max_step (map f xs) m"
  by (induction xs arbitrary: m) simp_all

lemma dot_unrolled_sum:
  "dot_unrolled sc as bs (s32 t) = s32 (t + (\<Sum>(a, b)\<leftarrow>zip as bs. asr (s32 (a * b)) sc))"
  by (induction sc as bs "s32 t" arbitrary: t rule: dot_unrolled.induct)
    (simp_all add: mac_def add.assoc)

lemma scaled_sum_bound:
  assumes n: "int (length ps) < 2 ^ nb" and nb: "nb \<le> 31" and t: "t \<le> 31"
    and sc: "sc = (if t > nb then 0 else nb - t)"
    and ps: "\<And>p. p \<in> set ps \<Longrightarrow> \<bar>p\<bar> \<le> 2 ^ (31 - t)"
  shows "\<bar>\<Sum>p\<leftarrow>ps. asr p sc\<bar> < 2147483648"
proof -
  define e where "e = 31 - t - sc"
  have e: "31 - t = e + sc" "nb + e \<le> 31" using nb t by (auto simp: e_def sc)
  have "\<bar>\<Sum>p\<leftarrow>ps. asr p sc\<bar> \<le> int (length ps) * 2 ^ e"
    using ps unfolding e(1) by (intro sum_list_abs_bound asr_abs_bound)
  also have "\<dots> < 2 ^ nb * 2 ^ e" using n by simp
  also have "\<dots> = 2 ^ (nb + e)" by (simp add: power_add)
  also have "(2 :: int) ^ (nb + e) \<le> 2 ^ 31" using e(2) by (simp only: power_increasing one_le_numeral)
  finally show ?thesis by simp
qed

lemma norm_square_bound:
  assumes "0 < m" "m \<le> 32767"
  shows "WebRtcSpl_NormW32 (WEBRTC_SPL_MUL m m) \<le> 30" and "m * m < 2 ^ (31 - WebRtcSpl_NormW32 (WEBRTC_SPL_MUL m m))"
proof -
  have "m * m \<le> 32767 * 32767" using assms by (intro mult_mono) simp_all
  then have sq: "m * m \<le> 1073676289" "0 < m * m" using assms by simp_all
  have "s32 (m * m) = m * m" using sq by (intro s32_id) linarith+
  then have mul: "WEBRTC_SPL_MUL m m = m * m" using assms by (simp add: WEBRTC_SPL_MUL_def s32_id)
  define t where "t = WebRtcSpl_NormW32 (m * m)"
  have nt: "m * m * 2 ^ t < 2 ^ 31"
    using norm_w32_normed [of "m * m"] sq by (simp add: normed_def t_def)
  have "1 * 2 ^ t \<le> m * m * 2 ^ t" using sq by (intro mult_right_mono) simp_all
  then have "(2 :: int) ^ t < 2 ^ 31" using nt by linarith
  then have t: "t < 31" by (simp only: power_strict_increasing_iff)
  then have "2 ^ (31 - t) * 2 ^ t = (2 :: int) ^ 31" by (simp flip: power_add)
  then have "m * m * 2 ^ t < 2 ^ (31 - t) * 2 ^ t" using nt by linarith
  then have "m * m < 2 ^ (31 - t)" by (simp only: mult_less_cancel_right zero_less_power zero_less_numeral) simp
  with t show "WebRtcSpl_NormW32 (WEBRTC_SPL_MUL m m) \<le> 30"
    "m * m < 2 ^ (31 - WebRtcSpl_NormW32 (WEBRTC_SPL_MUL m m))" by (simp_all add: mul t_def)
qed

lemma size_in_bits_31:
  assumes "n < 2147483648"
  shows "WebRtcSpl_GetSizeInBits (u32 (int n)) \<le> 31" and "int n < 2 ^ WebRtcSpl_GetSizeInBits (u32 (int n))"
proof -
  have u: "u32 (int n) = int n" using assms by (simp add: u32_id)
  show "int n < 2 ^ WebRtcSpl_GetSizeInBits (u32 (int n))"
    using GetSizeInBits_upper [of "int n"] assms by (simp add: u)
  show "WebRtcSpl_GetSizeInBits (u32 (int n)) \<le> 31"
  proof (cases "n = 0")
    case False
    then have "(2 :: int) ^ (WebRtcSpl_GetSizeInBits (int n) - 1) \<le> int n"
      using GetSizeInBits_pos(2) [of "int n"] assms by simp
    also have "int n < 2 ^ 31" using assms by simp
    finally have "WebRtcSpl_GetSizeInBits (int n) - 1 < 31" by (simp only: power_strict_increasing_iff)
    then show ?thesis by (simp add: u)
  qed (simp add: u32_id)
qed

lemma MaxAbsValueW16C_eq:
  assumes "xs \<noteq> []"
  shows "WebRtcSpl_MaxAbsValueW16C (Some xs) (int (length xs)) = min 32767 (Max (abs ` set xs))"
proof -
  define M where "M = Max (abs ` set xs)"
  have p: "0 \<le> M" unfolding M_def using assms by (auto simp: Max_ge_iff intro: last_in_set)
  have "fold (\<lambda>x. max_step \<bar>x\<bar>) xs 0 = max 0 M"
    using assms fold_max_step_map [of abs xs 0] fold_max_step [of "map abs xs" 0] by (simp add: M_def)
  then have "fold (\<lambda>x. max_step \<bar>x\<bar>) xs 0 = M" using p by simp
  moreover have "s16 (min 32767 M) = min 32767 M" using p by (intro s16_id) simp_all
  ultimately show ?thesis using assms unfolding M_def [symmetric]
    by (auto simp: WebRtcSpl_MaxAbsValueW16C_def Let_def min_def)
qed

lemma product_bound:
  assumes x: "is16 a" "is16 b" "a \<in> set xs" "b \<in> set xs"
    and m: "m = min 32767 (Max (abs ` set xs))" "m \<noteq> 0"
  shows "\<bar>a * b\<bar> \<le> 2 ^ (31 - WebRtcSpl_NormW32 (WEBRTC_SPL_MUL m m))"
proof (cases "m = 32767")
  case True
  have "WebRtcSpl_NormW32 (WEBRTC_SPL_MUL 32767 32767) = 1" by code_simp
  then show ?thesis using is16_mul [OF x(1,2)] True by simp
next
  case False
  then have "m = Max (abs ` set xs)" using m by (simp add: min_def split: if_splits)
  then have ab: "\<bar>a\<bar> \<le> m" "\<bar>b\<bar> \<le> m" using x by simp_all
  then have "0 < m" using m(2) by linarith
  then have "m * m < 2 ^ (31 - WebRtcSpl_NormW32 (WEBRTC_SPL_MUL m m))"
    using m by (intro norm_square_bound) simp_all
  moreover have "\<bar>a * b\<bar> \<le> m * m" unfolding abs_mult using ab by (intro mult_mono) simp_all
  ultimately show ?thesis by linarith
qed

lemma zip_in_set: "(a, b) \<in> set (zip as bs) \<Longrightarrow> a \<in> set as \<and> b \<in> set bs"
  by (metis set_zip_leftD set_zip_rightD)

lemma correlation_bound:
  assumes x: "\<And>x. x \<in> set xs \<Longrightarrow> is16 x" and n: "length xs < 2147483648" and ne: "xs \<noteq> []"
    and sub: "set as \<subseteq> set xs" "set bs \<subseteq> set xs" "length (zip as bs) \<le> length xs"
    and sc: "sc = autocorr_scaling (WebRtcSpl_MaxAbsValueW16C (Some xs) (int (length xs))) (int (length xs))"
  shows "\<bar>\<Sum>p\<leftarrow>map (\<lambda>(a, b). a * b) (zip as bs). asr p sc\<bar> < 2147483648"
proof -
  define m where "m = min 32767 (Max (abs ` set xs))"
  define nb where "nb = WebRtcSpl_GetSizeInBits (u32 (int (length xs)))"
  define t where "t = (if m = 0 then 31 else WebRtcSpl_NormW32 (WEBRTC_SPL_MUL m m))"
  note nb = size_in_bits_31 [OF n, folded nb_def]
  have m0: "0 \<le> m" using ne by (auto simp: m_def Max_ge_iff intro: last_in_set)
  have t: "t \<le> 31"
  proof (cases "m = 0")
    case False
    have "m \<le> 32767" by (simp add: m_def)
    then show ?thesis using False m0 norm_square_bound(1) [of m] by (simp add: t_def)
  qed (simp add: t_def)
  have sc': "sc = (if t > nb then 0 else nb - t)"
    using sc ne nb(1) by (simp add: MaxAbsValueW16C_eq autocorr_scaling_def t_def nb_def m_def Let_def)
  have "int (length (map (\<lambda>(a, b). a * b) (zip as bs))) < 2 ^ nb" using nb(2) sub(3) by simp
  then show ?thesis
  proof (rule scaled_sum_bound [OF _ nb(1) t sc'])
    fix p assume "p \<in> set (map (\<lambda>(a, b). a * b) (zip as bs))"
    then obtain a b where ab: "p = a * b" "a \<in> set xs" "b \<in> set xs"
      using sub zip_in_set by fastforce
    show "\<bar>p\<bar> \<le> 2 ^ (31 - t)"
    proof (cases "m = 0")
      case True
      then have "Max (abs ` set xs) = 0" by (simp add: m_def min_def split: if_splits)
      moreover have "\<bar>a\<bar> \<le> Max (abs ` set xs)" using ab(2) by simp
      ultimately have "a = 0" by simp
      then show ?thesis by (simp add: ab)
    next
      case False
      then show ?thesis using product_bound [OF x x ab(2,3) m_def] ab by (simp add: t_def)
    qed
  qed
qed

lemma dot_unrolled_exact:
  assumes "\<And>a b. (a, b) \<in> set (zip as bs) \<Longrightarrow> is16 a \<and> is16 b"
    and "\<bar>\<Sum>p\<leftarrow>map (\<lambda>(a, b). a * b) (zip as bs). asr p sc\<bar> < 2147483648"
  shows "dot_unrolled sc as bs 0 = (\<Sum>(a, b)\<leftarrow>zip as bs. asr (a * b) sc)"
proof -
  have e: "map (\<lambda>(a, b). asr (s32 (a * b)) sc) (zip as bs) = map (\<lambda>(a, b). asr (a * b) sc) (zip as bs)"
  proof (intro map_cong refl, clarify)
    fix a b assume "(a, b) \<in> set (zip as bs)"
    then have "\<bar>a * b\<bar> \<le> 1073741824" using assms(1) is16_mul by blast
    then show "asr (s32 (a * b)) sc = asr (a * b) sc" by (simp add: s32_id)
  qed
  have "s32 0 = 0" by (simp add: s32_id)
  then have "dot_unrolled sc as bs 0 = s32 (\<Sum>(a, b)\<leftarrow>zip as bs. asr (a * b) sc)"
    using dot_unrolled_sum [of sc as bs 0] by (simp add: e)
  also have "\<dots> = (\<Sum>(a, b)\<leftarrow>zip as bs. asr (a * b) sc)"
    using assms(2) by (intro s32_id) (simp_all add: comp_def case_prod_unfold)
  finally show ?thesis .
qed

lemma scaling_square_eq:
  assumes "\<And>x. x \<in> set xs \<Longrightarrow> is16 x \<and> x \<noteq> -32768" and "xs \<noteq> []"
  shows "WebRtcSpl_GetScalingSquare xs (int (length xs)) (int (length xs)) =
    autocorr_scaling (WebRtcSpl_MaxAbsValueW16C (Some xs) (int (length xs))) (int (length xs))"
proof -
  define M where "M = Max (abs ` set xs)"
  have "x \<in> set xs \<Longrightarrow> \<bar>x\<bar> \<le> 32767" for x using assms(1) [of x] by (auto simp: is16_def)
  then have M: "0 \<le> M" "M \<le> 32767"
    unfolding M_def using assms(2) by (auto simp: Max_ge_iff intro: last_in_set)
  have "fold (\<lambda>x smax. let sabs = s16 (if x > 0 then x else - x) in if sabs > smax then sabs else smax) xs (-1) =
      fold (\<lambda>x. max_step \<bar>x\<bar>) xs (-1)"
  proof (intro fold_cong refl ext)
    fix x smax assume "x \<in> set xs"
    then have "s16 (if x > 0 then x else - x) = \<bar>x\<bar>" using assms(1) [of x] by (auto simp: is16_def s16_id)
    then show "(let sabs = s16 (if x > 0 then x else - x) in if sabs > smax then sabs else smax) =
        max_step \<bar>x\<bar> smax"
      unfolding Let_def by (simp only: max_step_def)
  qed
  also have "\<dots> = max (-1) M"
    using assms(2) fold_max_step_map [of abs xs "-1"] fold_max_step [of "map abs xs" "-1"] by (simp add: M_def)
  finally have "fold (\<lambda>x smax. let sabs = s16 (if x > 0 then x else - x) in if sabs > smax then sabs else smax) xs (-1) = M"
    using M by simp
  then show ?thesis
    using M MaxAbsValueW16C_eq [OF assms(2)]
    by (simp add: WebRtcSpl_GetScalingSquare_def autocorr_scaling_def Let_def flip: M_def)
qed

lemma energy_eq:
  assumes "\<And>x. x \<in> set xs \<Longrightarrow> is16 x"
  shows "WebRtcSpl_Energy xs (int (length xs)) =
    (s32 (\<Sum>x\<leftarrow>xs. asr (x * x) (WebRtcSpl_GetScalingSquare xs (int (length xs)) (int (length xs)))),
     WebRtcSpl_GetScalingSquare xs (int (length xs)) (int (length xs)))"
proof -
  define sc where "sc = WebRtcSpl_GetScalingSquare xs (int (length xs)) (int (length xs))"
  have "map (\<lambda>x. WEBRTC_SPL_MUL_16_16_RSFT x x sc) xs = map (\<lambda>x. asr (x * x) sc) xs"
    using assms by (simp add: WEBRTC_SPL_MUL_16_16_RSFT_def MUL_16_16_exact)
  then show ?thesis
    using fold_s32_sum [of "\<lambda>x. WEBRTC_SPL_MUL_16_16_RSFT x x sc" xs 0]
    unfolding WebRtcSpl_Energy_def Let_def sc_def [symmetric] by (simp del: map_eq_conv)
qed

lemma downsample_loop_unroll:
  assumes "0 < factor" and "endpos = i + factor * (int k - 1) + 1"
  shows "downsample_loop blk base cs n factor endpos i =
    Some (map (\<lambda>j. downsample_tap blk base cs n (i + factor * int j)) [0..<k])"
  using assms(2)
proof (induction k arbitrary: i)
  case 0
  then show ?case using assms(1) by (subst downsample_loop.simps) simp
next
  case (Suc k)
  have "0 \<le> factor * int k" using assms(1) by simp
  then have "i < endpos" using Suc.prems by (simp add: algebra_simps)
  moreover have "downsample_loop blk base cs n factor endpos (i + factor) =
      Some (map (\<lambda>j. downsample_tap blk base cs n (i + factor + factor * int j)) [0..<k])"
    using Suc.prems by (intro Suc.IH) (simp add: algebra_simps)
  ultimately have "downsample_loop blk base cs n factor endpos i =
      Some (downsample_tap blk base cs n i #
        map (\<lambda>j. downsample_tap blk base cs n (i + factor + factor * int j)) [0..<k])"
    by (subst downsample_loop.simps) simp
  then show ?case
    unfolding map_upt_Suc by (simp add: algebra_simps)
qed

subsection \<open>Properties\<close>

text \<open>C37: \<open>WebRtcSpl_AutoCorrelation\<close> never overflows: for every vector of \<open>int16_t\<close> samples (also
  with samples of -32768, whose absolute value the scaling rule sees as 32767) each returned lag is
  the exact sum of the products, each shifted down by the returned scale; \<open>order + 1\<close> lags are
  written and the unrolled loop leaves no product out.\<close>

theorem AutoCorrelation_exact:
  assumes x: "list_all is16 xs" and n: "length xs < 2 ^ 31" and ne: "xs \<noteq> []"
    and order: "0 \<le> order" "order \<le> int (length xs)"
  shows "\<exists>sc. WebRtcSpl_AutoCorrelation xs (int (length xs)) order result =
      (order + 1,
       memcpy result 0 (map (\<lambda>i. \<Sum>j < length xs - i. asr (xs ! j * xs ! (i + j)) sc) [0..<nat (order + 1)]),
       Some sc)"
proof -
  have x': "\<And>x. x \<in> set xs \<Longrightarrow> is16 x" using x by (simp add: list_all_iff)
  have n': "length xs < 2147483648" using n by simp
  define sc where "sc = autocorr_scaling (WebRtcSpl_MaxAbsValueW16C (Some xs) (int (length xs))) (int (length xs))"
  have lag: "dot_unrolled sc (take (length xs - i) xs) (take (length xs - i) (drop i xs)) 0 =
      (\<Sum>j < length xs - i. asr (xs ! j * xs ! (i + j)) sc)" if "i \<le> length xs" for i
  proof -
    define as where "as = take (length xs - i) xs"
    define bs where "bs = take (length xs - i) (drop i xs)"
    have sub: "set as \<subseteq> set xs" "set bs \<subseteq> set xs" "length (zip as bs) \<le> length xs"
      by (auto simp: as_def bs_def dest!: in_set_takeD in_set_dropD)
    have len: "length as = length xs - i" "length bs = length xs - i" by (simp_all add: as_def bs_def)
    have "dot_unrolled sc as bs 0 = (\<Sum>(a, b)\<leftarrow>zip as bs. asr (a * b) sc)"
      using sub(1,2) x' by (intro dot_unrolled_exact correlation_bound [OF x' n' ne sub sc_def])
        (auto dest!: zip_in_set)
    also have "\<dots> = (\<Sum>j < length as. asr (as ! j * bs ! j) sc)"
      by (rule sum_list_zip_nth) (simp add: len)
    also have "\<dots> = (\<Sum>j < length xs - i. asr (xs ! j * xs ! (i + j)) sc)"
      unfolding len by (rule sum.cong) (simp_all add: as_def bs_def that)
    finally show ?thesis by (simp add: as_def bs_def)
  qed
  have "map (\<lambda>i. dot_unrolled sc (take (length xs - i) xs) (take (length xs - i) (drop i xs)) 0)
        [0..<nat (order + 1)] =
      map (\<lambda>i. \<Sum>j < length xs - i. asr (xs ! j * xs ! (i + j)) sc) [0..<nat (order + 1)]"
    using order by (intro map_cong refl lag) auto
  then show ?thesis using order unfolding WebRtcSpl_AutoCorrelation_def Let_def
    by (simp flip: sc_def del: map_eq_conv take_all_iff)
qed

theorem AutoCorrelation_exact_witness:
  "\<exists>sc. WebRtcSpl_AutoCorrelation [-32768, -32768, 5] (int (length [-32768, -32768, 5 :: int])) 2 [0, 0, 0] =
      (2 + 1,
       memcpy [0, 0, 0] 0 (map (\<lambda>i. \<Sum>j < length [-32768, -32768, 5 :: int] - i.
          asr ([-32768, -32768, 5] ! j * [-32768, -32768, 5] ! (i + j)) sc) [0..<nat (2 + 1)]),
       Some sc)"
  by (rule AutoCorrelation_exact) (simp_all add: is16_def)

text \<open>C38: \<open>WebRtcSpl_Energy\<close> is the exact sum of the squares shifted down by the returned scale
  factor, without overflow, for every vector of samples none of which is -32768.\<close>

theorem Energy_exact:
  assumes x: "list_all (\<lambda>x. is16 x \<and> x \<noteq> -32768) xs" and n: "length xs < 2 ^ 31" and ne: "xs \<noteq> []"
    and res: "WebRtcSpl_Energy xs (int (length xs)) = (en, sc)"
  shows "en = (\<Sum>x\<leftarrow>xs. asr (x * x) sc) \<and> 0 \<le> en \<and> en < 2 ^ 31"
proof -
  have x': "\<And>x. x \<in> set xs \<Longrightarrow> is16 x" "\<And>x. x \<in> set xs \<Longrightarrow> is16 x \<and> x \<noteq> -32768"
    using x by (simp_all add: list_all_iff)
  have sc: "sc = WebRtcSpl_GetScalingSquare xs (int (length xs)) (int (length xs))"
    and en: "en = s32 (\<Sum>x\<leftarrow>xs. asr (x * x) sc)"
    using res energy_eq [of xs] x'(1) by auto
  have "map (\<lambda>(a, b). a * b) (zip xs xs) = map (\<lambda>x. x * x) xs" by (simp add: zip_same_conv_map)
  then have b: "\<bar>\<Sum>x\<leftarrow>xs. asr (x * x) sc\<bar> < 2147483648"
    using correlation_bound [OF x'(1) _ ne, of xs xs sc] n sc scaling_square_eq [OF x'(2) ne]
    by (simp add: comp_def)
  have "0 \<le> (\<Sum>x\<leftarrow>xs. asr (x * x) sc)"
    by (intro sum_list_nonneg) (auto simp: asr_div pos_imp_zdiv_nonneg_iff)
  with b show ?thesis by (simp add: en s32_id)
qed

theorem Energy_exact_witness:
  "fst (WebRtcSpl_Energy [30000, -30000, 7] (int (length [30000, -30000, 7 :: int]))) =
     (\<Sum>x\<leftarrow>[30000, -30000, 7]. asr (x * x) (snd (WebRtcSpl_Energy [30000, -30000, 7] (int (length [30000, -30000, 7 :: int])))))"
  using Energy_exact [of "[30000, -30000, 7]", OF _ _ _ prod.collapse [symmetric]] by (simp add: is16_def)

text \<open>C39: samples of -32768 defeat the scaling rule of \<open>WebRtcSpl_Energy\<close>: the negation in
  \<open>WebRtcSpl_GetScalingSquare\<close> is stored to an \<open>int16_t\<close>, so such a sample does not count for the
  maximum.  A vector of \<open>n\<close> of them gets scale 0 and the wrapped sum \<open>n * 2 ^ 30\<close>: negative
  already for two samples.\<close>

theorem Energy_min_sample_wraps:
  assumes "0 < n" and "n < 2 ^ 29"
  shows "WebRtcSpl_Energy (replicate n (-32768)) (int n) = (s32 (int n * 2 ^ 30), 0)"
proof -
  have f: "fold (\<lambda>x smax. let sabs = s16 (if x > 0 then x else - x) in if sabs > smax then sabs else smax)
      (replicate n (-32768)) (-1) = -1"
    by (induction n) (simp_all add: s16_def)
  have nw: "WebRtcSpl_NormW32 (WEBRTC_SPL_MUL (-1) (-1)) = 30" by code_simp
  have "(2 :: int) ^ (WebRtcSpl_GetSizeInBits (int n) - 1) \<le> int n"
    using GetSizeInBits_pos(2) [of "int n"] assms by simp
  also have "int n < 2 ^ 29" using assms(2) by simp
  finally have "WebRtcSpl_GetSizeInBits (int n) - 1 < 29" by (simp only: power_strict_increasing_iff)
  then have "WebRtcSpl_GetSizeInBits (u32 (int n)) < 30" using assms by (simp add: u32_id)
  then have sc: "WebRtcSpl_GetScalingSquare (replicate n (-32768)) (int n) (int n) = 0"
    using f nw by (simp add: WebRtcSpl_GetScalingSquare_def Let_def)
  show ?thesis
    using energy_eq [of "replicate n (-32768)"] sc by (simp add: is16_def sum_list_replicate asr_div split: if_splits)
qed

theorem Energy_min_sample_wraps_witness:
  "WebRtcSpl_Energy (replicate 2 (-32768)) (int 2) = (s32 (int 2 * 2 ^ 30), 0) \<and> s32 (int 2 * 2 ^ 30) < 0"
proof -
  have "(0 :: nat) < 2" "(2 :: nat) < 2 ^ 29" by simp_all
  from Energy_min_sample_wraps [OF this] show ?thesis by (simp add: s32_def)
qed

text \<open>The index functions return the first position of the extremum, for every non-empty vector
  of values of the type: the largest element, the smallest, and the largest magnitude (where -32768
  counts as 32768).\<close>

theorem extremum_index_correct:
  assumes x: "list_all is16 xs" and ne: "xs \<noteq> []"
  shows "(\<exists>k. WebRtcSpl_MaxIndexW16 (Some xs) (int (length xs)) = int k \<and> k < length xs
          \<and> xs ! k = Max (set xs) \<and> (\<forall>j<k. xs ! j < xs ! k))
      \<and> (\<exists>k. WebRtcSpl_MinIndexW16 (Some xs) (int (length xs)) = int k \<and> k < length xs
          \<and> xs ! k = Min (set xs) \<and> (\<forall>j<k. xs ! k < xs ! j))
      \<and> (\<exists>k. WebRtcSpl_MaxAbsIndexW16 (Some xs) (int (length xs)) = int k \<and> k < length xs
          \<and> \<bar>xs ! k\<bar> = Max (abs ` set xs) \<and> (\<forall>j<k. \<bar>xs ! j\<bar> < \<bar>xs ! k\<bar>))"
proof (intro conjI)
  have mx: "xs ! k = Max (set xs)" if "\<forall>j < length xs. \<not> xs ! j > xs ! k" "k < length xs" for k
    using that by (intro Max_eqI [symmetric]) (auto simp: in_set_conv_nth not_less)
  have mn: "xs ! k = Min (set xs)" if "\<forall>j < length xs. \<not> xs ! j < xs ! k" "k < length xs" for k
    using that by (intro Min_eqI [symmetric]) (auto simp: in_set_conv_nth not_less)
  have ab: "\<bar>xs ! k\<bar> = Max (abs ` set xs)" if "\<forall>j < length xs. \<not> \<bar>xs ! j\<bar> > \<bar>xs ! k\<bar>" "k < length xs" for k
    using that by (intro Max_eqI [symmetric]) (auto simp: in_set_conv_nth not_less intro!: imageI)
  show "\<exists>k. WebRtcSpl_MaxIndexW16 (Some xs) (int (length xs)) = int k \<and> k < length xs
          \<and> xs ! k = Max (set xs) \<and> (\<forall>j<k. xs ! j < xs ! k)"
    using largest.loop_first_best [OF ne, of "-32768"] x ne mx
    by (fastforce simp: WebRtcSpl_MaxIndexW16_def list_all_iff is16_def)
  show "\<exists>k. WebRtcSpl_MinIndexW16 (Some xs) (int (length xs)) = int k \<and> k < length xs
          \<and> xs ! k = Min (set xs) \<and> (\<forall>j<k. xs ! k < xs ! j)"
    using smallest.loop_first_best [OF ne, of 32767] x ne mn
    by (fastforce simp: WebRtcSpl_MinIndexW16_def list_all_iff is16_def)
  show "\<exists>k. WebRtcSpl_MaxAbsIndexW16 (Some xs) (int (length xs)) = int k \<and> k < length xs
          \<and> \<bar>xs ! k\<bar> = Max (abs ` set xs) \<and> (\<forall>j<k. \<bar>xs ! j\<bar> < \<bar>xs ! k\<bar>)"
    using largest.loop_first_best [of "map abs xs" 0] ne ab
    by (fastforce simp: WebRtcSpl_MaxAbsIndexW16_def)
qed

theorem extremum_index_correct_witness:
  "\<exists>k. WebRtcSpl_MaxAbsIndexW16 (Some [3, -32768, 32767]) (int (length [3, -32768, 32767 :: int])) = int k
     \<and> k < length [3, -32768, 32767 :: int]
     \<and> \<bar>[3, -32768, 32767 :: int] ! k\<bar> = Max (abs ` set [3, -32768, 32767])
     \<and> (\<forall>j<k. \<bar>[3, -32768, 32767 :: int] ! j\<bar> < \<bar>[3, -32768, 32767] ! k\<bar>)"
proof -
  have "list_all is16 [3, -32768, 32767]" "[3, -32768, 32767 :: int] \<noteq> []" by (simp_all add: is16_def)
  from extremum_index_correct [OF this] show ?thesis by blast
qed

text \<open>\<open>WebRtcSpl_DownsampleFastC\<close> ends for every positive factor and, unless it rejects its
  arguments, writes \<open>data_out_length\<close> samples: sample \<open>k\<close> is the filter output at
  \<open>delay + k * factor\<close> in Q12, rounded to nearest and saturated.\<close>

theorem DownsampleFast_correct:
  assumes "0 < factor"
  shows "WebRtcSpl_DownsampleFastC blk base n_in out n_out cs n_cs factor delay =
    Some (if n_out \<le> 0 \<or> n_cs \<le> 0 \<or> n_in < delay + factor * (n_out - 1) + 1 then (-1, out)
      else (0, memcpy out 0 (map (\<lambda>k. max (-32768) (min 32767 (asr (s32 (2048 +
        (\<Sum>j < nat n_cs. cs ! j * blk ! nat (int base + (delay + factor * int k) - int j)))) 12)))
        [0..<nat n_out])))"
proof -
  have tap: "downsample_tap blk base cs n_cs i = max (-32768) (min 32767 (asr (s32 (2048 +
        (\<Sum>j < nat n_cs. cs ! j * blk ! nat (int base + i - int j)))) 12))" for i
    using fold_s32_sum [of "\<lambda>j. cs ! j * blk ! nat (int base + i - int j)" "[0..<nat n_cs]" 2048]
    by (simp add: downsample_tap_def SatW32ToW16_clamp s32_id sum_list_sum_nth atLeast0LessThan)
  show ?thesis
  proof (cases "n_out \<le> 0 \<or> n_cs \<le> 0 \<or> n_in < delay + factor * (n_out - 1) + 1")
    case False
    then have "downsample_loop blk base cs n_cs factor (delay + factor * (n_out - 1) + 1) delay =
        Some (map (\<lambda>j. downsample_tap blk base cs n_cs (delay + factor * int j)) [0..<nat n_out])"
      by (intro downsample_loop_unroll assms) simp
    then show ?thesis
      using False by (simp add: WebRtcSpl_DownsampleFastC_def tap Let_def del: map_eq_conv)
  qed (simp add: WebRtcSpl_DownsampleFastC_def)
qed

theorem DownsampleFast_correct_witness:
  "WebRtcSpl_DownsampleFastC [1, 2, 3, 4] 0 4 [0, 0] 2 [4096, 4096] 2 2 1 =
    Some (if (2 :: int) \<le> 0 \<or> (2 :: int) \<le> 0 \<or> (4 :: int) < 1 + 2 * (2 - 1) + 1 then (-1, [0, 0])
      else (0, memcpy [0, 0] 0 (map (\<lambda>k. max (-32768) (min 32767 (asr (s32 (2048 +
        (\<Sum>j < nat 2. [4096, 4096] ! j * [1, 2, 3, 4] ! nat (int 0 + (1 + 2 * int k) - int j)))) 12)))
        [0..<nat 2])))"
  by (rule DownsampleFast_correct) simp

end
