(* ===== verification/G711.thy ===== *)
theory G711
  imports Prelude
begin

text \<open>
  The companding codecs of \<^verbatim>\<open>webrtc/modules/audio_coding/codecs\<close>: G.711 (the conversions of
  \<^verbatim>\<open>g711/g711.h\<close> in their portable form, the transcoding tables of \<^verbatim>\<open>g711/g711.c\<close>, the
  little-endian codec interface of \<^verbatim>\<open>g711/g711_interface.c\<close>) and linear PCM
  (\<^verbatim>\<open>pcm16b/pcm16b.c\<close>).  Bytes are integers below 256; a code stream is stored two bytes to an
  \<open>int16_t\<close> as the interface does.
\<close>

subsection \<open>Bit search\<close>

definition top_step :: "int \<Rightarrow> nat \<Rightarrow> int \<times> nat \<Rightarrow> int \<times> nat" where
  "top_step m s = (\<lambda>(bits, i). if bits AND m \<noteq> 0 then (bits AND m, i + s) else (bits, i))"

definition top_bit :: "int \<Rightarrow> int" where
  "top_bit bits =
    (if bits = 0 then -1
     else let (bits, i) = top_step 0xFFFF0000 16 (bits, 0);
              (bits, i) = top_step 0xFF00FF00 8 (bits, i);
              (bits, i) = top_step 0xF0F0F0F0 4 (bits, i);
              (bits, i) = top_step 0xCCCCCCCC 2 (bits, i);
              (bits, i) = top_step 0xAAAAAAAA 1 (bits, i)
          in int i)"

subsection \<open>Sample conversions\<close>

definition linear_to_ulaw :: "int \<Rightarrow> int" where
  "linear_to_ulaw linear =
    (let mask = (if linear < 0 then 0x7F else 0xFF);
         linear = (if linear < 0 then 0x84 - linear - 1 else 0x84 + linear);
         seg = top_bit (u32 (linear OR 0xFF)) - 7
     in if seg \<ge> 8 then u8 (0x7F XOR mask)
        else u8 ((shl seg 4 OR (asr linear (nat (seg + 3)) AND 0xF)) XOR mask))"

definition ulaw_to_linear :: "int \<Rightarrow> int" where
  "ulaw_to_linear ulaw =
    (let ulaw = u8 (not ulaw);
         t = shl (shl (ulaw AND 0x0F) 3 + 0x84) (nat (asr (ulaw AND 0x70) 4))
     in s16 (if ulaw AND 0x80 \<noteq> 0 then 0x84 - t else t - 0x84))"

definition linear_to_alaw :: "int \<Rightarrow> int" where
  "linear_to_alaw linear =
    (let mask = (if linear \<ge> 0 then 0x55 OR 0x80 else 0x55);
         linear = (if linear \<ge> 0 then linear else - linear - 1);
         seg = top_bit (u32 (linear OR 0xFF)) - 7
     in if seg \<ge> 8 then (if linear \<ge> 0 then u8 (0x7F XOR mask) else u8 (0x00 XOR mask))
        else u8 ((shl seg 4 OR (asr linear (nat (if seg \<noteq> 0 then seg + 3 else 4)) AND 0x0F)) XOR mask))"

definition alaw_to_linear :: "int \<Rightarrow> int" where
  "alaw_to_linear alaw =
    (let alaw = u8 (alaw XOR 0x55);
         i = shl (alaw AND 0x0F) 4;
         seg = asr (alaw AND 0x70) 4;
         i = (if seg \<noteq> 0 then shl (i + 0x108) (nat (seg - 1)) else i + 8)
     in s16 (if alaw AND 0x80 \<noteq> 0 then i else - i))"

subsection \<open>Transcoding\<close>

definition ulaw_to_alaw_table :: "int list" where
  "ulaw_to_alaw_table = [
    42, 43, 40, 41, 46, 47, 44, 45, 34, 35, 32, 33, 38, 39, 36, 37, 58, 59, 56, 57,
    62, 63, 60, 61, 50, 51, 48, 49, 54, 55, 52, 53, 10, 11, 8, 9, 14, 15, 12, 13,
    2, 3, 0, 1, 6, 7, 4, 26, 27, 24, 25, 30, 31, 28, 29, 18, 19, 16, 17, 22,
    23, 20, 21, 106, 104, 105, 110, 111, 108, 109, 98, 99, 96, 97, 102, 103, 100, 101, 122, 120,
    126, 127, 124, 125, 114, 115, 112, 113, 118, 119, 116, 117, 75, 73, 79, 77, 66, 67, 64, 65,
    70, 71, 68, 69, 90, 91, 88, 89, 94, 95, 92, 93, 82, 82, 83, 83, 80, 80, 81, 81,
    86, 86, 87, 87, 84, 84, 85, 85, 170, 171, 168, 169, 174, 175, 172, 173, 162, 163, 160, 161,
    166, 167, 164, 165, 186, 187, 184, 185, 190, 191, 188, 189, 178, 179, 176, 177, 182, 183, 180, 181,
    138, 139, 136, 137, 142, 143, 140, 141, 130, 131, 128, 129, 134, 135, 132, 154, 155, 152, 153, 158,
    159, 156, 157, 146, 147, 144, 145, 150, 151, 148, 149, 234, 232, 233, 238, 239, 236, 237, 226, 227,
    224, 225, 230, 231, 228, 229, 250, 248, 254, 255, 252, 253, 242, 243, 240, 241, 246, 247, 244, 245,
    203, 201, 207, 205, 194, 195, 192, 193, 198, 199, 196, 197, 218, 219, 216, 217, 222, 223, 220, 221,
    210, 210, 211, 211, 208, 208, 209, 209, 214, 214, 215, 215, 212, 212, 213, 213]"

definition alaw_to_ulaw_table :: "int list" where
  "alaw_to_ulaw_table = [
    42, 43, 40, 41, 46, 47, 44, 45, 34, 35, 32, 33, 38, 39, 36, 37, 57, 58, 55, 56,
    61, 62, 59, 60, 49, 50, 47, 48, 53, 54, 51, 52, 10, 11, 8, 9, 14, 15, 12, 13,
    2, 3, 0, 1, 6, 7, 4, 5, 26, 27, 24, 25, 30, 31, 28, 29, 18, 19, 16, 17,
    22, 23, 20, 21, 98, 99, 96, 97, 102, 103, 100, 101, 93, 93, 92, 92, 95, 95, 94, 94,
    116, 118, 112, 114, 124, 126, 120, 122, 106, 107, 104, 105, 110, 111, 108, 109, 72, 73, 70, 71,
    76, 77, 74, 75, 64, 65, 63, 63, 68, 69, 66, 67, 86, 87, 84, 85, 90, 91, 88, 89,
    79, 79, 78, 78, 82, 83, 80, 81, 170, 171, 168, 169, 174, 175, 172, 173, 162, 163, 160, 161,
    166, 167, 164, 165, 185, 186, 183, 184, 189, 190, 187, 188, 177, 178, 175, 176, 181, 182, 179, 180,
    138, 139, 136, 137, 142, 143, 140, 141, 130, 131, 128, 129, 134, 135, 132, 133, 154, 155, 152, 153,
    158, 159, 156, 157, 146, 147, 144, 145, 150, 151, 148, 149, 226, 227, 224, 225, 230, 231, 228, 229,
    221, 221, 220, 220, 223, 223, 222, 222, 244, 246, 240, 242, 252, 254, 248, 250, 234, 235, 232, 233,
    238, 239, 236, 237, 200, 201, 198, 199, 204, 205, 202, 203, 192, 193, 191, 191, 196, 197, 194, 195,
    214, 215, 212, 213, 218, 219, 216, 217, 207, 207, 206, 206, 210, 211, 208, 209]"

definition alaw_to_ulaw :: "int \<Rightarrow> int" where
  "alaw_to_ulaw alaw = alaw_to_ulaw_table ! nat alaw"

definition ulaw_to_alaw :: "int \<Rightarrow> int" where
  "ulaw_to_alaw ulaw = ulaw_to_alaw_table ! nat ulaw"

subsection \<open>Codec interface\<close>

text \<open>
  The two encoders and the two decoders differ in the sample conversion; \<open>encode_sample\<close> and
  \<open>decode_sample\<close> are one round of their loops (the variable \<open>tempVal2\<close> of \<open>WebRtcG711_EncodeA\<close> is
  written but never read).
\<close>

definition encode_sample :: "(int \<Rightarrow> int) \<Rightarrow> int list \<Rightarrow> nat \<Rightarrow> int list \<Rightarrow> int list" where
  "encode_sample conv speechIn n encoded =
    (let tempVal = u16 (conv (speechIn ! n))
     in if n mod 2 = 1 then encoded[n div 2 := s16 (encoded ! (n div 2) OR shl tempVal 8)]
        else encoded[n div 2 := s16 tempVal])"

definition decode_sample :: "(int \<Rightarrow> int) \<Rightarrow> int list \<Rightarrow> nat \<Rightarrow> int list \<Rightarrow> int list" where
  "decode_sample conv encoded n decoded =
    (let tempVal = (if n mod 2 = 1 then u16 (asr (encoded ! (n div 2)) 8)
                    else u16 (encoded ! (n div 2) AND 0xFF))
     in decoded[n := s16 (conv (u8 tempVal))])"

definition WebRtcG711_EncodeA :: "int list \<Rightarrow> int \<Rightarrow> int list \<Rightarrow> int \<times> int list" where
  "WebRtcG711_EncodeA speechIn len encoded =
    (if len < 0 then (-1, encoded)
     else (len, fold (encode_sample linear_to_alaw speechIn) [0..<nat len] encoded))"

definition WebRtcG711_EncodeU :: "int list \<Rightarrow> int \<Rightarrow> int list \<Rightarrow> int \<times> int list" where
  "WebRtcG711_EncodeU speechIn len encoded =
    (if len < 0 then (-1, encoded)
     else (len, fold (encode_sample linear_to_ulaw speechIn) [0..<nat len] encoded))"

text \<open>The last component is \<open>*speechType\<close>, written only when the length is valid.\<close>

definition WebRtcG711_DecodeA :: "int list \<Rightarrow> int \<Rightarrow> int list \<Rightarrow> int \<times> int list \<times> int option" where
  "WebRtcG711_DecodeA encoded len decoded =
    (if len < 0 then (-1, decoded, None)
     else (len, fold (decode_sample alaw_to_linear encoded) [0..<nat len] decoded, Some 1))"

definition WebRtcG711_DecodeU :: "int list \<Rightarrow> int \<Rightarrow> int list \<Rightarrow> int \<times> int list \<times> int option" where
  "WebRtcG711_DecodeU encoded len decoded =
    (if len < 0 then (-1, decoded, None)
     else (len, fold (decode_sample ulaw_to_linear encoded) [0..<nat len] decoded, Some 1))"

definition WebRtcG711_DurationEst :: "int \<Rightarrow> int" where
  "WebRtcG711_DurationEst payload_length_bytes = payload_length_bytes"

subsection \<open>Linear PCM\<close>

definition WebRtcPcm16b_EncodeW16 :: "int list \<Rightarrow> int \<Rightarrow> int list \<Rightarrow> int \<times> int list" where
  "WebRtcPcm16b_EncodeW16 speechIn len speechOut =
    (s16 (shl len 1),
     fold (\<lambda>i out. out[i := s16 (drop_bit 8 (u16 (speechIn ! i)) OR (shl (u16 (speechIn ! i)) 8 AND 0xFF00))])
       [0..<nat len] speechOut)"

definition WebRtcPcm16b_Encode :: "int list \<Rightarrow> int \<Rightarrow> int list \<Rightarrow> int \<times> int list" where
  "WebRtcPcm16b_Encode speech16b len speech8b =
    (s16 (len * 2),
     fold (\<lambda>pos out.
         let short1 = s16 (0xFF00 AND speech16b ! pos);
             short2 = s16 (0xFF AND speech16b ! pos);
             short1 = s16 (asr short1 8)
         in (out[pos * 2 := u8 short1])[pos * 2 + 1 := u8 short2])
       [0..<nat len] speech8b)"

definition WebRtcPcm16b_DecodeW16 :: "int list \<Rightarrow> int \<Rightarrow> int list \<Rightarrow> int \<times> int list \<times> int" where
  "WebRtcPcm16b_DecodeW16 speechIn len speechOut =
    (let samples = asr len 1
     in (asr len 1,
         fold (\<lambda>i out. out[i := s16 (drop_bit 8 (u16 (speechIn ! i)) OR shl (u16 (speechIn ! i AND 0xFF)) 8)])
           [0..<nat samples] speechOut,
         1))"

definition WebRtcPcm16b_Decode :: "int list \<Rightarrow> int \<Rightarrow> int list \<Rightarrow> int \<times> int list" where
  "WebRtcPcm16b_Decode speech8b len speech16b =
    (let samples = asr len 1
     in (samples,
         fold (\<lambda>pos out.
             let shortval = s16 (u16 (speech8b ! (pos * 2)));
                 shortval = s16 (shl shortval 8 AND 0xFF00);
                 shortval = s16 (shortval OR (u16 (speech8b ! (pos * 2 + 1)) AND 0xFF))
             in out[pos := shortval])
           [0..<nat samples] speech16b))"

subsection \<open>The bit search\<close>

text \<open>
  \<open>top_inv s b (bits, i)\<close>: \<open>bits\<close> keeps the highest set bit of \<open>b\<close>, and the positions of its set
  bits agree with \<open>i\<close> down to blocks of \<open>s\<close>.
\<close>

definition top_inv :: "nat \<Rightarrow> int \<Rightarrow> int \<times> nat \<Rightarrow> bool" where
  "top_inv s b = (\<lambda>(bits, i). bits \<noteq> 0 \<and> 0 \<le> bits \<and> bits < 2 ^ 32 \<and> s dvd i
     \<and> (\<forall>p. bit bits p \<longrightarrow> bit b p \<and> p div s = i div s)
     \<and> (\<forall>q. bit b q \<longrightarrow> (\<exists>p. bit bits p \<and> q \<le> p)))"

lemma bit_below_32: "0 \<le> (x :: int) \<Longrightarrow> x < 2 ^ 32 \<Longrightarrow> bit x p \<Longrightarrow> p < 32"
  by (metis bit_take_bit_iff take_bit_int_eq_self)

lemma top_step_inv:
  assumes inv: "top_inv (2 * s) b st" and s: "0 < s"
    and m: "0 \<le> m" "list_all (\<lambda>p. bit m p = odd (p div s)) [0..<32]"
  shows "top_inv s b (top_step m s st)"
proof -
  have m': "p < 32 \<Longrightarrow> bit m p \<longleftrightarrow> odd (p div s)" for p using m(2) by (simp add: list_all_iff)
  obtain bits i where st: "st = (bits, i)" by (cases st)
  have b: "bits \<noteq> 0" "0 \<le> bits" "bits < 2 ^ 32" "2 * s dvd i"
    "\<And>p. bit bits p \<Longrightarrow> bit b p \<and> p div (2 * s) = i div (2 * s)"
    "\<And>q. bit b q \<Longrightarrow> \<exists>p. bit bits p \<and> q \<le> p"
    using inv by (auto simp: top_inv_def st)
  obtain c where c: "i = 2 * s * c" using b(4) by (elim dvdE)
  have blk: "p div s = 2 * c \<or> p div s = Suc (2 * c)" if "bit bits p" for p
  proof -
    have "p div s div 2 = c" using b(5) [OF that] s by (simp add: c div_mult2_eq mult.commute)
    then show ?thesis by linarith
  qed
  have i: "i div s = 2 * c" "(i + s) div s = Suc (2 * c)" using s by (simp_all add: c mult.assoc mult.left_commute)
  have odd: "bit (bits AND m) p \<longleftrightarrow> bit bits p \<and> p div s = Suc (2 * c)" for p
    using blk [of p] m' [of p] bit_below_32 [OF b(2,3), of p] by (auto simp: bit_and_iff)
  have s_dvd: "s dvd i" "s dvd i + s" by (simp_all add: c)
  show ?thesis
  proof (cases "bits AND m = 0")
    case True
    then have "p div s = 2 * c" if "bit bits p" for p
      using odd [of p] blk [OF that] that by auto
    then show ?thesis using True b s_dvd i by (auto simp: top_inv_def top_step_def st)
  next
    case False
    have "bits AND m \<le> bits" using b(2) m(1) by (simp)
    moreover have "0 \<le> bits AND m" using b(2) by simp
    moreover have "\<exists>p. bit (bits AND m) p \<and> q \<le> p" if q: "bit b q" for q
    proof -
      obtain p where p: "bit bits p" "q \<le> p" using b(6) [OF q] by blast
      obtain r where r: "bit (bits AND m) r" using False by (auto simp: bit_eq_iff)
      have "p \<le> r \<or> bit (bits AND m) p"
      proof (cases "p div s = 2 * c")
        case True
        then have "p div s < r div s" using r odd by simp
        then show ?thesis by (metis div_le_mono linorder_not_le nat_le_linear)
      qed (use blk [OF p(1)] p(1) odd in auto)
      then show ?thesis using r p by (metis order_trans)
    qed
    ultimately show ?thesis
      using False b i s_dvd odd by (auto simp: top_inv_def top_step_def st)
  qed
qed

lemma top_masks:
  "list_all (\<lambda>p. bit (0xFFFF0000 :: int) p = odd (p div 16)) [0..<32]"
  "list_all (\<lambda>p. bit (0xFF00FF00 :: int) p = odd (p div 8)) [0..<32]"
  "list_all (\<lambda>p. bit (0xF0F0F0F0 :: int) p = odd (p div 4)) [0..<32]"
  "list_all (\<lambda>p. bit (0xCCCCCCCC :: int) p = odd (p div 2)) [0..<32]"
  "list_all (\<lambda>p. bit (0xAAAAAAAA :: int) p = odd (p div 1)) [0..<32]"
  by code_simp+

lemma top_bit_correct:
  assumes "0 < b" "b < 2 ^ 32"
  shows "\<exists>t. top_bit b = int t \<and> bit b t \<and> (\<forall>q. bit b q \<longrightarrow> q \<le> t)"
proof -
  have "top_inv 32 b (b, 0)" using assms bit_below_32 [of b] by (auto simp: top_inv_def)
  then have "top_inv 16 b (top_step 0xFFFF0000 16 (b, 0))"
    by (intro top_step_inv top_masks(1)) simp_all
  then have "top_inv 8 b (top_step 0xFF00FF00 8 (top_step 0xFFFF0000 16 (b, 0)))"
    by (intro top_step_inv top_masks(2)) simp_all
  then have "top_inv 4 b (top_step 0xF0F0F0F0 4 (top_step 0xFF00FF00 8 (top_step 0xFFFF0000 16 (b, 0))))"
    by (intro top_step_inv top_masks(3)) simp_all
  then have "top_inv 2 b (top_step 0xCCCCCCCC 2 (top_step 0xF0F0F0F0 4 (top_step 0xFF00FF00 8
      (top_step 0xFFFF0000 16 (b, 0)))))"
    by (intro top_step_inv top_masks(4)) simp_all
  then have inv: "top_inv 1 b (top_step 0xAAAAAAAA 1 (top_step 0xCCCCCCCC 2 (top_step 0xF0F0F0F0 4
      (top_step 0xFF00FF00 8 (top_step 0xFFFF0000 16 (b, 0))))))"
    by (intro top_step_inv top_masks(5)) simp_all
  define st where "st = top_step 0xAAAAAAAA 1 (top_step 0xCCCCCCCC 2 (top_step 0xF0F0F0F0 4
      (top_step 0xFF00FF00 8 (top_step 0xFFFF0000 16 (b, 0)))))"
  have t: "top_bit b = int (snd st)"
    using assms by (simp add: top_bit_def Let_def case_prod_unfold st_def)
  obtain bits i where st: "st = (bits, i)" by (cases st)
  have s: "bits \<noteq> 0" "\<And>p. bit bits p \<Longrightarrow> bit b p \<and> p = i" "\<And>q. bit b q \<Longrightarrow> \<exists>p. bit bits p \<and> q \<le> p"
    using inv unfolding st_def [symmetric] by (auto simp: top_inv_def st)
  obtain p where "bit bits p" using s(1) by (auto simp: bit_eq_iff)
  then show ?thesis using s(2,3) t by (intro exI [of _ i]) (auto simp: st)
qed

lemma top_bit_range:
  assumes "2 ^ k \<le> b" "b < 2 ^ Suc k" "k < 32"
  shows "top_bit b = int k"
proof -
  have "0 < b" using assms(1) zero_less_power [of "2 :: int" k] by linarith
  moreover have "(2 :: int) ^ Suc k \<le> 2 ^ 32" using assms(3) by (intro power_increasing) simp_all
  then have "b < 2 ^ 32" using assms(2) by linarith
  ultimately obtain t where t: "top_bit b = int t" "bit b t" "\<And>q. bit b q \<Longrightarrow> q \<le> t"
    using top_bit_correct by blast
  have "b div 2 ^ k = 1" using assms by (intro int_div_pos_eq [where r = "b - 2 ^ k"]) simp_all
  then have "k \<le> t" using t(3) by (simp add: bit_iff_odd)
  moreover have "t \<le> k"
  proof (rule ccontr)
    assume "\<not> t \<le> k"
    then have "(2 :: int) ^ Suc k \<le> 2 ^ t" by (intro power_increasing) simp_all
    then have "b div 2 ^ t = 0" using assms \<open>0 < b\<close> by (intro div_pos_pos_trivial) linarith+
    then show False using t(2) by (simp add: bit_iff_odd)
  qed
  ultimately show ?thesis using t(1) by simp
qed

subsection \<open>Code words\<close>

text \<open>A code word is a segment and a quantisation step, 7 bits, combined with a mask that holds the
  sign.\<close>

definition code_word :: "int \<Rightarrow> int \<Rightarrow> int \<Rightarrow> int" where
  "code_word msk seg q = u8 ((16 * seg + q) XOR msk)"

lemma code_fields:
  assumes "0 \<le> seg" "seg < 8" "0 \<le> q" "q < 16" "h = 0 \<or> h = (128 :: int)"
  shows "((16 * seg + q) XOR h) AND 0x0F = q" and "asr (((16 * seg + q) XOR h) AND 0x70) 4 = seg"
    and "((16 * seg + q) XOR h) AND 0x80 \<noteq> 0 \<longleftrightarrow> h = 128"
proof -
  define v where "v = 16 * seg + q"
  have v: "0 \<le> v" "v < 128" "v mod 16 = q" "v div 16 = seg" using assms by (simp_all add: v_def)
  have "\<not> bit v 7" using v by (simp add: bit_iff_odd)
  then have "v AND 2 ^ 7 = 0" by (simp only: and_exp_eq_0_iff_not_bit) simp
  then have x: "v XOR 128 = v + 128" by (simp add: disjunctive_add_eq_xor)
  define w where "w = v XOR h"
  have w: "w = v \<or> w = v + 128" using assms(5) x by (auto simp: w_def)
  have "w AND mask 4 = w mod 16" by (simp add: take_bit_eq_mod flip: take_bit_eq_mask)
  moreover have "w mod 16 = q" using w v(3) by presburger
  ultimately show "((16 * seg + q) XOR h) AND 0x0F = q"
    by (simp add: mask_eq_exp_minus_1 w_def v_def)
  have "asr (w AND 0x70) 4 = (w div 16) AND mask 3"
    by (simp add: asr_def mask_eq_exp_minus_1) (simp add: drop_bit_eq_div)
  also have "\<dots> = (w div 16) mod 8" by (simp add: take_bit_eq_mod flip: take_bit_eq_mask)
  also have "\<dots> = seg"
  proof -
    have "w div 16 = seg \<or> w div 16 = seg + 8" using w v(4) div_add [of 16 128 v] by auto
    then show ?thesis using assms(1,2) by auto
  qed
  finally show "asr (((16 * seg + q) XOR h) AND 0x70) 4 = seg" by (simp add: w_def v_def)
  have "w AND 2 ^ 7 \<noteq> 0 \<longleftrightarrow> bit w 7" by (simp only: and_exp_eq_0_iff_not_bit) simp
  also have "\<dots> \<longleftrightarrow> h = 128"
    using assms(5) x v int_div_pos_eq [of "v + 128" 128 1 v] \<open>\<not> bit v 7\<close> by (auto simp: w_def bit_iff_odd)
  finally show "((16 * seg + q) XOR h) AND 0x80 \<noteq> 0 \<longleftrightarrow> h = 128" by (simp add: w_def v_def)
qed

lemma code_word_xor:
  assumes "0 \<le> seg" "seg < 8" "0 \<le> q" "q < 16" "0 \<le> msk" "msk < 256" "0 \<le> k" "k < 256"
  shows "u8 (code_word msk seg q XOR k) = (16 * seg + q) XOR (msk XOR k)"
proof -
  have "16 * seg + q < 2 ^ 8" "msk < 2 ^ 8" "k < 2 ^ 8" using assms by simp_all
  then have "take_bit 8 (16 * seg + q) = 16 * seg + q" "take_bit 8 msk = msk" "take_bit 8 k = k"
    using assms by (simp_all add: take_bit_int_eq_self)
  then show ?thesis by (simp add: code_word_def u8_def xor.assoc)
qed

definition alaw_level :: "int \<Rightarrow> int \<Rightarrow> int" where
  "alaw_level seg q = (if seg = 0 then 16 * q + 8 else (16 * q + 264) * 2 ^ nat (seg - 1))"

definition ulaw_level :: "int \<Rightarrow> int \<Rightarrow> int" where
  "ulaw_level seg q = (8 * q + 132) * 2 ^ nat seg - 132"

lemma seg_cases: "0 \<le> (seg :: int) \<Longrightarrow> seg < 8 \<Longrightarrow>
    seg = 0 \<or> seg = 1 \<or> seg = 2 \<or> seg = 3 \<or> seg = 4 \<or> seg = 5 \<or> seg = 6 \<or> seg = 7"
  by linarith

lemma level_range:
  assumes "0 \<le> seg" "seg < 8" "0 \<le> q" "q < 16"
  shows "0 \<le> alaw_level seg q" "alaw_level seg q \<le> 32767"
    "0 \<le> ulaw_level seg q" "ulaw_level seg q \<le> 32767"
  using assms seg_cases [OF assms(1,2)] by (auto simp: alaw_level_def ulaw_level_def)

lemma alaw_decode:
  assumes "0 \<le> seg" "seg < 8" "0 \<le> q" "q < 16"
  shows "alaw_to_linear (code_word 0xD5 seg q) = alaw_level seg q"
    and "alaw_to_linear (code_word 0x55 seg q) = - alaw_level seg q"
proof -
  have "alaw_to_linear (code_word m seg q) = (if h = 128 then alaw_level seg q else - alaw_level seg q)"
    if "0 \<le> m" "m < 256" "m XOR 0x55 = h" "h = 0 \<or> h = 128" for m h
  proof -
    define d where "d = u8 (code_word m seg q XOR 0x55)"
    have "d = (16 * seg + q) XOR h"
      unfolding d_def using that assms by (subst code_word_xor) simp_all
    then have "d AND 0x0F = q" "asr (d AND 0x70) 4 = seg" "d AND 0x80 \<noteq> 0 \<longleftrightarrow> h = 128"
      using code_fields [OF assms that(4)] by simp_all
    then show ?thesis
      using level_range(1,2) [OF assms] unfolding alaw_to_linear_def d_def [symmetric] Let_def
      by (simp add: alaw_level_def shl_mult s16_id mult.commute split: if_splits)
  qed
  from this [of "0xD5" 128] this [of "0x55" 0]
  show "alaw_to_linear (code_word 0xD5 seg q) = alaw_level seg q"
    "alaw_to_linear (code_word 0x55 seg q) = - alaw_level seg q" by simp_all
qed

lemma u8_not: "u8 (not c) = u8 (c XOR 0xFF)"
proof -
  have m: "(0xFF :: int) = mask 8" by (simp add: mask_eq_exp_minus_1)
  show ?thesis unfolding u8_def m
    by (rule bit_eqI) (simp only: bit_take_bit_iff bit_not_iff bit_xor_iff bit_mask_iff, auto)
qed

lemma ulaw_decode:
  assumes "0 \<le> seg" "seg < 8" "0 \<le> q" "q < 16"
  shows "ulaw_to_linear (code_word 0xFF seg q) = ulaw_level seg q"
    and "ulaw_to_linear (code_word 0x7F seg q) = - ulaw_level seg q"
proof -
  have "ulaw_to_linear (code_word m seg q) = (if h = 128 then - ulaw_level seg q else ulaw_level seg q)"
    if "0 \<le> m" "m < 256" "m XOR 0xFF = h" "h = 0 \<or> h = 128" for m h
  proof -
    define d where "d = u8 (not (code_word m seg q))"
    have "d = (16 * seg + q) XOR h"
      unfolding d_def using that assms u8_not [of "code_word m seg q"] code_word_xor [of seg q m "0xFF"]
      by (simp add: code_word_def c_bound)
    then have "d AND 0x0F = q" "asr (d AND 0x70) 4 = seg" "d AND 0x80 \<noteq> 0 \<longleftrightarrow> h = 128"
      using code_fields [OF assms that(4)] by simp_all
    then show ?thesis
      using level_range(3,4) [OF assms] unfolding ulaw_to_linear_def d_def [symmetric] Let_def
      by (simp add: ulaw_level_def shl_mult s16_id mult.commute)
  qed
  from this [of "0xFF" 0] this [of "0x7F" 128]
  show "ulaw_to_linear (code_word 0xFF seg q) = ulaw_level seg q"
    "ulaw_to_linear (code_word 0x7F seg q) = - ulaw_level seg q" by simp_all
qed

subsection \<open>Encoding cells\<close>

definition alaw_cell :: "int \<Rightarrow> int \<Rightarrow> int \<Rightarrow> bool" where
  "alaw_cell seg q l \<longleftrightarrow> 0 \<le> seg \<and> seg < 8 \<and> 0 \<le> q \<and> q < 16 \<and>
     (if seg = 0 then 16 * q \<le> l \<and> l < 16 * q + 16
      else (16 + q) * 2 ^ nat (seg + 3) \<le> l \<and> l < (17 + q) * 2 ^ nat (seg + 3))"

definition ulaw_cell :: "int \<Rightarrow> int \<Rightarrow> int \<Rightarrow> bool" where
  "ulaw_cell seg q l \<longleftrightarrow> 0 \<le> seg \<and> seg < 8 \<and> 0 \<le> q \<and> q < 16 \<and>
     (16 + q) * 2 ^ nat (seg + 3) \<le> l \<and> l < (17 + q) * 2 ^ nat (seg + 3)"

lemma segment_of:
  assumes "0 \<le> seg" "seg < 8" "l < 2 ^ nat (seg + 8)" "if seg = 0 then 0 \<le> l else 2 ^ nat (seg + 7) \<le> l"
  shows "top_bit (u32 (l OR 0xFF)) - 7 = seg"
proof -
  define k where "k = nat (seg + 7)"
  have k: "k < 32" "nat (seg + 8) = Suc k" "int k = seg + 7" "7 \<le> k" using assms by (simp_all add: k_def)
  have p: "(2 :: int) ^ k \<le> 2 ^ 14" "(2 :: int) ^ 7 \<le> 2 ^ k"
    using assms by (intro power_increasing; simp add: k_def)+
  have l0: "0 \<le> l" using assms(4) order_trans [OF zero_le_power [of "2 :: int"]] by (auto split: if_splits)
  have up: "l OR 0xFF < 2 ^ Suc k"
    using l0 assms(3) k p by (intro OR_upper) simp_all
  have lo: "2 ^ k \<le> l OR 0xFF"
  proof (cases "seg = 0")
    case True
    have "0xFF \<le> l OR 0xFF" using l0 or_greater_eq [of l "0xFF"] by (simp add: or.commute)
    then show ?thesis using True by (simp add: k_def)
  next
    case False
    then have "2 ^ k \<le> l" using assms(4) by (simp add: k_def)
    also have "l \<le> l OR 0xFF" by (rule or_greater_eq) simp
    finally show ?thesis .
  qed
  have "u32 (l OR 0xFF) = l OR 0xFF"
    using up p lo by (intro u32_id) (simp_all add: l0)
  then show ?thesis using top_bit_range [OF lo up k(1)] k(3) by simp
qed

lemma cell_encode:
  assumes "0 \<le> seg" "seg < 8" "0 \<le> q" "q < 16"
    and "(16 + q) * 2 ^ nat (seg + 3) \<le> l" "l < (17 + q) * 2 ^ nat (seg + 3)"
  shows "top_bit (u32 (l OR 0xFF)) - 7 = seg" and "asr l (nat (seg + 3)) AND 0xF = q"
proof -
  have e: "(2 :: int) ^ nat (seg + 8) = 32 * 2 ^ nat (seg + 3)" "(2 :: int) ^ nat (seg + 7) = 16 * 2 ^ nat (seg + 3)"
    using seg_cases [OF assms(1,2)] by auto
  have "(17 + q) * 2 ^ nat (seg + 3) \<le> 32 * 2 ^ nat (seg + 3)" "16 * 2 ^ nat (seg + 3) \<le> (16 + q) * (2 :: int) ^ nat (seg + 3)"
    using assms(3,4) by (intro mult_right_mono; simp)+
  then have r: "l < 2 ^ nat (seg + 8)" "2 ^ nat (seg + 7) \<le> l" unfolding e using assms(5,6) by linarith+
  then have l0: "0 \<le> l" using order_trans [OF zero_le_power [of "2 :: int"]] by auto
  show "top_bit (u32 (l OR 0xFF)) - 7 = seg"
    using assms(1,2) r l0 by (intro segment_of) simp_all
  have "l div 2 ^ nat (seg + 3) = 16 + q"
    using assms(5,6) by (intro int_div_pos_eq [where r = "l - (16 + q) * 2 ^ nat (seg + 3)"])
      (simp_all add: algebra_simps)
  then have "asr l (nat (seg + 3)) AND mask 4 = q"
    using assms(3,4) by (simp add: asr_div take_bit_eq_mod flip: take_bit_eq_mask)
  then show "asr l (nat (seg + 3)) AND 0xF = q" by (simp add: mask_eq_exp_minus_1)
qed

lemma seg_or: "0 \<le> q \<Longrightarrow> q < 16 \<Longrightarrow> shl seg 4 OR q = 16 * seg + q"
proof -
  assume q: "0 \<le> q" "q < 16"
  then have t: "take_bit 4 q = q" by (simp add: take_bit_int_eq_self)
  have "push_bit 4 seg AND take_bit 4 q = 0"
    by (rule bit_eqI) (auto simp: bit_and_iff bit_push_bit_iff bit_take_bit_iff)
  then have "push_bit 4 seg OR q = push_bit 4 seg + q" by (simp add: t flip: disjunctive_add_eq_or)
  then show ?thesis by (simp add: shl_def) (simp add: push_bit_eq_mult)
qed

lemma alaw_encode:
  assumes "alaw_cell seg q l"
  shows "linear_to_alaw l = code_word 0xD5 seg q" and "linear_to_alaw (- l - 1) = code_word 0x55 seg q"
proof -
  have c: "0 \<le> seg" "seg < 8" "0 \<le> q" "q < 16" using assms by (simp_all add: alaw_cell_def)
  have f: "0 \<le> l \<and> top_bit (u32 (l OR 0xFF)) - 7 = seg \<and>
      asr l (nat (if seg \<noteq> 0 then seg + 3 else 4)) AND 0x0F = q"
  proof (cases "seg = 0")
    case True
    then have l: "16 * q \<le> l" "l < 16 * q + 16" using assms by (simp_all add: alaw_cell_def)
    then have "l div 16 = q" by (intro int_div_pos_eq [where r = "l - 16 * q"]) simp_all
    then have "asr l 4 AND mask 4 = q" using c by (simp add: asr_div take_bit_eq_mod flip: take_bit_eq_mask)
    moreover have "top_bit (u32 (l OR 0xFF)) - 7 = seg"
      using True l c by (intro segment_of) simp_all
    ultimately show ?thesis using True l c by (simp add: mask_eq_exp_minus_1)
  next
    case False
    then have l: "(16 + q) * 2 ^ nat (seg + 3) \<le> l" "l < (17 + q) * 2 ^ nat (seg + 3)"
      using assms by (simp_all add: alaw_cell_def)
    moreover have "0 \<le> (16 + q) * (2 :: int) ^ nat (seg + 3)" using c by simp
    ultimately show ?thesis using False cell_encode [OF c l] by auto
  qed
  show "linear_to_alaw l = code_word 0xD5 seg q"
    using f c by (cases "seg = 0") (simp_all add: linear_to_alaw_def Let_def seg_or code_word_def)
  show "linear_to_alaw (- l - 1) = code_word 0x55 seg q"
    using f c by (cases "seg = 0") (simp_all add: linear_to_alaw_def Let_def seg_or code_word_def)
qed

lemma ulaw_encode:
  assumes "ulaw_cell seg q b"
  shows "132 \<le> b \<Longrightarrow> linear_to_ulaw (b - 132) = code_word 0xFF seg q"
    and "132 \<le> b \<Longrightarrow> linear_to_ulaw (132 - b - 1) = code_word 0x7F seg q"
proof -
  have c: "0 \<le> seg" "seg < 8" "0 \<le> q" "q < 16" "(16 + q) * 2 ^ nat (seg + 3) \<le> b" "b < (17 + q) * 2 ^ nat (seg + 3)"
    using assms by (simp_all add: ulaw_cell_def)
  note f = cell_encode [OF c]
  show "132 \<le> b \<Longrightarrow> linear_to_ulaw (b - 132) = code_word 0xFF seg q"
    using f c by (simp add: linear_to_ulaw_def Let_def seg_or code_word_def)
  show "132 \<le> b \<Longrightarrow> linear_to_ulaw (132 - b - 1) = code_word 0x7F seg q"
    using f c by (simp add: linear_to_ulaw_def Let_def seg_or code_word_def)
qed

lemma cell_exists:
  fixes l p :: int
  assumes "0 < p" "16 * p \<le> l" "l < 32 * p"
  shows "\<exists>q. 0 \<le> q \<and> q < 16 \<and> (16 + q) * p \<le> l \<and> l < (17 + q) * p"
proof (intro exI conjI)
  have d: "p * (l div p) + l mod p = l" "0 \<le> l mod p" "l mod p < p" using assms(1) by simp_all
  show "l div p - 16 < 16" using div_pos_less [OF assms(1), of l 32] assms(3) by (simp add: mult.commute)
  have "\<not> l div p < 16" using div_pos_less [OF assms(1), of l 16] assms(2) by (simp add: mult.commute)
  then show "0 \<le> l div p - 16" by simp
  show "(16 + (l div p - 16)) * p \<le> l" "l < (17 + (l div p - 16)) * p"
    using d unfolding mult.commute [of _ p] distrib_left right_diff_distrib by linarith+
qed

lemma ulaw_cell_exists:
  assumes "128 \<le> b" "b < 32768"
  shows "\<exists>seg q. ulaw_cell seg q b"
proof -
  have "\<exists>seg. 0 \<le> seg \<and> seg < 8 \<and> 16 * 2 ^ nat (seg + 3) \<le> b \<and> b < 32 * 2 ^ nat (seg + 3)"
  proof -
    consider "b < 256" | "256 \<le> b" "b < 512" | "512 \<le> b" "b < 1024" | "1024 \<le> b" "b < 2048"
      | "2048 \<le> b" "b < 4096" | "4096 \<le> b" "b < 8192" | "8192 \<le> b" "b < 16384" | "16384 \<le> b"
      by linarith
    then show ?thesis
      using assms by cases (rule exI [of _ 0] exI [of _ 1] exI [of _ 2] exI [of _ 3] exI [of _ 4] exI [of _ 5]
          exI [of _ 6] exI [of _ 7], simp; fail)+
  qed
  then obtain seg where seg: "0 \<le> seg" "seg < 8" "16 * 2 ^ nat (seg + 3) \<le> b" "b < 32 * 2 ^ nat (seg + 3)"
    by blast
  then show ?thesis
    using cell_exists [of "2 ^ nat (seg + 3)" b] unfolding ulaw_cell_def by auto
qed

lemma alaw_cell_exists:
  assumes "0 \<le> l" "l < 32768"
  shows "\<exists>seg q. alaw_cell seg q l"
proof (cases "l < 256")
  case True
  moreover have "16 * (l div 16) \<le> l" "l < 16 * (l div 16) + 16" by presburger+
  ultimately have "alaw_cell 0 (l div 16) l"
    using assms div_pos_less [of 16 l 16] by (simp add: alaw_cell_def pos_imp_zdiv_nonneg_iff)
  then show ?thesis by blast
next
  case False
  then obtain seg q where c: "ulaw_cell seg q l" using assms ulaw_cell_exists by fastforce
  have "seg \<noteq> 0"
  proof
    assume "seg = 0"
    then have "l < (17 + q) * 8" "q < 16" using c by (simp_all add: ulaw_cell_def)
    then show False using False by simp
  qed
  then show ?thesis using c by (intro exI [of _ seg] exI [of _ q]) (simp add: ulaw_cell_def alaw_cell_def)
qed

lemma alaw_cell_level:
  assumes "alaw_cell seg q l"
  shows "\<bar>alaw_level seg q - l\<bar> \<le> max 8 (l div 32)" and "\<bar>alaw_level seg q - (l + 1)\<bar> \<le> max 8 ((l + 1) div 32)"
  using assms seg_cases [of seg] unfolding alaw_cell_def alaw_level_def by auto

lemma ulaw_cell_level:
  assumes "ulaw_cell seg q b"
  shows "\<bar>ulaw_level seg q + 132 - b\<bar> \<le> b div 32" and "\<bar>ulaw_level seg q + 132 - (b + 1)\<bar> \<le> (b + 1) div 32"
  using assms seg_cases [of seg] unfolding ulaw_cell_def ulaw_level_def by auto

lemma alaw_level_cell:
  assumes "0 \<le> seg" "seg < 8" "0 \<le> q" "q < 16"
  shows "alaw_cell seg q (alaw_level seg q)" and "alaw_cell seg q (alaw_level seg q - 1)"
  using assms seg_cases [OF assms(1,2)] by (auto simp: alaw_cell_def alaw_level_def)

lemma ulaw_level_cell:
  assumes "0 \<le> seg" "seg < 8" "0 \<le> q" "q < 16"
  shows "ulaw_cell seg q (ulaw_level seg q + 132)" and "ulaw_cell seg q (ulaw_level seg q + 131)"
    and "ulaw_level seg q = 0 \<longleftrightarrow> seg = 0 \<and> q = 0"
  using assms seg_cases [OF assms(1,2)] by (auto simp: ulaw_cell_def ulaw_level_def)

lemma byte_code_word:
  assumes "0 \<le> c" "c < 256" "0 \<le> m" "m < 128"
  shows "\<exists>seg q. 0 \<le> seg \<and> seg < 8 \<and> 0 \<le> q \<and> q < 16 \<and>
    (c = code_word m seg q \<or> c = code_word (m XOR 128) seg q)"
proof -
  define w where "w = c XOR m"
  have w: "0 \<le> w" "w < 256"
    using assms XOR_upper [of c 8 m] by (simp_all add: w_def)
  define v where "v = w mod 128"
  have v: "0 \<le> v" "v < 128" by (simp_all add: v_def)
  have "\<not> bit v 7" using v by (simp add: bit_iff_odd)
  then have "v AND 2 ^ 7 = 0" by (simp only: and_exp_eq_0_iff_not_bit) simp
  then have x: "v XOR 128 = v + 128" by (simp add: disjunctive_add_eq_xor)
  have "w = v \<or> w = v + 128" unfolding v_def using w by presburger
  then have "w = v \<or> w = v XOR 128" unfolding x .
  then have "c = v XOR m \<or> c = (v XOR 128) XOR m"
    unfolding w_def by (metis xor.assoc xor.right_neutral xor_self_eq)
  then have "c = v XOR m \<or> c = v XOR (m XOR 128)" by (simp add: ac_simps)
  moreover have "v = 16 * (v div 16) + v mod 16" by simp
  moreover have "u8 c = c" using assms by (simp add: u8_id)
  ultimately have "c = code_word m (v div 16) (v mod 16) \<or> c = code_word (m XOR 128) (v div 16) (v mod 16)"
    unfolding code_word_def by metis
  moreover have "v div 16 < 8" "0 \<le> v div 16" using v by (simp_all add: div_pos_less pos_imp_zdiv_nonneg_iff)
  ultimately show ?thesis by (intro exI [of _ "v div 16"] exI [of _ "v mod 16"]) simp
qed

lemma ulaw_saturates:
  assumes "32768 \<le> b" "b < 65536"
  shows "linear_to_ulaw (b - 132) = code_word 0xFF 7 15" and "linear_to_ulaw (132 - b - 1) = code_word 0x7F 7 15"
proof -
  have "2 ^ 15 \<le> b OR 0xFF" using assms or_greater_eq [of "0xFF" b] by simp
  moreover have "b OR 0xFF < 2 ^ Suc 15" using assms by (intro OR_upper) simp_all
  ultimately have "top_bit (u32 (b OR 0xFF)) = 15"
    using top_bit_range [of 15 "b OR 0xFF"] u32_id [of "b OR 0xFF"] assms by simp
  then show "linear_to_ulaw (b - 132) = code_word 0xFF 7 15" "linear_to_ulaw (132 - b - 1) = code_word 0x7F 7 15"
    using assms by (simp_all add: linear_to_ulaw_def Let_def code_word_def)
qed

lemma ulaw_error_pos:
  assumes "132 \<le> b" "b < 32900"
  shows "\<bar>ulaw_to_linear (linear_to_ulaw (b - 132)) - (b - 132)\<bar> \<le> b div 32"
    and "\<bar>ulaw_to_linear (linear_to_ulaw (132 - b - 1)) - (132 - b - 1)\<bar> \<le> (b + 1) div 32"
proof (atomize (full), cases "b < 32768")
  case True
  then obtain seg q where c: "ulaw_cell seg q b" using assms ulaw_cell_exists [of b] by auto
  then have r: "0 \<le> seg" "seg < 8" "0 \<le> q" "q < 16" by (simp_all add: ulaw_cell_def)
  show "\<bar>ulaw_to_linear (linear_to_ulaw (b - 132)) - (b - 132)\<bar> \<le> b div 32 \<and>
      \<bar>ulaw_to_linear (linear_to_ulaw (132 - b - 1)) - (132 - b - 1)\<bar> \<le> (b + 1) div 32"
    using ulaw_encode [OF c assms(1)] ulaw_decode [OF r] ulaw_cell_level [OF c] by auto
next
  case False
  then have "1024 \<le> b div 32" "1024 \<le> (b + 1) div 32" by simp_all
  then show "\<bar>ulaw_to_linear (linear_to_ulaw (b - 132)) - (b - 132)\<bar> \<le> b div 32 \<and>
      \<bar>ulaw_to_linear (linear_to_ulaw (132 - b - 1)) - (132 - b - 1)\<bar> \<le> (b + 1) div 32"
    using False assms ulaw_saturates [of b] ulaw_decode [of 7 15] by (simp add: ulaw_level_def)
qed

text \<open>C33: A-law and u-law code words survive decoding and re-encoding: every A-law byte is
  reproduced exactly, and every u-law byte except 0x7F (minus zero), which becomes 0xFF (plus
  zero).\<close>

theorem companding_roundtrip:
  assumes "0 \<le> c" and "c < 256"
  shows "linear_to_alaw (alaw_to_linear c) = c
    \<and> linear_to_ulaw (ulaw_to_linear c) = (if c = 0x7F then 0xFF else c)"
proof
  show "linear_to_alaw (alaw_to_linear c) = c"
  proof -
    obtain seg q where s: "0 \<le> seg" "seg < 8" "0 \<le> q" "q < 16" "c = code_word 0x55 seg q \<or> c = code_word 0xD5 seg q"
      using byte_code_word [OF assms, of "0x55"] by auto
    note f = alaw_encode(1) [OF alaw_level_cell(1) [OF s(1-4)]] alaw_encode(2) [OF alaw_level_cell(2) [OF s(1-4)]]
    show ?thesis using s(5) f alaw_decode [OF s(1-4)] by auto
  qed
  show "linear_to_ulaw (ulaw_to_linear c) = (if c = 0x7F then 0xFF else c)"
  proof -
    obtain seg q where s: "0 \<le> seg" "seg < 8" "0 \<le> q" "q < 16" "c = code_word 0x7F seg q \<or> c = code_word 0xFF seg q"
      using byte_code_word [OF assms, of "0x7F"] by auto
    note f = ulaw_encode(1) [OF ulaw_level_cell(1) [OF s(1-4)]] ulaw_encode(2) [OF ulaw_level_cell(2) [OF s(1-4)]]
    have pos: "linear_to_ulaw (ulaw_level seg q) = code_word 0xFF seg q" using f(1) level_range(3) [OF s(1-4)] by simp
    have ff: "code_word 0xFF seg q \<noteq> 0x7F"
    proof
      assume "code_word 0xFF seg q = 0x7F"
      then have "u8 (0x7F XOR 0xFF) = 16 * seg + q" using code_word_xor [OF s(1-4), of "0xFF" "0xFF"] by simp
      then show False using s by (simp add: u8_def)
    qed
    show ?thesis
    proof (cases "seg = 0 \<and> q = 0")
      case True
      have "code_word 0x7F 0 0 = 0x7F" "code_word 0xFF 0 0 = 0xFF" by (simp_all add: code_word_def u8_def)
      then show ?thesis using True s(5) pos ulaw_decode [OF s(1-4)] by (auto simp: ulaw_level_def)
    next
      case False
      then have "0 < ulaw_level seg q" using ulaw_level_cell(3) [OF s(1-4)] level_range(3) [OF s(1-4)] by linarith
      then have neg: "linear_to_ulaw (- ulaw_level seg q) = code_word 0x7F seg q" using f(2) by simp
      have "code_word 0x7F seg q \<noteq> 0x7F"
      proof
        assume "code_word 0x7F seg q = 0x7F"
        then have "u8 0 = 16 * seg + q" using code_word_xor [OF s(1-4), of "0x7F" "0x7F"] by simp
        then have "16 * seg + q = 0" by (simp add: u8_def)
        then show False using s False by linarith
      qed
      then show ?thesis using s(5) pos neg ff ulaw_decode [OF s(1-4)] by auto
    qed
  qed
qed

theorem companding_roundtrip_witness:
  "linear_to_alaw (alaw_to_linear 0x80) = 0x80 \<and> linear_to_ulaw (ulaw_to_linear 0x7F) = 0xFF"
  using companding_roundtrip [of "0x80"] companding_roundtrip [of "0x7F"] by simp

text \<open>C34: quantisation error: for every 16-bit sample x the decoded A-law value is within 8 of x or,
  where that is larger, within |x| div 32; the decoded u-law value is within (|x| + 132) div 32 of x, 132
  being the bias the code adds. The saturated u-law codes at the top of the range are included.\<close>

theorem companding_error:
  assumes "is16 x"
  shows "\<bar>alaw_to_linear (linear_to_alaw x) - x\<bar> \<le> max 8 (\<bar>x\<bar> div 32)
    \<and> \<bar>ulaw_to_linear (linear_to_ulaw x) - x\<bar> \<le> (\<bar>x\<bar> + 132) div 32"
proof
  show "\<bar>alaw_to_linear (linear_to_alaw x) - x\<bar> \<le> max 8 (\<bar>x\<bar> div 32)"
  proof (cases "0 \<le> x")
    case True
    then obtain seg q where c: "alaw_cell seg q x" using assms alaw_cell_exists [of x] by (auto simp: is16_def)
    then have r: "0 \<le> seg" "seg < 8" "0 \<le> q" "q < 16" by (simp_all add: alaw_cell_def)
    show ?thesis using True alaw_encode(1) [OF c] alaw_decode(1) [OF r] alaw_cell_level(1) [OF c] by simp
  next
    case False
    then obtain seg q where c: "alaw_cell seg q (- x - 1)"
      using assms alaw_cell_exists [of "- x - 1"] by (auto simp: is16_def)
    then have r: "0 \<le> seg" "seg < 8" "0 \<le> q" "q < 16" by (simp_all add: alaw_cell_def)
    show ?thesis using False alaw_encode(2) [OF c] alaw_decode(2) [OF r] alaw_cell_level(2) [OF c]
      by (simp add: abs_minus_commute)
  qed
  show "\<bar>ulaw_to_linear (linear_to_ulaw x) - x\<bar> \<le> (\<bar>x\<bar> + 132) div 32"
    using assms ulaw_error_pos(1) [of "x + 132"] ulaw_error_pos(2) [of "132 - x - 1"]
    by (cases "0 \<le> x") (simp_all add: is16_def)
qed

theorem companding_error_witness:
  "\<bar>alaw_to_linear (linear_to_alaw (-32768)) - (-32768)\<bar> \<le> max 8 (\<bar>-32768\<bar> div 32)
    \<and> \<bar>ulaw_to_linear (linear_to_ulaw (-32768)) - (-32768)\<bar> \<le> (\<bar>-32768\<bar> + 132) div 32"
  by (rule companding_error) (simp add: is16_def)

subsection \<open>The codec interface\<close>

definition code_byte :: "int list \<Rightarrow> nat \<Rightarrow> int" where
  "code_byte encoded n = u8 (if n mod 2 = 1 then u16 (asr (encoded ! (n div 2)) 8)
                             else u16 (encoded ! (n div 2) AND 0xFF))"

lemma decode_fold:
  assumes "n \<le> length decoded"
  shows "fold (decode_sample conv encoded) [0..<n] decoded =
    map (\<lambda>i. s16 (conv (code_byte encoded i))) [0..<n] @ drop n decoded"
proof -
  have "decode_sample conv encoded = (\<lambda>i ys. ys[i := s16 (conv (code_byte encoded i))])"
    by (simp add: fun_eq_iff decode_sample_def code_byte_def Let_def)
  then show ?thesis using fold_update [OF assms] by simp
qed

lemma byte_low: "u8 (u16 (s16 w AND 0xFF)) = u8 w"
  unfolding u8_def u16_def s16_def mask_FF
  by (rule bit_eqI) (auto simp: bit_simps)

lemma byte_high: "u8 (u16 (asr (s16 w) 8)) = u8 (asr w 8)"
proof (rule bit_eqI)
  fix n
  show "bit (u8 (u16 (asr (s16 w) 8))) n \<longleftrightarrow> bit (u8 (asr w 8)) n"
    unfolding u8_def u16_def s16_def asr_def by (cases "n = 7") (auto simp: bit_simps min_def)
qed

lemma pair_low: "u8 (s16 a OR shl b 8) = u8 a"
  unfolding u8_def s16_def shl_def by (rule bit_eqI) (auto simp: bit_simps min_def)

lemma pair_high: "0 \<le> a \<Longrightarrow> a < 256 \<Longrightarrow> u8 (asr (s16 a OR shl b 8) 8) = u8 b"
proof -
  assume "0 \<le> a" "a < 256"
  then have "s16 a = take_bit 8 a" by (simp add: s16_id take_bit_int_eq_self)
  then show ?thesis unfolding u8_def shl_def asr_def
    by (simp only:) (rule bit_eqI, auto simp: bit_simps)
qed

lemma encode_fold:
  assumes conv: "\<And>x. 0 \<le> conv x \<and> conv x < 256" and "(n + 1) div 2 \<le> length encoded"
  shows "length (fold (encode_sample conv speech) [0..<n] encoded) = length encoded"
    and "\<forall>k<n. code_byte (fold (encode_sample conv speech) [0..<n] encoded) k = conv (speech ! k)"
    and "n mod 2 = 1 \<longrightarrow> fold (encode_sample conv speech) [0..<n] encoded ! (n div 2) = s16 (conv (speech ! (n - 1)))"
  using assms(2)
proof (induction n)
  case 0
  {
    case 1
    then show ?case by simp
  next
    case 2
    then show ?case by simp
  next
    case 3
    then show ?case by simp
  }
next
  case (Suc n)
  define e where "e = fold (encode_sample conv speech) [0..<n] encoded"
  have fold: "fold (encode_sample conv speech) [0..<Suc n] encoded = encode_sample conv speech n e"
    by (simp add: e_def)
  have c: "u16 (conv (speech ! k)) = conv (speech ! k)" "u8 (conv (speech ! k)) = conv (speech ! k)" for k
    using conv [of "speech ! k"] by (simp_all add: u16_id u8_id)
  have step: "encode_sample conv speech n e = (if n mod 2 = 1
      then e[n div 2 := s16 (e ! (n div 2) OR shl (conv (speech ! n)) 8)]
      else e[n div 2 := s16 (conv (speech ! n))])"
    by (simp add: encode_sample_def c)
  {
    case 1
    then show ?case using Suc.IH(1) unfolding fold step by (simp add: e_def)
  next
    case 2
    then have len: "n div 2 < length e" and room: "(n + 1) div 2 \<le> length encoded"
      using Suc.IH(1) by (auto simp: e_def)
    have IH: "code_byte e k = conv (speech ! k)" if "k < n" for k
      using Suc.IH(2) room that by (simp add: e_def)
    have other: "code_byte (e[n div 2 := v]) k = code_byte e k" if "k div 2 \<noteq> n div 2" for k v
      using that by (simp add: code_byte_def)
    show ?case unfolding fold step
    proof (intro allI impI)
      fix k assume k: "k < Suc n"
      show "code_byte (if n mod 2 = 1 then e[n div 2 := s16 (e ! (n div 2) OR shl (conv (speech ! n)) 8)]
          else e[n div 2 := s16 (conv (speech ! n))]) k = conv (speech ! k)"
      proof (cases "k div 2 = n div 2")
        case False
        then show ?thesis using k IH other by (cases "k = n") auto
      next
        case True
        show ?thesis
        proof (cases "n mod 2 = 1")
          case False
          then have "k = n" using True k by presburger
          then show ?thesis using False len by (simp add: code_byte_def byte_low c)
        next
          case odd: True
          have prev: "e ! (n div 2) = s16 (conv (speech ! (n - 1)))"
            using Suc.IH(3) room odd by (simp add: e_def)
          have "k = n \<or> k = n - 1 \<and> k mod 2 = 0" using True k odd by presburger
          then show ?thesis
            using odd len conv True
            by (auto simp: code_byte_def byte_low byte_high prev pair_low pair_high c)
        qed
      qed
    qed
  next
    case 3
    show ?case
    proof
      assume "Suc n mod 2 = 1"
      then have "n mod 2 \<noteq> 1" "Suc n div 2 = n div 2" by presburger+
      then show "fold (encode_sample conv speech) [0..<Suc n] encoded ! (Suc n div 2) =
          s16 (conv (speech ! (Suc n - 1)))"
        using 3 Suc.IH(1) unfolding fold step by (simp add: e_def)
    qed
  }
qed

lemma conv_byte: "0 \<le> linear_to_alaw x \<and> linear_to_alaw x < 256" "0 \<le> linear_to_ulaw x \<and> linear_to_ulaw x < 256"
  by (simp_all add: linear_to_alaw_def linear_to_ulaw_def Let_def c_bound)

lemma conv_s16: "s16 (alaw_to_linear c) = alaw_to_linear c" "s16 (ulaw_to_linear c) = ulaw_to_linear c"
  by (simp_all add: alaw_to_linear_def ulaw_to_linear_def Let_def)

text \<open>what the interface encoders write, the decoders read back: decoding the encoded frame
  gives, sample by sample, the companded value of the input, with the two codes packed into each
  \<open>int16_t\<close> in transmission order, for odd and even frame lengths; and re-encoding a decoded
  A-law payload restores every payload byte.\<close>

theorem g711_interface_roundtrip:
  assumes n: "n = length speech" and room: "(n + 1) div 2 \<le> length encoded" "n \<le> length decoded"
  shows "WebRtcG711_DecodeA (snd (WebRtcG711_EncodeA speech (int n) encoded)) (int n) decoded =
      (int n, map (\<lambda>x. alaw_to_linear (linear_to_alaw x)) speech @ drop n decoded, Some 1)
    \<and> WebRtcG711_DecodeU (snd (WebRtcG711_EncodeU speech (int n) encoded)) (int n) decoded =
      (int n, map (\<lambda>x. ulaw_to_linear (linear_to_ulaw x)) speech @ drop n decoded, Some 1)
    \<and> (\<forall>k<n. code_byte (snd (WebRtcG711_EncodeA (fst (snd (WebRtcG711_DecodeA payload (int n) decoded)))
          (int n) encoded)) k = code_byte payload k)"
proof (intro conjI allI impI)
  have frame: "map (\<lambda>k. f (speech ! k)) [0..<n] = map f speech" for f :: "int \<Rightarrow> int"
    by (rule nth_equalityI) (simp_all add: n)
  note ea = encode_fold [of linear_to_alaw, OF conv_byte(1) room(1)]
  note eu = encode_fold [of linear_to_ulaw, OF conv_byte(2) room(1)]
  show "WebRtcG711_DecodeA (snd (WebRtcG711_EncodeA speech (int n) encoded)) (int n) decoded =
      (int n, map (\<lambda>x. alaw_to_linear (linear_to_alaw x)) speech @ drop n decoded, Some 1)"
    using ea(2) [of speech] room(2)
    by (simp add: WebRtcG711_DecodeA_def WebRtcG711_EncodeA_def decode_fold conv_s16 flip: frame)
  show "WebRtcG711_DecodeU (snd (WebRtcG711_EncodeU speech (int n) encoded)) (int n) decoded =
      (int n, map (\<lambda>x. ulaw_to_linear (linear_to_ulaw x)) speech @ drop n decoded, Some 1)"
    using eu(2) [of speech] room(2)
    by (simp add: WebRtcG711_DecodeU_def WebRtcG711_EncodeU_def decode_fold conv_s16 flip: frame)
  fix k assume k: "k < n"
  have "0 \<le> code_byte payload k \<and> code_byte payload k < 256" by (simp add: code_byte_def c_bound)
  then show "code_byte (snd (WebRtcG711_EncodeA (fst (snd (WebRtcG711_DecodeA payload (int n) decoded)))
          (int n) encoded)) k = code_byte payload k"
    using ea(2) k room(2) companding_roundtrip [of "code_byte payload k"]
    by (simp add: WebRtcG711_DecodeA_def WebRtcG711_EncodeA_def decode_fold conv_s16 nth_append)
qed

theorem g711_interface_roundtrip_witness:
  "WebRtcG711_DecodeA (snd (WebRtcG711_EncodeA [1000, -5, 7] (int 3) [0, 0])) (int 3) [0, 0, 0, 9] =
     (int 3, map (\<lambda>x. alaw_to_linear (linear_to_alaw x)) [1000, -5, 7] @ drop 3 [0, 0, 0, 9], Some 1)"
proof -
  have "3 = length [1000, -5, 7 :: int]" "(3 + 1) div 2 \<le> length [0, 0 :: int]" "3 \<le> length [0, 0, 0, 9 :: int]"
    by simp_all
  from g711_interface_roundtrip [OF this] show ?thesis by blast
qed

subsection \<open>Linear PCM\<close>

lemma pcm_sample:
  assumes "is16 x"
  shows "s16 (s16 (shl (s16 (u16 (u8 (s16 (asr (s16 (0xFF00 AND x)) 8))))) 8 AND 0xFF00)
      OR (u16 (u8 (s16 (0xFF AND x))) AND 0xFF)) = x"
proof -
  have m: "(0xFF00 :: int) = push_bit 8 (mask 8)" by (simp add: mask_eq_exp_minus_1)
  have "s16 (s16 (shl (s16 (u16 (u8 (s16 (asr (s16 (0xFF00 AND x)) 8))))) 8 AND 0xFF00)
      OR (u16 (u8 (s16 (0xFF AND x))) AND 0xFF)) = s16 x"
    unfolding m mask_FF
    by (rule s16_eqI) (simp add: s16_def u16_def u8_def shl_def asr_def bit_simps)
  then show ?thesis using assms by simp
qed

lemma pcm_sample_w16:
  assumes "is16 x" "y = s16 (drop_bit 8 (u16 x) OR (shl (u16 x) 8 AND 0xFF00))"
  shows "s16 (drop_bit 8 (u16 y) OR shl (u16 (y AND 0xFF)) 8) = x"
proof -
  have m: "(0xFF00 :: int) = push_bit 8 (mask 8)" by (simp add: mask_eq_exp_minus_1)
  have "s16 (drop_bit 8 (u16 y) OR shl (u16 (y AND 0xFF)) 8) = s16 x"
    unfolding assms(2) m mask_FF
    by (rule s16_eqI) (simp add: s16_def u16_def shl_def bit_simps)
  then show ?thesis using assms by simp
qed

lemma encode_bytes_fold:
  assumes "2 * n \<le> length out"
  shows "length (fold (\<lambda>i out. (out[i * 2 := f i])[i * 2 + 1 := g i]) [0..<n] out) = length out"
    and "\<forall>k<n. fold (\<lambda>i out. (out[i * 2 := f i])[i * 2 + 1 := g i]) [0..<n] out ! (k * 2) = f k
      \<and> fold (\<lambda>i out. (out[i * 2 := f i])[i * 2 + 1 := g i]) [0..<n] out ! (k * 2 + 1) = g k"
  using assms by (induction n) (auto simp: nth_list_update less_Suc_eq)

text \<open>C35: linear PCM is lossless: both encoders followed by the matching decoder return the frame,
  the number of samples, and (for the byte encoder) the byte stream is big-endian.\<close>

theorem pcm16b_roundtrip:
  assumes x: "list_all is16 speech" and n: "n = length speech" "n < 2 ^ 14"
    and room: "2 * n \<le> length bytes" "n \<le> length wds" "n \<le> length out"
  shows "WebRtcPcm16b_Decode (snd (WebRtcPcm16b_Encode speech (int n) bytes))
        (fst (WebRtcPcm16b_Encode speech (int n) bytes)) out = (int n, speech @ drop n out)
    \<and> WebRtcPcm16b_DecodeW16 (snd (WebRtcPcm16b_EncodeW16 speech (int n) wds))
        (fst (WebRtcPcm16b_EncodeW16 speech (int n) wds)) out = (int n, speech @ drop n out, 1)
    \<and> (\<forall>k<n. snd (WebRtcPcm16b_Encode speech (int n) bytes) ! (k * 2) = (speech ! k) div 256 mod 256
        \<and> snd (WebRtcPcm16b_Encode speech (int n) bytes) ! (k * 2 + 1) = (speech ! k) mod 256)"
proof (intro conjI allI impI)
  have sp: "is16 (speech ! k)" if "k < n" for k using x n that by (simp add: list_all_length)
  have len: "s16 (int n * 2) = int n * 2" "s16 (shl (int n) (Suc 0)) = int n * 2" "asr (int n * 2) (Suc 0) = int n"
    using n(2) by (simp_all add: s16_id shl_mult asr_div)
  define f where "f = (\<lambda>k. u8 (s16 (asr (s16 (0xFF00 AND speech ! k)) 8)))"
  define g where "g = (\<lambda>k. u8 (s16 (0xFF AND speech ! k)))"
  have enc: "snd (WebRtcPcm16b_Encode speech (int n) bytes) =
      fold (\<lambda>i out. (out[i * 2 := f i])[i * 2 + 1 := g i]) [0..<n] bytes"
    by (simp add: WebRtcPcm16b_Encode_def f_def g_def Let_def)
  note bytes = encode_bytes_fold(2) [OF room(1), of f g, folded enc, rule_format]
  have dec: "snd (WebRtcPcm16b_Decode b (int n * 2) out) =
      map (\<lambda>k. s16 (s16 (shl (s16 (u16 (b ! (k * 2)))) 8 AND 0xFF00) OR (u16 (b ! (k * 2 + 1)) AND 0xFF))) [0..<n]
        @ drop n out" for b
    using fold_update [OF room(3)] by (simp add: WebRtcPcm16b_Decode_def Let_def len)
  show "WebRtcPcm16b_Decode (snd (WebRtcPcm16b_Encode speech (int n) bytes))
        (fst (WebRtcPcm16b_Encode speech (int n) bytes)) out = (int n, speech @ drop n out)"
  proof (rule prod_eqI)
    show "fst (WebRtcPcm16b_Decode (snd (WebRtcPcm16b_Encode speech (int n) bytes))
        (fst (WebRtcPcm16b_Encode speech (int n) bytes)) out) = fst (int n, speech @ drop n out)"
      by (simp add: WebRtcPcm16b_Decode_def WebRtcPcm16b_Encode_def Let_def len)
    have "fst (WebRtcPcm16b_Encode speech (int n) bytes) = int n * 2"
      by (simp add: WebRtcPcm16b_Encode_def len)
    then show "snd (WebRtcPcm16b_Decode (snd (WebRtcPcm16b_Encode speech (int n) bytes))
        (fst (WebRtcPcm16b_Encode speech (int n) bytes)) out) = snd (int n, speech @ drop n out)"
      using bytes sp pcm_sample by (simp add: dec) (rule nth_equalityI, simp_all add: n f_def g_def)
  qed
  have "WebRtcPcm16b_DecodeW16 w (int n * 2) out = (int n,
      map (\<lambda>i. s16 (drop_bit 8 (u16 (w ! i)) OR shl (u16 (w ! i AND 0xFF)) 8)) [0..<n] @ drop n out, 1)" for w
    using fold_update [OF room(3)] by (simp add: WebRtcPcm16b_DecodeW16_def Let_def len)
  moreover have "WebRtcPcm16b_EncodeW16 speech (int n) wds = (int n * 2,
      map (\<lambda>i. s16 (drop_bit 8 (u16 (speech ! i)) OR (shl (u16 (speech ! i)) 8 AND 0xFF00))) [0..<n] @ drop n wds)"
    using fold_update [OF room(2)] len by (simp add: WebRtcPcm16b_EncodeW16_def Let_def)
  ultimately show "WebRtcPcm16b_DecodeW16 (snd (WebRtcPcm16b_EncodeW16 speech (int n) wds))
        (fst (WebRtcPcm16b_EncodeW16 speech (int n) wds)) out = (int n, speech @ drop n out, 1)"
    using sp pcm_sample_w16 [OF _ refl]
    by simp (rule nth_equalityI, simp_all add: n nth_append)
  fix k assume k: "k < n"
  have m: "(0xFF00 :: int) = push_bit 8 (mask 8)" by (simp add: mask_eq_exp_minus_1)
  have "u8 (s16 (asr (s16 (0xFF00 AND speech ! k)) 8)) = u8 (drop_bit 8 (speech ! k))"
    unfolding m by (rule u8_eqI) (simp add: s16_def asr_def bit_simps)
  then show "snd (WebRtcPcm16b_Encode speech (int n) bytes) ! (k * 2) = (speech ! k) div 256 mod 256"
    using bytes [OF k] by (simp add: f_def u8_def take_bit_eq_mod drop_bit_eq_div)
  have "u8 (s16 (0xFF AND speech ! k)) = take_bit 8 (speech ! k)"
    unfolding u8_def mask_FF by (rule bit_eqI) (auto simp: s16_def bit_simps min_def)
  then show "snd (WebRtcPcm16b_Encode speech (int n) bytes) ! (k * 2 + 1) = (speech ! k) mod 256"
    using bytes [OF k] by (simp add: g_def take_bit_eq_mod)
qed

theorem pcm16b_roundtrip_witness:
  "WebRtcPcm16b_Decode (snd (WebRtcPcm16b_Encode [258, -2] (int 2) [0, 0, 0, 0]))
     (fst (WebRtcPcm16b_Encode [258, -2] (int 2) [0, 0, 0, 0])) [7, 7, 7] = (int 2, [258, -2] @ drop 2 [7, 7, 7])"
proof -
  have "list_all is16 [258, -2]" "2 = length [258, -2 :: int]" "(2 :: nat) < 2 ^ 14"
    "2 * 2 \<le> length [0, 0, 0, 0 :: int]" "2 \<le> length [0, 0 :: int]" "2 \<le> length [7, 7, 7 :: int]"
    by (simp_all add: is16_def)
  from pcm16b_roundtrip [OF this] show ?thesis by blast
qed

end
