(* ===== verification/IlbcBits.thy ===== *)
theory IlbcBits
  imports Prelude
begin

text \<open>
  The bit stream of the iLBC codec (\<^verbatim>\<open>webrtc/modules/audio_coding/codecs/ilbc\<close>): the parameter
  struct \<open>iLBC_bits\<close> of \<^verbatim>\<open>defines.h\<close>, packing (\<^verbatim>\<open>pack_bits.c\<close>) and unpacking
  (\<^verbatim>\<open>unpack_bits.c\<close>) for frames of 20 and 30 ms, the byte swap of \<^verbatim>\<open>swap_bytes.c\<close>, the codebook
  index conversion (\<^verbatim>\<open>index_conv_enc.c\<close>, \<^verbatim>\<open>index_conv_dec.c\<close>) and the scalar quantiser of
  \<^verbatim>\<open>sort_sq.c\<close>.

  The parameters and the stream are 16-bit words: every shift and mask of the sources acts on the
  low 16 bits only, so \<open>int16_t\<close> parameters promoted to \<open>int\<close> and stored back to \<open>uint16_t\<close> are
  modelled exactly by \<open>16 word\<close>.
\<close>

record iLBC_bits =
  lsf :: "16 word list"
  cb_index :: "16 word list"
  gain_index :: "16 word list"
  idxForMax :: "16 word"
  state_first :: "16 word"
  idxVec :: "16 word list"
  firstbits :: "16 word"
  startIdx :: "16 word"

subsection \<open>Packing\<close>

text \<open>
  \<open>bit_plane lo xs\<close>: the loop over \<open>i = 15, ..., lo\<close> that collects bit 2 of successive elements of
  \<open>idxVec\<close>; \<open>bit_pairs xs\<close>: the loop over \<open>i = 14, 12, ..., 0\<close> that collects bits 1 and 0.
\<close>

definition bit_plane :: "nat \<Rightarrow> 16 word list \<Rightarrow> 16 word" where
  "bit_plane lo xs = fold (\<lambda>(i, x) w. w OR push_bit i (drop_bit 2 (x AND 0x4))) (zip (rev [lo..<16]) xs) 0"

definition bit_pairs :: "16 word list \<Rightarrow> 16 word" where
  "bit_pairs xs = fold (\<lambda>(i, x) w. w OR push_bit i (x AND 0x3)) (zip [14, 12, 10, 8, 6, 4, 2, 0] xs) 0"

text \<open>The words of the three classes of bits, in the order the code writes them; \<open>_20\<close> and \<open>_30\<close>
  are the two branches of \<open>if (mode==20)\<close>.\<close>

definition pack_class1_20 :: "iLBC_bits \<Rightarrow> 16 word list" where
  "pack_class1_20 b =
    [push_bit 10 (lsf b ! 0) OR push_bit 3 (lsf b ! 1) OR drop_bit 4 (lsf b ! 2 AND 0x70),
     push_bit 12 (lsf b ! 2 AND 0xF) OR push_bit 10 (startIdx b) OR
        push_bit 9 (state_first b) OR push_bit 3 (idxForMax b) OR
        drop_bit 4 (cb_index b ! 0 AND 0x70),
     push_bit 12 (cb_index b ! 0 AND 0xE) OR push_bit 8 (gain_index b ! 0 AND 0x18) OR
        push_bit 7 (gain_index b ! 1 AND 0x8) OR push_bit 2 (cb_index b ! 3 AND 0xFE) OR
        drop_bit 2 (gain_index b ! 3 AND 0x10) OR drop_bit 2 (gain_index b ! 4 AND 0x8) OR
        drop_bit 4 (gain_index b ! 6 AND 0x10)]"

definition pack_class1_30 :: "iLBC_bits \<Rightarrow> 16 word list" where
  "pack_class1_30 b =
    [push_bit 10 (lsf b ! 0) OR push_bit 3 (lsf b ! 1) OR drop_bit 4 (lsf b ! 2 AND 0x70),
     push_bit 12 (lsf b ! 2 AND 0xF) OR push_bit 6 (lsf b ! 3) OR
        drop_bit 1 (lsf b ! 4 AND 0x7E),
     push_bit 15 (lsf b ! 4 AND 0x1) OR push_bit 8 (lsf b ! 5) OR push_bit 5 (startIdx b) OR
        push_bit 4 (state_first b) OR drop_bit 2 (idxForMax b AND 0x3C),
     push_bit 14 (idxForMax b AND 0x3) OR push_bit 7 (cb_index b ! 0 AND 0x78) OR
        push_bit 5 (gain_index b ! 0 AND 0x10) OR push_bit 5 (gain_index b ! 1 AND 0x8) OR
        (cb_index b ! 3 AND 0xFC) OR drop_bit 3 (gain_index b ! 3 AND 0x10) OR
        drop_bit 3 (gain_index b ! 4 AND 0x8)]"

definition pack_class2_20 :: "iLBC_bits \<Rightarrow> 16 word list" where
  "pack_class2_20 b =
    [bit_plane 7 (drop 48 (idxVec b)) OR push_bit 4 (gain_index b ! 1 AND 0x4) OR
        push_bit 2 (gain_index b ! 3 AND 0xC) OR push_bit 1 (gain_index b ! 4 AND 0x4) OR
        drop_bit 1 (gain_index b ! 6 AND 0x8) OR drop_bit 2 (gain_index b ! 7 AND 0xC)]"

definition pack_class2_30 :: "iLBC_bits \<Rightarrow> 16 word list" where
  "pack_class2_30 b =
    [bit_plane 6 (drop 48 (idxVec b)) OR push_bit 3 (cb_index b ! 0 AND 0x6) OR
        (gain_index b ! 0 AND 0x8) OR (gain_index b ! 1 AND 0x4) OR (cb_index b ! 3 AND 0x2) OR
        drop_bit 7 (cb_index b ! 6 AND 0x80),
     push_bit 9 (cb_index b ! 6 AND 0x7E) OR push_bit 2 (cb_index b ! 9 AND 0xFE) OR
        drop_bit 5 (cb_index b ! 12 AND 0xE0),
     push_bit 11 (cb_index b ! 12 AND 0x1E) OR push_bit 8 (gain_index b ! 3 AND 0xC) OR
        push_bit 7 (gain_index b ! 4 AND 0x6) OR push_bit 3 (gain_index b ! 6 AND 0x18) OR
        push_bit 2 (gain_index b ! 7 AND 0xC) OR drop_bit 1 (gain_index b ! 9 AND 0x10) OR
        drop_bit 1 (gain_index b ! 10 AND 0x8) OR drop_bit 3 (gain_index b ! 12 AND 0x10) OR
        drop_bit 3 (gain_index b ! 13 AND 0x8)]"

definition pack_class3_20 :: "iLBC_bits \<Rightarrow> 16 word list" where
  "pack_class3_20 b =
    [push_bit 14 (idxVec b ! 56 AND 0x3) OR push_bit 13 (cb_index b ! 0 AND 1) OR
        push_bit 6 (cb_index b ! 1) OR drop_bit 1 (cb_index b ! 2 AND 0x7E),
     push_bit 15 (cb_index b ! 2 AND 0x1) OR push_bit 12 (gain_index b ! 0 AND 0x7) OR
        push_bit 10 (gain_index b ! 1 AND 0x3) OR push_bit 7 (gain_index b ! 2) OR
        push_bit 6 (cb_index b ! 3 AND 0x1) OR drop_bit 1 (cb_index b ! 4 AND 0x7E),
     push_bit 15 (cb_index b ! 4 AND 0x1) OR push_bit 8 (cb_index b ! 5) OR (cb_index b ! 6),
     push_bit 8 (cb_index b ! 7) OR (cb_index b ! 8),
     push_bit 14 (gain_index b ! 3 AND 0x3) OR push_bit 12 (gain_index b ! 4 AND 0x3) OR
        push_bit 9 (gain_index b ! 5) OR push_bit 6 (gain_index b ! 6 AND 0x7) OR
        push_bit 4 (gain_index b ! 7 AND 0x3) OR push_bit 1 (gain_index b ! 8)]"

definition pack_class3_30 :: "iLBC_bits \<Rightarrow> 16 word list" where
  "pack_class3_30 b =
    [push_bit 14 (idxVec b ! 56 AND 0x3) OR push_bit 12 (idxVec b ! 57 AND 0x3) OR
        push_bit 11 (cb_index b ! 0 AND 1) OR push_bit 4 (cb_index b ! 1) OR
        drop_bit 3 (cb_index b ! 2 AND 0x78),
     push_bit 13 (cb_index b ! 2 AND 0x7) OR push_bit 10 (gain_index b ! 0 AND 0x7) OR
        push_bit 8 (gain_index b ! 1 AND 0x3) OR push_bit 5 (gain_index b ! 2 AND 0x7) OR
        push_bit 4 (cb_index b ! 3 AND 0x1) OR drop_bit 3 (cb_index b ! 4 AND 0x78),
     push_bit 13 (cb_index b ! 4 AND 0x7) OR push_bit 6 (cb_index b ! 5) OR
        push_bit 5 (cb_index b ! 6 AND 0x1) OR drop_bit 3 (cb_index b ! 7 AND 0xF8),
     push_bit 13 (cb_index b ! 7 AND 0x7) OR push_bit 5 (cb_index b ! 8) OR
        push_bit 4 (cb_index b ! 9 AND 0x1) OR drop_bit 4 (cb_index b ! 10 AND 0xF0),
     push_bit 12 (cb_index b ! 10 AND 0xF) OR push_bit 4 (cb_index b ! 11) OR
        push_bit 3 (cb_index b ! 12 AND 0x1) OR drop_bit 5 (cb_index b ! 13 AND 0xE0),
     push_bit 11 (cb_index b ! 13 AND 0x1F) OR push_bit 3 (cb_index b ! 14) OR
        push_bit 1 (gain_index b ! 3 AND 0x3) OR (gain_index b ! 4 AND 0x1),
     push_bit 13 (gain_index b ! 5) OR push_bit 10 (gain_index b ! 6 AND 0x7) OR
        push_bit 8 (gain_index b ! 7 AND 0x3) OR push_bit 5 (gain_index b ! 8) OR
        push_bit 1 (gain_index b ! 9 AND 0xF) OR drop_bit 2 (gain_index b ! 10 AND 0x4),
     push_bit 14 (gain_index b ! 10 AND 0x3) OR push_bit 11 (gain_index b ! 11) OR
        push_bit 7 (gain_index b ! 12 AND 0xF) OR push_bit 4 (gain_index b ! 13 AND 0x7) OR
        push_bit 1 (gain_index b ! 14)]"

definition WebRtcIlbcfix_PackBits :: "iLBC_bits \<Rightarrow> int \<Rightarrow> 16 word list" where
  "WebRtcIlbcfix_PackBits b mode =
    (if mode = 20 then pack_class1_20 b else pack_class1_30 b)
    @ map (\<lambda>k. bit_plane 0 (drop (16 * k) (idxVec b))) [0, 1, 2]
    @ (if mode = 20 then pack_class2_20 b else pack_class2_30 b)
    @ map (\<lambda>k. bit_pairs (drop (8 * k) (idxVec b))) [0, 1, 2, 3, 4, 5, 6]
    @ (if mode = 20 then pack_class3_20 b else pack_class3_30 b)"

subsection \<open>Unpacking\<close>

text \<open>Assignment and \<open>|=\<close> to the fields of the struct.\<close>

definition set_lsf :: "nat \<Rightarrow> 16 word \<Rightarrow> iLBC_bits \<Rightarrow> iLBC_bits" where
  "set_lsf k v b = b\<lparr>lsf := (lsf b)[k := v]\<rparr>"

definition or_lsf :: "nat \<Rightarrow> 16 word \<Rightarrow> iLBC_bits \<Rightarrow> iLBC_bits" where
  "or_lsf k v b = b\<lparr>lsf := (lsf b)[k := lsf b ! k OR v]\<rparr>"

definition set_cb_index :: "nat \<Rightarrow> 16 word \<Rightarrow> iLBC_bits \<Rightarrow> iLBC_bits" where
  "set_cb_index k v b = b\<lparr>cb_index := (cb_index b)[k := v]\<rparr>"

definition or_cb_index :: "nat \<Rightarrow> 16 word \<Rightarrow> iLBC_bits \<Rightarrow> iLBC_bits" where
  "or_cb_index k v b = b\<lparr>cb_index := (cb_index b)[k := cb_index b ! k OR v]\<rparr>"

definition set_gain_index :: "nat \<Rightarrow> 16 word \<Rightarrow> iLBC_bits \<Rightarrow> iLBC_bits" where
  "set_gain_index k v b = b\<lparr>gain_index := (gain_index b)[k := v]\<rparr>"

definition or_gain_index :: "nat \<Rightarrow> 16 word \<Rightarrow> iLBC_bits \<Rightarrow> iLBC_bits" where
  "or_gain_index k v b = b\<lparr>gain_index := (gain_index b)[k := gain_index b ! k OR v]\<rparr>"

definition set_idxVec :: "nat \<Rightarrow> 16 word \<Rightarrow> iLBC_bits \<Rightarrow> iLBC_bits" where
  "set_idxVec k v b = b\<lparr>idxVec := (idxVec b)[k := v]\<rparr>"

definition or_idxVec :: "nat \<Rightarrow> 16 word \<Rightarrow> iLBC_bits \<Rightarrow> iLBC_bits" where
  "or_idxVec k v b = b\<lparr>idxVec := (idxVec b)[k := idxVec b ! k OR v]\<rparr>"

definition set_idxForMax :: "16 word \<Rightarrow> iLBC_bits \<Rightarrow> iLBC_bits" where
  "set_idxForMax v b = b\<lparr>idxForMax := v\<rparr>"

definition set_state_first :: "16 word \<Rightarrow> iLBC_bits \<Rightarrow> iLBC_bits" where
  "set_state_first v b = b\<lparr>state_first := v\<rparr>"

definition set_startIdx :: "16 word \<Rightarrow> iLBC_bits \<Rightarrow> iLBC_bits" where
  "set_startIdx v b = b\<lparr>startIdx := v\<rparr>"

definition or_idxForMax :: "16 word \<Rightarrow> iLBC_bits \<Rightarrow> iLBC_bits" where
  "or_idxForMax v b = b\<lparr>idxForMax := idxForMax b OR v\<rparr>"

text \<open>The statements of the three classes, for the stream \<open>s\<close> (the pointer \<open>bitstreamPtr\<close> stands at
  the word that is indexed).\<close>

definition unpack_class1_20 :: "16 word list \<Rightarrow> iLBC_bits \<Rightarrow> iLBC_bits" where
  "unpack_class1_20 s b =
    (let b = set_lsf 0 (drop_bit 10 (s ! 0)) b;
         b = set_lsf 1 (drop_bit 3 (s ! 0) AND 0x7F) b;
         b = set_lsf 2 (push_bit 4 ((s ! 0) AND 0x7)) b;
         b = or_lsf 2 (drop_bit 12 (s ! 1) AND 0xF) b;
         b = set_startIdx (drop_bit 10 (s ! 1) AND 0x3) b;
         b = set_state_first (drop_bit 9 (s ! 1) AND 0x1) b;
         b = set_idxForMax (drop_bit 3 (s ! 1) AND 0x3F) b;
         b = set_cb_index 0 (push_bit 4 ((s ! 1) AND 0x7)) b;
         b = or_cb_index 0 (drop_bit 12 (s ! 2) AND 0xE) b;
         b = set_gain_index 0 (drop_bit 8 (s ! 2) AND 0x18) b;
         b = set_gain_index 1 (drop_bit 7 (s ! 2) AND 0x8) b;
         b = set_cb_index 3 (drop_bit 2 (s ! 2) AND 0xFE) b;
         b = set_gain_index 3 (push_bit 2 (s ! 2) AND 0x10) b;
         b = set_gain_index 4 (push_bit 2 (s ! 2) AND 0x8) b;
         b = set_gain_index 6 (push_bit 4 (s ! 2) AND 0x10) b
     in b)"

definition unpack_class1_30 :: "16 word list \<Rightarrow> iLBC_bits \<Rightarrow> iLBC_bits" where
  "unpack_class1_30 s b =
    (let b = set_lsf 0 (drop_bit 10 (s ! 0)) b;
         b = set_lsf 1 (drop_bit 3 (s ! 0) AND 0x7F) b;
         b = set_lsf 2 (push_bit 4 ((s ! 0) AND 0x7)) b;
         b = or_lsf 2 (drop_bit 12 (s ! 1) AND 0xF) b;
         b = set_lsf 3 (drop_bit 6 (s ! 1) AND 0x3F) b;
         b = set_lsf 4 (push_bit 1 (s ! 1) AND 0x7E) b;
         b = or_lsf 4 (drop_bit 15 (s ! 2) AND 0x1) b;
         b = set_lsf 5 (drop_bit 8 (s ! 2) AND 0x7F) b;
         b = set_startIdx (drop_bit 5 (s ! 2) AND 0x7) b;
         b = set_state_first (drop_bit 4 (s ! 2) AND 0x1) b;
         b = set_idxForMax (push_bit 2 (s ! 2) AND 0x3C) b;
         b = or_idxForMax (drop_bit 14 (s ! 3) AND 0x3) b;
         b = set_cb_index 0 (drop_bit 7 (s ! 3) AND 0x78) b;
         b = set_gain_index 0 (drop_bit 5 (s ! 3) AND 0x10) b;
         b = set_gain_index 1 (drop_bit 5 (s ! 3) AND 0x8) b;
         b = set_cb_index 3 ((s ! 3) AND 0xFC) b;
         b = set_gain_index 3 (push_bit 3 (s ! 3) AND 0x10) b;
         b = set_gain_index 4 (push_bit 3 (s ! 3) AND 0x8) b
     in b)"

definition unpack_class2_20 :: "16 word list \<Rightarrow> iLBC_bits \<Rightarrow> iLBC_bits" where
  "unpack_class2_20 s b =
    (let b = or_gain_index 1 (drop_bit 4 (s ! 6) AND 0x4) b;
         b = or_gain_index 3 (drop_bit 2 (s ! 6) AND 0xC) b;
         b = or_gain_index 4 (drop_bit 1 (s ! 6) AND 0x4) b;
         b = or_gain_index 6 (push_bit 1 (s ! 6) AND 0x8) b;
         b = set_gain_index 7 (push_bit 2 (s ! 6) AND 0xC) b
     in b)"

definition unpack_class2_30 :: "16 word list \<Rightarrow> iLBC_bits \<Rightarrow> iLBC_bits" where
  "unpack_class2_30 s b =
    (let b = or_cb_index 0 (drop_bit 3 (s ! 7) AND 0x6) b;
         b = or_gain_index 0 ((s ! 7) AND 0x8) b;
         b = or_gain_index 1 ((s ! 7) AND 0x4) b;
         b = or_cb_index 3 ((s ! 7) AND 0x2) b;
         b = set_cb_index 6 (push_bit 7 (s ! 7) AND 0x80) b;
         b = or_cb_index 6 (drop_bit 9 (s ! 8) AND 0x7E) b;
         b = set_cb_index 9 (drop_bit 2 (s ! 8) AND 0xFE) b;
         b = set_cb_index 12 (push_bit 5 (s ! 8) AND 0xE0) b;
         b = or_cb_index 12 (drop_bit 11 (s ! 9) AND 0x1E) b;
         b = or_gain_index 3 (drop_bit 8 (s ! 9) AND 0xC) b;
         b = or_gain_index 4 (drop_bit 7 (s ! 9) AND 0x6) b;
         b = set_gain_index 6 (drop_bit 3 (s ! 9) AND 0x18) b;
         b = set_gain_index 7 (drop_bit 2 (s ! 9) AND 0xC) b;
         b = set_gain_index 9 (push_bit 1 (s ! 9) AND 0x10) b;
         b = set_gain_index 10 (push_bit 1 (s ! 9) AND 0x8) b;
         b = set_gain_index 12 (push_bit 3 (s ! 9) AND 0x10) b;
         b = set_gain_index 13 (push_bit 3 (s ! 9) AND 0x8) b
     in b)"

definition unpack_class3_20 :: "16 word list \<Rightarrow> iLBC_bits \<Rightarrow> iLBC_bits" where
  "unpack_class3_20 s b =
    (let b = or_idxVec 56 (drop_bit 14 (s ! 14) AND 0x3) b;
         b = or_cb_index 0 (drop_bit 13 (s ! 14) AND 0x1) b;
         b = set_cb_index 1 (drop_bit 6 (s ! 14) AND 0x7F) b;
         b = set_cb_index 2 (push_bit 1 (s ! 14) AND 0x7E) b;
         b = or_cb_index 2 (drop_bit 15 (s ! 15) AND 0x1) b;
         b = or_gain_index 0 (drop_bit 12 (s ! 15) AND 0x7) b;
         b = or_gain_index 1 (drop_bit 10 (s ! 15) AND 0x3) b;
         b = set_gain_index 2 (drop_bit 7 (s ! 15) AND 0x7) b;
         b = or_cb_index 3 (drop_bit 6 (s ! 15) AND 0x1) b;
         b = set_cb_index 4 (push_bit 1 (s ! 15) AND 0x7E) b;
         b = or_cb_index 4 (drop_bit 15 (s ! 16) AND 0x1) b;
         b = set_cb_index 5 (drop_bit 8 (s ! 16) AND 0x7F) b;
         b = set_cb_index 6 ((s ! 16) AND 0xFF) b;
         b = set_cb_index 7 (drop_bit 8 (s ! 17)) b;
         b = set_cb_index 8 ((s ! 17) AND 0xFF) b;
         b = or_gain_index 3 (drop_bit 14 (s ! 18) AND 0x3) b;
         b = or_gain_index 4 (drop_bit 12 (s ! 18) AND 0x3) b;
         b = set_gain_index 5 (drop_bit 9 (s ! 18) AND 0x7) b;
         b = or_gain_index 6 (drop_bit 6 (s ! 18) AND 0x7) b;
         b = or_gain_index 7 (drop_bit 4 (s ! 18) AND 0x3) b;
         b = set_gain_index 8 (drop_bit 1 (s ! 18) AND 0x7) b
     in b)"

definition unpack_class3_30 :: "16 word list \<Rightarrow> iLBC_bits \<Rightarrow> iLBC_bits" where
  "unpack_class3_30 s b =
    (let b = or_idxVec 56 (drop_bit 14 (s ! 17) AND 0x3) b;
         b = or_idxVec 57 (drop_bit 12 (s ! 17) AND 0x3) b;
         b = or_cb_index 0 (drop_bit 11 (s ! 17) AND 1) b;
         b = set_cb_index 1 (drop_bit 4 (s ! 17) AND 0x7F) b;
         b = set_cb_index 2 (push_bit 3 (s ! 17) AND 0x78) b;
         b = or_cb_index 2 (drop_bit 13 (s ! 18) AND 0x7) b;
         b = or_gain_index 0 (drop_bit 10 (s ! 18) AND 0x7) b;
         b = or_gain_index 1 (drop_bit 8 (s ! 18) AND 0x3) b;
         b = set_gain_index 2 (drop_bit 5 (s ! 18) AND 0x7) b;
         b = or_cb_index 3 (drop_bit 4 (s ! 18) AND 0x1) b;
         b = set_cb_index 4 (push_bit 3 (s ! 18) AND 0x78) b;
         b = or_cb_index 4 (drop_bit 13 (s ! 19) AND 0x7) b;
         b = set_cb_index 5 (drop_bit 6 (s ! 19) AND 0x7F) b;
         b = or_cb_index 6 (drop_bit 5 (s ! 19) AND 0x1) b;
         b = set_cb_index 7 (push_bit 3 (s ! 19) AND 0xF8) b;
         b = or_cb_index 7 (drop_bit 13 (s ! 20) AND 0x7) b;
         b = set_cb_index 8 (drop_bit 5 (s ! 20) AND 0xFF) b;
         b = or_cb_index 9 (drop_bit 4 (s ! 20) AND 0x1) b;
         b = set_cb_index 10 (push_bit 4 (s ! 20) AND 0xF0) b;
         b = or_cb_index 10 (drop_bit 12 (s ! 21) AND 0xF) b;
         b = set_cb_index 11 (drop_bit 4 (s ! 21) AND 0xFF) b;
         b = or_cb_index 12 (drop_bit 3 (s ! 21) AND 0x1) b;
         b = set_cb_index 13 (push_bit 5 (s ! 21) AND 0xE0) b;
         b = or_cb_index 13 (drop_bit 11 (s ! 22) AND 0x1F) b;
         b = set_cb_index 14 (drop_bit 3 (s ! 22) AND 0xFF) b;
         b = or_gain_index 3 (drop_bit 1 (s ! 22) AND 0x3) b;
         b = or_gain_index 4 ((s ! 22) AND 0x1) b;
         b = set_gain_index 5 (drop_bit 13 (s ! 23) AND 0x7) b;
         b = or_gain_index 6 (drop_bit 10 (s ! 23) AND 0x7) b;
         b = or_gain_index 7 (drop_bit 8 (s ! 23) AND 0x3) b;
         b = set_gain_index 8 (drop_bit 5 (s ! 23) AND 0x7) b;
         b = or_gain_index 9 (drop_bit 1 (s ! 23) AND 0xF) b;
         b = or_gain_index 10 (push_bit 2 (s ! 23) AND 0x4) b;
         b = or_gain_index 10 (drop_bit 14 (s ! 24) AND 0x3) b;
         b = set_gain_index 11 (drop_bit 11 (s ! 24) AND 0x7) b;
         b = or_gain_index 12 (drop_bit 7 (s ! 24) AND 0xF) b;
         b = or_gain_index 13 (drop_bit 4 (s ! 24) AND 0x7) b;
         b = set_gain_index 14 (drop_bit 1 (s ! 24) AND 0x7) b
     in b)"

text \<open>
  The loops over \<open>idxVec\<close>: element \<open>j\<close> takes bit \<open>15 - j mod 16\<close> of word \<open>p + j div 16\<close>, then the two
  bits at \<open>14 - 2 * (j mod 8)\<close> of word \<open>q + j div 8\<close>.
\<close>

definition unpack_planes :: "nat \<Rightarrow> nat \<Rightarrow> 16 word list \<Rightarrow> iLBC_bits \<Rightarrow> iLBC_bits" where
  "unpack_planes p n s b = fold (\<lambda>j. set_idxVec j
     (push_bit 2 (drop_bit (15 - j mod 16) (s ! (p + j div 16))) AND 0x4)) [0..<n] b"

definition unpack_pairs :: "nat \<Rightarrow> 16 word list \<Rightarrow> iLBC_bits \<Rightarrow> iLBC_bits" where
  "unpack_pairs q s b = fold (\<lambda>j. or_idxVec j
     (drop_bit (14 - 2 * (j mod 8)) (s ! (q + j div 8)) AND 0x3)) [0..<56] b"

definition WebRtcIlbcfix_UnpackBits :: "16 word list \<Rightarrow> iLBC_bits \<Rightarrow> int \<Rightarrow> int \<times> iLBC_bits" where
  "WebRtcIlbcfix_UnpackBits s b mode =
    (if mode = 20
     then (if s ! 18 AND 0x1 = 1 then 1 else 0,
           unpack_class3_20 s (unpack_pairs 7 s (unpack_class2_20 s
             (unpack_planes 3 57 s (unpack_class1_20 s b)))))
     else (if s ! 24 AND 0x1 = 1 then 1 else 0,
           unpack_class3_30 s (unpack_pairs 10 s (unpack_class2_30 s
             (unpack_planes 4 58 s (unpack_class1_30 s b))))))"

subsection \<open>Byte order, index conversion and scalar quantisation\<close>

definition WebRtcIlbcfix_SwapBytes :: "16 word list \<Rightarrow> int \<Rightarrow> 16 word list \<Rightarrow> 16 word list" where
  "WebRtcIlbcfix_SwapBytes inp wordLength out =
    memcpy out 0 (map (\<lambda>w. drop_bit 8 w OR push_bit 8 w) (take (nat wordLength) inp))"

definition index_enc :: "int \<Rightarrow> int" where
  "index_enc x = (if x \<ge> 108 \<and> x < 172 then s16 (x - 64) else if x \<ge> 236 then s16 (x - 128) else x)"

definition WebRtcIlbcfix_IndexConvEnc :: "int list \<Rightarrow> int list" where
  "WebRtcIlbcfix_IndexConvEnc index = fold (\<lambda>k index. index[k := index_enc (index ! k)]) [4, 5] index"

definition index_dec :: "int \<Rightarrow> int" where
  "index_dec x = (if x \<ge> 44 \<and> x < 108 then s16 (x + 64) else if x \<ge> 108 \<and> x < 128 then s16 (x + 128) else x)"

definition WebRtcIlbcfix_IndexConvDec :: "int list \<Rightarrow> int list" where
  "WebRtcIlbcfix_IndexConvDec index = fold (\<lambda>k index. index[k := index_dec (index ! k)]) [4, 5] index"

text \<open>The search loop of \<open>WebRtcIlbcfix_SortSq\<close>: it advances while the value is above the codebook entry
  and the entry is not the last one.\<close>

function sort_sq_loop :: "int \<Rightarrow> int list \<Rightarrow> int \<Rightarrow> nat \<Rightarrow> nat" where
  "sort_sq_loop x cb cb_size i =
    (if x > cb ! i \<and> int i < cb_size - 1 then sort_sq_loop x cb cb_size (i + 1) else i)"
  by auto
termination by (relation "measure (\<lambda>(x, cb, cb_size, i). nat (cb_size - int i))") auto

declare sort_sq_loop.simps [simp del]

definition WebRtcIlbcfix_SortSq :: "int \<Rightarrow> int list \<Rightarrow> int \<Rightarrow> int \<times> int" where
  "WebRtcIlbcfix_SortSq x cb cb_size =
    (if x \<le> cb ! 0 then (cb ! 0, 0)
     else let i = sort_sq_loop x cb cb_size 0
          in if x > asr (cb ! i + cb ! (i - 1) + 1) 1 then (cb ! i, s16 (int i))
             else (cb ! (i - 1), s16 (int i - 1)))"

end
