(* ===== verification/IlbcRoundtrip.thy ===== *)
theory IlbcRoundtrip
  imports IlbcBits
begin

text \<open>
  Correctness of the iLBC bit stream (\<open>IlbcBits\<close>). The packed words are described bit by bit
  (\<open>bit_plane_bit\<close>, \<open>bit_pairs_bit\<close>, \<open>pack_20_words\<close>, \<open>pack_30_words\<close>), unpacking is evaluated once on a
  struct with explicit arrays (\<open>unpack_20_record\<close>, \<open>unpack_30_record\<close>), and the two meet field by field in
  \<open>roundtrip_20_record\<close> and \<open>roundtrip_30_record\<close>. The byte swap, the index conversion and the scalar
  quantiser follow.
\<close>

subsection \<open>Words bit by bit\<close>

lemma word16_eqI:
  fixes a b :: "16 word"
  assumes "list_all (\<lambda>k. bit a k = bit b k) [0, 1, 2, 3, 4, 5, 6, 7, 8, 9, 10, 11, 12, 13, 14, 15]"
  shows "a = b"
proof (rule bit_word_eqI)
  fix n assume "n < LENGTH(16)"
  moreover have "[0, 1, 2, 3, 4, 5, 6, 7, 8, 9, 10, 11, 12, 13, 14, 15] = [0..<16]" by code_simp
  ultimately show "bit a n = bit b n" using assms by (auto simp: list_all_iff)
qed

text \<open>A parameter of \<open>k\<close> bits.\<close>

definition fits :: "nat \<Rightarrow> 16 word \<Rightarrow> bool" where
  "fits k w \<longleftrightarrow> unat w < 2 ^ k"

lemma fits_bit: "fits k w \<Longrightarrow> k \<le> n \<Longrightarrow> \<not> bit w n"
proof -
  assume "fits k w" "k \<le> n"
  then have "unat w < 2 ^ n" unfolding fits_def by (meson less_le_trans one_le_numeral power_increasing)
  then have "\<not> bit (unat w) n" by (simp add: bit_iff_odd)
  then show ?thesis by (simp add: bit_unsigned_iff)
qed

lemma fold_or_bit:
  "bit (fold (\<lambda>(i, x) w. w OR push_bit i (g x)) ps w0) n \<longleftrightarrow>
    bit w0 n \<or> (\<exists>(i, x) \<in> set ps. bit (push_bit i (g x)) n)" for w0 :: "16 word"
  by (induction ps arbitrary: w0) (auto simp: bit_or_iff)

lemma bex_zip: "(\<exists>(i, x) \<in> set (zip is xs). P i x) \<longleftrightarrow>
    (\<exists>k < min (length is) (length xs). P (is ! k) (xs ! k))"
  by (auto simp: set_zip)

lemma third_bit: "drop_bit 2 (x AND 0x4) = of_bool (bit x 2)" for x :: "16 word"
  by (rule word16_eqI) (simp add: bit_simps numeral_2_eq_2)

lemma bit_push_of_bool: "i < 16 \<Longrightarrow> bit (push_bit i (of_bool c :: 16 word)) n \<longleftrightarrow> c \<and> n = i"
  by (auto simp: bit_simps)

lemma bit_plane_bit:
  assumes "n < 16"
  shows "bit (bit_plane lo xs) n \<longleftrightarrow> lo \<le> n \<and> 15 - n < length xs \<and> bit (xs ! (15 - n)) 2"
proof -
  have "bit (bit_plane lo xs) n \<longleftrightarrow> (\<exists>k < min (16 - lo) (length xs).
      bit (push_bit (rev [lo..<16] ! k) (of_bool (bit (xs ! k) 2) :: 16 word)) n)"
    unfolding bit_plane_def fold_or_bit third_bit bex_zip by simp
  also have "\<dots> \<longleftrightarrow> (\<exists>k < min (16 - lo) (length xs). bit (xs ! k) 2 \<and> n = 15 - k)"
  proof (intro ex_cong1 conj_cong refl)
    fix k assume "k < min (16 - lo) (length xs)"
    then have "rev [lo..<16] ! k = 15 - k" by (auto simp: rev_nth)
    then show "bit (push_bit (rev [lo..<16] ! k) (of_bool (bit (xs ! k) 2) :: 16 word)) n \<longleftrightarrow>
        bit (xs ! k) 2 \<and> n = 15 - k"
      by (simp only:) (subst bit_push_of_bool, simp_all)
  qed
  also have "\<dots> \<longleftrightarrow> lo \<le> n \<and> 15 - n < length xs \<and> bit (xs ! (15 - n)) 2"
    using assms by (auto intro!: exI [of _ "15 - n"])
  finally show ?thesis .
qed

lemma bit_pairs_bit:
  assumes "j < 8" "j < length xs" "e < 2"
  shows "bit (bit_pairs xs) (14 - 2 * j + e) \<longleftrightarrow> bit (xs ! j) e"
proof -
  have len: "length [14 :: nat, 12, 10, 8, 6, 4, 2, 0] = 8" by simp
  have pos: "[14, 12, 10, 8, 6, 4, 2, 0] ! k = 14 - 2 * k" if "k < 8" for k :: nat
    using that by (auto simp: less_Suc_eq numeral_eq_Suc)
  have "bit (bit_pairs xs) (14 - 2 * j + e) \<longleftrightarrow> (\<exists>k < min 8 (length xs).
      bit (push_bit ([14, 12, 10, 8, 6, 4, 2, 0] ! k) (xs ! k AND 0x3)) (14 - 2 * j + e))"
    unfolding bit_pairs_def fold_or_bit bex_zip len by simp
  also have "\<dots> \<longleftrightarrow> (\<exists>k < min 8 (length xs). k = j \<and> bit (xs ! k) e)"
  proof (intro ex_cong1 conj_cong refl)
    fix k assume k: "k < min 8 (length xs)"
    have three: "bit (0x3 :: 16 word) m \<longleftrightarrow> m < 2" for m
    proof -
      have "(0x3 :: 16 word) = mask 2" by (simp add: mask_eq_exp_minus_1)
      then show ?thesis by (simp only: bit_mask_iff possible_bit_def) auto
    qed
    have three': "bit (0x3 :: int) m \<longleftrightarrow> m < 2" for m
    proof -
      have "(0x3 :: int) = mask 2" by (simp add: mask_eq_exp_minus_1)
      then show ?thesis by (simp only: bit_mask_iff possible_bit_def) auto
    qed
    show "bit (push_bit ([14, 12, 10, 8, 6, 4, 2, 0] ! k) (xs ! k AND 0x3)) (14 - 2 * j + e) \<longleftrightarrow>
        k = j \<and> bit (xs ! k) e"
      using k assms by (cases "k = j") (auto simp: pos bit_simps three three')
  qed
  also have "\<dots> \<longleftrightarrow> bit (xs ! j) e" using assms by auto
  finally show ?thesis .
qed

lemma bit_two:
  fixes w :: "16 word"
  shows "bit w (Suc (Suc 0)) = bit w 2" "bit w (Suc (Suc (Suc 0))) = bit w 3"
  by (simp_all add: numeral_2_eq_2 numeral_3_eq_3)

lemma index_rebuild:
  assumes fits: "fits 3 x"
    and plane: "bit u m \<longleftrightarrow> bit x 2" and pair: "bit v n \<longleftrightarrow> bit x 0" "bit v (Suc n) \<longleftrightarrow> bit x 1"
  shows "(push_bit 2 (drop_bit m u) AND 0x4) OR (drop_bit n v AND 0x3) = (x :: 16 word)"
  using plane pair
  by (intro word16_eqI) (simp add: bit_simps fits_bit [OF fits] numeral_2_eq_2 del: push_bit_Suc)

lemma plane_word_bit:
  assumes "k < 16" "16 * i + k < length xs"
  shows "bit (bit_plane 0 (drop (16 * i) xs)) (15 - k) \<longleftrightarrow> bit (xs ! (16 * i + k)) 2"
  using assms by (auto simp: bit_plane_bit)

lemma pair_word_bit:
  assumes "k < 8" "8 * i + k < length xs"
  shows "bit (bit_pairs (drop (8 * i) xs)) (14 - 2 * k) \<longleftrightarrow> bit (xs ! (8 * i + k)) 0"
    and "bit (bit_pairs (drop (8 * i) xs)) (Suc (14 - 2 * k)) \<longleftrightarrow> bit (xs ! (8 * i + k)) 1"
  using bit_pairs_bit [of k "drop (8 * i) xs" 0] bit_pairs_bit [of k "drop (8 * i) xs" 1] assms by simp_all

subsection \<open>Valid parameters\<close>

text \<open>The widths of the transmitted parameters (index and number of bits), and the array lengths of the struct.\<close>

definition widths_fit :: "(nat \<times> nat) list \<Rightarrow> 16 word list \<Rightarrow> bool" where
  "widths_fit ws xs \<longleftrightarrow> list_all (\<lambda>(i, k). fits k (xs ! i)) ws"

definition frame_fits :: "int \<Rightarrow> iLBC_bits \<Rightarrow> bool" where
  "frame_fits mode b \<longleftrightarrow>
    (if mode = 20
     then widths_fit [(0, 6), (1, 7), (2, 7)] (lsf b)
       \<and> widths_fit [(0, 7), (1, 7), (2, 7), (3, 8), (4, 7), (5, 7), (6, 8), (7, 8), (8, 8)] (cb_index b)
       \<and> widths_fit [(0, 5), (1, 4), (2, 3), (3, 5), (4, 4), (5, 3), (6, 5), (7, 4), (8, 3)] (gain_index b)
       \<and> fits 2 (startIdx b)
     else widths_fit [(0, 6), (1, 7), (2, 7), (3, 6), (4, 7), (5, 7)] (lsf b)
       \<and> widths_fit [(0, 7), (1, 7), (2, 7), (3, 8), (4, 7), (5, 7), (6, 8), (7, 8), (8, 8), (9, 8), (10, 8), (11, 8), (12, 8), (13, 8), (14, 8)] (cb_index b)
       \<and> widths_fit [(0, 5), (1, 4), (2, 3), (3, 5), (4, 4), (5, 3), (6, 5), (7, 4), (8, 3), (9, 5), (10, 4), (11, 3), (12, 5), (13, 4), (14, 3)] (gain_index b)
       \<and> fits 3 (startIdx b))
    \<and> fits 1 (state_first b) \<and> fits 6 (idxForMax b) \<and> list_all (fits 3) (idxVec b)"

definition frame_shape :: "iLBC_bits \<Rightarrow> bool" where
  "frame_shape b \<longleftrightarrow> length (lsf b) = 6 \<and> length (cb_index b) = 15 \<and> length (gain_index b) = 15
     \<and> length (idxVec b) = 58"

lemma fits_20:
  assumes "frame_fits 20 b"
  shows "fits 6 (lsf b ! 0)" "fits 7 (lsf b ! 1)" "fits 7 (lsf b ! 2)" "fits 7 (cb_index b ! 0)"
    "fits 7 (cb_index b ! 1)" "fits 7 (cb_index b ! 2)" "fits 8 (cb_index b ! 3)"
    "fits 7 (cb_index b ! 4)" "fits 7 (cb_index b ! 5)" "fits 8 (cb_index b ! 6)"
    "fits 8 (cb_index b ! 7)" "fits 8 (cb_index b ! 8)" "fits 5 (gain_index b ! 0)"
    "fits 4 (gain_index b ! 1)" "fits 3 (gain_index b ! 2)" "fits 5 (gain_index b ! 3)"
    "fits 4 (gain_index b ! 4)" "fits 3 (gain_index b ! 5)" "fits 5 (gain_index b ! 6)"
    "fits 4 (gain_index b ! 7)" "fits 3 (gain_index b ! 8)" "fits 2 (startIdx b)"
    "fits 1 (state_first b)" "fits 6 (idxForMax b)"
  using assms by (simp_all add: frame_fits_def widths_fit_def)

lemma fits_30:
  assumes "frame_fits 30 b"
  shows "fits 6 (lsf b ! 0)" "fits 7 (lsf b ! 1)" "fits 7 (lsf b ! 2)" "fits 6 (lsf b ! 3)"
    "fits 7 (lsf b ! 4)" "fits 7 (lsf b ! 5)" "fits 7 (cb_index b ! 0)" "fits 7 (cb_index b ! 1)"
    "fits 7 (cb_index b ! 2)" "fits 8 (cb_index b ! 3)" "fits 7 (cb_index b ! 4)"
    "fits 7 (cb_index b ! 5)" "fits 8 (cb_index b ! 6)" "fits 8 (cb_index b ! 7)"
    "fits 8 (cb_index b ! 8)" "fits 8 (cb_index b ! 9)" "fits 8 (cb_index b ! 10)"
    "fits 8 (cb_index b ! 11)" "fits 8 (cb_index b ! 12)" "fits 8 (cb_index b ! 13)"
    "fits 8 (cb_index b ! 14)" "fits 5 (gain_index b ! 0)" "fits 4 (gain_index b ! 1)"
    "fits 3 (gain_index b ! 2)" "fits 5 (gain_index b ! 3)" "fits 4 (gain_index b ! 4)"
    "fits 3 (gain_index b ! 5)" "fits 5 (gain_index b ! 6)" "fits 4 (gain_index b ! 7)"
    "fits 3 (gain_index b ! 8)" "fits 5 (gain_index b ! 9)" "fits 4 (gain_index b ! 10)"
    "fits 3 (gain_index b ! 11)" "fits 5 (gain_index b ! 12)" "fits 4 (gain_index b ! 13)"
    "fits 3 (gain_index b ! 14)" "fits 3 (startIdx b)" "fits 1 (state_first b)" "fits 6 (idxForMax b)"
  using assms by (simp_all add: frame_fits_def widths_fit_def)

subsection \<open>The unpacked struct\<close>

lemmas setters = set_lsf_def or_lsf_def set_cb_index_def or_cb_index_def set_gain_index_def or_gain_index_def
  set_idxVec_def or_idxVec_def set_idxForMax_def or_idxForMax_def set_state_first_def set_startIdx_def

definition list_or :: "16 word list \<Rightarrow> nat \<Rightarrow> 16 word \<Rightarrow> 16 word list" where
  "list_or xs k x = xs[k := xs ! k OR x]"

lemma explicit_list: "(x # xs)[0 := y] = y # xs" "(x # xs)[1 := y] = x # xs[0 := y]"
    "(x # xs)[numeral k := y] = x # xs[pred_numeral k := y]"
    "list_or (x # xs) 0 z = (x OR z) # xs" "list_or (x # xs) 1 z = x # list_or xs 0 z"
    "list_or (x # xs) (numeral k) z = x # list_or xs (pred_numeral k) z"
  by (simp_all add: numeral_eq_Suc list_or_def)

text \<open>The two loops over \<open>idxVec\<close> as functions on the vector alone.\<close>

definition plane_vec :: "nat \<Rightarrow> nat \<Rightarrow> 16 word list \<Rightarrow> 16 word list \<Rightarrow> 16 word list" where
  "plane_vec p n s v = fold (\<lambda>j v. v[j := push_bit 2 (drop_bit (15 - j mod 16) (s ! (p + j div 16))) AND 0x4]) [0..<n] v"

definition pair_vec :: "nat \<Rightarrow> 16 word list \<Rightarrow> 16 word list \<Rightarrow> 16 word list" where
  "pair_vec q s v = fold (\<lambda>j v. v[j := v ! j OR (drop_bit (14 - 2 * (j mod 8)) (s ! (q + j div 8)) AND 0x3)]) [0..<56] v"

lemma fold_idxVec: "fold (\<lambda>j b. b\<lparr>idxVec := (idxVec b)[j := f j (idxVec b)]\<rparr>) js b =
    b\<lparr>idxVec := fold (\<lambda>j v. v[j := f j v]) js (idxVec b)\<rparr>"
  by (induction js arbitrary: b) simp_all

lemma unpack_planes_vec: "unpack_planes p n s b = b\<lparr>idxVec := plane_vec p n s (idxVec b)\<rparr>"
  using fold_idxVec [of "\<lambda>j v. push_bit 2 (drop_bit (15 - j mod 16) (s ! (p + j div 16))) AND 0x4"]
  by (simp add: unpack_planes_def plane_vec_def set_idxVec_def [abs_def])

lemma unpack_pairs_vec: "unpack_pairs q s b = b\<lparr>idxVec := pair_vec q s (idxVec b)\<rparr>"
  using fold_idxVec [of "\<lambda>j v. v ! j OR (drop_bit (14 - 2 * (j mod 8)) (s ! (q + j div 8)) AND 0x3)"]
  by (simp add: unpack_pairs_def pair_vec_def or_idxVec_def [abs_def])

lemma explicit_record: "set_lsf k x \<lparr>lsf = l, cb_index = c, gain_index = g, idxForMax = m, state_first = f, idxVec = v, firstbits = fb, startIdx = si\<rparr> =
      \<lparr>lsf = l[k := x], cb_index = c, gain_index = g, idxForMax = m, state_first = f, idxVec = v, firstbits = fb, startIdx = si\<rparr>"
    "or_lsf k x \<lparr>lsf = l, cb_index = c, gain_index = g, idxForMax = m, state_first = f, idxVec = v, firstbits = fb, startIdx = si\<rparr> =
      \<lparr>lsf = list_or l k x, cb_index = c, gain_index = g, idxForMax = m, state_first = f, idxVec = v, firstbits = fb, startIdx = si\<rparr>"
    "set_cb_index k x \<lparr>lsf = l, cb_index = c, gain_index = g, idxForMax = m, state_first = f, idxVec = v, firstbits = fb, startIdx = si\<rparr> =
      \<lparr>lsf = l, cb_index = c[k := x], gain_index = g, idxForMax = m, state_first = f, idxVec = v, firstbits = fb, startIdx = si\<rparr>"
    "or_cb_index k x \<lparr>lsf = l, cb_index = c, gain_index = g, idxForMax = m, state_first = f, idxVec = v, firstbits = fb, startIdx = si\<rparr> =
      \<lparr>lsf = l, cb_index = list_or c k x, gain_index = g, idxForMax = m, state_first = f, idxVec = v, firstbits = fb, startIdx = si\<rparr>"
    "set_gain_index k x \<lparr>lsf = l, cb_index = c, gain_index = g, idxForMax = m, state_first = f, idxVec = v, firstbits = fb, startIdx = si\<rparr> =
      \<lparr>lsf = l, cb_index = c, gain_index = g[k := x], idxForMax = m, state_first = f, idxVec = v, firstbits = fb, startIdx = si\<rparr>"
    "or_gain_index k x \<lparr>lsf = l, cb_index = c, gain_index = g, idxForMax = m, state_first = f, idxVec = v, firstbits = fb, startIdx = si\<rparr> =
      \<lparr>lsf = l, cb_index = c, gain_index = list_or g k x, idxForMax = m, state_first = f, idxVec = v, firstbits = fb, startIdx = si\<rparr>"
    "set_idxVec k x \<lparr>lsf = l, cb_index = c, gain_index = g, idxForMax = m, state_first = f, idxVec = v, firstbits = fb, startIdx = si\<rparr> =
      \<lparr>lsf = l, cb_index = c, gain_index = g, idxForMax = m, state_first = f, idxVec = v[k := x], firstbits = fb, startIdx = si\<rparr>"
    "or_idxVec k x \<lparr>lsf = l, cb_index = c, gain_index = g, idxForMax = m, state_first = f, idxVec = v, firstbits = fb, startIdx = si\<rparr> =
      \<lparr>lsf = l, cb_index = c, gain_index = g, idxForMax = m, state_first = f, idxVec = list_or v k x, firstbits = fb, startIdx = si\<rparr>"
    "set_idxForMax x \<lparr>lsf = l, cb_index = c, gain_index = g, idxForMax = m, state_first = f, idxVec = v, firstbits = fb, startIdx = si\<rparr> =
      \<lparr>lsf = l, cb_index = c, gain_index = g, idxForMax = x, state_first = f, idxVec = v, firstbits = fb, startIdx = si\<rparr>"
    "set_state_first x \<lparr>lsf = l, cb_index = c, gain_index = g, idxForMax = m, state_first = f, idxVec = v, firstbits = fb, startIdx = si\<rparr> =
      \<lparr>lsf = l, cb_index = c, gain_index = g, idxForMax = m, state_first = x, idxVec = v, firstbits = fb, startIdx = si\<rparr>"
    "set_startIdx x \<lparr>lsf = l, cb_index = c, gain_index = g, idxForMax = m, state_first = f, idxVec = v, firstbits = fb, startIdx = si\<rparr> =
      \<lparr>lsf = l, cb_index = c, gain_index = g, idxForMax = m, state_first = f, idxVec = v, firstbits = fb, startIdx = x\<rparr>"
    "or_idxForMax x \<lparr>lsf = l, cb_index = c, gain_index = g, idxForMax = m, state_first = f, idxVec = v, firstbits = fb, startIdx = si\<rparr> =
      \<lparr>lsf = l, cb_index = c, gain_index = g, idxForMax = m OR x, state_first = f, idxVec = v, firstbits = fb, startIdx = si\<rparr>"
    "unpack_planes p n s \<lparr>lsf = l, cb_index = c, gain_index = g, idxForMax = m, state_first = f, idxVec = v, firstbits = fb, startIdx = si\<rparr> =
      \<lparr>lsf = l, cb_index = c, gain_index = g, idxForMax = m, state_first = f, idxVec = plane_vec p n s v, firstbits = fb, startIdx = si\<rparr>"
    "unpack_pairs p s \<lparr>lsf = l, cb_index = c, gain_index = g, idxForMax = m, state_first = f, idxVec = v, firstbits = fb, startIdx = si\<rparr> =
      \<lparr>lsf = l, cb_index = c, gain_index = g, idxForMax = m, state_first = f, idxVec = pair_vec p s v, firstbits = fb, startIdx = si\<rparr>"
  by (simp_all add: setters list_or_def unpack_planes_vec unpack_pairs_vec)

lemmas explicit = explicit_list pred_numeral_simps BitM.simps
  snd_conv if_True if_False refl num.distinct num.inject numeral_eq_iff simp_thms

text \<open>The struct after unpacking, field by field, for the stream \<open>s\<close>.\<close>

lemma unpack_20_record:
  fixes s b0
  assumes b0: "b0 = \<lparr>lsf = [l0, l1, l2, l3, l4, l5],
      cb_index = [c0, c1, c2, c3, c4, c5, c6, c7, c8, c9, c10, c11, c12, c13, c14],
      gain_index = [g0, g1, g2, g3, g4, g5, g6, g7, g8, g9, g10, g11, g12, g13, g14],
      idxForMax = im, state_first = sf, idxVec = v, firstbits = fb, startIdx = si\<rparr>"
    and b': "b' = snd (WebRtcIlbcfix_UnpackBits s b0 20)"
  shows "lsf b' = [(drop_bit 10 (s ! 0)),
      (drop_bit 3 (s ! 0) AND 0x7F),
      (push_bit 4 ((s ! 0) AND 0x7)) OR (drop_bit 12 (s ! 1) AND 0xF),
      l3,
      l4,
      l5]"
    "cb_index b' = [(push_bit 4 ((s ! 1) AND 0x7)) OR (drop_bit 12 (s ! 2) AND 0xE) OR (drop_bit 13 (s ! 14) AND 0x1),
      (drop_bit 6 (s ! 14) AND 0x7F),
      (push_bit 1 (s ! 14) AND 0x7E) OR (drop_bit 15 (s ! 15) AND 0x1),
      (drop_bit 2 (s ! 2) AND 0xFE) OR (drop_bit 6 (s ! 15) AND 0x1),
      (push_bit 1 (s ! 15) AND 0x7E) OR (drop_bit 15 (s ! 16) AND 0x1),
      (drop_bit 8 (s ! 16) AND 0x7F),
      ((s ! 16) AND 0xFF),
      (drop_bit 8 (s ! 17)),
      ((s ! 17) AND 0xFF),
      c9,
      c10,
      c11,
      c12,
      c13,
      c14]"
    "gain_index b' = [(drop_bit 8 (s ! 2) AND 0x18) OR (drop_bit 12 (s ! 15) AND 0x7),
      (drop_bit 7 (s ! 2) AND 0x8) OR (drop_bit 4 (s ! 6) AND 0x4) OR (drop_bit 10 (s ! 15) AND 0x3),
      (drop_bit 7 (s ! 15) AND 0x7),
      (push_bit 2 (s ! 2) AND 0x10) OR (drop_bit 2 (s ! 6) AND 0xC) OR (drop_bit 14 (s ! 18) AND 0x3),
      (push_bit 2 (s ! 2) AND 0x8) OR (drop_bit 1 (s ! 6) AND 0x4) OR (drop_bit 12 (s ! 18) AND 0x3),
      (drop_bit 9 (s ! 18) AND 0x7),
      (push_bit 4 (s ! 2) AND 0x10) OR (push_bit 1 (s ! 6) AND 0x8) OR (drop_bit 6 (s ! 18) AND 0x7),
      (push_bit 2 (s ! 6) AND 0xC) OR (drop_bit 4 (s ! 18) AND 0x3),
      (drop_bit 1 (s ! 18) AND 0x7),
      g9,
      g10,
      g11,
      g12,
      g13,
      g14]"
    "startIdx b' = (drop_bit 10 (s ! 1) AND 0x3)" "state_first b' = (drop_bit 9 (s ! 1) AND 0x1)"
    "idxForMax b' = (drop_bit 3 (s ! 1) AND 0x3F)"
    "firstbits b' = fb"
    "idxVec b' = list_or (pair_vec 7 s (plane_vec 3 57 s v)) 56 (drop_bit 14 (s ! 14) AND 0x3)"
  unfolding b' b0
  by (simp_all only: WebRtcIlbcfix_UnpackBits_def Let_def unpack_class1_20_def unpack_class2_20_def unpack_class3_20_def
      explicit_record explicit iLBC_bits.select_convs or.assoc)

lemma unpack_30_record:
  fixes s b0
  assumes b0: "b0 = \<lparr>lsf = [l0, l1, l2, l3, l4, l5],
      cb_index = [c0, c1, c2, c3, c4, c5, c6, c7, c8, c9, c10, c11, c12, c13, c14],
      gain_index = [g0, g1, g2, g3, g4, g5, g6, g7, g8, g9, g10, g11, g12, g13, g14],
      idxForMax = im, state_first = sf, idxVec = v, firstbits = fb, startIdx = si\<rparr>"
    and b': "b' = snd (WebRtcIlbcfix_UnpackBits s b0 30)"
  shows "lsf b' = [(drop_bit 10 (s ! 0)),
      (drop_bit 3 (s ! 0) AND 0x7F),
      (push_bit 4 ((s ! 0) AND 0x7)) OR (drop_bit 12 (s ! 1) AND 0xF),
      (drop_bit 6 (s ! 1) AND 0x3F),
      (push_bit 1 (s ! 1) AND 0x7E) OR (drop_bit 15 (s ! 2) AND 0x1),
      (drop_bit 8 (s ! 2) AND 0x7F)]"
    "cb_index b' = [(drop_bit 7 (s ! 3) AND 0x78) OR (drop_bit 3 (s ! 7) AND 0x6) OR (drop_bit 11 (s ! 17) AND 1),
      (drop_bit 4 (s ! 17) AND 0x7F),
      (push_bit 3 (s ! 17) AND 0x78) OR (drop_bit 13 (s ! 18) AND 0x7),
      ((s ! 3) AND 0xFC) OR ((s ! 7) AND 0x2) OR (drop_bit 4 (s ! 18) AND 0x1),
      (push_bit 3 (s ! 18) AND 0x78) OR (drop_bit 13 (s ! 19) AND 0x7),
      (drop_bit 6 (s ! 19) AND 0x7F),
      (push_bit 7 (s ! 7) AND 0x80) OR (drop_bit 9 (s ! 8) AND 0x7E) OR (drop_bit 5 (s ! 19) AND 0x1),
      (push_bit 3 (s ! 19) AND 0xF8) OR (drop_bit 13 (s ! 20) AND 0x7),
      (drop_bit 5 (s ! 20) AND 0xFF),
      (drop_bit 2 (s ! 8) AND 0xFE) OR (drop_bit 4 (s ! 20) AND 0x1),
      (push_bit 4 (s ! 20) AND 0xF0) OR (drop_bit 12 (s ! 21) AND 0xF),
      (drop_bit 4 (s ! 21) AND 0xFF),
      (push_bit 5 (s ! 8) AND 0xE0) OR (drop_bit 11 (s ! 9) AND 0x1E) OR (drop_bit 3 (s ! 21) AND 0x1),
      (push_bit 5 (s ! 21) AND 0xE0) OR (drop_bit 11 (s ! 22) AND 0x1F),
      (drop_bit 3 (s ! 22) AND 0xFF)]"
    "gain_index b' = [(drop_bit 5 (s ! 3) AND 0x10) OR ((s ! 7) AND 0x8) OR (drop_bit 10 (s ! 18) AND 0x7),
      (drop_bit 5 (s ! 3) AND 0x8) OR ((s ! 7) AND 0x4) OR (drop_bit 8 (s ! 18) AND 0x3),
      (drop_bit 5 (s ! 18) AND 0x7),
      (push_bit 3 (s ! 3) AND 0x10) OR (drop_bit 8 (s ! 9) AND 0xC) OR (drop_bit 1 (s ! 22) AND 0x3),
      (push_bit 3 (s ! 3) AND 0x8) OR (drop_bit 7 (s ! 9) AND 0x6) OR ((s ! 22) AND 0x1),
      (drop_bit 13 (s ! 23) AND 0x7),
      (drop_bit 3 (s ! 9) AND 0x18) OR (drop_bit 10 (s ! 23) AND 0x7),
      (drop_bit 2 (s ! 9) AND 0xC) OR (drop_bit 8 (s ! 23) AND 0x3),
      (drop_bit 5 (s ! 23) AND 0x7),
      (push_bit 1 (s ! 9) AND 0x10) OR (drop_bit 1 (s ! 23) AND 0xF),
      (push_bit 1 (s ! 9) AND 0x8) OR (push_bit 2 (s ! 23) AND 0x4) OR (drop_bit 14 (s ! 24) AND 0x3),
      (drop_bit 11 (s ! 24) AND 0x7),
      (push_bit 3 (s ! 9) AND 0x10) OR (drop_bit 7 (s ! 24) AND 0xF),
      (push_bit 3 (s ! 9) AND 0x8) OR (drop_bit 4 (s ! 24) AND 0x7),
      (drop_bit 1 (s ! 24) AND 0x7)]"
    "startIdx b' = (drop_bit 5 (s ! 2) AND 0x7)" "state_first b' = (drop_bit 4 (s ! 2) AND 0x1)"
    "idxForMax b' = (push_bit 2 (s ! 2) AND 0x3C) OR (drop_bit 14 (s ! 3) AND 0x3)"
    "firstbits b' = fb"
    "idxVec b' = list_or (list_or (pair_vec 10 s (plane_vec 4 58 s v)) 56 (drop_bit 14 (s ! 17) AND 0x3)) 57 (drop_bit 12 (s ! 17) AND 0x3)"
  unfolding b' b0
  by (simp_all only: WebRtcIlbcfix_UnpackBits_def Let_def unpack_class1_30_def unpack_class2_30_def unpack_class3_30_def
      explicit_record explicit iLBC_bits.select_convs or.assoc)

subsection \<open>The packed words\<close>

lemma pack_20_words:
  assumes "s = WebRtcIlbcfix_PackBits b 20"
  shows "length s = 19"
    "s ! 0 = push_bit 10 (lsf b ! 0) OR push_bit 3 (lsf b ! 1) OR drop_bit 4 (lsf b ! 2 AND 0x70)"
    "s ! 1 = push_bit 12 (lsf b ! 2 AND 0xF) OR push_bit 10 (startIdx b) OR
        push_bit 9 (state_first b) OR push_bit 3 (idxForMax b) OR
        drop_bit 4 (cb_index b ! 0 AND 0x70)"
    "s ! 2 = push_bit 12 (cb_index b ! 0 AND 0xE) OR push_bit 8 (gain_index b ! 0 AND 0x18) OR
        push_bit 7 (gain_index b ! 1 AND 0x8) OR push_bit 2 (cb_index b ! 3 AND 0xFE) OR
        drop_bit 2 (gain_index b ! 3 AND 0x10) OR drop_bit 2 (gain_index b ! 4 AND 0x8) OR
        drop_bit 4 (gain_index b ! 6 AND 0x10)"
    "s ! 3 = bit_plane 0 (drop 0 (idxVec b))"
    "s ! 4 = bit_plane 0 (drop 16 (idxVec b))"
    "s ! 5 = bit_plane 0 (drop 32 (idxVec b))"
    "s ! 6 = bit_plane 7 (drop 48 (idxVec b)) OR push_bit 4 (gain_index b ! 1 AND 0x4) OR
        push_bit 2 (gain_index b ! 3 AND 0xC) OR push_bit 1 (gain_index b ! 4 AND 0x4) OR
        drop_bit 1 (gain_index b ! 6 AND 0x8) OR drop_bit 2 (gain_index b ! 7 AND 0xC)"
    "s ! 7 = bit_pairs (drop 0 (idxVec b))"
    "s ! 8 = bit_pairs (drop 8 (idxVec b))"
    "s ! 9 = bit_pairs (drop 16 (idxVec b))"
    "s ! 10 = bit_pairs (drop 24 (idxVec b))"
    "s ! 11 = bit_pairs (drop 32 (idxVec b))"
    "s ! 12 = bit_pairs (drop 40 (idxVec b))"
    "s ! 13 = bit_pairs (drop 48 (idxVec b))"
    "s ! 14 = push_bit 14 (idxVec b ! 56 AND 0x3) OR push_bit 13 (cb_index b ! 0 AND 1) OR
        push_bit 6 (cb_index b ! 1) OR drop_bit 1 (cb_index b ! 2 AND 0x7E)"
    "s ! 15 = push_bit 15 (cb_index b ! 2 AND 0x1) OR push_bit 12 (gain_index b ! 0 AND 0x7) OR
        push_bit 10 (gain_index b ! 1 AND 0x3) OR push_bit 7 (gain_index b ! 2) OR
        push_bit 6 (cb_index b ! 3 AND 0x1) OR drop_bit 1 (cb_index b ! 4 AND 0x7E)"
    "s ! 16 = push_bit 15 (cb_index b ! 4 AND 0x1) OR push_bit 8 (cb_index b ! 5) OR (cb_index b ! 6)"
    "s ! 17 = push_bit 8 (cb_index b ! 7) OR (cb_index b ! 8)"
    "s ! 18 = push_bit 14 (gain_index b ! 3 AND 0x3) OR push_bit 12 (gain_index b ! 4 AND 0x3) OR
        push_bit 9 (gain_index b ! 5) OR push_bit 6 (gain_index b ! 6 AND 0x7) OR
        push_bit 4 (gain_index b ! 7 AND 0x3) OR push_bit 1 (gain_index b ! 8)"
  unfolding assms by (simp_all add: WebRtcIlbcfix_PackBits_def pack_class1_20_def pack_class2_20_def pack_class3_20_def)

lemma pack_30_words:
  assumes "s = WebRtcIlbcfix_PackBits b 30"
  shows "length s = 25"
    "s ! 0 = push_bit 10 (lsf b ! 0) OR push_bit 3 (lsf b ! 1) OR drop_bit 4 (lsf b ! 2 AND 0x70)"
    "s ! 1 = push_bit 12 (lsf b ! 2 AND 0xF) OR push_bit 6 (lsf b ! 3) OR
        drop_bit 1 (lsf b ! 4 AND 0x7E)"
    "s ! 2 = push_bit 15 (lsf b ! 4 AND 0x1) OR push_bit 8 (lsf b ! 5) OR push_bit 5 (startIdx b) OR
        push_bit 4 (state_first b) OR drop_bit 2 (idxForMax b AND 0x3C)"
    "s ! 3 = push_bit 14 (idxForMax b AND 0x3) OR push_bit 7 (cb_index b ! 0 AND 0x78) OR
        push_bit 5 (gain_index b ! 0 AND 0x10) OR push_bit 5 (gain_index b ! 1 AND 0x8) OR
        (cb_index b ! 3 AND 0xFC) OR drop_bit 3 (gain_index b ! 3 AND 0x10) OR
        drop_bit 3 (gain_index b ! 4 AND 0x8)"
    "s ! 4 = bit_plane 0 (drop 0 (idxVec b))"
    "s ! 5 = bit_plane 0 (drop 16 (idxVec b))"
    "s ! 6 = bit_plane 0 (drop 32 (idxVec b))"
    "s ! 7 = bit_plane 6 (drop 48 (idxVec b)) OR push_bit 3 (cb_index b ! 0 AND 0x6) OR
        (gain_index b ! 0 AND 0x8) OR (gain_index b ! 1 AND 0x4) OR (cb_index b ! 3 AND 0x2) OR
        drop_bit 7 (cb_index b ! 6 AND 0x80)"
    "s ! 8 = push_bit 9 (cb_index b ! 6 AND 0x7E) OR push_bit 2 (cb_index b ! 9 AND 0xFE) OR
        drop_bit 5 (cb_index b ! 12 AND 0xE0)"
    "s ! 9 = push_bit 11 (cb_index b ! 12 AND 0x1E) OR push_bit 8 (gain_index b ! 3 AND 0xC) OR
        push_bit 7 (gain_index b ! 4 AND 0x6) OR push_bit 3 (gain_index b ! 6 AND 0x18) OR
        push_bit 2 (gain_index b ! 7 AND 0xC) OR drop_bit 1 (gain_index b ! 9 AND 0x10) OR
        drop_bit 1 (gain_index b ! 10 AND 0x8) OR drop_bit 3 (gain_index b ! 12 AND 0x10) OR
        drop_bit 3 (gain_index b ! 13 AND 0x8)"
    "s ! 10 = bit_pairs (drop 0 (idxVec b))"
    "s ! 11 = bit_pairs (drop 8 (idxVec b))"
    "s ! 12 = bit_pairs (drop 16 (idxVec b))"
    "s ! 13 = bit_pairs (drop 24 (idxVec b))"
    "s ! 14 = bit_pairs (drop 32 (idxVec b))"
    "s ! 15 = bit_pairs (drop 40 (idxVec b))"
    "s ! 16 = bit_pairs (drop 48 (idxVec b))"
    "s ! 17 = push_bit 14 (idxVec b ! 56 AND 0x3) OR push_bit 12 (idxVec b ! 57 AND 0x3) OR
        push_bit 11 (cb_index b ! 0 AND 1) OR push_bit 4 (cb_index b ! 1) OR
        drop_bit 3 (cb_index b ! 2 AND 0x78)"
    "s ! 18 = push_bit 13 (cb_index b ! 2 AND 0x7) OR push_bit 10 (gain_index b ! 0 AND 0x7) OR
        push_bit 8 (gain_index b ! 1 AND 0x3) OR push_bit 5 (gain_index b ! 2 AND 0x7) OR
        push_bit 4 (cb_index b ! 3 AND 0x1) OR drop_bit 3 (cb_index b ! 4 AND 0x78)"
    "s ! 19 = push_bit 13 (cb_index b ! 4 AND 0x7) OR push_bit 6 (cb_index b ! 5) OR
        push_bit 5 (cb_index b ! 6 AND 0x1) OR drop_bit 3 (cb_index b ! 7 AND 0xF8)"
    "s ! 20 = push_bit 13 (cb_index b ! 7 AND 0x7) OR push_bit 5 (cb_index b ! 8) OR
        push_bit 4 (cb_index b ! 9 AND 0x1) OR drop_bit 4 (cb_index b ! 10 AND 0xF0)"
    "s ! 21 = push_bit 12 (cb_index b ! 10 AND 0xF) OR push_bit 4 (cb_index b ! 11) OR
        push_bit 3 (cb_index b ! 12 AND 0x1) OR drop_bit 5 (cb_index b ! 13 AND 0xE0)"
    "s ! 22 = push_bit 11 (cb_index b ! 13 AND 0x1F) OR push_bit 3 (cb_index b ! 14) OR
        push_bit 1 (gain_index b ! 3 AND 0x3) OR (gain_index b ! 4 AND 0x1)"
    "s ! 23 = push_bit 13 (gain_index b ! 5) OR push_bit 10 (gain_index b ! 6 AND 0x7) OR
        push_bit 8 (gain_index b ! 7 AND 0x3) OR push_bit 5 (gain_index b ! 8) OR
        push_bit 1 (gain_index b ! 9 AND 0xF) OR drop_bit 2 (gain_index b ! 10 AND 0x4)"
    "s ! 24 = push_bit 14 (gain_index b ! 10 AND 0x3) OR push_bit 11 (gain_index b ! 11) OR
        push_bit 7 (gain_index b ! 12 AND 0xF) OR push_bit 4 (gain_index b ! 13 AND 0x7) OR
        push_bit 1 (gain_index b ! 14)"
  unfolding assms by (simp_all add: WebRtcIlbcfix_PackBits_def pack_class1_30_def pack_class2_30_def pack_class3_30_def)

lemma last_plane_20:
  assumes "k < 9" "length (idxVec b) = 58"
  shows "bit (WebRtcIlbcfix_PackBits b 20 ! 6) (15 - k) \<longleftrightarrow> bit (idxVec b ! (48 + k)) 2"
proof -
  have "k = 0 \<or> k = 1 \<or> k = 2 \<or> k = 3 \<or> k = 4 \<or> k = 5 \<or> k = 6 \<or> k = 7 \<or> k = 8" using assms(1) by linarith
  then show ?thesis unfolding pack_20_words(8) [OF refl]
    using assms(2) by (elim disjE) (simp_all add: bit_simps bit_plane_bit del: push_bit_Suc)
qed

lemma last_plane_30:
  assumes "k < 10" "length (idxVec b) = 58"
  shows "bit (WebRtcIlbcfix_PackBits b 30 ! 7) (15 - k) \<longleftrightarrow> bit (idxVec b ! (48 + k)) 2"
proof -
  have "k = 0 \<or> k = 1 \<or> k = 2 \<or> k = 3 \<or> k = 4 \<or> k = 5 \<or> k = 6 \<or> k = 7 \<or> k = 8 \<or> k = 9"
    using assms(1) by (simp add: less_Suc_eq numeral_eq_Suc)
  then show ?thesis unfolding pack_30_words(9) [OF refl]
    using assms(2) by (elim disjE) (simp_all add: bit_simps bit_plane_bit del: push_bit_Suc)
qed

lemma pack_planes_bit:
  assumes "length (idxVec b) = 58" and "j < (if mode = 20 then 57 else 58)" and "mode = 20 \<or> mode = 30"
    and "p = (if mode = 20 then 3 else 4)"
  shows "bit (WebRtcIlbcfix_PackBits b mode ! (p + j div 16)) (15 - j mod 16) \<longleftrightarrow> bit (idxVec b ! j) 2"
proof -
  define i k where "i = j div 16" and "k = j mod 16"
  have j: "j = 16 * i + k" "k < 16" by (simp_all add: i_def k_def)
  have i: "i \<le> 3" using assms(2) j by (simp split: if_splits)
  have w: "WebRtcIlbcfix_PackBits b mode ! (p + i) = bit_plane 0 (drop (16 * i) (idxVec b))" if "i < 3"
  proof -
    have "i = 0 \<or> i = 1 \<or> i = 2" using that by linarith
    then show ?thesis using assms(3,4) pack_20_words(5-7) [OF refl, of b] pack_30_words(6-8) [OF refl, of b] by auto
  qed
  have "bit (WebRtcIlbcfix_PackBits b mode ! (p + i)) (15 - k) \<longleftrightarrow> bit (idxVec b ! (16 * i + k)) 2"
  proof (cases "i < 3")
    case True
    then show ?thesis using w plane_word_bit [OF j(2), of i "idxVec b"] assms(1) j(2) by simp
  next
    case False
    then have "i = 3" using i by simp
    then show ?thesis using assms j last_plane_20 [of k b] last_plane_30 [of k b] by (auto split: if_splits)
  qed
  then show ?thesis using j unfolding i_def k_def by simp
qed

subsection \<open>The round trip\<close>

lemma roundtrip_20_record:
  assumes b0: "b0 = \<lparr>lsf = [l0, l1, l2, l3, l4, l5],
      cb_index = [c0, c1, c2, c3, c4, c5, c6, c7, c8, c9, c10, c11, c12, c13, c14],
      gain_index = [g0, g1, g2, g3, g4, g5, g6, g7, g8, g9, g10, g11, g12, g13, g14],
      idxForMax = im, state_first = sf, idxVec = v, firstbits = fb, startIdx = si\<rparr>"
    and fits: "frame_fits 20 b"
    and b': "b' = snd (WebRtcIlbcfix_UnpackBits (WebRtcIlbcfix_PackBits b 20) b0 20)"
  shows "lsf b' = [lsf b ! 0, lsf b ! 1, lsf b ! 2, l3, l4, l5]"
    "cb_index b' = [cb_index b ! 0, cb_index b ! 1, cb_index b ! 2, cb_index b ! 3, cb_index b ! 4, cb_index b ! 5, cb_index b ! 6, cb_index b ! 7, cb_index b ! 8, c9, c10, c11, c12, c13, c14]"
    "gain_index b' = [gain_index b ! 0, gain_index b ! 1, gain_index b ! 2, gain_index b ! 3, gain_index b ! 4, gain_index b ! 5, gain_index b ! 6, gain_index b ! 7, gain_index b ! 8, g9, g10, g11, g12, g13, g14]"
    "startIdx b' = startIdx b" "state_first b' = state_first b" "idxForMax b' = idxForMax b"
proof -
  note words = pack_20_words [OF refl, of b]
  note fields = unpack_20_record [OF b0 b', unfolded words]
  note high = fits_20 [OF fits, THEN fits_bit]
  show "lsf b' = [lsf b ! 0, lsf b ! 1, lsf b ! 2, l3, l4, l5]"
    "cb_index b' = [cb_index b ! 0, cb_index b ! 1, cb_index b ! 2, cb_index b ! 3, cb_index b ! 4, cb_index b ! 5, cb_index b ! 6, cb_index b ! 7, cb_index b ! 8, c9, c10, c11, c12, c13, c14]"
    "gain_index b' = [gain_index b ! 0, gain_index b ! 1, gain_index b ! 2, gain_index b ! 3, gain_index b ! 4, gain_index b ! 5, gain_index b ! 6, gain_index b ! 7, gain_index b ! 8, g9, g10, g11, g12, g13, g14]"
    "startIdx b' = startIdx b" "state_first b' = state_first b" "idxForMax b' = idxForMax b"
    unfolding fields
    by ((rule arg_cong2 [of _ _ _ _ Cons] refl
        | rule word16_eqI, simp add: bit_simps bit_plane_bit high [unfolded One_nat_def] bit_two del: push_bit_Suc)+)
qed

lemma roundtrip_30_record:
  assumes b0: "b0 = \<lparr>lsf = [l0, l1, l2, l3, l4, l5],
      cb_index = [c0, c1, c2, c3, c4, c5, c6, c7, c8, c9, c10, c11, c12, c13, c14],
      gain_index = [g0, g1, g2, g3, g4, g5, g6, g7, g8, g9, g10, g11, g12, g13, g14],
      idxForMax = im, state_first = sf, idxVec = v, firstbits = fb, startIdx = si\<rparr>"
    and fits: "frame_fits 30 b"
    and b': "b' = snd (WebRtcIlbcfix_UnpackBits (WebRtcIlbcfix_PackBits b 30) b0 30)"
  shows "lsf b' = [lsf b ! 0, lsf b ! 1, lsf b ! 2, lsf b ! 3, lsf b ! 4, lsf b ! 5]"
    "cb_index b' = [cb_index b ! 0, cb_index b ! 1, cb_index b ! 2, cb_index b ! 3, cb_index b ! 4, cb_index b ! 5, cb_index b ! 6, cb_index b ! 7, cb_index b ! 8, cb_index b ! 9, cb_index b ! 10, cb_index b ! 11, cb_index b ! 12, cb_index b ! 13, cb_index b ! 14]"
    "gain_index b' = [gain_index b ! 0, gain_index b ! 1, gain_index b ! 2, gain_index b ! 3, gain_index b ! 4, gain_index b ! 5, gain_index b ! 6, gain_index b ! 7, gain_index b ! 8, gain_index b ! 9, gain_index b ! 10, gain_index b ! 11, gain_index b ! 12, gain_index b ! 13, gain_index b ! 14]"
    "startIdx b' = startIdx b" "state_first b' = state_first b" "idxForMax b' = idxForMax b"
proof -
  note words = pack_30_words [OF refl, of b]
  note fields = unpack_30_record [OF b0 b', unfolded words]
  note high = fits_30 [OF fits, THEN fits_bit]
  show "lsf b' = [lsf b ! 0, lsf b ! 1, lsf b ! 2, lsf b ! 3, lsf b ! 4, lsf b ! 5]"
    "cb_index b' = [cb_index b ! 0, cb_index b ! 1, cb_index b ! 2, cb_index b ! 3, cb_index b ! 4, cb_index b ! 5, cb_index b ! 6, cb_index b ! 7, cb_index b ! 8, cb_index b ! 9, cb_index b ! 10, cb_index b ! 11, cb_index b ! 12, cb_index b ! 13, cb_index b ! 14]"
    "gain_index b' = [gain_index b ! 0, gain_index b ! 1, gain_index b ! 2, gain_index b ! 3, gain_index b ! 4, gain_index b ! 5, gain_index b ! 6, gain_index b ! 7, gain_index b ! 8, gain_index b ! 9, gain_index b ! 10, gain_index b ! 11, gain_index b ! 12, gain_index b ! 13, gain_index b ! 14]"
    "startIdx b' = startIdx b" "state_first b' = state_first b" "idxForMax b' = idxForMax b"
    unfolding fields
    by ((rule arg_cong2 [of _ _ _ _ Cons] refl
        | rule word16_eqI, simp add: bit_simps bit_plane_bit high [unfolded One_nat_def] bit_two del: push_bit_Suc)+)
qed

lemma fold_update_nth:
  assumes "n \<le> length v"
  shows "length (fold (\<lambda>j v. v[j := f j (v ! j)]) [0..<n] v) = length v"
    and "fold (\<lambda>j v. v[j := f j (v ! j)]) [0..<n] v ! j = (if j < n then f j (v ! j) else v ! j)"
  using assms
proof (induction n)
  case (Suc n)
  { case 1 then show ?case using Suc by simp }
  { case 2 then show ?case using Suc by (cases "j = n") (auto simp: less_Suc_eq) }
qed simp_all

lemma plane_vec_nth:
  assumes "n \<le> length v"
  shows "length (plane_vec p n s v) = length v"
    and "plane_vec p n s v ! j =
      (if j < n then push_bit 2 (drop_bit (15 - j mod 16) (s ! (p + j div 16))) AND 0x4 else v ! j)"
  using fold_update_nth [OF assms, of "\<lambda>j x. push_bit 2 (drop_bit (15 - j mod 16) (s ! (p + j div 16))) AND 0x4"]
  by (simp_all add: plane_vec_def)

lemma pair_vec_nth:
  assumes "56 \<le> length v"
  shows "length (pair_vec q s v) = length v"
    and "pair_vec q s v ! j =
      (if j < 56 then v ! j OR (drop_bit (14 - 2 * (j mod 8)) (s ! (q + j div 8)) AND 0x3) else v ! j)"
  using fold_update_nth [OF assms, of "\<lambda>j x. x OR (drop_bit (14 - 2 * (j mod 8)) (s ! (q + j div 8)) AND 0x3)"]
  by (simp_all add: pair_vec_def)

lemma pack_pairs_bits:
  assumes "length (idxVec b) = 58" "j < 56" "mode = 20 \<or> mode = 30" "q = (if mode = 20 then 7 else 10)"
  shows "bit (WebRtcIlbcfix_PackBits b mode ! (q + j div 8)) (14 - 2 * (j mod 8)) \<longleftrightarrow> bit (idxVec b ! j) 0"
    and "bit (WebRtcIlbcfix_PackBits b mode ! (q + j div 8)) (Suc (14 - 2 * (j mod 8))) \<longleftrightarrow> bit (idxVec b ! j) 1"
proof -
  define i k where "i = j div 8" and "k = j mod 8"
  have j: "j = 8 * i + k" "k < 8" by (simp_all add: i_def k_def)
  have "i < 7" using assms(2) j by simp
  then have "i = 0 \<or> i = 1 \<or> i = 2 \<or> i = 3 \<or> i = 4 \<or> i = 5 \<or> i = 6" by linarith
  then have w: "WebRtcIlbcfix_PackBits b mode ! (q + i) = bit_pairs (drop (8 * i) (idxVec b))"
    using assms(3,4) pack_20_words(9-15) [OF refl, of b] pack_30_words(12-18) [OF refl, of b] by auto
  show "bit (WebRtcIlbcfix_PackBits b mode ! (q + j div 8)) (14 - 2 * (j mod 8)) \<longleftrightarrow> bit (idxVec b ! j) 0"
    "bit (WebRtcIlbcfix_PackBits b mode ! (q + j div 8)) (Suc (14 - 2 * (j mod 8))) \<longleftrightarrow> bit (idxVec b ! j) 1"
    unfolding i_def [symmetric] k_def [symmetric] w
    using pair_word_bit [OF j(2), of i "idxVec b"] assms(1,2) j(1) by simp_all
qed

lemma last_pairs_20:
  assumes "frame_fits 20 b"
  shows "bit (WebRtcIlbcfix_PackBits b 20 ! 14) 14 \<longleftrightarrow> bit (idxVec b ! 56) 0"
    "bit (WebRtcIlbcfix_PackBits b 20 ! 14) 15 \<longleftrightarrow> bit (idxVec b ! 56) 1"
  unfolding pack_20_words(16) [OF refl]
  by (simp_all add: bit_simps fits_20(5) [OF assms, THEN fits_bit, unfolded One_nat_def] del: push_bit_Suc)

lemma last_pairs_30:
  assumes "frame_fits 30 b"
  shows "bit (WebRtcIlbcfix_PackBits b 30 ! 17) 14 \<longleftrightarrow> bit (idxVec b ! 56) 0"
    "bit (WebRtcIlbcfix_PackBits b 30 ! 17) 15 \<longleftrightarrow> bit (idxVec b ! 56) 1"
    "bit (WebRtcIlbcfix_PackBits b 30 ! 17) 12 \<longleftrightarrow> bit (idxVec b ! 57) 0"
    "bit (WebRtcIlbcfix_PackBits b 30 ! 17) 13 \<longleftrightarrow> bit (idxVec b ! 57) 1"
  unfolding pack_30_words(19) [OF refl]
  by (simp_all add: bit_simps fits_30(8) [OF assms, THEN fits_bit, unfolded One_nat_def] del: push_bit_Suc)

lemma idxVec_fits: "frame_fits mode b \<Longrightarrow> j < length (idxVec b) \<Longrightarrow> fits 3 (idxVec b ! j)"
  by (simp add: frame_fits_def list_all_length)

lemma roundtrip_20_idxVec:
  assumes len: "length (idxVec b) = 58" "length v = 58" and fits: "frame_fits 20 b"
    and s: "s = WebRtcIlbcfix_PackBits b 20"
  shows "list_or (pair_vec 7 s (plane_vec 3 57 s v)) 56 (drop_bit 14 (s ! 14) AND 0x3) =
    take 57 (idxVec b) @ drop 57 v"
proof (rule nth_equalityI)
  note nths = plane_vec_nth [of 57 v 3 s] pair_vec_nth [of "plane_vec 3 57 s v" 7 s]
  show "length (list_or (pair_vec 7 s (plane_vec 3 57 s v)) 56 (drop_bit 14 (s ! 14) AND 0x3)) =
      length (take 57 (idxVec b) @ drop 57 v)" using nths len by (simp add: list_or_def)
  fix j assume "j < length (list_or (pair_vec 7 s (plane_vec 3 57 s v)) 56 (drop_bit 14 (s ! 14) AND 0x3))"
  then have j: "j < 58" using nths len by (simp add: list_or_def)
  have last: "(push_bit 2 (drop_bit 7 (s ! 6)) AND 0x4) OR (drop_bit 14 (s ! 14) AND 0x3) = idxVec b ! 56"
    using last_pairs_20 [OF fits] pack_planes_bit [of b 56 20 3] len
    by (intro index_rebuild idxVec_fits [OF fits]) (simp_all add: s)
  consider "j < 56" | "j = 56" | "j = 57" using j by linarith
  then show "list_or (pair_vec 7 s (plane_vec 3 57 s v)) 56 (drop_bit 14 (s ! 14) AND 0x3) ! j =
      (take 57 (idxVec b) @ drop 57 v) ! j"
  proof cases
    case 1
    then have "(push_bit 2 (drop_bit (15 - j mod 16) (s ! (3 + j div 16))) AND 0x4)
        OR (drop_bit (14 - 2 * (j mod 8)) (s ! (7 + j div 8)) AND 0x3) = idxVec b ! j"
      using len by (intro index_rebuild idxVec_fits [OF fits]) (simp_all add: s pack_planes_bit pack_pairs_bits)
    then show ?thesis using 1 nths len by (simp add: list_or_def nth_append s)
  qed (use nths len last in \<open>simp_all add: list_or_def nth_append\<close>)
qed

lemma roundtrip_30_idxVec:
  assumes len: "length (idxVec b) = 58" "length v = 58" and fits: "frame_fits 30 b"
    and s: "s = WebRtcIlbcfix_PackBits b 30"
  shows "list_or (list_or (pair_vec 10 s (plane_vec 4 58 s v)) 56 (drop_bit 14 (s ! 17) AND 0x3))
      57 (drop_bit 12 (s ! 17) AND 0x3) = idxVec b"
proof (rule nth_equalityI)
  note nths = plane_vec_nth [of 58 v 4 s] pair_vec_nth [of "plane_vec 4 58 s v" 10 s]
  show "length (list_or (list_or (pair_vec 10 s (plane_vec 4 58 s v)) 56 (drop_bit 14 (s ! 17) AND 0x3))
      57 (drop_bit 12 (s ! 17) AND 0x3)) = length (idxVec b)" using nths len by (simp add: list_or_def)
  fix j assume "j < length (list_or (list_or (pair_vec 10 s (plane_vec 4 58 s v)) 56 (drop_bit 14 (s ! 17) AND 0x3))
      57 (drop_bit 12 (s ! 17) AND 0x3))"
  then have j: "j < 58" using nths len by (simp add: list_or_def)
  have last: "(push_bit 2 (drop_bit 7 (s ! 7)) AND 0x4) OR (drop_bit 14 (s ! 17) AND 0x3) = idxVec b ! 56"
    "(push_bit 2 (drop_bit 6 (s ! 7)) AND 0x4) OR (drop_bit 12 (s ! 17) AND 0x3) = idxVec b ! 57"
    using last_pairs_30 [OF fits] pack_planes_bit [of b 56 30 4] pack_planes_bit [of b 57 30 4] len
    by (auto intro!: index_rebuild idxVec_fits [OF fits] simp: s)
  consider "j < 56" | "j = 56" | "j = 57" using j by linarith
  then show "list_or (list_or (pair_vec 10 s (plane_vec 4 58 s v)) 56 (drop_bit 14 (s ! 17) AND 0x3))
      57 (drop_bit 12 (s ! 17) AND 0x3) ! j = idxVec b ! j"
  proof cases
    case 1
    then have "(push_bit 2 (drop_bit (15 - j mod 16) (s ! (4 + j div 16))) AND 0x4)
        OR (drop_bit (14 - 2 * (j mod 8)) (s ! (10 + j div 8)) AND 0x3) = idxVec b ! j"
      using len by (intro index_rebuild idxVec_fits [OF fits]) (simp_all add: s pack_planes_bit pack_pairs_bits)
    then show ?thesis using 1 nths len by (simp add: list_or_def s)
  qed (use nths len last in \<open>simp_all add: list_or_def\<close>)
qed

lemma explicit_lengths:
  "length xs = 6 \<Longrightarrow> \<exists>a b c d e f. xs = [a, b, c, d, e, f]"
  "length ys = 15 \<Longrightarrow> \<exists>a0 a1 a2 a3 a4 a5 a6 a7 a8 a9 a10 a11 a12 a13 a14.
     ys = [a0, a1, a2, a3, a4, a5, a6, a7, a8, a9, a10, a11, a12, a13, a14]"
  by (auto simp: length_Suc_conv numeral_eq_Suc)

text \<open>What the receiver's struct holds after a round trip: the transmitted parameters of \<open>b\<close>, and \<open>b0\<close>
  elsewhere.\<close>

definition transmitted :: "int \<Rightarrow> iLBC_bits \<Rightarrow> iLBC_bits \<Rightarrow> iLBC_bits" where
  "transmitted mode b b0 =
    (let nl = (if mode = 20 then 3 else 6); nc = (if mode = 20 then 9 else 15); nv = (if mode = 20 then 57 else 58)
     in b0\<lparr>lsf := take nl (lsf b) @ drop nl (lsf b0), cb_index := take nc (cb_index b) @ drop nc (cb_index b0),
           gain_index := take nc (gain_index b) @ drop nc (gain_index b0), idxForMax := idxForMax b,
           state_first := state_first b, idxVec := take nv (idxVec b) @ drop nv (idxVec b0), startIdx := startIdx b\<rparr>)"

lemma list_explicit:
  "length xs = 6 \<Longrightarrow> xs = [xs ! 0, xs ! 1, xs ! 2, xs ! 3, xs ! 4, xs ! 5]"
  "length ys = 15 \<Longrightarrow> ys = [ys ! 0, ys ! 1, ys ! 2, ys ! 3, ys ! 4, ys ! 5, ys ! 6, ys ! 7, ys ! 8, ys ! 9,
      ys ! 10, ys ! 11, ys ! 12, ys ! 13, ys ! 14]"
  by (auto dest!: explicit_lengths)

lemma take_explicit:
  "length xs = 6 \<Longrightarrow> take 3 xs = [xs ! 0, xs ! 1, xs ! 2]" "length xs = 6 \<Longrightarrow> drop 3 xs = [xs ! 3, xs ! 4, xs ! 5]"
  "length ys = 15 \<Longrightarrow> take 9 ys = [ys ! 0, ys ! 1, ys ! 2, ys ! 3, ys ! 4, ys ! 5, ys ! 6, ys ! 7, ys ! 8]"
  "length ys = 15 \<Longrightarrow> drop 9 ys = [ys ! 9, ys ! 10, ys ! 11, ys ! 12, ys ! 13, ys ! 14]"
  by (auto dest!: explicit_lengths)

lemma frame_explicit:
  assumes "frame_shape b0"
  shows "b0 = \<lparr>lsf = [lsf b0 ! 0, lsf b0 ! 1, lsf b0 ! 2, lsf b0 ! 3, lsf b0 ! 4, lsf b0 ! 5],
      cb_index = [cb_index b0 ! 0, cb_index b0 ! 1, cb_index b0 ! 2, cb_index b0 ! 3, cb_index b0 ! 4, cb_index b0 ! 5, cb_index b0 ! 6, cb_index b0 ! 7, cb_index b0 ! 8, cb_index b0 ! 9, cb_index b0 ! 10, cb_index b0 ! 11, cb_index b0 ! 12, cb_index b0 ! 13, cb_index b0 ! 14],
      gain_index = [gain_index b0 ! 0, gain_index b0 ! 1, gain_index b0 ! 2, gain_index b0 ! 3, gain_index b0 ! 4, gain_index b0 ! 5, gain_index b0 ! 6, gain_index b0 ! 7, gain_index b0 ! 8, gain_index b0 ! 9, gain_index b0 ! 10, gain_index b0 ! 11, gain_index b0 ! 12, gain_index b0 ! 13, gain_index b0 ! 14],
      idxForMax = idxForMax b0, state_first = state_first b0, idxVec = idxVec b0, firstbits = firstbits b0,
      startIdx = startIdx b0\<rparr>"
  using assms list_explicit(1) [of "lsf b0"] list_explicit(2) [of "cb_index b0"] list_explicit(2) [of "gain_index b0"]
  by (intro iLBC_bits.equality) (simp_all only: frame_shape_def iLBC_bits.select_convs, simp_all)

lemma roundtrip_20:
  assumes "frame_shape b" "frame_fits 20 b" "frame_shape b0"
  shows "snd (WebRtcIlbcfix_UnpackBits (WebRtcIlbcfix_PackBits b 20) b0 20) = transmitted 20 b b0"
proof -
  note b0 = frame_explicit [OF assms(3)]
  from assms(1,3) have len: "length (lsf b) = 6" "length (cb_index b) = 15" "length (gain_index b) = 15"
    "length (idxVec b) = 58" "length (lsf b0) = 6" "length (cb_index b0) = 15" "length (gain_index b0) = 15"
    "length (idxVec b0) = 58" by (simp_all add: frame_shape_def)
  note rt = roundtrip_20_record [OF b0 assms(2) refl] unpack_20_record(7,8) [OF b0 refl]
    roundtrip_20_idxVec [OF len(4,8) assms(2) refl]
  show ?thesis
    by (intro iLBC_bits.equality)
      (simp_all only: rt, simp_all add: transmitted_def take_explicit len)
qed

lemma roundtrip_30:
  assumes "frame_shape b" "frame_fits 30 b" "frame_shape b0"
  shows "snd (WebRtcIlbcfix_UnpackBits (WebRtcIlbcfix_PackBits b 30) b0 30) = transmitted 30 b b0"
proof -
  note b0 = frame_explicit [OF assms(3)]
  from assms(1,3) have len: "length (lsf b) = 6" "length (cb_index b) = 15" "length (gain_index b) = 15"
    "length (idxVec b) = 58" "length (lsf b0) = 6" "length (cb_index b0) = 15" "length (gain_index b0) = 15"
    "length (idxVec b0) = 58" by (simp_all add: frame_shape_def)
  note rt = roundtrip_30_record [OF b0 assms(2) refl] unpack_30_record(7,8) [OF b0 refl]
    roundtrip_30_idxVec [OF len(4,8) assms(2) refl]
  have whole: "take 6 (lsf b) @ drop 6 (lsf b0) = lsf b" "take 15 (cb_index b) @ drop 15 (cb_index b0) = cb_index b"
    "take 15 (gain_index b) @ drop 15 (gain_index b0) = gain_index b"
    "take 58 (idxVec b) @ drop 58 (idxVec b0) = idxVec b" using len by simp_all
  have "transmitted 30 b b0 = b0\<lparr>lsf := lsf b, cb_index := cb_index b, gain_index := gain_index b,
      idxForMax := idxForMax b, state_first := state_first b, idxVec := idxVec b, startIdx := startIdx b\<rparr>"
    by (simp add: transmitted_def whole)
  then show ?thesis
    using list_explicit(1) [OF len(1)] list_explicit(2) [OF len(2)] list_explicit(2) [OF len(3)]
    by (intro iLBC_bits.equality) (simp_all only: rt, simp_all)
qed

lemma last_bit_clear:
  "WebRtcIlbcfix_PackBits b 20 ! 18 AND 0x1 \<noteq> 1" "WebRtcIlbcfix_PackBits b 30 ! 24 AND 0x1 \<noteq> 1"
proof -
  have "\<not> bit (w AND 0x1) 0 \<Longrightarrow> w AND 0x1 \<noteq> 1" for w :: "16 word" by (metis bit_1_0)
  moreover have "\<not> bit (WebRtcIlbcfix_PackBits b 20 ! 18 AND 0x1) 0" "\<not> bit (WebRtcIlbcfix_PackBits b 30 ! 24 AND 0x1) 0"
    unfolding pack_20_words(20) [OF refl] pack_30_words(26) [OF refl] by (simp_all add: bit_simps del: push_bit_Suc)
  ultimately show "WebRtcIlbcfix_PackBits b 20 ! 18 AND 0x1 \<noteq> 1" "WebRtcIlbcfix_PackBits b 30 ! 24 AND 0x1 \<noteq> 1"
    by blast+
qed

text \<open>C11. For frames of 20 and of 30 ms, unpacking the packed bit stream of a frame whose parameters are within
  their transmitted widths reports no error and restores every transmitted parameter exactly; the parameters
  that are not transmitted keep the receiver's values.
\<close>

theorem ilbc_bitstream_roundtrip:
  assumes "mode = 20 \<or> mode = 30" "frame_shape b" "frame_shape b0" "frame_fits mode b"
  shows "WebRtcIlbcfix_UnpackBits (WebRtcIlbcfix_PackBits b mode) b0 mode = (0, transmitted mode b b0)"
proof -
  have "fst (WebRtcIlbcfix_UnpackBits (WebRtcIlbcfix_PackBits b mode) b0 mode) = 0"
    using assms(1) last_bit_clear [of b] by (auto simp: WebRtcIlbcfix_UnpackBits_def)
  then show ?thesis using assms roundtrip_20 [of b b0] roundtrip_30 [of b b0] by (auto simp: prod_eq_iff)
qed

definition sample_frame :: iLBC_bits where
  "sample_frame = \<lparr>lsf = [63, 1, 127, 2, 3, 4], cb_index = [127, 1, 2, 255, 4, 5, 6, 7, 8, 9, 10, 11, 12, 13, 14],
     gain_index = [31, 15, 7, 1, 2, 3, 4, 5, 6, 7, 8, 1, 10, 11, 2], idxForMax = 63, state_first = 1,
     idxVec = replicate 56 7 @ [5, 2], firstbits = 9, startIdx = 3\<rparr>"

definition blank_frame :: iLBC_bits where
  "blank_frame = \<lparr>lsf = replicate 6 0, cb_index = replicate 15 0, gain_index = replicate 15 0, idxForMax = 0,
     state_first = 0, idxVec = replicate 58 0, firstbits = 0, startIdx = 0\<rparr>"

theorem ilbc_bitstream_roundtrip_witness:
  "WebRtcIlbcfix_UnpackBits (WebRtcIlbcfix_PackBits sample_frame 20) blank_frame 20 =
     (0, transmitted 20 sample_frame blank_frame) \<and>
   WebRtcIlbcfix_UnpackBits (WebRtcIlbcfix_PackBits sample_frame 30) blank_frame 30 =
     (0, transmitted 30 sample_frame blank_frame)"
proof -
  have shape: "frame_shape sample_frame" "frame_shape blank_frame"
    by (simp_all add: frame_shape_def sample_frame_def blank_frame_def)
  have fits: "frame_fits 20 sample_frame" "frame_fits 30 sample_frame"
    by (simp_all add: frame_fits_def widths_fit_def fits_def sample_frame_def list_all_iff)
  show ?thesis using ilbc_bitstream_roundtrip [OF _ shape] fits by simp
qed

subsection \<open>Byte order, indices and the scalar quantiser\<close>

lemma swap_word_involution: "drop_bit 8 (push_bit 8 w) OR push_bit 8 (drop_bit 8 w) = w" for w :: "16 word"
  by (rule word16_eqI) (simp add: bit_simps del: push_bit_Suc)

text \<open>Swapping the bytes of a buffer twice restores it: the conversion to network order on the sending side is
  undone on the receiving side.
\<close>

theorem SwapBytes_roundtrip:
  assumes "length inp = n" "length out = n" "length out' = n"
  shows "WebRtcIlbcfix_SwapBytes (WebRtcIlbcfix_SwapBytes inp (int n) out) (int n) out' = inp"
  using assms by (auto simp: WebRtcIlbcfix_SwapBytes_def memcpy_def swap_word_involution intro!: nth_equalityI)

theorem SwapBytes_roundtrip_witness:
  "WebRtcIlbcfix_SwapBytes (WebRtcIlbcfix_SwapBytes [0x1234, 0xFF00] 2 [0, 0]) 2 [0, 0] = [0x1234, 0xFF00]"
  using SwapBytes_roundtrip [of "[0x1234, 0xFF00]" 2 "[0, 0]" "[0, 0]"] by simp

lemma index_dec_enc: "(108 \<le> x \<and> x < 172) \<or> (236 \<le> x \<and> x < 256) \<Longrightarrow> index_dec (index_enc x) = x"
  by (auto simp: index_enc_def index_dec_def s16_id)

lemma index_enc_range: "(108 \<le> x \<and> x < 172) \<or> (236 \<le> x \<and> x < 256) \<Longrightarrow> 44 \<le> index_enc x \<and> index_enc x < 128"
  by (auto simp: index_enc_def s16_id)

text \<open>The codebook indices of the two later stages are mapped to seven bits and back without loss, for the
  ranges of indices the conversion handles; the other indices of the vector are left alone.
\<close>

theorem IndexConv_roundtrip:
  assumes "length index = 9" "\<forall>k \<in> {4, 5}. (108 \<le> index ! k \<and> index ! k < 172) \<or> (236 \<le> index ! k \<and> index ! k < 256)"
  shows "WebRtcIlbcfix_IndexConvDec (WebRtcIlbcfix_IndexConvEnc index) = index \<and>
    (\<forall>k \<in> {4, 5}. 44 \<le> WebRtcIlbcfix_IndexConvEnc index ! k \<and> WebRtcIlbcfix_IndexConvEnc index ! k < 128)"
  using assms index_dec_enc [of "index ! 4"] index_dec_enc [of "index ! 5"]
    index_enc_range [of "index ! 4"] index_enc_range [of "index ! 5"]
  by (auto simp: WebRtcIlbcfix_IndexConvDec_def WebRtcIlbcfix_IndexConvEnc_def list_update_swap [of 4 5] nth_list_update)

theorem IndexConv_roundtrip_witness:
  "WebRtcIlbcfix_IndexConvDec (WebRtcIlbcfix_IndexConvEnc [1, 2, 3, 4, 110, 240, 7, 8, 9]) = [1, 2, 3, 4, 110, 240, 7, 8, 9]"
  using IndexConv_roundtrip [of "[1, 2, 3, 4, 110, 240, 7, 8, 9]"] by simp

lemma sort_sq_loop_spec:
  assumes "i < length cb" "cb_size = int (length cb)" "\<forall>j < i. cb ! j < x"
  shows "sort_sq_loop x cb cb_size i < length cb \<and> i \<le> sort_sq_loop x cb cb_size i
    \<and> (\<forall>j < sort_sq_loop x cb cb_size i. cb ! j < x)
    \<and> (x \<le> cb ! sort_sq_loop x cb cb_size i \<or> sort_sq_loop x cb cb_size i = length cb - 1)"
  using assms
proof (induction x cb cb_size i rule: sort_sq_loop.induct)
  case (1 x cb cb_size i)
  show ?case
  proof (cases "x > cb ! i \<and> int i < cb_size - 1")
    case True
    then show ?thesis using 1 sort_sq_loop.simps [of x cb cb_size i] by (auto simp: less_Suc_eq)
  next
    case False
    then show ?thesis using 1 sort_sq_loop.simps [of x cb cb_size i] by auto
  qed
qed

text \<open>C36. On a sorted codebook the scalar quantiser returns an entry with its index, and no entry of the codebook is
  closer to the value by more than one; the rounding of the midpoint is what costs the one.
\<close>

theorem SortSq_nearest:
  assumes "sorted cb" "2 \<le> length cb" "length cb < 2 ^ 15" "WebRtcIlbcfix_SortSq x cb (int (length cb)) = (v, k)"
  shows "0 \<le> k \<and> nat k < length cb \<and> v = cb ! nat k \<and> (\<forall>j < length cb. \<bar>x - v\<bar> \<le> \<bar>x - cb ! j\<bar> + 1)"
proof (cases "x \<le> cb ! 0")
  case True
  have "cb ! 0 \<le> cb ! j" if "j < length cb" for j using assms(1) that by (simp add: sorted_nth_mono)
  then show ?thesis using True assms(2,4) by (force simp: WebRtcIlbcfix_SortSq_def)
next
  case False
  define i where "i = sort_sq_loop x cb (int (length cb)) 0"
  have i: "i < length cb" "\<forall>j < i. cb ! j < x" "x \<le> cb ! i \<or> i = length cb - 1"
    using sort_sq_loop_spec [of 0 cb "int (length cb)" x, OF _ refl] assms(2) unfolding i_def by force+
  have "0 < i" using i(3) False assms(2) by (cases i) auto
  have low: "cb ! j \<le> cb ! (i - 1)" if "j < i" for j using assms(1) that i(1) by (intro sorted_nth_mono) auto
  have high: "cb ! i \<le> cb ! j" if "i \<le> j" "j < length cb" for j using assms(1) that by (intro sorted_nth_mono) auto
  have "cb ! (i - 1) < x" using i(2) \<open>0 < i\<close> by simp
  have r: "(v, k) = (if x > asr (cb ! i + cb ! (i - 1) + 1) 1 then (cb ! i, int i) else (cb ! (i - 1), int i - 1))"
    using False assms(3,4) i(1) \<open>0 < i\<close>
    by (auto simp: WebRtcIlbcfix_SortSq_def i_def [symmetric] Let_def s16_id split: if_splits)
  have "\<bar>x - v\<bar> \<le> \<bar>x - cb ! j\<bar> + 1" if "j < length cb" for j
  proof (cases "x \<le> cb ! i")
    case True
    then show ?thesis using r low [of j] high [of j] that \<open>cb ! (i - 1) < x\<close>
      by (cases "j < i") (auto simp: asr_div split: if_splits)
  next
    case False
    then have "j \<le> i" "cb ! (i - 1) \<le> cb ! i" using i(1,3) that assms(1) by (auto intro!: sorted_nth_mono)
    moreover from this have "cb ! j \<le> cb ! i" using low [of j] by (cases "j = i") auto
    moreover have "v = cb ! i" using r False \<open>cb ! (i - 1) \<le> cb ! i\<close> by (auto simp: asr_div split: if_splits)
    ultimately show ?thesis using False by simp
  qed
  then show ?thesis using r i(1) \<open>0 < i\<close> by (auto split: if_splits simp: nat_diff_distrib)
qed

theorem SortSq_nearest_witness:
  "WebRtcIlbcfix_SortSq 60 [-100, 0, 50, 300] 4 = (50, 2) \<and> \<bar>60 - 50\<bar> \<le> \<bar>60 - [-100, 0, 50, 300] ! 3\<bar> + (1 :: int)"
proof -
  have r: "WebRtcIlbcfix_SortSq 60 [-100, 0, 50, 300] (int (length [-100, 0, 50, 300 :: int])) = (50, 2)" by code_simp
  show ?thesis using SortSq_nearest [OF _ _ _ r] r by auto
qed

end
