(* ===== verification/IsacArith.thy ===== *)
theory IsacArith
  imports Prelude
begin

text \<open>
  The arithmetic coder of the iSAC codec
  (\<^verbatim>\<open>webrtc/modules/audio_coding/codecs/isac/main/source\<close>): the bit stream struct \<open>Bitstr\<close> of
  \<^verbatim>\<open>structs.h\<close>, the encoder with its carry propagation and its termination (\<^verbatim>\<open>arith_routines_hist.c\<close>,
  \<^verbatim>\<open>arith_routines.c\<close>) and the two table decoders, by bisection and by single steps.

  The 32-bit quantities are ints reduced by \<open>u32\<close> where the code computes in \<open>uint32_t\<close>. The renormalisation
  loops run while the interval is below \<open>2 ^ 24\<close>; on an empty interval they never end, so they are partial
  functions and \<open>None\<close> is not returning. Stream pointers are indices: \<open>stream_ptr - streamdata->stream\<close>.
\<close>

record Bitstr =
  stream :: "int list"
  W_upper :: int
  streamval :: int
  stream_index :: nat

subsection \<open>Encoder\<close>

text \<open>\<open>W_upper_MSB * c + ((W_upper_LSB * c) >> 16)\<close>.\<close>

definition scale_cdf :: "int \<Rightarrow> int \<Rightarrow> int" where
  "scale_cdf W c = u32 (u32 (asr W 16 * c) + asr (u32 ((W AND 0xFFFF) * c)) 16)"

text \<open>\<open>while (!(++(*--stream_ptr_carry)));\<close> The C code checks no bound: a carry that runs past index 0, or
  a byte that the renormalisation stores past the end, would be written outside the array. The list
  model leaves the stream unchanged in these two cases; \<open>EncHistMulti_safe\<close> compares it with an encoder that fails
  at each such access and shows that, from a coder state of the invariant with room, there is none.\<close>

fun propagate_carry :: "int list \<Rightarrow> nat \<Rightarrow> int list" where
  "propagate_carry s 0 = s"
| "propagate_carry s (Suc i) =
    (let v = u8 (s ! i + 1) in if v = 0 then propagate_carry (s[i := v]) i else s[i := v])"

partial_function (option) enc_renorm :: "int \<Rightarrow> int \<Rightarrow> int list \<Rightarrow> nat \<Rightarrow> (int \<times> int \<times> int list \<times> nat) option" where
  "enc_renorm W v s i =
    (if W AND 0xFF000000 = 0 then enc_renorm (u32 (shl W 8)) (u32 (shl v 8)) (s[i := u8 (asr v 24)]) (i + 1)
     else Some (W, v, s, i))"

declare enc_renorm.simps [code]

definition enc_interval :: "int \<Rightarrow> int \<Rightarrow> Bitstr \<Rightarrow> Bitstr option" where
  "enc_interval cdf_lo cdf_hi b =
    (let W_lower = u32 (scale_cdf (W_upper b) cdf_lo + 1);
         W = u32 (scale_cdf (W_upper b) cdf_hi - W_lower);
         v = u32 (streamval b + W_lower);
         s = (if v < W_lower then propagate_carry (stream b) (stream_index b) else stream b)
     in map_option (\<lambda>(W, v, s, i). b\<lparr>stream := s, W_upper := W, streamval := v, stream_index := i\<rparr>)
          (enc_renorm W v s (stream_index b)))"

definition enc_symbol :: "int list \<Rightarrow> int \<Rightarrow> Bitstr \<Rightarrow> Bitstr option" where
  "enc_symbol cdf d b = enc_interval (cdf ! nat d) (cdf ! nat (d + 1)) b"

fun enc_loop :: "(int list \<times> int) list \<Rightarrow> Bitstr \<Rightarrow> Bitstr option" where
  "enc_loop [] b = Some b"
| "enc_loop ((cdf, d) # rest) b = Option.bind (enc_symbol cdf d b) (enc_loop rest)"

definition WebRtcIsac_EncHistMulti :: "Bitstr \<Rightarrow> int list \<Rightarrow> int list list \<Rightarrow> int \<Rightarrow> Bitstr option" where
  "WebRtcIsac_EncHistMulti b data cdf N = enc_loop (take (nat N) (zip cdf data)) b"

text \<open>Termination adds to the code value and writes its leading one or two bytes; the result is the length of
  the stream.\<close>

definition term_add :: "int \<Rightarrow> Bitstr \<Rightarrow> Bitstr" where
  "term_add a b =
    (let v = u32 (streamval b + a)
     in b\<lparr>streamval := v, stream := (if v < a then propagate_carry (stream b) (stream_index b) else stream b)\<rparr>)"

definition WebRtcIsac_EncTerminate :: "Bitstr \<Rightarrow> int \<times> Bitstr" where
  "WebRtcIsac_EncTerminate b =
    (if W_upper b > 0x01FFFFFF
     then let b = term_add 0x01000000 b; i = stream_index b
          in (int (i + 1), b\<lparr>stream := (stream b)[i := u8 (asr (streamval b) 24)]\<rparr>)
     else let b = term_add 0x00010000 b; i = stream_index b
          in (int (i + 2), b\<lparr>stream := (stream b)[i := u8 (asr (streamval b) 24),
                                i + 1 := u8 (asr (streamval b) 16 AND 0x00FF)]\<rparr>))"

subsection \<open>Decoders\<close>

partial_function (option) dec_renorm :: "int \<Rightarrow> int \<Rightarrow> int list \<Rightarrow> nat \<Rightarrow> (int \<times> int \<times> nat) option" where
  "dec_renorm W v s i =
    (if W AND 0xFF000000 = 0 then dec_renorm (u32 (shl W 8)) (u32 (shl v 8) OR s ! (i + 1)) s (i + 1)
     else Some (W, v, i))"

declare dec_renorm.simps [code]

text \<open>A table search gives the symbol with the bounds of its interval, the range error of the code, or runs
  off the end of the table.\<close>

datatype search = Found int int int | Range_error | Past_table

text \<open>The bisection loop at table entry \<open>p\<close> with step \<open>sz\<close>; \<open>W\<close> is the interval at the start of the search,
  \<open>wl\<close> and \<open>wu\<close> the current \<open>W_lower\<close> and \<open>W_upper\<close>.\<close>

function bisect_loop :: "int list \<Rightarrow> int \<Rightarrow> int \<Rightarrow> nat \<Rightarrow> nat \<Rightarrow> int \<Rightarrow> int \<Rightarrow> search" where
  "bisect_loop cdf W v p sz wl wu =
    (let W_tmp = scale_cdf W (cdf ! p); half = sz div 2
     in if half = 0 then (if v > W_tmp then Found (int p) W_tmp wu else Found (int p - 1) wl W_tmp)
        else if v > W_tmp then bisect_loop cdf W v (p + half) half W_tmp wu
        else bisect_loop cdf W v (p - half) half wl W_tmp)"
  by auto
termination by (relation "measure (\<lambda>(cdf, W, v, p, sz, wl, wu). sz)") auto

declare bisect_loop.simps [simp del]

definition bisect_search :: "int list \<Rightarrow> nat \<Rightarrow> int \<Rightarrow> int \<Rightarrow> int \<Rightarrow> search" where
  "bisect_search cdf cdf_size W v wl = bisect_loop cdf W v (cdf_size div 2 - 1) (cdf_size div 2) wl W"

function step_up :: "int list \<Rightarrow> int \<Rightarrow> int \<Rightarrow> nat \<Rightarrow> int \<Rightarrow> search" where
  "step_up cdf W v p W_tmp =
    (if cdf ! p = 65535 then Range_error
     else if length cdf \<le> p + 1 then Past_table
     else let W_tmp' = scale_cdf W (cdf ! (p + 1))
          in if v \<le> W_tmp' then Found (int p) W_tmp W_tmp' else step_up cdf W v (p + 1) W_tmp')"
  by auto
termination by (relation "measure (\<lambda>(cdf, W, v, p, W_tmp). length cdf - p)") auto

declare step_up.simps [simp del]

fun step_down :: "int list \<Rightarrow> int \<Rightarrow> int \<Rightarrow> nat \<Rightarrow> int \<Rightarrow> search" where
  "step_down cdf W v 0 W_tmp = Range_error"
| "step_down cdf W v (Suc p) W_tmp =
    (let W_tmp' = scale_cdf W (cdf ! p)
     in if v > W_tmp' then Found (int p) W_tmp' W_tmp else step_down cdf W v p W_tmp')"

definition onestep_search :: "int list \<Rightarrow> nat \<Rightarrow> int \<Rightarrow> int \<Rightarrow> int \<Rightarrow> search" where
  "onestep_search cdf init_index W v wl =
    (let W_tmp = scale_cdf W (cdf ! init_index)
     in if v > W_tmp then step_up cdf W v init_index W_tmp else step_down cdf W v init_index W_tmp)"

text \<open>
  The loop over the symbols, for either search: the decoded data, and the error that ended the loop or the
  values of \<open>W_upper\<close>, \<open>streamval\<close> and the stream position. The test for an empty interval after
  renormalisation (\<open>chk\<close>) is only in the bisection function.
\<close>

fun dec_loop :: "bool \<Rightarrow> (int list \<Rightarrow> nat \<Rightarrow> int \<Rightarrow> int \<Rightarrow> int \<Rightarrow> search) \<Rightarrow> (int list \<times> nat) list \<Rightarrow> int \<Rightarrow> int \<Rightarrow> int
    \<Rightarrow> int list \<Rightarrow> nat \<Rightarrow> (int list \<times> (int + int \<times> int \<times> nat)) option" where
  "dec_loop chk srch [] W v wl s i = Some ([], Inr (W, v, i))"
| "dec_loop chk srch ((cdf, h) # rest) W v wl s i =
    (case srch cdf h W v wl of
       Range_error \<Rightarrow> Some ([], Inl (- 3))
     | Past_table \<Rightarrow> None
     | Found d wl wu \<Rightarrow>
        (let wl = u32 (wl + 1)
         in case dec_renorm (u32 (wu - wl)) (u32 (v - wl)) s i of
              None \<Rightarrow> None
            | Some (W, v, i) \<Rightarrow>
                if chk \<and> W = 0 then Some ([d], Inl (- 2))
                else map_option (\<lambda>(ds, r). (d # ds, r)) (dec_loop chk srch rest W v wl s i)))"

text \<open>One decoder call: the return value, the decoded data and the struct afterwards.\<close>

definition dec_multi :: "bool \<Rightarrow> (int list \<Rightarrow> nat \<Rightarrow> int \<Rightarrow> int \<Rightarrow> int \<Rightarrow> search) \<Rightarrow> (int list \<times> nat) list \<Rightarrow> Bitstr
    \<Rightarrow> (int \<times> int list \<times> Bitstr) option" where
  "dec_multi chk srch items b =
    (if W_upper b = 0 then Some (- 2, [], b)
     else let s = stream b;
              (v, i) = (if stream_index b = 0 then (shl (s ! 0) 24 OR shl (s ! 1) 16 OR shl (s ! 2) 8 OR s ! 3, 3)
                        else (streamval b, stream_index b))
          in case dec_loop chk srch items (W_upper b) v 0 s i of
               None \<Rightarrow> None
             | Some (ds, Inl e) \<Rightarrow> Some (e, ds, b)
             | Some (ds, Inr (W, v, i)) \<Rightarrow>
                 Some (if W > 0x01FFFFFF then int i - 2 else int i - 1, ds,
                       b\<lparr>stream_index := i, W_upper := W, streamval := v\<rparr>))"

definition WebRtcIsac_DecHistBisectMulti :: "Bitstr \<Rightarrow> int list list \<Rightarrow> nat list \<Rightarrow> int \<Rightarrow> (int \<times> int list \<times> Bitstr) option" where
  "WebRtcIsac_DecHistBisectMulti b cdf cdf_size N = dec_multi True bisect_search (take (nat N) (zip cdf cdf_size)) b"

definition WebRtcIsac_DecHistOneStepMulti :: "Bitstr \<Rightarrow> int list list \<Rightarrow> nat list \<Rightarrow> int \<Rightarrow> (int \<times> int list \<times> Bitstr) option" where
  "WebRtcIsac_DecHistOneStepMulti b cdf init_index N = dec_multi False onestep_search (take (nat N) (zip cdf init_index)) b"

subsection \<open>Code values\<close>

text \<open>The value of a byte string, most significant byte first.\<close>

definition be_val :: "int list \<Rightarrow> int" where
  "be_val s = foldl (\<lambda>a x. a * 256 + x) 0 s"

lemma be_val_simps [simp]: "be_val [] = 0" "be_val (s @ [x]) = be_val s * 256 + x"
  by (simp_all add: be_val_def)

lemma be_val_take_Suc: "i < length s \<Longrightarrow> be_val (take (Suc i) s) = be_val (take i s) * 256 + s ! i"
  by (simp add: take_Suc_conv_app_nth)

lemma be_val_bounds: "byte_list s \<Longrightarrow> i \<le> length s \<Longrightarrow> 0 \<le> be_val (take i s) \<and> be_val (take i s) < 256 ^ i"
proof (induction i)
  case (Suc i)
  then show ?case using bytes_nth [of s i] be_val_take_Suc [of i s] by fastforce
qed simp

lemma be_val_extend:
  "byte_list s \<Longrightarrow> i + n \<le> length s \<Longrightarrow>
    \<exists>r. 0 \<le> r \<and> r < 256 ^ n \<and> be_val (take (i + n) s) = be_val (take i s) * 256 ^ n + r"
proof (induction n)
  case (Suc n)
  then obtain r where r: "0 \<le> r" "r < 256 ^ n" "be_val (take (i + n) s) = be_val (take i s) * 256 ^ n + r" by auto
  let ?r = "r * 256 + s ! (i + n)"
  have "0 \<le> ?r" "?r < 256 ^ Suc n" using r bytes_nth [OF Suc.prems(1), of "i + n"] Suc.prems(2) by fastforce+
  moreover have "be_val (take (i + Suc n) s) = be_val (take i s) * 256 ^ Suc n + ?r"
    using r(3) be_val_take_Suc [of "i + n" s] Suc.prems(2) by (simp add: algebra_simps)
  ultimately show ?case by blast
qed (simp add: exI [of _ 0])

lemma be_val_scaled:
  assumes "byte_list s" "i + n \<le> length s" "A * 256 ^ n \<le> be_val (take (i + n) s)" "be_val (take (i + n) s) \<le> B * 256 ^ n"
  shows "A \<le> be_val (take i s)" "be_val (take i s) \<le> B"
proof -
  obtain r where r: "0 \<le> r" "r < 256 ^ n" "be_val (take (i + n) s) = be_val (take i s) * 256 ^ n + r"
    using be_val_extend [OF assms(1,2)] by blast
  have "A * 256 ^ n < (be_val (take i s) + 1) * 256 ^ n" using r assms(3) by (simp add: algebra_simps)
  then show "A \<le> be_val (take i s)" by (simp add: mult_less_cancel_right)
  have "be_val (take i s) * 256 ^ n \<le> B * 256 ^ n" using r assms(4) by linarith
  then show "be_val (take i s) \<le> B" by (simp add: mult_le_cancel_right)
qed

lemma length_carry [simp]: "length (propagate_carry s i) = length s"
  by (induction s i rule: propagate_carry.induct) (simp_all add: Let_def)

lemma propagate_carry_value:
  assumes "byte_list s" "i \<le> length s" "be_val (take i s) + 1 < 256 ^ i"
  shows "byte_list (propagate_carry s i) \<and> be_val (take i (propagate_carry s i)) = be_val (take i s) + 1 \<and>
    drop i (propagate_carry s i) = drop i s"
  using assms
proof (induction s i rule: propagate_carry.induct)
  case (2 s i)
  have i: "i < length s" using 2(3) by simp
  have b: "0 \<le> s ! i" "s ! i < 256" using bytes_nth [OF 2(2) i] by auto
  show ?case
  proof (cases "s ! i = 255")
    case True
    have "u8 (s ! i + 1) = 0" by (simp add: True c_conv)
    moreover have "be_val (take i s) + 1 < 256 ^ i" using 2(4) True be_val_take_Suc [OF i] by simp
    moreover have "take (Suc i) (propagate_carry (s[i := 0]) i) = take i (propagate_carry (s[i := 0]) i) @ [0]"
      if "drop i (propagate_carry (s[i := 0]) i) = drop i (s[i := 0])"
    proof -
      have "propagate_carry (s[i := 0]) i ! i = s[i := 0] ! i" using arg_cong [OF that, of "\<lambda>l. l ! 0"] i by simp
      then show ?thesis using i by (simp add: take_Suc_conv_app_nth)
    qed
    moreover have "drop (Suc i) (propagate_carry (s[i := 0]) i) = drop (Suc i) s"
      if "drop i (propagate_carry (s[i := 0]) i) = drop i (s[i := 0])"
      using arg_cong [OF that, of "drop 1"] by simp
    ultimately show ?thesis
      using 2(1) [OF refl] 2(2) i True be_val_take_Suc [OF i] by (simp add: bytes_update Let_def)
  next
    case False
    then have u: "u8 (s ! i + 1) = s ! i + 1" using b by (simp add: u8_id)
    show ?thesis using False b 2(2) i be_val_take_Suc [OF i] be_val_take_Suc [of i "s[i := s ! i + 1]"] by (simp add: u bytes_update Let_def)
  qed
qed simp


subsection \<open>Intervals\<close>

lemma and_FFFF: "x AND 0xFFFF = x mod 65536" for x :: int
proof -
  have "(0xFFFF :: int) = mask 16" by (simp add: mask_eq_exp_minus_1)
  then show ?thesis by (simp only: take_bit_eq_mask [symmetric] take_bit_eq_mod) simp
qed

lemma or_byte: "0 \<le> b \<Longrightarrow> b < 256 \<Longrightarrow> x * 256 OR b = x * 256 + b" for x b :: int
proof -
  assume "0 \<le> b" "b < 256"
  then have "b = take_bit 8 b" by (simp add: take_bit_eq_mod)
  moreover have "push_bit 8 x AND take_bit 8 b = 0"
    by (rule bit_eqI) (auto simp: bit_and_iff bit_push_bit_iff bit_take_bit_iff)
  ultimately show ?thesis using disjunctive_add_eq_or [of "push_bit 8 x" b] by (simp add: push_bit_eq_mult)
qed

lemma high_byte_zero: "0 \<le> W \<Longrightarrow> W < 4294967296 \<Longrightarrow> (W AND 0xFF000000 = 0) \<longleftrightarrow> W < 16777216" for W :: int
  using high_mask_eq_0 [of W 32 24] by (simp add: and.commute)

lemma scale_cdf_eq:
  assumes "0 \<le> W" "W < 4294967296" "0 \<le> c" "c < 65536"
  shows "scale_cdf W c = W * c div 65536"
proof -
  define m l where "m = W div 65536" and "l = W mod 65536"
  have W: "W = m * 65536 + l" "0 \<le> l" "l < 65536" "0 \<le> m" "m < 65536"
    using assms by (auto simp: m_def l_def)
  have ml: "0 \<le> m * c" "m * c \<le> 65535 * 65535" "0 \<le> l * c" "l * c \<le> 65535 * 65535"
    using W assms(3,4) mult_mono [of m 65535 c 65535] mult_mono [of l 65535 c 65535] by simp_all
  have "l * c div 65536 \<le> 65535" "0 \<le> l * c div 65536" using ml by linarith+
  moreover have "W * c div 65536 = m * c + l * c div 65536"
    using div_mult_self1 [of 65536 "l * c" "m * c"] by (simp add: W(1) algebra_simps)
  ultimately show ?thesis using ml
    by (simp add: scale_cdf_def asr_div and_FFFF u32_id m_def [symmetric] l_def [symmetric])
qed

lemma scale_cdf_bounds:
  assumes "0 \<le> W" "W < 4294967296" "0 \<le> c" "c < 65536"
  shows "0 \<le> scale_cdf W c" "scale_cdf W c \<le> W"
proof -
  have "W * c \<le> W * 65536" using assms by (simp add: mult_left_mono)
  moreover have "0 \<le> W * c" using assms by simp
  ultimately show "0 \<le> scale_cdf W c" "scale_cdf W c \<le> W" unfolding scale_cdf_eq [OF assms] by linarith+
qed

lemma scale_cdf_gap:
  assumes "16777216 \<le> W" "W < 4294967296" "0 \<le> c" "c < c'" "c' < 65536"
  shows "scale_cdf W c + 256 \<le> scale_cdf W c'"
proof -
  have "W * c + 256 * 65536 \<le> W * (c + 1)" using assms(1) by (simp add: algebra_simps)
  also have "\<dots> \<le> W * c'" using assms by (intro mult_left_mono) auto
  finally have "(W * c + 256 * 65536) div 65536 \<le> W * c' div 65536" by (rule zdiv_mono1) simp
  then show ?thesis using assms by (simp add: scale_cdf_eq)
qed

lemma enc_renorm_id: "16777216 \<le> W \<Longrightarrow> W < 4294967296 \<Longrightarrow> enc_renorm W v s i = Some (W, v, s, i)"
  and dec_renorm_id: "16777216 \<le> W \<Longrightarrow> W < 4294967296 \<Longrightarrow> dec_renorm W v s i = Some (W, v, i)"
  by (subst enc_renorm.simps dec_renorm.simps, simp add: high_byte_zero)+

lemma enc_renorm_step: "0 \<le> W \<Longrightarrow> W < 16777216 \<Longrightarrow>
    enc_renorm W v s i = enc_renorm (W * 256) (u32 (v * 256)) (s[i := u8 (v div 16777216)]) (Suc i)"
  and dec_renorm_step: "0 \<le> W \<Longrightarrow> W < 16777216 \<Longrightarrow>
    dec_renorm W v s i = dec_renorm (W * 256) (u32 (v * 256) OR s ! Suc i) s (Suc i)"
  by (subst enc_renorm.simps dec_renorm.simps, simp add: high_byte_zero u32_id shl_mult asr_div)+

text \<open>Code value and interval of an encoder state.\<close>

definition code_val :: "int list \<Rightarrow> nat \<Rightarrow> int \<Rightarrow> int" where
  "code_val s i v = be_val (take i s) * 4294967296 + v"

lemma code_val_step:
  assumes "0 \<le> v" "v < 4294967296" "i < length s"
  shows "code_val (s[i := u8 (v div 16777216)]) (Suc i) (u32 (v * 256)) = code_val s i v * 256"
proof -
  define t r where "t = v div 16777216" and "r = v mod 16777216"
  have v: "v = t * 16777216 + r" "0 \<le> r" "r < 16777216" "0 \<le> t" "t < 256" using assms by (auto simp: t_def r_def)
  have "u32 (v * 256) = r * 256" using v by (simp add: c_conv take_bit_eq_mod)
  moreover have "u8 (v div 16777216) = t" using v by (simp add: u8_id t_def)
  ultimately have "code_val (s[i := u8 (v div 16777216)]) (Suc i) (u32 (v * 256)) =
      (be_val (take i s) * 256 + t) * 4294967296 + r * 256"
    using assms(3) by (simp add: code_val_def be_val_take_Suc)
  then show ?thesis using v(1) by (simp add: code_val_def algebra_simps)
qed

text \<open>The renormalisation of a non-empty interval ends after the same number of bytes in the encoder and in the
  decoder.\<close>

lemma renorm:
  assumes "0 < W" "W < 4294967296"
  shows "\<exists>n. 16777216 \<le> W * 256 ^ n \<and> W * 256 ^ n < 4294967296
    \<and> (\<forall>v s i. 0 \<le> v \<and> v < 4294967296 \<and> byte_list s \<longrightarrow>
        (\<exists>v' s'. enc_renorm W v s i = Some (W * 256 ^ n, v', s', i + n) \<and> 0 \<le> v' \<and> v' < 4294967296
          \<and> byte_list s' \<and> length s' = length s
          \<and> (i + n \<le> length s \<longrightarrow> code_val s' (i + n) v' = code_val s i v * 256 ^ n)))
    \<and> (\<forall>s i V. byte_list s \<and> i + n < length s \<and> V * 256 ^ n \<le> be_val (take (Suc (i + n)) s)
        \<and> be_val (take (Suc (i + n)) s) \<le> (V + W) * 256 ^ n \<longrightarrow>
        dec_renorm W (be_val (take (Suc i) s) - V) s i =
          Some (W * 256 ^ n, be_val (take (Suc (i + n)) s) - V * 256 ^ n, i + n))"
  using assms
proof (induction "nat (16777216 - W)" arbitrary: W rule: less_induct)
  case less
  show ?case
  proof (cases "W < 16777216")
    case False
    then show ?thesis using less.prems by (intro exI [of _ 0]) (simp add: enc_renorm_id dec_renorm_id)
  next
    case True
    have "\<exists>n. 16777216 \<le> W * 256 * 256 ^ n \<and> W * 256 * 256 ^ n < 4294967296
    \<and> (\<forall>v s i. 0 \<le> v \<and> v < 4294967296 \<and> byte_list s \<longrightarrow>
        (\<exists>v' s'. enc_renorm (W * 256) v s i = Some (W * 256 * 256 ^ n, v', s', i + n) \<and> 0 \<le> v' \<and> v' < 4294967296
          \<and> byte_list s' \<and> length s' = length s
          \<and> (i + n \<le> length s \<longrightarrow> code_val s' (i + n) v' = code_val s i v * 256 ^ n)))
    \<and> (\<forall>s i V. byte_list s \<and> i + n < length s \<and> V * 256 ^ n \<le> be_val (take (Suc (i + n)) s)
        \<and> be_val (take (Suc (i + n)) s) \<le> (V + W * 256) * 256 ^ n \<longrightarrow>
        dec_renorm (W * 256) (be_val (take (Suc i) s) - V) s i =
          Some (W * 256 * 256 ^ n, be_val (take (Suc (i + n)) s) - V * 256 ^ n, i + n))"
      using less.prems True by (intro less.hyps) auto
    then obtain n where n: "16777216 \<le> W * 256 * 256 ^ n" "W * 256 * 256 ^ n < 4294967296"
      and enc: "\<And>v s i. 0 \<le> v \<Longrightarrow> v < 4294967296 \<Longrightarrow> byte_list s \<Longrightarrow>
        (\<exists>v' s'. enc_renorm (W * 256) v s i = Some (W * 256 * 256 ^ n, v', s', i + n) \<and> 0 \<le> v' \<and> v' < 4294967296
          \<and> byte_list s' \<and> length s' = length s
          \<and> (i + n \<le> length s \<longrightarrow> code_val s' (i + n) v' = code_val s i v * 256 ^ n))"
      and dec: "\<And>s i V. byte_list s \<Longrightarrow> i + n < length s \<Longrightarrow> V * 256 ^ n \<le> be_val (take (Suc (i + n)) s)
        \<Longrightarrow> be_val (take (Suc (i + n)) s) \<le> (V + W * 256) * 256 ^ n \<Longrightarrow>
        dec_renorm (W * 256) (be_val (take (Suc i) s) - V) s i =
          Some (W * 256 * 256 ^ n, be_val (take (Suc (i + n)) s) - V * 256 ^ n, i + n)" by blast
    have e: "\<exists>v' s'. enc_renorm W v s i = Some (W * 256 ^ Suc n, v', s', i + Suc n) \<and> 0 \<le> v' \<and> v' < 4294967296
          \<and> byte_list s' \<and> length s' = length s
          \<and> (i + Suc n \<le> length s \<longrightarrow> code_val s' (i + Suc n) v' = code_val s i v * 256 ^ Suc n)"
      if "0 \<le> v" "v < 4294967296" "byte_list s" for v s i
    proof -
      have "byte_list (s[i := u8 (v div 16777216)])" using that by (simp add: bytes_update c_bound)
      from enc [OF u32_bounds this, of "v * 256" "Suc i"]
      show ?thesis using True less.prems that code_val_step [of v i s]
        by (auto simp: enc_renorm_step mult.assoc)
    qed
    have d: "dec_renorm W (be_val (take (Suc i) s) - V) s i =
          Some (W * 256 ^ Suc n, be_val (take (Suc (i + Suc n)) s) - V * 256 ^ Suc n, i + Suc n)"
      if h: "byte_list s" "i + Suc n < length s" "V * 256 ^ Suc n \<le> be_val (take (Suc (i + Suc n)) s)"
        "be_val (take (Suc (i + Suc n)) s) \<le> (V + W) * 256 ^ Suc n" for s i V
    proof -
      have "V \<le> be_val (take (Suc i) s)" "be_val (take (Suc i) s) \<le> V + W"
        using be_val_scaled [of s "Suc i" "Suc n" V "V + W"] h by simp_all
      then have v: "0 \<le> be_val (take (Suc i) s) - V" "be_val (take (Suc i) s) - V < 16777216" using True by linarith+
      have "u32 ((be_val (take (Suc i) s) - V) * 256) OR s ! Suc i = be_val (take (Suc (Suc i)) s) - V * 256"
        using or_byte [of "s ! Suc i" "be_val (take (Suc i) s) - V"] bytes_nth [OF h(1), of "Suc i"] h(2) v
          be_val_take_Suc [of "Suc i" s] by (simp add: u32_id left_diff_distrib)
      moreover have "dec_renorm (W * 256) (be_val (take (Suc (Suc i)) s) - V * 256) s (Suc i) =
          Some (W * 256 * 256 ^ n, be_val (take (Suc (Suc i + n)) s) - V * 256 * 256 ^ n, Suc i + n)"
        using h by (intro dec) (simp_all add: algebra_simps)
      ultimately show ?thesis using True less.prems by (simp add: dec_renorm_step mult.assoc)
    qed
    show ?thesis using n e d by (intro exI [of _ "Suc n"]) (simp add: mult.assoc)
  qed
qed

subsection \<open>The encoder\<close>

text \<open>A probability table of the codec: increasing 16-bit values, ending in 65535.\<close>

definition wf_cdf :: "int list \<Rightarrow> bool" where
  "wf_cdf cdf \<longleftrightarrow> cdf \<noteq> [] \<and> sorted_wrt (<) cdf \<and> 0 \<le> hd cdf \<and> last cdf = 65535"

definition symbol_of :: "int list \<Rightarrow> int \<Rightarrow> bool" where
  "symbol_of cdf d \<longleftrightarrow> 0 \<le> d \<and> nat d + 1 < length cdf"

lemma wf_cdf_less: "wf_cdf cdf \<Longrightarrow> i < j \<Longrightarrow> j < length cdf \<Longrightarrow> cdf ! i < cdf ! j"
  by (simp add: wf_cdf_def sorted_wrt_nth_less)

lemma wf_cdf_range:
  assumes "wf_cdf cdf" "i < length cdf"
  shows "0 \<le> cdf ! i" "cdf ! i \<le> 65535"
proof -
  have "cdf ! 0 \<le> cdf ! i" "cdf ! i \<le> cdf ! (length cdf - 1)"
    using wf_cdf_less [OF assms(1), of 0 i] wf_cdf_less [OF assms(1), of i "length cdf - 1"] assms(2)
    by (cases i; cases "i = length cdf - 1"; force)+
  then show "0 \<le> cdf ! i" "cdf ! i \<le> 65535" using assms by (auto simp: wf_cdf_def hd_conv_nth last_conv_nth)
qed

text \<open>The code value and the invariant of an encoder state: the interval is renormalised and stays inside
  the bytes written so far, so that a carry never leaves the buffer.\<close>

definition state_val :: "Bitstr \<Rightarrow> int" where
  "state_val b = code_val (stream b) (stream_index b) (streamval b)"

definition enc_inv :: "Bitstr \<Rightarrow> bool" where
  "enc_inv b \<longleftrightarrow> byte_list (stream b) \<and> 16777216 \<le> W_upper b \<and> W_upper b < 4294967296 \<and> 0 \<le> streamval b
     \<and> streamval b < 4294967296 \<and> state_val b + W_upper b < 256 ^ (stream_index b + 4)"

lemma add_with_carry:
  assumes "byte_list s" "i \<le> length s" "0 \<le> v" "v < 4294967296" "0 \<le> a" "a < 4294967296" "code_val s i v + a < 256 ^ (i + 4)"
    and v': "v' = u32 (v + a)" and s': "s' = (if v' < a then propagate_carry s i else s)"
  shows "byte_list s'" "length s' = length s" "code_val s' i v' = code_val s i v + a" "drop i s' = drop i s"
proof -
  have vv: "v' = (if v + a < 4294967296 then v + a else v + a - 4294967296)"
    using assms(3-6) mod_pos_pos_trivial [of "v + a - 4294967296" 4294967296] by (simp add: v' u32_def take_bit_eq_mod)
  have "byte_list s' \<and> length s' = length s \<and> code_val s' i v' = code_val s i v + a \<and> drop i s' = drop i s"
  proof (cases "v + a < 4294967296")
    case True
    then show ?thesis using assms vv by (simp add: code_val_def)
  next
    case False
    have "(be_val (take i s) + 1) * 4294967296 \<le> code_val s i v + a" using False by (simp add: code_val_def)
    with assms(7) have "(be_val (take i s) + 1) * 4294967296 < 256 ^ i * 4294967296" by (simp add: power_add)
    then have "be_val (take i s) + 1 < 256 ^ i" by simp
    from propagate_carry_value [OF assms(1,2) this] False vv assms(4,6) show ?thesis
      by (simp add: s' code_val_def)
  qed
  then show "byte_list s'" "length s' = length s" "code_val s' i v' = code_val s i v + a" "drop i s' = drop i s" by auto
qed

text \<open>What encoding a symbol does: the interval of the symbol, scaled by the bytes that were written.\<close>

lemma enc_symbol_step:
  assumes inv: "enc_inv b" and fits: "stream_index b \<le> length (stream b)" and cdf: "wf_cdf cdf" "symbol_of cdf d"
    and lo: "lo = scale_cdf (W_upper b) (cdf ! nat d)" and hi: "hi = scale_cdf (W_upper b) (cdf ! nat (d + 1))"
  shows "\<exists>n b'. enc_symbol cdf d b = Some b' \<and> stream_index b' = stream_index b + n
    \<and> length (stream b') = length (stream b) \<and> W_upper b' = (hi - lo - 1) * 256 ^ n
    \<and> 16777216 \<le> W_upper b' \<and> W_upper b' < 4294967296
    \<and> (stream_index b' \<le> length (stream b) \<longrightarrow> enc_inv b' \<and> state_val b' = (state_val b + lo + 1) * 256 ^ n)
    \<and> (\<forall>s i V. byte_list s \<and> i + n < length s \<and> V * 256 ^ n \<le> be_val (take (Suc (i + n)) s)
        \<and> be_val (take (Suc (i + n)) s) \<le> (V + (hi - lo - 1)) * 256 ^ n \<longrightarrow>
        dec_renorm (hi - lo - 1) (be_val (take (Suc i) s) - V) s i =
          Some ((hi - lo - 1) * 256 ^ n, be_val (take (Suc (i + n)) s) - V * 256 ^ n, i + n))
    \<and> 0 \<le> lo \<and> lo + 256 \<le> hi \<and> hi \<le> W_upper b"
proof -
  let ?W = "W_upper b"
  have W: "16777216 \<le> ?W" "?W < 4294967296" "0 \<le> streamval b" "streamval b < 4294967296" "byte_list (stream b)"
    "state_val b + ?W < 256 ^ (stream_index b + 4)" using inv by (simp_all add: enc_inv_def)
  have d: "nat (d + 1) = Suc (nat d)" "Suc (nat d) < length cdf" using cdf(2) by (auto simp: symbol_of_def)
  have c: "0 \<le> cdf ! nat d" "cdf ! nat d < cdf ! Suc (nat d)" "cdf ! Suc (nat d) \<le> 65535"
    using wf_cdf_range [OF cdf(1)] wf_cdf_less [OF cdf(1)] d by auto
  have lohi: "0 \<le> lo" "lo + 256 \<le> hi" "hi \<le> ?W"
    using scale_cdf_bounds [of ?W "cdf ! nat d"] scale_cdf_bounds [of ?W "cdf ! Suc (nat d)"]
      scale_cdf_gap [of ?W "cdf ! nat d" "cdf ! Suc (nat d)"] W c d by (simp_all add: lo hi)
  define v s where "v = u32 (streamval b + (lo + 1))"
    and "s = (if v < lo + 1 then propagate_carry (stream b) (stream_index b) else stream b)"
  have sum: "byte_list s" "length s = length (stream b)" "code_val s (stream_index b) v = state_val b + (lo + 1)"
    using add_with_carry [OF W(5) fits W(3,4), of "lo + 1" v s] W(1,2,6) lohi
    by (simp_all add: v_def s_def state_val_def)
  have u: "u32 (lo + 1) = lo + 1" "u32 (hi - (lo + 1)) = hi - lo - 1" using lohi W(2) by (simp_all add: u32_id)
  have enc: "enc_symbol cdf d b = map_option (\<lambda>(W, v, s, i). b\<lparr>stream := s, W_upper := W, streamval := v, stream_index := i\<rparr>)
      (enc_renorm (hi - lo - 1) v s (stream_index b))"
    by (simp add: enc_symbol_def enc_interval_def Let_def lo [symmetric] hi [symmetric] u v_def s_def)
  obtain n where n: "16777216 \<le> (hi - lo - 1) * 256 ^ n" "(hi - lo - 1) * 256 ^ n < 4294967296"
    and e: "\<And>v s i. 0 \<le> v \<Longrightarrow> v < 4294967296 \<Longrightarrow> byte_list s \<Longrightarrow>
        (\<exists>v' s'. enc_renorm (hi - lo - 1) v s i = Some ((hi - lo - 1) * 256 ^ n, v', s', i + n) \<and> 0 \<le> v' \<and> v' < 4294967296
          \<and> byte_list s' \<and> length s' = length s
          \<and> (i + n \<le> length s \<longrightarrow> code_val s' (i + n) v' = code_val s i v * 256 ^ n))"
    and dec: "\<forall>s i V. byte_list s \<and> i + n < length s \<and> V * 256 ^ n \<le> be_val (take (Suc (i + n)) s)
        \<and> be_val (take (Suc (i + n)) s) \<le> (V + (hi - lo - 1)) * 256 ^ n \<longrightarrow>
        dec_renorm (hi - lo - 1) (be_val (take (Suc i) s) - V) s i =
          Some ((hi - lo - 1) * 256 ^ n, be_val (take (Suc (i + n)) s) - V * 256 ^ n, i + n)"
    using renorm [of "hi - lo - 1"] lohi W(2) by auto
  obtain v' s' where vs: "enc_renorm (hi - lo - 1) v s (stream_index b) = Some ((hi - lo - 1) * 256 ^ n, v', s', stream_index b + n)"
    "0 \<le> v'" "v' < 4294967296" "byte_list s'" "length s' = length s"
    "stream_index b + n \<le> length s \<Longrightarrow> code_val s' (stream_index b + n) v' = (state_val b + (lo + 1)) * 256 ^ n"
    using e [of v s "stream_index b"] sum by (auto simp: v_def u32_bounds)
  define b' where "b' = b\<lparr>stream := s', W_upper := (hi - lo - 1) * 256 ^ n, streamval := v', stream_index := stream_index b + n\<rparr>"
  have "enc_inv b'" "state_val b' = (state_val b + lo + 1) * 256 ^ n" if le: "stream_index b + n \<le> length (stream b)"
  proof -
    have val: "state_val b' = (state_val b + (lo + 1)) * 256 ^ n" using vs(6) le sum(2) by (simp add: state_val_def b'_def)
    then show "state_val b' = (state_val b + lo + 1) * 256 ^ n" by (simp add: algebra_simps)
    have "state_val b' + W_upper b' = (state_val b + hi) * 256 ^ n" unfolding val by (simp add: b'_def algebra_simps)
    also have "\<dots> < 256 ^ (stream_index b + 4) * 256 ^ n" using W(6) lohi by (intro mult_strict_right_mono) auto
    finally show "enc_inv b'" using n vs by (simp add: enc_inv_def b'_def power_add mult.commute mult.left_commute)
  qed
  then show ?thesis using vs sum(2) n dec lohi enc
    by (intro exI [of _ n] exI [of _ b']) (simp add: b'_def)
qed

subsection \<open>Table searches\<close>

text \<open>The contract of a search: on the table of a symbol whose scaled interval holds the value, it finds the
  symbol and the bounds of the interval. \<open>ok\<close> says which hints belong to a table.\<close>

locale table_search =
  fixes srch :: "int list \<Rightarrow> nat \<Rightarrow> int \<Rightarrow> int \<Rightarrow> int \<Rightarrow> search"
    and ok :: "int list \<Rightarrow> nat \<Rightarrow> bool"
  assumes search_finds: "\<lbrakk>wf_cdf cdf; ok cdf h; symbol_of cdf d; 16777216 \<le> W; W < 4294967296;
      scale_cdf W (cdf ! nat d) < v; v \<le> scale_cdf W (cdf ! nat (d + 1))\<rbrakk>
    \<Longrightarrow> srch cdf h W v wl = Found d (scale_cdf W (cdf ! nat d)) (scale_cdf W (cdf ! nat (d + 1)))"

lemma scale_cdf_mono:
  assumes "wf_cdf cdf" "i \<le> j" "j < length cdf" "16777216 \<le> W" "W < 4294967296"
  shows "scale_cdf W (cdf ! i) \<le> scale_cdf W (cdf ! j)"
  using assms scale_cdf_gap [OF assms(4,5), of "cdf ! i" "cdf ! j"] wf_cdf_range [OF assms(1)] wf_cdf_less [OF assms(1), of i j]
  by (cases "i = j") fastforce+

definition power_of_two_table :: "int list \<Rightarrow> nat \<Rightarrow> bool" where
  "power_of_two_table cdf cdf_size \<longleftrightarrow> cdf_size = Suc (length cdf) \<and> (\<exists>k. cdf_size = 2 ^ Suc k)"

lemma bisect_loop_finds:
  assumes "wf_cdf cdf" "symbol_of cdf d" "16777216 \<le> W" "W < 4294967296"
    "scale_cdf W (cdf ! nat d) < v" "v \<le> scale_cdf W (cdf ! nat (d + 1))"
    and "sz = 2 ^ k" "sz \<le> Suc p" "Suc p + sz \<le> Suc (length cdf)" "int p - int sz \<le> d" "d < int p + int sz"
    and "sz \<le> p \<longrightarrow> wl = scale_cdf W (cdf ! (p - sz))" "p + sz < length cdf \<longrightarrow> wu = scale_cdf W (cdf ! (p + sz))"
  shows "bisect_loop cdf W v p sz wl wu = Found d (scale_cdf W (cdf ! nat d)) (scale_cdf W (cdf ! nat (d + 1)))"
  using assms(7-)
proof (induction k arbitrary: p sz wl wu)
  case 0
  note mono = scale_cdf_mono [OF assms(1) _ _ assms(3,4)]
  have d: "0 \<le> d" "nat d + 1 < length cdf" using assms(2) by (auto simp: symbol_of_def)
  have "d = int p \<or> d = int p - 1" using 0 by auto
  then show ?case
  proof
    assume "d = int p"
    moreover from this have "nat (d + 1) = Suc p" by simp
    ultimately show ?thesis using 0 assms(5,6) d by (subst bisect_loop.simps) (auto simp: Let_def)
  next
    assume "d = int p - 1"
    moreover from this have "nat d = p - 1" "nat (d + 1) = p" "0 < p" using d by auto
    ultimately show ?thesis using 0 assms(5,6) d by (subst bisect_loop.simps) (auto simp: Let_def)
  qed
next
  case (Suc k)
  note mono = scale_cdf_mono [OF assms(1) _ _ assms(3,4)]
  have d: "0 \<le> d" "nat d + 1 < length cdf" "nat (d + 1) = Suc (nat d)" using assms(2) by (auto simp: symbol_of_def)
  have double: "m + 2 ^ k + 2 ^ k = m + 2 * 2 ^ k" "m - (2 ^ k + 2 ^ k) = m - 2 * 2 ^ k" for m :: nat by simp_all
  have half: "sz div 2 = 2 ^ k" "sz = 2 * 2 ^ k" "sz div 2 \<noteq> 0" using Suc.prems(1) by auto
  have "0 < sz" using half(2) by simp
  then have p: "p < length cdf" using Suc.prems(3) by linarith
  show ?case
  proof (cases "v > scale_cdf W (cdf ! p)")
    case True
    have "int p \<le> d"
    proof (rule ccontr)
      assume "\<not> int p \<le> d"
      then have "scale_cdf W (cdf ! Suc (nat d)) \<le> scale_cdf W (cdf ! p)" using p d by (intro mono) auto
      then show False using True assms(6) d(3) by simp
    qed
    have "bisect_loop cdf W v p sz wl wu = bisect_loop cdf W v (p + sz div 2) (sz div 2) (scale_cdf W (cdf ! p)) wu"
      using True half by (subst bisect_loop.simps) (simp add: Let_def)
    also have "\<dots> = Found d (scale_cdf W (cdf ! nat d)) (scale_cdf W (cdf ! nat (d + 1)))"
      using Suc.prems half \<open>int p \<le> d\<close> by (intro Suc.IH) (auto simp: double)
    finally show ?thesis .
  next
    case False
    have "d < int p"
    proof (rule ccontr)
      assume "\<not> d < int p"
      then have "scale_cdf W (cdf ! p) \<le> scale_cdf W (cdf ! nat d)" using p d by (intro mono) auto
      then show False using False assms(5) by simp
    qed
    have "bisect_loop cdf W v p sz wl wu = bisect_loop cdf W v (p - sz div 2) (sz div 2) wl (scale_cdf W (cdf ! p))"
      using False half by (subst bisect_loop.simps) (simp add: Let_def)
    also have "\<dots> = Found d (scale_cdf W (cdf ! nat d)) (scale_cdf W (cdf ! nat (d + 1)))"
      using Suc.prems half \<open>d < int p\<close> by (intro Suc.IH) (auto simp: double)
    finally show ?thesis .
  qed
qed

interpretation bisection: table_search bisect_search power_of_two_table
proof
  fix cdf h d W v wl
  assume a: "wf_cdf cdf" "power_of_two_table cdf h" "symbol_of cdf d" "16777216 \<le> W" "W < 4294967296"
    "scale_cdf W (cdf ! nat d) < v" "v \<le> scale_cdf W (cdf ! nat (d + 1))"
  obtain k where k: "h = 2 ^ Suc k" "h = Suc (length cdf)" using a(2) by (auto simp: power_of_two_table_def)
  have "int (length cdf) = 2 * 2 ^ k - 1" using arg_cong [OF k(1), of int] k(2) by simp
  then show "bisect_search cdf h W v wl = Found d (scale_cdf W (cdf ! nat d)) (scale_cdf W (cdf ! nat (d + 1)))"
    unfolding bisect_search_def using a k
    by (intro bisect_loop_finds [where k = k]) (auto simp: symbol_of_def)
qed

lemma step_up_finds:
  assumes "wf_cdf cdf" "symbol_of cdf d" "16777216 \<le> W" "W < 4294967296"
    "scale_cdf W (cdf ! nat d) < v" "v \<le> scale_cdf W (cdf ! nat (d + 1))" "p \<le> nat d"
  shows "step_up cdf W v p (scale_cdf W (cdf ! p)) = Found d (scale_cdf W (cdf ! nat d)) (scale_cdf W (cdf ! nat (d + 1)))"
  using assms(7)
proof (induction "nat d - p" arbitrary: p)
  case 0
  have d: "0 \<le> d" "nat d + 1 < length cdf" "nat (d + 1) = Suc (nat d)" using assms(2) by (auto simp: symbol_of_def)
  have "cdf ! nat d < cdf ! Suc (nat d)" "cdf ! Suc (nat d) \<le> 65535"
    using wf_cdf_less [OF assms(1)] wf_cdf_range [OF assms(1)] d by auto
  then show ?case using 0 d assms(6) by (subst step_up.simps) auto
next
  case (Suc n)
  have d: "0 \<le> d" "nat d + 1 < length cdf" "nat (d + 1) = Suc (nat d)" using assms(2) by (auto simp: symbol_of_def)
  have "cdf ! p < cdf ! Suc p" "cdf ! Suc p \<le> 65535" "scale_cdf W (cdf ! Suc p) \<le> scale_cdf W (cdf ! nat d)"
    using wf_cdf_less [OF assms(1)] wf_cdf_range [OF assms(1)] scale_cdf_mono [OF assms(1) _ _ assms(3,4)] d Suc(2) by auto
  moreover have "step_up cdf W v (Suc p) (scale_cdf W (cdf ! Suc p)) = Found d (scale_cdf W (cdf ! nat d)) (scale_cdf W (cdf ! nat (d + 1)))"
    using Suc by (intro Suc(1)) auto
  ultimately show ?case using d assms(5) Suc(2) by (subst step_up.simps) (auto simp: Let_def)
qed

lemma step_down_finds:
  assumes "wf_cdf cdf" "symbol_of cdf d" "16777216 \<le> W" "W < 4294967296"
    "scale_cdf W (cdf ! nat d) < v" "v \<le> scale_cdf W (cdf ! nat (d + 1))" "nat d < p" "p < length cdf"
  shows "step_down cdf W v p (scale_cdf W (cdf ! p)) = Found d (scale_cdf W (cdf ! nat d)) (scale_cdf W (cdf ! nat (d + 1)))"
  using assms(7,8)
proof (induction p)
  case (Suc p)
  have d: "0 \<le> d" "nat (d + 1) = Suc (nat d)" using assms(2) by (auto simp: symbol_of_def)
  show ?case
  proof (cases "p = nat d")
    case True
    then show ?thesis using d assms(5) by (simp add: Let_def)
  next
    case False
    then have "scale_cdf W (cdf ! Suc (nat d)) \<le> scale_cdf W (cdf ! p)"
      using Suc.prems by (intro scale_cdf_mono [OF assms(1) _ _ assms(3,4)]) auto
    then show ?thesis using Suc False d assms(6) by (auto simp: Let_def)
  qed
qed simp

interpretation onestep: table_search onestep_search "\<lambda>cdf h. h < length cdf"
proof
  fix cdf h d W v wl
  assume a: "wf_cdf cdf" "h < length cdf" "symbol_of cdf d" "16777216 \<le> W" "W < 4294967296"
    "scale_cdf W (cdf ! nat d) < v" "v \<le> scale_cdf W (cdf ! nat (d + 1))"
  have d: "0 \<le> d" "nat d + 1 < length cdf" "nat (d + 1) = Suc (nat d)" using a(3) by (auto simp: symbol_of_def)
  note mono = scale_cdf_mono [OF a(1) _ _ a(4,5)]
  have "(v > scale_cdf W (cdf ! h)) \<longleftrightarrow> h \<le> nat d"
    using mono [of h "nat d"] mono [of "Suc (nat d)" h] a(2,6,7) d by fastforce
  then show "onestep_search cdf h W v wl = Found d (scale_cdf W (cdf ! nat d)) (scale_cdf W (cdf ! nat (d + 1)))"
    using step_up_finds [OF a(1,3-7)] step_down_finds [OF a(1,3-7)] a(2) by (auto simp: onestep_search_def Let_def)
qed

subsection \<open>Encoder and decoder together\<close>

definition enc_wf :: "Bitstr \<Rightarrow> bool" where
  "enc_wf b \<longleftrightarrow> byte_list (stream b) \<and> 16777216 \<le> W_upper b \<and> W_upper b < 4294967296 \<and> 0 \<le> streamval b \<and> streamval b < 4294967296"

lemma enc_inv_wf: "enc_inv b \<Longrightarrow> enc_wf b"
  by (simp add: enc_inv_def enc_wf_def)

lemma bytes_carry: "byte_list s \<Longrightarrow> byte_list (propagate_carry s i)"
  by (induction s i rule: propagate_carry.induct) (simp_all add: Let_def bytes_update u8_bounds)

lemma enc_symbol_returns:
  assumes "enc_wf b" "wf_cdf cdf" "symbol_of cdf d"
  shows "\<exists>b'. enc_symbol cdf d b = Some b' \<and> enc_wf b' \<and> stream_index b \<le> stream_index b' \<and> length (stream b') = length (stream b)"
proof -
  let ?W = "W_upper b" and ?lo = "scale_cdf (W_upper b) (cdf ! nat d)" and ?hi = "scale_cdf (W_upper b) (cdf ! nat (d + 1))"
  have d: "nat (d + 1) = Suc (nat d)" "Suc (nat d) < length cdf" using assms(3) by (auto simp: symbol_of_def)
  have c: "0 \<le> cdf ! nat d" "cdf ! nat d < cdf ! Suc (nat d)" "cdf ! Suc (nat d) \<le> 65535"
    using wf_cdf_range [OF assms(2)] wf_cdf_less [OF assms(2)] d by auto
  have W: "16777216 \<le> ?W" "?W < 4294967296" "byte_list (stream b)" using assms(1) by (simp_all add: enc_wf_def)
  have "0 \<le> ?lo" "?lo + 256 \<le> ?hi" "?hi \<le> ?W"
    using scale_cdf_bounds [of ?W "cdf ! nat d"] scale_cdf_bounds [of ?W "cdf ! Suc (nat d)"]
      scale_cdf_gap [of ?W "cdf ! nat d" "cdf ! Suc (nat d)"] W c d by simp_all
  then have u: "0 < u32 (?hi - u32 (?lo + 1))" "u32 (?hi - u32 (?lo + 1)) < 4294967296" using W by (simp_all add: u32_id)
  define v s where "v = u32 (streamval b + u32 (?lo + 1))"
    and "s = (if v < u32 (?lo + 1) then propagate_carry (stream b) (stream_index b) else stream b)"
  have s: "byte_list s" "length s = length (stream b)" using W(3) by (simp_all add: s_def bytes_carry)
  obtain n v' s' where r: "enc_renorm (u32 (?hi - u32 (?lo + 1))) v s (stream_index b) =
      Some (u32 (?hi - u32 (?lo + 1)) * 256 ^ n, v', s', stream_index b + n)" "0 \<le> v'" "v' < 4294967296" "byte_list s'" "length s' = length s"
    "16777216 \<le> u32 (?hi - u32 (?lo + 1)) * 256 ^ n" "u32 (?hi - u32 (?lo + 1)) * 256 ^ n < 4294967296"
    using renorm [OF u] s(1) u32_bounds [of "streamval b + u32 (?lo + 1)"] unfolding v_def [symmetric] by blast
  have "enc_symbol cdf d b = Some (b\<lparr>stream := s', W_upper := u32 (?hi - u32 (?lo + 1)) * 256 ^ n, streamval := v',
      stream_index := stream_index b + n\<rparr>)"
    using r(1) by (simp add: enc_symbol_def enc_interval_def Let_def v_def s_def)
  then show ?thesis using r s by (simp add: enc_wf_def)
qed

text \<open>Symbols with their tables and the hints of the decoder.\<close>

type_synonym item = "int list \<times> int \<times> nat"

definition valid_item :: "(int list \<Rightarrow> nat \<Rightarrow> bool) \<Rightarrow> item \<Rightarrow> bool" where
  "valid_item ok = (\<lambda>(cdf, d, h). wf_cdf cdf \<and> symbol_of cdf d \<and> ok cdf h)"

definition enc_items :: "item list \<Rightarrow> (int list \<times> int) list" where
  "enc_items = map (\<lambda>(cdf, d, h). (cdf, d))"

definition dec_items :: "item list \<Rightarrow> (int list \<times> nat) list" where
  "dec_items = map (\<lambda>(cdf, d, h). (cdf, h))"

lemma enc_loop_returns:
  assumes "enc_wf b" "list_all (valid_item ok) items"
  shows "\<exists>b'. enc_loop (enc_items items) b = Some b' \<and> enc_wf b' \<and> stream_index b \<le> stream_index b' \<and> length (stream b') = length (stream b)"
  using assms
proof (induction items arbitrary: b)
  case (Cons x items)
  obtain cdf d h where x: "x = (cdf, d, h)" by (cases x)
  obtain b1 where "enc_symbol cdf d b = Some b1" "enc_wf b1" "stream_index b \<le> stream_index b1" "length (stream b1) = length (stream b)"
    using enc_symbol_returns [OF Cons.prems(1), of cdf d] Cons.prems(2) by (auto simp: valid_item_def x)
  then show ?case using Cons.IH [of b1] Cons.prems(2) by (auto simp: enc_items_def x)
qed (simp add: enc_items_def)

text \<open>The byte_list \<open>s\<close> are a code for the encoder state \<open>b\<close>, and the decoder's value for it.\<close>

definition within :: "Bitstr \<Rightarrow> int list \<Rightarrow> bool" where
  "within b s \<longleftrightarrow> byte_list s \<and> stream_index b + 4 \<le> length s \<and> state_val b \<le> be_val (take (stream_index b + 4) s)
     \<and> be_val (take (stream_index b + 4) s) \<le> state_val b + W_upper b"

definition offset :: "Bitstr \<Rightarrow> int list \<Rightarrow> int" where
  "offset b s = be_val (take (stream_index b + 4) s) - state_val b"

lemma enc_dec_symbol:
  assumes inv: "enc_inv b" and cdf: "wf_cdf cdf" "symbol_of cdf d" and enc: "enc_symbol cdf d b = Some b'"
    and fits: "stream_index b' \<le> length (stream b)" and code: "within b' s"
    and lo: "lo = scale_cdf (W_upper b) (cdf ! nat d)" and hi: "hi = scale_cdf (W_upper b) (cdf ! nat (d + 1))"
  shows "enc_inv b'" "within b s" "lo < offset b s" "offset b s \<le> hi"
    "dec_renorm (u32 (hi - u32 (lo + 1))) (u32 (offset b s - u32 (lo + 1))) s (stream_index b + 3) =
       Some (W_upper b', offset b' s, stream_index b' + 3)"
proof -
  have "stream_index b \<le> length (stream b)"
    using enc_symbol_returns [OF enc_inv_wf [OF inv] cdf] enc fits by auto
  from enc_symbol_step [OF inv this cdf lo hi] enc fits obtain n where
    i: "stream_index b' = stream_index b + n" and W: "W_upper b' = (hi - lo - 1) * 256 ^ n"
    and inv': "enc_inv b'" and val: "state_val b' = (state_val b + lo + 1) * 256 ^ n"
    and dec: "\<And>s i V. byte_list s \<Longrightarrow> i + n < length s \<Longrightarrow> V * 256 ^ n \<le> be_val (take (Suc (i + n)) s)
        \<Longrightarrow> be_val (take (Suc (i + n)) s) \<le> (V + (hi - lo - 1)) * 256 ^ n \<Longrightarrow>
        dec_renorm (hi - lo - 1) (be_val (take (Suc i) s) - V) s i =
          Some ((hi - lo - 1) * 256 ^ n, be_val (take (Suc (i + n)) s) - V * 256 ^ n, i + n)"
    and lohi: "0 \<le> lo" "lo + 256 \<le> hi" "hi \<le> W_upper b" by auto
  have s: "byte_list s" "stream_index b + 3 + n < length s"
    "(state_val b + lo + 1) * 256 ^ n \<le> be_val (take (Suc (stream_index b + 3 + n)) s)"
    "be_val (take (Suc (stream_index b + 3 + n)) s) \<le> (state_val b + lo + 1 + (hi - lo - 1)) * 256 ^ n"
    using code by (simp_all add: within_def i val W algebra_simps eval_nat_numeral)
  have x: "state_val b + lo + 1 \<le> be_val (take (stream_index b + 4) s)" "be_val (take (stream_index b + 4) s) \<le> state_val b + hi"
    using be_val_scaled [of s "stream_index b + 4" n "state_val b + lo + 1" "state_val b + hi"] s by (simp_all add: algebra_simps eval_nat_numeral)
  show "enc_inv b'" by (rule inv')
  show "within b s" using x s lohi by (simp add: within_def)
  show off: "lo < offset b s" "offset b s \<le> hi" using x by (simp_all add: offset_def)
  have W': "W_upper b < 4294967296" using inv by (simp add: enc_inv_def)
  have u: "u32 (lo + 1) = lo + 1" "u32 (hi - (lo + 1)) = hi - lo - 1" "u32 (offset b s - (lo + 1)) = offset b s - (lo + 1)"
    using lohi W' off by (simp_all add: u32_id)
  have "offset b s - (lo + 1) = be_val (take (Suc (stream_index b + 3)) s) - (state_val b + lo + 1)"
    by (simp add: offset_def eval_nat_numeral)
  then show "dec_renorm (u32 (hi - u32 (lo + 1))) (u32 (offset b s - u32 (lo + 1))) s (stream_index b + 3) =
       Some (W_upper b', offset b' s, stream_index b' + 3)"
    unfolding u by (simp only: dec [OF s]) (simp add: offset_def i W val eval_nat_numeral)
qed

lemma enc_loop_within:
  assumes "enc_inv b" "list_all (valid_item ok) items" "enc_loop (enc_items items) b = Some b'"
    "stream_index b' \<le> length (stream b)"
  shows "enc_inv b'" "within b' s \<Longrightarrow> within b s"
proof -
  have "enc_inv b' \<and> (within b' s \<longrightarrow> within b s)" using assms
  proof (induction items arbitrary: b)
    case (Cons x items)
    obtain cdf d h where x: "x = (cdf, d, h)" by (cases x)
    have v: "wf_cdf cdf" "symbol_of cdf d" "list_all (valid_item ok) items" using Cons.prems(2) by (simp_all add: x valid_item_def)
    obtain b1 where b1: "enc_symbol cdf d b = Some b1" "enc_loop (enc_items items) b1 = Some b'"
      using Cons.prems(3) by (auto simp: x enc_items_def Option.bind_eq_Some_conv)
    have wf1: "enc_wf b1" "length (stream b1) = length (stream b)" "stream_index b \<le> stream_index b1"
      using enc_symbol_returns [OF enc_inv_wf [OF Cons.prems(1)] v(1,2)] b1(1) by auto
    have fits: "stream_index b1 \<le> length (stream b)" "stream_index b' \<le> length (stream b1)"
      using enc_loop_returns [OF wf1(1) v(3)] b1(2) Cons.prems(4) wf1(2) by auto
    have "enc_inv b1" using enc_symbol_step [OF Cons.prems(1) _ v(1,2) refl refl] wf1(3) b1(1) fits(1) by auto
    then show ?case using Cons.IH [OF _ v(3) b1(2) fits(2)] enc_dec_symbol(2) [OF Cons.prems(1) v(1,2) b1(1) fits(1) _ refl refl] by blast
  qed (simp add: enc_items_def)
  then show "enc_inv b'" "within b' s \<Longrightarrow> within b s" by auto
qed

context table_search
begin

lemma dec_loop_roundtrip:
  assumes "enc_inv b" "list_all (valid_item ok) items" "enc_loop (enc_items items) b = Some b'"
    "stream_index b' \<le> length (stream b)" "within b' s"
  shows "dec_loop chk srch (dec_items items) (W_upper b) (offset b s) wl s (stream_index b + 3) =
    Some (map (\<lambda>(cdf, d, h). d) items, Inr (W_upper b', offset b' s, stream_index b' + 3))"
  using assms
proof (induction items arbitrary: b wl)
  case (Cons x items)
  obtain cdf d h where x: "x = (cdf, d, h)" by (cases x)
  have v: "wf_cdf cdf" "symbol_of cdf d" "ok cdf h" "list_all (valid_item ok) items" using Cons.prems(2) by (simp_all add: x valid_item_def)
  obtain b1 where b1: "enc_symbol cdf d b = Some b1" "enc_loop (enc_items items) b1 = Some b'"
    using Cons.prems(3) by (auto simp: x enc_items_def Option.bind_eq_Some_conv)
  have wf1: "enc_wf b1" "length (stream b1) = length (stream b)"
    using enc_symbol_returns [OF enc_inv_wf [OF Cons.prems(1)] v(1,2)] b1(1) by auto
  have fits: "stream_index b1 \<le> length (stream b)" "stream_index b' \<le> length (stream b1)"
    using enc_loop_returns [OF wf1(1) v(4)] b1(2) Cons.prems(4) wf1(2) by auto
  have inv1: "enc_inv b1"
    using enc_symbol_step [OF Cons.prems(1) _ v(1,2) refl refl] enc_symbol_returns [OF enc_inv_wf [OF Cons.prems(1)] v(1,2)] b1(1) fits(1) by auto
  note IH = Cons.IH [OF inv1 v(4) b1(2) fits(2) Cons.prems(5)]
  note sym = enc_dec_symbol [OF Cons.prems(1) v(1,2) b1(1) fits(1) enc_loop_within(2) [OF inv1 v(4) b1(2) fits(2) Cons.prems(5)] refl refl]
  have W: "16777216 \<le> W_upper b" "W_upper b < 4294967296" using Cons.prems(1) by (simp_all add: enc_inv_def)
  have W1: "W_upper b1 \<noteq> 0" using wf1(1) by (simp add: enc_wf_def)
  show ?case using search_finds [OF v(1,3,2) W sym(3,4)] sym(1,2,5) IH W1
    by (simp add: x dec_items_def Let_def)
qed (simp add: enc_items_def dec_items_def)

end

subsection \<open>Termination of the stream\<close>

lemma power256_32: "(256 :: int) ^ (i + 4) = 256 ^ i * 4294967296"
  by (simp add: power_add)

text \<open>After termination every continuation of the stream is a code for the final state: the bytes behind the
  reported length do not matter.\<close>

lemma term_add_val:
  assumes "enc_inv b" "stream_index b \<le> length (stream b)" "0 \<le> a" "a \<le> W_upper b"
  shows "byte_list (stream (term_add a b))" "length (stream (term_add a b)) = length (stream b)"
    "state_val (term_add a b) = state_val b + a" "stream_index (term_add a b) = stream_index b"
    "0 \<le> streamval (term_add a b)" "streamval (term_add a b) < 4294967296"
proof -
  have inv: "byte_list (stream b)" "0 \<le> streamval b" "streamval b < 4294967296" "W_upper b < 4294967296"
    "code_val (stream b) (stream_index b) (streamval b) + W_upper b < 256 ^ (stream_index b + 4)"
    using assms(1) by (simp_all add: enc_inv_def state_val_def)
  note carry = add_with_carry [OF inv(1) assms(2) inv(2,3) assms(3) _ _ refl refl]
  show "byte_list (stream (term_add a b))" "length (stream (term_add a b)) = length (stream b)"
    "state_val (term_add a b) = state_val b + a" "stream_index (term_add a b) = stream_index b"
    "0 \<le> streamval (term_add a b)" "streamval (term_add a b) < 4294967296"
    using carry inv(4,5) assms(4) by (simp_all add: term_add_def Let_def state_val_def u32_bounds)
qed

text \<open>A stream whose leading bytes are those of \<open>v\<close> differs from \<open>v\<close> by what the remaining bytes can hold.\<close>

lemma leading_bytes:
  assumes "byte_list s" "i + 4 \<le> length s" "0 \<le> v" "v < 4294967296" "take i s = take i t" "k = 1 \<or> k = 2"
    and "\<forall>j < k. s ! (i + j) = v div 256 ^ (3 - j) mod 256"
  shows "\<bar>be_val (take (i + 4) s) - code_val t i v\<bar> < 256 ^ (4 - k)"
proof -
  have "take (i + 4) s = take i s @ [s ! i, s ! (i + 1), s ! (i + 2), s ! (i + 3)]"
    using assms(2) by (simp add: eval_nat_numeral take_Suc_conv_app_nth)
  then have be: "be_val (take (i + 4) s) = be_val (take i t) * 4294967296 +
      (s ! i * 16777216 + s ! (i + 1) * 65536 + s ! (i + 2) * 256 + s ! (i + 3))"
    by (simp add: be_val_def assms(5))
  have b: "0 \<le> s ! (i + 1) \<and> s ! (i + 1) < 256" "0 \<le> s ! (i + 2) \<and> s ! (i + 2) < 256" "0 \<le> s ! (i + 3) \<and> s ! (i + 3) < 256"
    using bytes_nth [OF assms(1)] assms(2) by auto
  have top: "s ! i = v div 16777216" using assms(3,4,6,7) by (auto dest: spec [of _ 0])
  show ?thesis
  proof (cases "k = 1")
    case True
    have "v = s ! i * 16777216 + v mod 16777216" using top by simp
    then show ?thesis unfolding be code_val_def using b True by (simp add: abs_less_iff) linarith
  next
    case False
    then have k: "k = 2" using assms(6) by simp
    define m where "m = v div 65536"
    have "s ! (i + 1) = m mod 256" using assms(7) k by (auto dest: spec [of _ 1] simp: m_def)
    moreover have "m div 256 = s ! i" using top by (simp add: m_def div_mult2_eq [symmetric])
    ultimately have "m = s ! i * 256 + s ! (i + 1)" using div_mult_mod_eq [of m 256] by simp
    then have "v = s ! i * 16777216 + s ! (i + 1) * 65536 + v mod 65536"
      using div_mult_mod_eq [of v 65536] by (simp add: m_def)
    then show ?thesis unfolding be code_val_def using b k by (simp add: abs_less_iff) linarith
  qed
qed

lemma and_FF: "x AND 0x00FF = x mod 256" for x :: int
  using mask_FF by (simp only: take_bit_eq_mask [symmetric] take_bit_eq_mod) simp

lemma EncTerminate_within:
  assumes inv: "enc_inv b" and fits: "stream_index b + 4 \<le> length s" "stream_index b + 2 \<le> length (stream b)"
    and t: "WebRtcIsac_EncTerminate b = (len, b')" and s: "byte_list s" "take (nat len) s = take (nat len) (stream b')"
  shows "within b s \<and> len = int (stream_index b) + (if W_upper b > 0x01FFFFFF then 1 else 2)"
proof -
  let ?i = "stream_index b"
  have W: "16777216 \<le> W_upper b" using inv by (simp add: enc_inv_def)
  show ?thesis
  proof (cases "W_upper b > 0x01FFFFFF")
    case True
    let ?c = "term_add 0x01000000 b"
    have "stream_index b \<le> length (stream b)" "(0 :: int) \<le> 16777216" "16777216 \<le> W_upper b" using fits(2) W by simp_all
    note c = term_add_val [OF inv this]
    have r: "len = int (?i + 1)" "stream b' = (stream ?c)[?i := u8 (asr (streamval ?c) 24)]"
      using t True fits(2) c(4) by (auto simp: WebRtcIsac_EncTerminate_def Let_def)
    have pre: "take ?i s = take ?i (stream ?c)" "s ! ?i = u8 (asr (streamval ?c) 24)"
    proof -
      have "take (Suc ?i) s = take (Suc ?i) (stream b')" using s(2) r(1) by (simp add: nat_add_distrib)
      then have "take ?i (take (Suc ?i) s) = take ?i (take (Suc ?i) (stream b'))" "take (Suc ?i) s ! ?i = take (Suc ?i) (stream b') ! ?i" by simp_all
      then show "take ?i s = take ?i (stream ?c)" "s ! ?i = u8 (asr (streamval ?c) 24)"
        using r(2) c(2) fits(2) W by (simp_all add: min_def)
    qed
    have "\<bar>be_val (take (?i + 4) s) - state_val ?c\<bar> < 256 ^ (4 - 1)"
      unfolding state_val_def c(4) using c pre fits s(1) W
      by (intro leading_bytes [where t = "stream ?c" and i = ?i]) (simp_all add: asr_div u8_def take_bit_eq_mod)
    then show ?thesis using c(3) W fits s(1) True r(1) by (auto simp: within_def abs_less_iff)
  next
    case False
    let ?c = "term_add 0x00010000 b"
    have "stream_index b \<le> length (stream b)" "(0 :: int) \<le> 65536" "65536 \<le> W_upper b" using fits(2) W by simp_all
    note c = term_add_val [OF inv this]
    have r: "len = int (?i + 2)" "stream b' = (stream ?c)[?i := u8 (asr (streamval ?c) 24), ?i + 1 := u8 (asr (streamval ?c) 16 AND 0x00FF)]"
      using t False fits(2) c(4) by (auto simp: WebRtcIsac_EncTerminate_def Let_def)
    have pre: "take ?i s = take ?i (stream ?c)" "s ! ?i = u8 (asr (streamval ?c) 24)" "s ! Suc ?i = u8 (asr (streamval ?c) 16 AND 0x00FF)"
    proof -
      have "take (Suc (Suc ?i)) s = take (Suc (Suc ?i)) (stream b')" using s(2) r(1) by (simp add: nat_add_distrib)
      then have "take ?i (take (Suc (Suc ?i)) s) = take ?i (take (Suc (Suc ?i)) (stream b'))"
        "take (Suc (Suc ?i)) s ! ?i = take (Suc (Suc ?i)) (stream b') ! ?i"
        "take (Suc (Suc ?i)) s ! Suc ?i = take (Suc (Suc ?i)) (stream b') ! Suc ?i" by simp_all
      then show "take ?i s = take ?i (stream ?c)" "s ! ?i = u8 (asr (streamval ?c) 24)" "s ! Suc ?i = u8 (asr (streamval ?c) 16 AND 0x00FF)"
        using r(2) c(2) fits(2) W by (simp_all add: min_def)
    qed
    have "\<bar>be_val (take (?i + 4) s) - state_val ?c\<bar> < 256 ^ (4 - 2)"
      unfolding state_val_def c(4) using c pre fits s(1) W
      by (intro leading_bytes [where t = "stream ?c" and i = ?i]) (simp_all add: asr_div u8_def take_bit_eq_mod and_FF less_2_cases_iff)
    then show ?thesis using c(3) W fits s(1) False r(1) by (auto simp: within_def abs_less_iff)
  qed
qed

subsection \<open>Sequences of calls\<close>

text \<open>A decoder state that has consumed the same symbols as the encoder state \<open>b\<close>; before its first call the
  decoder has read nothing and takes its value from the first four bytes.\<close>

definition synced :: "Bitstr \<Rightarrow> Bitstr \<Rightarrow> bool" where
  "synced b d \<longleftrightarrow> W_upper d = W_upper b \<and>
     (if stream_index d = 0 then (be_val (take 4 (stream d)), 3) else (streamval d, stream_index d)) =
       (offset b (stream d), stream_index b + 3)"

lemma first_word:
  assumes "byte_list s" "4 \<le> length s"
  shows "shl (s ! 0) 24 OR shl (s ! 1) 16 OR shl (s ! 2) 8 OR s ! 3 = be_val (take 4 s)"
proof -
  have b: "0 \<le> s ! j \<and> s ! j < 256" if "j < 4" for j using bytes_nth [OF assms(1), of j] assms(2) that by simp
  have "take 4 s = [s ! 0, s ! 1, s ! 2, s ! 3]" using assms(2) by (simp add: list_eq_iff_nth_eq less_Suc_eq numeral_eq_Suc)
  then have be: "be_val (take 4 s) = ((s ! 0 * 256 + s ! 1) * 256 + s ! 2) * 256 + s ! 3" by (simp add: be_val_def)
  have "shl (s ! 0) 24 OR shl (s ! 1) 16 OR shl (s ! 2) 8 OR s ! 3 =
      push_bit 8 (push_bit 8 (push_bit 8 (s ! 0) OR s ! 1) OR s ! 2) OR s ! 3"
    by (simp add: shl_def push_bit_or or.assoc)
  also have "\<dots> = be_val (take 4 s)"
    using or_byte [of "s ! 1" "s ! 0"] or_byte [of "s ! 2" "s ! 0 * 256 + s ! 1"]
      or_byte [of "s ! 3" "(s ! 0 * 256 + s ! 1) * 256 + s ! 2"] b by (simp add: be push_bit_eq_mult)
  finally show ?thesis .
qed

context table_search
begin

lemma dec_multi_roundtrip:
  assumes "enc_inv b" "list_all (valid_item ok) items" "enc_loop (enc_items items) b = Some b'"
    "stream_index b' \<le> length (stream b)" "within b' (stream d)" "synced b d"
  shows "enc_inv b' \<and> (\<exists>d'. dec_multi chk srch (dec_items items) d =
      Some (int (stream_index b') + (if W_upper b' > 0x01FFFFFF then 1 else 2), map (\<lambda>(cdf, d, h). d) items, d')
    \<and> stream d' = stream d \<and> synced b' d')"
proof -
  note rt = dec_loop_roundtrip [OF assms(1-5)] enc_loop_within(1) [OF assms(1-4)]
  have b: "byte_list (stream d)" "4 \<le> length (stream d)" "W_upper b \<noteq> 0"
    using assms(1,5) by (auto simp: within_def enc_inv_def)
  have "(if stream_index d = 0 then (shl (stream d ! 0) 24 OR shl (stream d ! 1) 16 OR shl (stream d ! 2) 8 OR stream d ! 3, 3)
      else (streamval d, stream_index d)) = (offset b (stream d), stream_index b + 3)" "W_upper d = W_upper b"
    using assms(6) unfolding first_word [OF b(1,2)] synced_def by auto
  then have "dec_multi chk srch (dec_items items) d = Some (int (stream_index b') + (if W_upper b' > 0x01FFFFFF then 1 else 2),
      map (\<lambda>(cdf, d, h). d) items, d\<lparr>stream_index := stream_index b' + 3, W_upper := W_upper b', streamval := offset b' (stream d)\<rparr>)"
    using rt b(3) unfolding dec_multi_def by (simp add: Let_def)
  then show ?thesis using rt by (simp add: synced_def)
qed

end

datatype dec_method = Bisect | OneStep

type_synonym call = "dec_method \<times> item list"

definition hint_ok :: "dec_method \<Rightarrow> int list \<Rightarrow> nat \<Rightarrow> bool" where
  "hint_ok m cdf h = (case m of Bisect \<Rightarrow> power_of_two_table cdf h | OneStep \<Rightarrow> h < length cdf)"

definition valid_call :: "call \<Rightarrow> bool" where
  "valid_call = (\<lambda>(m, items). list_all (valid_item (hint_ok m)) items)"

definition dec_call :: "call \<Rightarrow> Bitstr \<Rightarrow> (int \<times> int list \<times> Bitstr) option" where
  "dec_call = (\<lambda>(m, items) d. (case m of Bisect \<Rightarrow> WebRtcIsac_DecHistBisectMulti | OneStep \<Rightarrow> WebRtcIsac_DecHistOneStepMulti)
     d (map (\<lambda>(cdf, d, h). cdf) items) (map (\<lambda>(cdf, d, h). h) items) (int (length items)))"

text \<open>The calls of an encoder and of a decoder in sequence; the decoder collects return values and data.\<close>

fun enc_calls :: "call list \<Rightarrow> Bitstr \<Rightarrow> Bitstr option" where
  "enc_calls [] b = Some b"
| "enc_calls ((m, items) # cs) b = Option.bind
    (WebRtcIsac_EncHistMulti b (map (\<lambda>(cdf, d, h). d) items) (map (\<lambda>(cdf, d, h). cdf) items) (int (length items)))
    (enc_calls cs)"

fun dec_calls :: "call list \<Rightarrow> Bitstr \<Rightarrow> (int list \<times> int list list) option" where
  "dec_calls [] d = Some ([], [])"
| "dec_calls (c # cs) d = Option.bind (dec_call c d)
    (\<lambda>(r, ds, d'). map_option (\<lambda>(rs, dss). (r # rs, ds # dss)) (dec_calls cs d'))"

lemma EncHistMulti_items:
  "WebRtcIsac_EncHistMulti b (map (\<lambda>(cdf, d, h). d) items) (map (\<lambda>(cdf, d, h). cdf) items) (int (length items)) =
    enc_loop (enc_items items) b"
  by (simp add: WebRtcIsac_EncHistMulti_def enc_items_def zip_map_map zip_same_conv_map split_def comp_def)

lemma dec_call_items:
  "dec_call (m, items) d = (case m of Bisect \<Rightarrow> dec_multi True bisect_search (dec_items items) d
     | OneStep \<Rightarrow> dec_multi False onestep_search (dec_items items) d)"
  by (simp add: dec_call_def WebRtcIsac_DecHistBisectMulti_def WebRtcIsac_DecHistOneStepMulti_def dec_items_def
      zip_map_map zip_same_conv_map split_def comp_def split: dec_method.split)

lemma dec_call_roundtrip:
  assumes "enc_inv b" "valid_call (m, items)" "enc_loop (enc_items items) b = Some b'"
    "stream_index b' \<le> length (stream b)" "within b' (stream d)" "synced b d"
  shows "enc_inv b' \<and> (\<exists>d'. dec_call (m, items) d =
      Some (int (stream_index b') + (if W_upper b' > 0x01FFFFFF then 1 else 2), map (\<lambda>(cdf, d, h). d) items, d')
    \<and> stream d' = stream d \<and> synced b' d')"
  using assms bisection.dec_multi_roundtrip [OF assms(1) _ assms(3-6)] onestep.dec_multi_roundtrip [OF assms(1) _ assms(3-6)]
  by (cases m) (simp_all add: dec_call_items valid_call_def hint_ok_def [abs_def])

lemma enc_loop_append: "enc_loop (xs @ ys) b = Option.bind (enc_loop xs b) (enc_loop ys)"
  by (induction xs b rule: enc_loop.induct) (auto intro: Option.bind_cong)

definition all_items :: "call list \<Rightarrow> item list" where
  "all_items calls = concat (map snd calls)"

lemma enc_calls_loop: "enc_calls calls b = enc_loop (enc_items (all_items calls)) b"
proof (induction calls arbitrary: b)
  case (Cons c calls)
  then show ?case by (cases c) (simp add: all_items_def EncHistMulti_items enc_loop_append enc_items_def Cons.IH [abs_def])
qed (simp add: all_items_def enc_items_def)

lemma valid_all_items: "list_all valid_call calls \<Longrightarrow> list_all (valid_item (\<lambda>_ _. True)) (all_items calls)"
  by (fastforce simp: list_all_iff all_items_def valid_call_def valid_item_def)

lemma dec_calls_roundtrip:
  assumes "enc_inv b" "list_all valid_call calls" "enc_calls calls b = Some b'"
    "stream_index b' \<le> length (stream b)" "within b' (stream d)" "synced b d"
  shows "\<exists>rets. dec_calls calls d = Some (rets, map (\<lambda>(m, items). map (\<lambda>(cdf, d, h). d) items) calls)
    \<and> (calls \<noteq> [] \<longrightarrow> rets \<noteq> [] \<and> last rets = int (stream_index b') + (if W_upper b' > 0x01FFFFFF then 1 else 2))"
  using assms
proof (induction calls arbitrary: b d)
  case (Cons c calls)
  obtain m items where c: "c = (m, items)" by (cases c)
  have v: "list_all (valid_item (hint_ok m)) items" "valid_call (m, items)" "list_all valid_call calls"
    using Cons.prems(2) by (simp_all add: c valid_call_def)
  obtain b1 where b1: "enc_loop (enc_items items) b = Some b1" "enc_calls calls b1 = Some b'"
    using Cons.prems(3) by (auto simp: EncHistMulti_items c Option.bind_eq_Some_conv)
  note rest = b1(2) [unfolded enc_calls_loop]
  have w: "enc_wf b1" "length (stream b1) = length (stream b)" using enc_loop_returns [OF enc_inv_wf [OF Cons.prems(1)] v(1)] b1(1) by auto
  have fits: "stream_index b1 \<le> length (stream b)" "stream_index b' \<le> length (stream b1)"
    using enc_loop_returns [OF w(1) valid_all_items [OF v(3)]] rest Cons.prems(4) w(2) by auto
  have inv1: "enc_inv b1" by (rule enc_loop_within(1) [OF Cons.prems(1) v(1) b1(1) fits(1)])
  have "within b1 (stream d)"
    by (rule enc_loop_within(2) [OF inv1 valid_all_items [OF v(3)] rest fits(2) Cons.prems(5)])
  from dec_call_roundtrip [OF Cons.prems(1) v(2) b1(1) fits(1) this Cons.prems(6)]
  obtain d' where d': "dec_call (m, items) d = Some (int (stream_index b1) + (if W_upper b1 > 0x01FFFFFF then 1 else 2),
      map (\<lambda>(cdf, d, h). d) items, d')" "stream d' = stream d" "synced b1 d'" by blast
  from Cons.IH [OF inv1 v(3) b1(2) fits(2) _ d'(3)] Cons.prems(5) d'(2)
  obtain rets where "dec_calls calls d' = Some (rets, map (\<lambda>(m, items). map (\<lambda>(cdf, d, h). d) items) calls)"
    "calls \<noteq> [] \<longrightarrow> rets \<noteq> [] \<and> last rets = int (stream_index b') + (if W_upper b' > 0x01FFFFFF then 1 else 2)" by auto
  then show ?case using d'(1) b1(2) by (cases "calls = []") (auto simp: c)
qed simp

definition fresh_stream :: "int list \<Rightarrow> Bitstr" where
  "fresh_stream s = \<lparr>stream = s, W_upper = 0xFFFFFFFF, streamval = 0, stream_index = 0\<rparr>"

lemma fresh_stream_inv: "byte_list s \<Longrightarrow> enc_inv (fresh_stream s)"
  by (simp add: enc_inv_def fresh_stream_def state_val_def code_val_def)

lemma fresh_synced: "synced (fresh_stream s) (fresh_stream t)"
  by (simp add: synced_def fresh_stream_def offset_def state_val_def code_val_def)

text \<open>The iSAC arithmetic coder is lossless: whatever symbols are encoded in whatever sequence of calls, and
  however the calls divide between the two decoders, decoding the terminated stream returns exactly the symbols;
  the bytes behind the reported length may be anything; and the last decoder call returns the length that the
  encoder reported.\<close>

theorem arith_coder_roundtrip:
  assumes "byte_list buf" "list_all valid_call calls" "enc_calls calls (fresh_stream buf) = Some e"
    "stream_index e + 2 \<le> length buf" "WebRtcIsac_EncTerminate e = (len, e')"
    "byte_list s" "stream_index e + 4 \<le> length s" "take (nat len) s = take (nat len) (stream e')"
  shows "\<exists>rets. dec_calls calls (fresh_stream s) = Some (rets, map (\<lambda>(m, items). map (\<lambda>(cdf, d, h). d) items) calls)
    \<and> (calls \<noteq> [] \<longrightarrow> rets \<noteq> [] \<and> last rets = len)"
proof -
  note inv0 = fresh_stream_inv [OF assms(1)]
  have fits: "stream_index e \<le> length (stream (fresh_stream buf))" "length (stream e) = length buf"
    using enc_loop_returns [OF enc_inv_wf [OF inv0] valid_all_items [OF assms(2)]] assms(3,4) by (auto simp: enc_calls_loop fresh_stream_def)
  have inv: "enc_inv e"
    by (rule enc_loop_within(1) [OF inv0 valid_all_items [OF assms(2)] assms(3) [unfolded enc_calls_loop] fits(1)])
  have "within e s \<and> len = int (stream_index e) + (if W_upper e > 0x01FFFFFF then 1 else 2)"
    using EncTerminate_within [OF inv assms(7) _ assms(5,6,8)] assms(4) fits(2) by simp
  then show ?thesis
    using dec_calls_roundtrip [OF inv0 assms(2,3) fits(1), of "fresh_stream s"] fresh_synced [of buf s] by (simp add: fresh_stream_def)
qed

definition sample_calls :: "call list" where
  "sample_calls = [(OneStep, [([0, 100, 30000, 65535], 0, 2), ([0, 100, 30000, 65535], 2, 0)]),
     (Bisect, [([0, 20000, 65535], 1, 4), ([0, 1, 2, 3, 40000, 50000, 65535], 2, 8)])]"

lemma sample_calls_valid: "list_all valid_call sample_calls"
proof -
  have "power_of_two_table [0, 20000, 65535] 4" "power_of_two_table [0, 1, 2, 3, 40000, 50000, 65535] 8"
    by (auto simp: power_of_two_table_def intro: exI [of _ 1] exI [of _ 2])
  then show ?thesis
    by (simp add: sample_calls_def valid_call_def valid_item_def hint_ok_def wf_cdf_def symbol_of_def)
qed

theorem arith_coder_roundtrip_witness:
  "\<exists>rets. dec_calls sample_calls (fresh_stream [0, 62, 83, 38, 7, 7, 7]) = Some (rets, [[0, 2], [1, 2]])
     \<and> rets \<noteq> [] \<and> last rets = 4"
proof -
  define e e' where "e = \<lparr>stream = [0, 62, 83, 0, 0, 0, 0, 0], W_upper = 631963648, streamval = 624885760, stream_index = 3\<rparr>"
    and "e' = \<lparr>stream = [0, 62, 83, 38, 0, 0, 0, 0], W_upper = 631963648, streamval = 641662976, stream_index = 3\<rparr>"
  have "enc_calls sample_calls (fresh_stream (replicate 8 0)) = Some e" "WebRtcIsac_EncTerminate e = (4, e')"
    unfolding e_def e'_def by code_simp+
  note run = arith_coder_roundtrip [OF _ sample_calls_valid this(1) _ this(2), of "[0, 62, 83, 38, 7, 7, 7]"]
  have "map (\<lambda>(m, items). map (\<lambda>(cdf, d, h). d) items) sample_calls = [[0, 2], [1, 2]]" "sample_calls \<noteq> []"
    by (simp_all add: sample_calls_def)
  then show ?thesis using run by (auto simp: e_def e'_def byte_list_def list_all_iff)
qed

lemma step_down_out:
  assumes "wf_cdf cdf" "16777216 \<le> W" "W < 4294967296" "p < length cdf" "v \<le> scale_cdf W (cdf ! 0)"
  shows "step_down cdf W v p W_tmp = Range_error"
  using assms(4)
proof (induction p arbitrary: W_tmp)
  case (Suc p)
  then show ?case using scale_cdf_mono [OF assms(1) _ _ assms(2,3), of 0 p] assms(5) by (simp add: Let_def)
qed simp

lemma step_up_out:
  assumes "wf_cdf cdf" "16777216 \<le> W" "W < 4294967296" "p < length cdf" "scale_cdf W (last cdf) < v"
  shows "step_up cdf W v p W_tmp = Range_error"
  using assms(4)
proof (induction "length cdf - Suc p" arbitrary: p W_tmp)
  case 0
  then have "cdf ! p = last cdf"
    using assms(1) last_conv_nth [of cdf] by (cases "p = length cdf - 1") (auto simp: wf_cdf_def)
  then show ?case using assms(1) by (subst step_up.simps) (simp add: wf_cdf_def)
next
  case (Suc n)
  have "cdf \<noteq> []" using assms(1) by (simp add: wf_cdf_def)
  then have l: "last cdf = cdf ! (length cdf - 1)" by (simp add: last_conv_nth)
  have "p < length cdf - 1" using Suc(2) by simp
  then have "cdf ! p \<noteq> 65535" using wf_cdf_less [OF assms(1), of p "length cdf - 1"] assms(1) l Suc(2) by (auto simp: wf_cdf_def)
  moreover have "scale_cdf W (cdf ! Suc p) < v"
    using scale_cdf_mono [OF assms(1) _ _ assms(2,3), of "Suc p" "length cdf - 1"] assms(5) l Suc(2) by fastforce
  moreover have "step_up cdf W v (Suc p) (scale_cdf W (cdf ! Suc p)) = Range_error" using Suc(2,3) by (intro Suc(1)) auto
  ultimately show ?case using Suc(2) by (subst step_up.simps) (simp add: Let_def)
qed

lemma symbol_exists:
  assumes "wf_cdf cdf" "scale_cdf W (cdf ! 0) < v" "v \<le> scale_cdf W (last cdf)"
  shows "\<exists>d. symbol_of cdf d \<and> scale_cdf W (cdf ! nat d) < v \<and> v \<le> scale_cdf W (cdf ! nat (d + 1))"
proof -
  define j where "j = (LEAST j. v \<le> scale_cdf W (cdf ! j))"
  have "cdf \<noteq> []" using assms(1) by (simp add: wf_cdf_def)
  then have l: "v \<le> scale_cdf W (cdf ! (length cdf - 1))" using assms(3) by (simp add: last_conv_nth)
  then have j: "v \<le> scale_cdf W (cdf ! j)" "j \<le> length cdf - 1" unfolding j_def by (rule LeastI, rule Least_le)
  have "0 < j" using j(1) assms(2) by (cases j) auto
  then have "\<not> v \<le> scale_cdf W (cdf ! (j - 1))" unfolding j_def by (intro not_less_Least) simp
  then show ?thesis using j \<open>0 < j\<close> \<open>cdf \<noteq> []\<close> by (intro exI [of _ "int j - 1"]) (auto simp: symbol_of_def nat_diff_distrib)
qed

text \<open>The single-step search is safe on any stream, also a corrupt one: it never runs past the table, and it
  reports the range error exactly when the value lies outside the intervals of all symbols.\<close>

theorem onestep_search_safe:
  assumes "wf_cdf cdf" "init_index < length cdf" "16777216 \<le> W" "W < 4294967296"
  shows "onestep_search cdf init_index W v wl \<noteq> Past_table \<and>
    (onestep_search cdf init_index W v wl = Range_error \<longleftrightarrow> v \<le> scale_cdf W (cdf ! 0) \<or> scale_cdf W (last cdf) < v)"
proof -
  have "cdf \<noteq> []" using assms(1) by (simp add: wf_cdf_def)
  then have l: "last cdf = cdf ! (length cdf - 1)" by (simp add: last_conv_nth)
  note mono = scale_cdf_mono [OF assms(1) _ _ assms(3,4)]
  consider "v \<le> scale_cdf W (cdf ! 0)" | "scale_cdf W (last cdf) < v" | "scale_cdf W (cdf ! 0) < v" "v \<le> scale_cdf W (last cdf)"
    by linarith
  then show ?thesis
  proof cases
    case 1
    then have "v \<le> scale_cdf W (cdf ! init_index)" using mono [of 0 init_index] assms(2) by simp
    then show ?thesis using step_down_out [OF assms(1,3,4,2) 1] 1 by (simp add: onestep_search_def Let_def)
  next
    case 2
    then have "scale_cdf W (cdf ! init_index) < v" using mono [of init_index "length cdf - 1"] assms(2) l by fastforce
    then show ?thesis using step_up_out [OF assms(1,3,4,2) 2] 2 by (simp add: onestep_search_def Let_def)
  next
    case 3
    from symbol_exists [OF assms(1) this] onestep.search_finds [OF assms(1,2) _ assms(3,4)] 3
    show ?thesis by fastforce
  qed
qed

theorem onestep_search_safe_witness:
  "onestep_search [0, 100, 65535] 1 0xFFFFFFFF 0 7 \<noteq> Past_table \<and>
    (onestep_search [0, 100, 65535] 1 0xFFFFFFFF 0 7 = Range_error \<longleftrightarrow>
      (0 :: int) \<le> scale_cdf 0xFFFFFFFF ([0, 100, 65535] ! 0) \<or> scale_cdf 0xFFFFFFFF (last [0, 100, 65535]) < 0)"
  by (rule onestep_search_safe) (simp_all add: wf_cdf_def)

text \<open>
  The encoder with every access to the stream checked: \<open>None\<close> also stands for an access outside of the array, at which
  \<open>propagate_carry\<close> and \<open>enc_renorm\<close> leave the list unchanged.
\<close>

fun checked_carry :: "int list \<Rightarrow> nat \<Rightarrow> int list option" where
  "checked_carry s 0 = None"
| "checked_carry s (Suc i) =
    (if length s \<le> i then None
     else let v = u8 (s ! i + 1) in if v = 0 then checked_carry (s[i := v]) i else Some (s[i := v]))"

partial_function (option) checked_renorm :: "int \<Rightarrow> int \<Rightarrow> int list \<Rightarrow> nat \<Rightarrow> (int \<times> int \<times> int list \<times> nat) option" where
  "checked_renorm W v s i =
    (if W AND 0xFF000000 = 0 then
       (if length s \<le> i then None else checked_renorm (u32 (shl W 8)) (u32 (shl v 8)) (s[i := u8 (asr v 24)]) (i + 1))
     else Some (W, v, s, i))"

definition checked_symbol :: "int list \<Rightarrow> int \<Rightarrow> Bitstr \<Rightarrow> Bitstr option" where
  "checked_symbol cdf d b =
    (let W_lower = u32 (scale_cdf (W_upper b) (cdf ! nat d) + 1);
         W = u32 (scale_cdf (W_upper b) (cdf ! nat (d + 1)) - W_lower);
         v = u32 (streamval b + W_lower)
     in Option.bind (if v < W_lower then checked_carry (stream b) (stream_index b) else Some (stream b)) (\<lambda>s.
        map_option (\<lambda>(W, v, s, i). b\<lparr>stream := s, W_upper := W, streamval := v, stream_index := i\<rparr>)
          (checked_renorm W v s (stream_index b))))"

fun checked_loop :: "(int list \<times> int) list \<Rightarrow> Bitstr \<Rightarrow> Bitstr option" where
  "checked_loop [] b = Some b"
| "checked_loop ((cdf, d) # rest) b = Option.bind (checked_symbol cdf d b) (checked_loop rest)"

lemma checked_carry_inside:
  "byte_list s \<Longrightarrow> i \<le> length s \<Longrightarrow> be_val (take i s) + 1 < 256 ^ i \<Longrightarrow> checked_carry s i = Some (propagate_carry s i)"
proof (induction s i rule: propagate_carry.induct)
  case (2 s i)
  have i: "i < length s" using 2(3) by simp
  have b: "0 \<le> s ! i" "s ! i < 256" using bytes_nth [OF 2(2) i] by auto
  show ?case
  proof (cases "s ! i = 255")
    case True
    have u: "u8 (s ! i + 1) = 0" by (simp add: True c_conv)
    have "be_val (take i s) + 1 < 256 ^ i" using 2(4) True be_val_take_Suc [OF i] by simp
    then show ?thesis using 2(1) [OF refl] 2(2) i by (simp add: u bytes_update Let_def)
  next
    case False
    then have "u8 (s ! i + 1) = s ! i + 1" using b by (simp add: u8_id)
    then show ?thesis using b i by (simp add: Let_def)
  qed
qed simp

lemma checked_renorm_inside:
  assumes "enc_renorm W v s i = Some r"
  shows "i \<le> snd (snd (snd r)) \<and> (snd (snd (snd r)) \<le> length s \<longrightarrow> checked_renorm W v s i = Some r)"
proof (rule enc_renorm.raw_induct [OF _ assms])
  fix rec :: "int \<Rightarrow> int \<Rightarrow> int list \<Rightarrow> nat \<Rightarrow> (int \<times> int \<times> int list \<times> nat) option" and W v s i r
  assume IH: "\<And>W v s i r. rec W v s i = Some r \<Longrightarrow>
      i \<le> snd (snd (snd r)) \<and> (snd (snd (snd r)) \<le> length s \<longrightarrow> checked_renorm W v s i = Some r)"
    and step: "(if W AND 0xFF000000 = 0 then rec (u32 (shl W 8)) (u32 (shl v 8)) (s[i := u8 (asr v 24)]) (i + 1) else Some (W, v, s, i)) = Some r"
  show "i \<le> snd (snd (snd r)) \<and> (snd (snd (snd r)) \<le> length s \<longrightarrow> checked_renorm W v s i = Some r)"
  proof (cases "W AND 0xFF000000 = 0")
    case True
    then have "rec (u32 (shl W 8)) (u32 (shl v 8)) (s[i := u8 (asr v 24)]) (i + 1) = Some r" using step by simp
    from IH [OF this] show ?thesis by (subst checked_renorm.simps) (auto simp: True)
  next
    case False
    then show ?thesis using step by (subst checked_renorm.simps) auto
  qed
qed

text \<open>A symbol takes at most three bytes, and the carry of a reachable state stops inside of the stream.\<close>

lemma checked_symbol_inside:
  assumes inv: "enc_inv b" and room: "stream_index b + 3 \<le> length (stream b)" and cdf: "wf_cdf cdf" "symbol_of cdf d"
  shows "\<exists>b'. enc_symbol cdf d b = Some b' \<and> checked_symbol cdf d b = Some b' \<and> enc_inv b' \<and>
    stream_index b' \<le> stream_index b + 3 \<and> length (stream b') = length (stream b)"
proof -
  let ?lo = "scale_cdf (W_upper b) (cdf ! nat d)" and ?hi = "scale_cdf (W_upper b) (cdf ! nat (d + 1))"
  have fits: "stream_index b \<le> length (stream b)" using room by simp
  from enc_symbol_step [OF inv fits cdf refl refl] obtain n b' where b': "enc_symbol cdf d b = Some b'" "stream_index b' = stream_index b + n"
    "length (stream b') = length (stream b)" "W_upper b' = (?hi - ?lo - 1) * 256 ^ n" "W_upper b' < 4294967296"
    "stream_index b' \<le> length (stream b) \<longrightarrow> enc_inv b'" "0 \<le> ?lo" "?lo + 256 \<le> ?hi" "?hi \<le> W_upper b" by blast
  have n: "n \<le> 3"
  proof (rule ccontr)
    assume "\<not> n \<le> 3"
    then have "(256 :: int) ^ 4 \<le> 256 ^ n" by (intro power_increasing) auto
    then have "255 * 256 ^ 4 \<le> (?hi - ?lo - 1) * 256 ^ n" using b'(8) by (intro mult_mono) auto
    then show False using b'(4,5) by simp
  qed
  have W: "W_upper b < 4294967296" "0 \<le> streamval b" "streamval b < 4294967296" "byte_list (stream b)"
    "state_val b + W_upper b < 256 ^ (stream_index b + 4)" using inv by (simp_all add: enc_inv_def)
  have u: "u32 (?lo + 1) = ?lo + 1" "u32 (?hi - (?lo + 1)) = ?hi - ?lo - 1" using b'(7-9) W(1) by (simp_all add: u32_id)
  define v s where "v = u32 (streamval b + (?lo + 1))"
    and "s = (if v < ?lo + 1 then propagate_carry (stream b) (stream_index b) else stream b)"
  have s: "(if v < ?lo + 1 then checked_carry (stream b) (stream_index b) else Some (stream b)) = Some s"
  proof (cases "v < ?lo + 1")
    case True
    have "4294967296 \<le> streamval b + (?lo + 1)"
    proof (rule ccontr)
      assume "\<not> 4294967296 \<le> streamval b + (?lo + 1)"
      then have "v = streamval b + (?lo + 1)" using W(2) b'(7) by (simp add: v_def u32_id)
      then show False using True W(2) by simp
    qed
    then have "(be_val (take (stream_index b) (stream b)) + 1) * 4294967296 \<le> state_val b + (?lo + 1)" by (simp add: state_val_def code_val_def)
    also have "\<dots> < 256 ^ (stream_index b + 4)" using W(5) b'(8,9) by linarith
    finally have "(be_val (take (stream_index b) (stream b)) + 1) * 4294967296 < 256 ^ stream_index b * 4294967296" by (simp add: power_add)
    then have "be_val (take (stream_index b) (stream b)) + 1 < 256 ^ stream_index b" by simp
    then show ?thesis using True checked_carry_inside [OF W(4) fits] by (simp add: s_def)
  qed (simp add: s_def)
  have ls: "length s = length (stream b)" by (simp add: s_def)
  have "enc_symbol cdf d b = map_option (\<lambda>(W, v, s, i). b\<lparr>stream := s, W_upper := W, streamval := v, stream_index := i\<rparr>)
      (enc_renorm (?hi - ?lo - 1) v s (stream_index b))"
    by (simp add: enc_symbol_def enc_interval_def Let_def u v_def s_def)
  with b'(1) obtain r where r: "enc_renorm (?hi - ?lo - 1) v s (stream_index b) = Some r"
    "b' = (case r of (W, v, s, i) \<Rightarrow> b\<lparr>stream := s, W_upper := W, streamval := v, stream_index := i\<rparr>)" by auto
  then have "snd (snd (snd r)) = stream_index b'" by (simp split: prod.splits)
  then have "checked_renorm (?hi - ?lo - 1) v s (stream_index b) = Some r"
    using checked_renorm_inside [OF r(1)] n b'(2) room ls by simp
  then have "checked_symbol cdf d b = Some b'"
    using s r(2) by (simp add: checked_symbol_def Let_def u v_def [symmetric])
  then show ?thesis using b'(1-3,6) n room by auto
qed

lemma checked_loop_inside:
  assumes "enc_inv b" "stream_index b + 3 * length items \<le> length (stream b)" "list_all (\<lambda>(c, d). wf_cdf c \<and> symbol_of c d) items"
  shows "\<exists>b'. enc_loop items b = Some b' \<and> checked_loop items b = Some b' \<and> enc_inv b' \<and>
    stream_index b' \<le> stream_index b + 3 * length items \<and> length (stream b') = length (stream b)"
  using assms
proof (induction items arbitrary: b)
  case (Cons x items)
  obtain cdf d where x: "x = (cdf, d)" by (cases x)
  obtain b1 where b1: "enc_symbol cdf d b = Some b1" "checked_symbol cdf d b = Some b1" "enc_inv b1" "stream_index b1 \<le> stream_index b + 3"
    "length (stream b1) = length (stream b)"
    using checked_symbol_inside [of b cdf d] Cons.prems by (auto simp: x)
  from Cons.IH [OF b1(3)] b1 Cons.prems show ?case by (fastforce simp: x)
qed simp


text \<open>C24. Memory safety and termination of the table encoder: from any state of the coder (renormalised, with the code
  value inside of the bytes written so far) and with room for three bytes per symbol, it returns for every vector of valid
  symbols, its renormalisation loop ends, and no access leaves the stream: neither the carry, which runs backwards without
  a test, nor the output, which runs forwards without one. The coder is in such a state again.\<close>

theorem EncHistMulti_safe:
  assumes "enc_inv b" "length cdf = length data" "list_all2 (\<lambda>c d. wf_cdf c \<and> symbol_of c d) cdf data"
    "stream_index b + 3 * length data \<le> length (stream b)"
  shows "\<exists>b'. WebRtcIsac_EncHistMulti b data cdf (int (length data)) = Some b' \<and> checked_loop (zip cdf data) b = Some b'
    \<and> enc_inv b' \<and> length (stream b') = length (stream b) \<and> stream_index b' \<le> stream_index b + 3 * length data"
proof -
  have "list_all (\<lambda>(c, d). wf_cdf c \<and> symbol_of c d) (zip cdf data)" using assms(3) by (auto simp: list_all_iff list_all2_iff)
  from checked_loop_inside [OF assms(1) _ this] assms(2,4) show ?thesis by (auto simp: WebRtcIsac_EncHistMulti_def)
qed

theorem EncHistMulti_safe_witness:
  "\<exists>b'. WebRtcIsac_EncHistMulti (fresh_stream (replicate 8 0)) [1, 0] [[0, 20000, 65535], [0, 3, 65535]] 2 = Some b'
    \<and> checked_loop [([0, 20000, 65535], 1), ([0, 3, 65535], 0)] (fresh_stream (replicate 8 0)) = Some b'
    \<and> enc_inv b' \<and> length (stream b') = 8 \<and> stream_index b' \<le> 6"
proof -
  have "byte_list (replicate 8 0)" by code_simp
  moreover have "list_all2 (\<lambda>c d. wf_cdf c \<and> symbol_of c d) [[0, 20000, 65535], [0, 3, 65535]] [1, 0]"
    by (simp add: wf_cdf_def symbol_of_def)
  ultimately show ?thesis
    using EncHistMulti_safe [OF fresh_stream_inv [of "replicate 8 0"], of "[[0, 20000, 65535], [0, 3, 65535]]" "[1, 0]"]
    by (simp add: fresh_stream_def)
qed









end
