(* ===== verification/IsacLogist.thy ===== *)
theory IsacLogist
  imports IsacArith
begin

text \<open>
  The coding of the spectrum in the iSAC codec
  (\<^verbatim>\<open>webrtc/modules/audio_coding/codecs/isac/main/source/arith_routines_logist.c\<close>): the logistic
  distribution function as a piecewise linear table, the encoder, which clips coefficients whose probability is
  too small and checks the length of the stream, and the decoder, which walks from the symbol around the
  negated dither.

  \<open>int16_t\<close> and \<open>int32_t\<close> values are reduced by \<open>s16\<close> and \<open>s32\<close> where the code computes in these types. The
  clipping loop and the two loops of the decoder need not end, so they are partial functions and \<open>None\<close> is
  not returning.
\<close>

subsection \<open>The distribution function\<close>

definition kHistEdgesQ15 :: "int list" where
  "kHistEdgesQ15 = [
    -327680, -314573, -301466, -288359, -275252, -262144, -249037, -235930, -222823, -209716,
    -196608, -183501, -170394, -157287, -144180, -131072, -117965, -104858, -91751, -78644,
    -65536, -52429, -39322, -26215, -13108, 0, 13107, 26214, 39321, 52428,
    65536, 78643, 91750, 104857, 117964, 131072, 144179, 157286, 170393, 183500,
    196608, 209715, 222822, 235929, 249036, 262144, 275251, 288358, 301465, 314572,
    327680]"

definition kCdfSlopeQ0 :: "int list" where
  "kCdfSlopeQ0 = [
    5, 5, 5, 5, 5, 5, 5, 5, 5, 5,
    5, 5, 13, 23, 47, 87, 154, 315, 700, 1088,
    2471, 6064, 14221, 21463, 36634, 36924, 19750, 13270, 5806, 2312,
    1095, 660, 316, 145, 86, 41, 32, 5, 5, 5,
    5, 5, 5, 5, 5, 5, 5, 5, 5, 2, 0]"

definition kCdfQ16 :: "int list" where
  "kCdfQ16 = [
    0, 2, 4, 6, 8, 10, 12, 14, 16, 18,
    20, 22, 24, 29, 38, 57, 92, 153, 279, 559,
    994, 1983, 4408, 10097, 18682, 33336, 48105, 56005, 61313, 63636,
    64560, 64998, 65262, 65389, 65447, 65481, 65497, 65510, 65512, 65514,
    65516, 65518, 65520, 65522, 65524, 65526, 65528, 65530, 65532, 65534,
    65535]"

definition piecewise :: "int \<Rightarrow> int" where
  "piecewise xinQ15 =
    (let qtmp2 = xinQ15;
         qtmp2 = (if qtmp2 < kHistEdgesQ15 ! 0 then kHistEdgesQ15 ! 0 else qtmp2);
         qtmp2 = (if qtmp2 > kHistEdgesQ15 ! 50 then kHistEdgesQ15 ! 50 else qtmp2);
         qtmp1 = s32 (qtmp2 - kHistEdgesQ15 ! 0);
         ind = nat (asr (s32 (qtmp1 * 5)) 16);
         qtmp1 = s32 (qtmp2 - kHistEdgesQ15 ! ind);
         qtmp2 = s32 (kCdfSlopeQ0 ! ind * qtmp1);
         qtmp3 = asr qtmp2 15
     in u32 (kCdfQ16 ! ind + qtmp3))"

subsection \<open>Encoder\<close>

text \<open>\<open>while (cdf_lo + 1 >= cdf_hi)\<close>: the clipped coefficient with the bounds of its interval.\<close>

partial_function (option) clip_loop :: "int \<Rightarrow> int \<Rightarrow> int \<Rightarrow> int \<Rightarrow> (int \<times> int \<times> int) option" where
  "clip_loop envQ8 dataQ7 cdf_lo cdf_hi =
    (if u32 (cdf_lo + 1) \<ge> cdf_hi
     then if dataQ7 > 0
       then let dataQ7 = s16 (dataQ7 - 128) in clip_loop envQ8 dataQ7 (piecewise (s32 ((dataQ7 - 64) * envQ8))) cdf_lo
       else let dataQ7 = s16 (dataQ7 + 128) in clip_loop envQ8 dataQ7 cdf_hi (piecewise (s32 ((dataQ7 + 64) * envQ8)))
     else Some (dataQ7, cdf_lo, cdf_hi))"

declare clip_loop.simps [code]

definition clip :: "int \<Rightarrow> int \<Rightarrow> (int \<times> int \<times> int) option" where
  "clip envQ8 dataQ7 = clip_loop envQ8 dataQ7 (piecewise (s32 ((dataQ7 - 64) * envQ8))) (piecewise (s32 ((dataQ7 + 64) * envQ8)))"

definition STREAM_SIZE_MAX_60 :: nat where
  "STREAM_SIZE_MAX_60 = 400"

text \<open>The renormalisation with the check of the stream pointer: \<open>Inl\<close> with the values of \<open>streamval\<close> and \<open>stream\<close>
  when it fails.\<close>

partial_function (option) enc_renorm_max :: "int \<Rightarrow> int \<Rightarrow> int list \<Rightarrow> nat \<Rightarrow> (int \<times> int list + int \<times> int \<times> int list \<times> nat) option" where
  "enc_renorm_max W v s i =
    (if W AND 0xFF000000 = 0
     then let s = s[i := u8 (asr v 24)]; i = i + 1
          in if i > STREAM_SIZE_MAX_60 - 1 then Some (Inl (v, s))
             else enc_renorm_max (u32 (shl W 8)) (u32 (shl v 8)) s i
     else Some (Inr (W, v, s, i)))"

declare enc_renorm_max.simps [code]

text \<open>The loop body from the update of the interval on; \<open>W_upper\<close> and the stream pointer are local variables of the
  function and reach the struct only at its end.\<close>

definition enc_interval_max :: "int \<Rightarrow> int \<Rightarrow> Bitstr \<Rightarrow> (Bitstr + Bitstr) option" where
  "enc_interval_max cdf_lo cdf_hi b =
    (let W_lower = u32 (scale_cdf (W_upper b) cdf_lo + 1);
         W = u32 (scale_cdf (W_upper b) cdf_hi - W_lower);
         v = u32 (streamval b + W_lower);
         s = (if v < W_lower then propagate_carry (stream b) (stream_index b) else stream b)
     in map_option (map_sum (\<lambda>(v, s). b\<lparr>stream := s, streamval := v\<rparr>)
          (\<lambda>(W, v, s, i). b\<lparr>stream := s, W_upper := W, streamval := v, stream_index := i\<rparr>))
          (enc_renorm_max W v s (stream_index b)))"

text \<open>How far the pointer into the envelope moves after coefficient \<open>k\<close>.\<close>

definition env_step :: "bool \<Rightarrow> nat \<Rightarrow> nat" where
  "env_step isSWB12kHz k = (if isSWB12kHz then k mod 2 else if odd k \<and> odd (k div 2) then 1 else 0)"

fun enc_logist_loop :: "bool \<Rightarrow> nat \<Rightarrow> int list \<Rightarrow> int list \<Rightarrow> Bitstr \<Rightarrow> (int list \<times> (Bitstr + Bitstr)) option" where
  "enc_logist_loop sw k [] env b = Some ([], Inr b)"
| "enc_logist_loop sw k (d # ds) env b =
    (case clip (hd env) d of
       None \<Rightarrow> None
     | Some (d', cdf_lo, cdf_hi) \<Rightarrow>
        (case enc_interval_max cdf_lo cdf_hi b of
           None \<Rightarrow> None
         | Some (Inl b') \<Rightarrow> Some (d' # ds, Inl b')
         | Some (Inr b') \<Rightarrow> map_option (\<lambda>(ds', r). (d' # ds', r))
             (enc_logist_loop sw (k + 1) ds (drop (env_step sw k) env) b')))"

text \<open>The return value, the clipped coefficients and the struct afterwards.\<close>

definition WebRtcIsac_EncLogisticMulti2 :: "Bitstr \<Rightarrow> int list \<Rightarrow> int list \<Rightarrow> int \<Rightarrow> bool \<Rightarrow> (int \<times> int list \<times> Bitstr) option" where
  "WebRtcIsac_EncLogisticMulti2 b dataQ7 envQ8 N isSWB12kHz =
    map_option (\<lambda>(ds, r). case r of
        Inl b' \<Rightarrow> (- 6440, ds @ drop (nat N) dataQ7, b'\<lparr>W_upper := W_upper b, stream_index := stream_index b\<rparr>)
      | Inr b' \<Rightarrow> (0, ds @ drop (nat N) dataQ7, b'))
      (enc_logist_loop isSWB12kHz 0 (take (nat N) dataQ7) envQ8 b)"

subsection \<open>Decoder\<close>

definition cand_bound :: "int \<Rightarrow> int \<Rightarrow> int \<Rightarrow> int" where
  "cand_bound W envQ8 candQ7 = scale_cdf W (piecewise (s32 (candQ7 * envQ8)))"

partial_function (option) cand_up :: "int \<Rightarrow> int \<Rightarrow> int \<Rightarrow> int \<Rightarrow> int \<Rightarrow> int \<Rightarrow> search option" where
  "cand_up W envQ8 v candQ7 W_lower W_tmp =
    (if v > W_tmp
     then let W_lower = W_tmp; candQ7 = s16 (candQ7 + 128); W_tmp = cand_bound W envQ8 candQ7
          in if W_lower = W_tmp then Some Range_error else cand_up W envQ8 v candQ7 W_lower W_tmp
     else Some (Found (s16 (candQ7 - 64)) W_lower W_tmp))"

declare cand_up.simps [code]

partial_function (option) cand_down :: "int \<Rightarrow> int \<Rightarrow> int \<Rightarrow> int \<Rightarrow> int \<Rightarrow> int \<Rightarrow> search option" where
  "cand_down W envQ8 v candQ7 W_hi W_tmp =
    (if \<not> v > W_tmp
     then let W_hi = W_tmp; candQ7 = s16 (candQ7 - 128); W_tmp = cand_bound W envQ8 candQ7
          in if W_hi = W_tmp then Some Range_error else cand_down W envQ8 v candQ7 W_hi W_tmp
     else Some (Found (s16 (candQ7 + 64)) W_tmp W_hi))"

declare cand_down.simps [code]

definition cand_search :: "int \<Rightarrow> int \<Rightarrow> int \<Rightarrow> int \<Rightarrow> search option" where
  "cand_search W envQ8 ditherQ7 v =
    (let candQ7 = s16 (- ditherQ7 + 64); W_tmp = cand_bound W envQ8 candQ7
     in if v > W_tmp
        then let candQ7 = s16 (candQ7 + 128) in cand_up W envQ8 v candQ7 W_tmp (cand_bound W envQ8 candQ7)
        else let candQ7 = s16 (candQ7 - 128) in cand_down W envQ8 v candQ7 W_tmp (cand_bound W envQ8 candQ7))"

fun dec_logist_loop :: "bool \<Rightarrow> nat \<Rightarrow> int list \<Rightarrow> int list \<Rightarrow> int \<Rightarrow> int \<Rightarrow> int list \<Rightarrow> nat \<Rightarrow>
    (int list \<times> (int + int \<times> int \<times> nat)) option" where
  "dec_logist_loop sw k [] env W v s i = Some ([], Inr (W, v, i))"
| "dec_logist_loop sw k (dither # dithers) env W v s i =
    (case cand_search W (hd env) dither v of
       Some (Found d wl wu) \<Rightarrow>
        (let wl = u32 (wl + 1)
         in case dec_renorm (u32 (wu - wl)) (u32 (v - wl)) s i of
              None \<Rightarrow> None
            | Some (W, v, i) \<Rightarrow> map_option (\<lambda>(ds, r). (d # ds, r))
                (dec_logist_loop sw (k + 1) dithers (drop (env_step sw k) env) W v s i))
     | Some _ \<Rightarrow> Some ([], Inl (- 1))
     | None \<Rightarrow> None)"

text \<open>The return value, the decoded coefficients and the struct afterwards.\<close>

definition WebRtcIsac_DecLogisticMulti2 :: "Bitstr \<Rightarrow> int list \<Rightarrow> int list \<Rightarrow> int \<Rightarrow> bool \<Rightarrow> (int \<times> int list \<times> Bitstr) option" where
  "WebRtcIsac_DecLogisticMulti2 b envQ8 ditherQ7 N isSWB12kHz =
    (let s = stream b;
         (v, i) = (if stream_index b = 0 then (shl (s ! 0) 24 OR shl (s ! 1) 16 OR shl (s ! 2) 8 OR s ! 3, 3)
                   else (streamval b, stream_index b))
     in case dec_logist_loop isSWB12kHz 0 (take (nat N) ditherQ7) envQ8 (W_upper b) v s i of
          None \<Rightarrow> None
        | Some (ds, Inl e) \<Rightarrow> Some (e, ds, b)
        | Some (ds, Inr (W, v, i)) \<Rightarrow>
            Some (if W > 0x01FFFFFF then int i - 2 else int i - 1, ds,
                  b\<lparr>stream_index := i, W_upper := W, streamval := v\<rparr>))"

subsection \<open>Properties of the distribution function\<close>

text \<open>The segments of the table. \<open>seg x\<close> is the index that the code computes for a value inside the range, \<open>seg_min\<close> and
  \<open>seg_max\<close> are the first and last value with this index.\<close>

definition seg :: "int \<Rightarrow> int" where "seg x = (x + 327680) * 5 div 65536"
definition seg_max :: "nat \<Rightarrow> int" where "seg_max i = (65536 * (int i + 1) - 1) div 5 - 327680"
definition seg_min :: "nat \<Rightarrow> int" where "seg_min i = (65536 * int i + 4) div 5 - 327680"
definition segment :: "nat \<Rightarrow> int \<Rightarrow> int" where
  "segment i x = kCdfQ16 ! i + kCdfSlopeQ0 ! i * (x - kHistEdgesQ15 ! i) div 32768"

definition clamp :: "int \<Rightarrow> int" where "clamp x = max (- 327680) (min 327680 x)"

lemma edges: "kHistEdgesQ15 ! 0 = - 327680" "kHistEdgesQ15 ! 50 = 327680"
  by (simp_all add: kHistEdgesQ15_def)

lemma seg_bounds: "- 327680 \<le> x \<Longrightarrow> x \<le> 327680 \<Longrightarrow> 0 \<le> seg x \<and> seg x \<le> 50"
  by (auto simp: seg_def)

lemma seg_limits: "0 \<le> seg x \<Longrightarrow> seg_min (nat (seg x)) \<le> x \<and> x \<le> seg_max (nat (seg x))"
  unfolding seg_min_def seg_max_def seg_def by simp linarith

lemma table_ranges:
  assumes "i \<le> 50"
  shows "0 \<le> kCdfSlopeQ0 ! i" "kCdfSlopeQ0 ! i \<le> 36924" "kHistEdgesQ15 ! i \<le> seg_min i" "seg_max i \<le> kHistEdgesQ15 ! i + 13107 \<or> i = 50"
    "- 327680 \<le> kHistEdgesQ15 ! i" "0 \<le> kCdfQ16 ! i" "kCdfQ16 ! i \<le> 65535"
proof -
  have "list_all (\<lambda>i. 0 \<le> kCdfSlopeQ0 ! i \<and> kCdfSlopeQ0 ! i \<le> 36924 \<and> kHistEdgesQ15 ! i \<le> seg_min i \<and>
      (seg_max i \<le> kHistEdgesQ15 ! i + 13107 \<or> i = 50) \<and> - 327680 \<le> kHistEdgesQ15 ! i \<and> 0 \<le> kCdfQ16 ! i \<and> kCdfQ16 ! i \<le> 65535) [0..<51]"
    by code_simp
  then show "0 \<le> kCdfSlopeQ0 ! i" "kCdfSlopeQ0 ! i \<le> 36924" "kHistEdgesQ15 ! i \<le> seg_min i" "seg_max i \<le> kHistEdgesQ15 ! i + 13107 \<or> i = 50"
    "- 327680 \<le> kHistEdgesQ15 ! i" "0 \<le> kCdfQ16 ! i" "kCdfQ16 ! i \<le> 65535"
    using assms by (auto simp: list_all_iff)
qed

lemma table_steps:
  assumes "i < 50"
  shows "segment i (seg_max i) \<le> kCdfQ16 ! (i + 1)" "kCdfQ16 ! i < kCdfQ16 ! (i + 1)" "seg_max i + 1 = seg_min (i + 1)"
    "kHistEdgesQ15 ! (i + 1) \<le> kHistEdgesQ15 ! i + 13108"
proof -
  have "list_all (\<lambda>i. segment i (seg_max i) \<le> kCdfQ16 ! (i + 1) \<and> kCdfQ16 ! i < kCdfQ16 ! (i + 1) \<and> seg_max i + 1 = seg_min (i + 1) \<and>
     kHistEdgesQ15 ! (i + 1) \<le> kHistEdgesQ15 ! i + 13108) [0..<50]"
    by code_simp
  then show "segment i (seg_max i) \<le> kCdfQ16 ! (i + 1)" "kCdfQ16 ! i < kCdfQ16 ! (i + 1)" "seg_max i + 1 = seg_min (i + 1)"
    "kHistEdgesQ15 ! (i + 1) \<le> kHistEdgesQ15 ! i + 13108"
    using assms by (auto simp: list_all_iff)
qed

lemma segment_mono: "i \<le> 50 \<Longrightarrow> x \<le> y \<Longrightarrow> segment i x \<le> segment i y"
  using table_ranges(1) [of i] by (auto simp: segment_def intro!: zdiv_mono1 mult_left_mono)

lemma segment_lower:
  assumes "i \<le> 50" "seg_min i \<le> x"
  shows "kCdfQ16 ! i \<le> segment i x"
proof -
  have "0 \<le> kCdfSlopeQ0 ! i * (x - kHistEdgesQ15 ! i)" using table_ranges [OF assms(1)] assms(2) by simp
  then show ?thesis by (simp add: segment_def pos_imp_zdiv_nonneg_iff)
qed

lemma segment_bounds:
  assumes "i \<le> 50" "seg_min i \<le> x" "x \<le> seg_max i" "i = 50 \<longrightarrow> x = 327680"
  shows "i < 50 \<Longrightarrow> segment i x \<le> kCdfQ16 ! (i + 1)" "segment i x \<le> 65535"
proof -
  show le: "segment i x \<le> kCdfQ16 ! (i + 1)" if "i < 50"
    using segment_mono [OF assms(1,3)] table_steps(1) [OF that] by linarith
  show "segment i x \<le> 65535"
  proof (cases "i = 50")
    case True
    then show ?thesis using assms(4) by (simp add: segment_def kCdfSlopeQ0_def kCdfQ16_def)
  next
    case False
    then show ?thesis using le table_ranges(7) [of "i + 1"] assms(1) by linarith
  qed
qed

lemma clamp_range: "- 327680 \<le> clamp x" "clamp x \<le> 327680"
  by (simp_all add: clamp_def)

lemma seg_nat: "nat (seg (clamp x)) \<le> 50" "0 \<le> seg (clamp x)"
  using seg_bounds [OF clamp_range] by (simp_all add: nat_le_iff)

lemma clamp_segment:
  "seg_min (nat (seg (clamp x))) \<le> clamp x" "clamp x \<le> seg_max (nat (seg (clamp x)))" "nat (seg (clamp x)) = 50 \<longrightarrow> clamp x = 327680"
proof -
  have "seg_min 50 = 327680" by (simp add: seg_min_def)
  then show "seg_min (nat (seg (clamp x))) \<le> clamp x" "clamp x \<le> seg_max (nat (seg (clamp x)))" "nat (seg (clamp x)) = 50 \<longrightarrow> clamp x = 327680"
    using seg_limits [OF seg_nat(2), of x] clamp_range [of x] by auto
qed

text \<open>What the code computes, without the conversions: none of them changes a value.\<close>

lemma piecewise_segment: "piecewise x = segment (nat (seg (clamp x))) (clamp x)"
proof -
  let ?c = "clamp x" and ?i = "nat (seg (clamp x))"
  have c: "(let q = (if x < kHistEdgesQ15 ! 0 then kHistEdgesQ15 ! 0 else x) in if q > kHistEdgesQ15 ! 50 then kHistEdgesQ15 ! 50 else q) = ?c"
    by (simp add: edges clamp_def)
  have "s32 (?c - kHistEdgesQ15 ! 0) = ?c + 327680" "s32 ((?c + 327680) * 5) = (?c + 327680) * 5"
    using clamp_range [of x] by (simp_all add: edges s32_id)
  then have i: "nat (asr (s32 (s32 (?c - kHistEdgesQ15 ! 0) * 5)) 16) = ?i" by (simp add: asr_div seg_def)
  note t = table_ranges [OF seg_nat(1), of x]
  have d: "0 \<le> ?c - kHistEdgesQ15 ! ?i" "?c - kHistEdgesQ15 ! ?i \<le> 13107"
    using t(3,4) clamp_segment [of x] edges(2) by auto
  have "kCdfSlopeQ0 ! ?i * (?c - kHistEdgesQ15 ! ?i) \<le> 36924 * 13107" "0 \<le> kCdfSlopeQ0 ! ?i * (?c - kHistEdgesQ15 ! ?i)"
    using mult_mono [OF t(2) d(2)] t(1) d(1) by simp_all
  then have "s32 (kCdfSlopeQ0 ! ?i * s32 (?c - kHistEdgesQ15 ! ?i)) = kCdfSlopeQ0 ! ?i * (?c - kHistEdgesQ15 ! ?i)"
    using d by (simp add: s32_id)
  moreover have "u32 (segment ?i ?c) = segment ?i ?c"
    using segment_bounds(2) [OF seg_nat(1) clamp_segment, of x] segment_lower [OF seg_nat(1) clamp_segment(1), of x] t(6) by (intro u32_id) auto
  ultimately show ?thesis using c i unfolding piecewise_def Let_def
    by (simp add: asr_div segment_def)
qed

lemma piecewise_bounds: "0 \<le> piecewise x" "piecewise x \<le> 65535"
  using segment_bounds(2) [OF seg_nat(1) clamp_segment, of x] segment_lower [OF seg_nat(1) clamp_segment(1), of x]
    table_ranges(6) [OF seg_nat(1), of x]
  by (simp_all add: piecewise_segment)

lemma cdf_less: "i < j \<Longrightarrow> j \<le> 50 \<Longrightarrow> kCdfQ16 ! i < kCdfQ16 ! j"
proof (induction "j - i" arbitrary: i)
  case (Suc n)
  then show ?case using table_steps(2) [of i] Suc(1) [of "i + 1"] by (cases "i + 1 = j") fastforce+
qed simp

lemma seg_mono: "x \<le> y \<Longrightarrow> seg x \<le> seg y"
  by (simp add: seg_def zdiv_mono1)

lemma piecewise_mono: "x \<le> y \<Longrightarrow> piecewise x \<le> piecewise y"
proof -
  assume "x \<le> y"
  then have c: "clamp x \<le> clamp y" by (auto simp: clamp_def)
  let ?i = "nat (seg (clamp x))" and ?j = "nat (seg (clamp y))"
  have ij: "?i \<le> ?j" using seg_mono [OF c] by simp
  show ?thesis
  proof (cases "?i = ?j")
    case True
    then show ?thesis using segment_mono [OF seg_nat(1) c] by (simp add: piecewise_segment)
  next
    case False
    then have lt: "?i + 1 \<le> ?j" using ij by simp
    have "?i < 50" using lt seg_nat(1) [of y] by linarith
    then have "piecewise x \<le> kCdfQ16 ! (?i + 1)"
      unfolding piecewise_segment using segment_bounds(1) [OF seg_nat(1) clamp_segment, of x] by simp
    also have "\<dots> \<le> kCdfQ16 ! ?j" using cdf_less [of "?i + 1" ?j] lt seg_nat(1) [of y] by (cases "?i + 1 = ?j") auto
    also have "\<dots> \<le> piecewise y"
      unfolding piecewise_segment using segment_lower [OF seg_nat(1) clamp_segment(1), of y] .
    finally show ?thesis .
  qed
qed

text \<open>Windows of width \<open>g\<close> that begin in segment \<open>l\<close> or later and end in segment \<open>u\<close> or earlier: in \<open>jumps g l u\<close> the
  function increases over each of them, in \<open>single_step g l u\<close> by one at most. Both are checks of the tables: a
  window is too short to touch three segments.\<close>

definition last_jump :: "nat \<Rightarrow> int" where
  "last_jump i = kHistEdgesQ15 ! i + (32768 * (kCdfQ16 ! (i + 1) - kCdfQ16 ! i) + kCdfSlopeQ0 ! i - 1) div kCdfSlopeQ0 ! i"

definition jumps :: "int \<Rightarrow> nat \<Rightarrow> nat \<Rightarrow> bool" where
  "jumps g l u \<longleftrightarrow> list_all (\<lambda>i. 32768 \<le> kCdfSlopeQ0 ! i * g) [l..<u + 1] \<and>
     list_all (\<lambda>i. 0 < kCdfSlopeQ0 ! i \<and> 32768 \<le> kCdfSlopeQ0 ! (i + 1) * (last_jump i + g - kHistEdgesQ15 ! (i + 1))) [l..<u]"

definition single_step :: "int \<Rightarrow> nat \<Rightarrow> nat \<Rightarrow> bool" where
  "single_step g l u \<longleftrightarrow> list_all (\<lambda>i. kCdfSlopeQ0 ! i * g \<le> 32768) [l..<u + 1] \<and>
     list_all (\<lambda>i. segment (i + 1) (seg_max i + g) \<le> segment i (seg_min (i + 1) - g) + 1) [l..<u]"

lemma jumps_checked:
  "jumps 1408 14 25" "jumps 1536 13 25" "jumps 2560 12 25" "jumps 6554 0 25" "jumps 1408 25 36" "jumps 6554 25 48"
  by code_simp+

lemma single_step_checked:
  "single_step 1408 0 13" "single_step 2432 0 12" "single_step 6528 0 11" "single_step 6528 37 50"
  by code_simp+

lemma segment_shift: "32768 \<le> kCdfSlopeQ0 ! i * g \<Longrightarrow> segment i x < segment i (x + g)"
proof -
  assume "32768 \<le> kCdfSlopeQ0 ! i * g"
  then have "kCdfSlopeQ0 ! i * (x - kHistEdgesQ15 ! i) + 1 * 32768 \<le> kCdfSlopeQ0 ! i * (x + g - kHistEdgesQ15 ! i)"
    by (simp add: algebra_simps)
  from zdiv_mono1 [OF this, of 32768] show ?thesis by (simp add: segment_def)
qed

lemma segment_shift_le: "kCdfSlopeQ0 ! i * g \<le> 32768 \<Longrightarrow> segment i (x + g) \<le> segment i x + 1"
proof -
  assume "kCdfSlopeQ0 ! i * g \<le> 32768"
  then have "kCdfSlopeQ0 ! i * (x + g - kHistEdgesQ15 ! i) \<le> kCdfSlopeQ0 ! i * (x - kHistEdgesQ15 ! i) + 1 * 32768"
    by (simp add: algebra_simps)
  from zdiv_mono1 [OF this, of 32768] show ?thesis by (simp add: segment_def)
qed

lemma window_segments:
  assumes "- 327680 \<le> x" "x + g \<le> 327680" "0 \<le> g" "g \<le> 13106"
  shows "nat (seg (x + g)) = nat (seg x) \<or> nat (seg (x + g)) = nat (seg x) + 1"
proof -
  have "seg x \<le> seg (x + g)" using assms(3) by (intro seg_mono) simp
  moreover have "seg (x + g) \<le> seg x + 1" using assms(4) by (simp add: seg_def)
  moreover have "0 \<le> seg x" using seg_bounds [of x] assms by simp
  ultimately show ?thesis by auto
qed

lemma piecewise_in: "- 327680 \<le> x \<Longrightarrow> x \<le> 327680 \<Longrightarrow> piecewise x = segment (nat (seg x)) x"
  by (simp add: piecewise_segment clamp_def)

lemma last_jump:
  assumes "0 < kCdfSlopeQ0 ! i" "kCdfQ16 ! (i + 1) \<le> segment i x"
  shows "last_jump i \<le> x"
proof -
  let ?s = "kCdfSlopeQ0 ! i" and ?d = "32768 * (kCdfQ16 ! (i + 1) - kCdfQ16 ! i)" and ?e = "x - kHistEdgesQ15 ! i"
  have "?d \<le> 32768 * (?s * ?e div 32768)" using assms(2) by (simp add: segment_def)
  also have "\<dots> \<le> ?s * ?e" using mult_div_mod_eq [of 32768 "?s * ?e"] pos_mod_sign [of 32768 "?s * ?e"] by linarith
  finally have "?d + ?s - 1 \<le> (?s - 1) + ?s * ?e" by simp
  then have "(?d + ?s - 1) div ?s \<le> ((?s - 1) + ?s * ?e) div ?s" using assms(1) by (intro zdiv_mono1)
  also have "\<dots> = ?e" using assms(1) by simp
  finally show ?thesis by (simp add: last_jump_def)
qed

lemma window_cases:
  assumes "- 327680 \<le> x" "x + g \<le> 327680" "0 \<le> g" "g \<le> 13106" "int l \<le> seg x" "seg (x + g) \<le> int u"
  obtains (same) i where "l \<le> i" "i \<le> u" "piecewise x = segment i x" "piecewise (x + g) = segment i (x + g)"
  | (adjacent) i where "l \<le> i" "i < u" "i < 50" "piecewise x = segment i x" "piecewise (x + g) = segment (i + 1) (x + g)"
      "seg_min i \<le> x" "x \<le> seg_max i" "seg_min (i + 1) \<le> x + g"
proof -
  let ?i = "nat (seg x)"
  have b: "0 \<le> seg x" "seg x \<le> seg (x + g)" "seg (x + g) \<le> 50"
    using seg_bounds [of x] seg_bounds [of "x + g"] assms(1-4) seg_mono [of x "x + g"] by auto
  have p: "piecewise x = segment ?i x" "piecewise (x + g) = segment (nat (seg (x + g))) (x + g)"
    using assms(1-3) by (auto intro!: piecewise_in)
  from window_segments [OF assms(1-4)] show thesis
  proof
    assume "nat (seg (x + g)) = ?i"
    then show thesis using same [of ?i] p b assms(5,6) by simp
  next
    assume n: "nat (seg (x + g)) = ?i + 1"
    moreover have "?i < u" "?i < 50" using n b assms(6) by auto
    ultimately show thesis using adjacent [of ?i] p b assms(5) seg_limits [of x] seg_limits [of "x + g"] by simp
  qed
qed

lemma jumps_window:
  assumes "jumps g l u" "- 327680 \<le> x" "x + g \<le> 327680" "0 \<le> g" "g \<le> 13106" "int l \<le> seg x" "seg (x + g) \<le> int u"
  shows "piecewise x < piecewise (x + g)"
  using assms(2-7)
proof (cases rule: window_cases)
  case (same i)
  then have "32768 \<le> kCdfSlopeQ0 ! i * g" using assms(1) by (auto simp: jumps_def list_all_iff)
  then show ?thesis by (simp add: same segment_shift)
next
  case (adjacent i)
  then have j: "0 < kCdfSlopeQ0 ! i" "32768 \<le> kCdfSlopeQ0 ! (i + 1) * (last_jump i + g - kHistEdgesQ15 ! (i + 1))"
    using assms(1) by (auto simp: jumps_def list_all_iff)
  have "piecewise x \<le> kCdfQ16 ! (i + 1)"
    using segment_bounds(1) [of i x] adjacent by simp
  then consider "piecewise x < kCdfQ16 ! (i + 1)" | "piecewise x = kCdfQ16 ! (i + 1)" by linarith
  then show ?thesis
  proof cases
    case 1
    then show ?thesis using segment_lower [of "i + 1" "x + g"] adjacent by simp
  next
    case 2
    then have "last_jump i \<le> x" by (intro last_jump j(1)) (simp add: adjacent)
    then have "kCdfSlopeQ0 ! (i + 1) * (last_jump i + g - kHistEdgesQ15 ! (i + 1)) \<le> kCdfSlopeQ0 ! (i + 1) * (x + g - kHistEdgesQ15 ! (i + 1))"
      using table_ranges(1) [of "i + 1"] adjacent(3) by (intro mult_left_mono) auto
    then have "32768 div 32768 \<le> kCdfSlopeQ0 ! (i + 1) * (x + g - kHistEdgesQ15 ! (i + 1)) div 32768"
      using j(2) by (intro zdiv_mono1) auto
    then show ?thesis using 2 by (simp add: adjacent(5) segment_def)
  qed
qed

lemma single_step_window:
  assumes "single_step g l u" "- 327680 \<le> x" "x + g \<le> 327680" "0 \<le> g" "g \<le> 13106" "int l \<le> seg x" "seg (x + g) \<le> int u"
  shows "piecewise (x + g) \<le> piecewise x + 1"
  using assms(2-7)
proof (cases rule: window_cases)
  case (same i)
  then have "kCdfSlopeQ0 ! i * g \<le> 32768" using assms(1) by (auto simp: single_step_def list_all_iff)
  then show ?thesis by (simp add: same segment_shift_le)
next
  case (adjacent i)
  then have "segment (i + 1) (x + g) \<le> segment (i + 1) (seg_max i + g)" "segment i (seg_min (i + 1) - g) \<le> segment i x"
    by (auto intro!: segment_mono)
  moreover have "segment (i + 1) (seg_max i + g) \<le> segment i (seg_min (i + 1) - g) + 1"
    using assms(1) adjacent(1,2) by (auto simp: single_step_def list_all_iff)
  ultimately show ?thesis by (simp add: adjacent(4,5))
qed

text \<open>Windows that leave the table, by monotonicity.\<close>

lemma single_step_wide:
  assumes "single_step g l 50" "int l \<le> seg (min x (327680 - g))" "0 \<le> s" "s \<le> g" "g \<le> 13106" "- 327680 \<le> x"
  shows "piecewise (x + s) \<le> piecewise x + 1"
proof (cases "x \<le> 327680 - g")
  case True
  have "piecewise (x + s) \<le> piecewise (x + g)" using assms(4) by (intro piecewise_mono) simp
  also have "\<dots> \<le> piecewise x + 1"
    using assms True seg_bounds [of "x + g"] by (intro single_step_window [OF assms(1)]) auto
  finally show ?thesis .
next
  case False
  have "piecewise (x + s) = piecewise (clamp (x + s))" by (simp add: piecewise_segment clamp_def)
  also have "\<dots> \<le> piecewise (327680 - g + g)" using clamp_range(2) by (intro piecewise_mono) simp
  also have "\<dots> \<le> piecewise (327680 - g) + 1"
    using assms False seg_bounds [of 327680] by (intro single_step_window [OF assms(1)]) auto
  also have "\<dots> \<le> piecewise x + 1" using False piecewise_mono [of "327680 - g" x] by simp
  finally show ?thesis .
qed

lemma single_step_low:
  assumes "single_step g 0 u" "seg (max (x + s) (g - 327680)) \<le> int u" "0 \<le> s" "s \<le> g" "g \<le> 13106" "x + s \<le> 327680"
  shows "piecewise (x + s) \<le> piecewise x + 1"
proof (cases "g - 327680 \<le> x + s")
  case True
  have "piecewise (x + s) = piecewise (x + s - g + g)" by simp
  also have "\<dots> \<le> piecewise (x + s - g) + 1"
    using assms True seg_bounds [of "x + s - g"] by (intro single_step_window [OF assms(1)]) auto
  also have "\<dots> \<le> piecewise x + 1" using assms(4) piecewise_mono [of "x + s - g" x] by simp
  finally show ?thesis .
next
  case False
  have "piecewise (x + s) \<le> piecewise (- 327680 + g)" using False by (intro piecewise_mono) simp
  also have "\<dots> \<le> piecewise (- 327680) + 1"
    using assms False seg_bounds [of "- 327680"] by (intro single_step_window [OF assms(1)]) auto
  also have "piecewise (- 327680) \<le> piecewise (clamp x)" using clamp_range(1) by (intro piecewise_mono)
  also have "piecewise (clamp x) = piecewise x" by (simp add: piecewise_segment clamp_def)
  finally show ?thesis by simp
qed

text \<open>A symbol of the coder is an interval \<open>[x, x + s]\<close> with \<open>s = 128 * envQ8\<close>. The encoder uses a symbol only when the
  function increases over it by two; from \<open>envQ8 = 11\<close> on it then increases over all symbols between this one and
  zero.\<close>

lemma seg_range: "seg x \<le> 25 \<longleftrightarrow> x < 13108" "25 \<le> seg x \<longleftrightarrow> 0 \<le> x"
  "seg x \<le> 36 \<longleftrightarrow> x < 157287" "seg x \<le> 48 \<longleftrightarrow> x < 314573"
  by (auto simp: seg_def)

lemma up_gap:
  assumes "jumps g 25 u" "0 \<le> y" "y + g \<le> 327680" "g \<le> s" "0 \<le> g" "g \<le> 13106" "seg (y + g) \<le> int u"
  shows "piecewise y < piecewise (y + s)"
proof -
  have "piecewise y < piecewise (y + g)"
    using assms by (intro jumps_window [OF assms(1)]) (auto simp: seg_range)
  also have "\<dots> \<le> piecewise (y + s)" using assms(4) by (intro piecewise_mono) simp
  finally show ?thesis .
qed

lemma up_gaps:
  assumes "11 \<le> env" "0 \<le> y" "y + 128 * env \<le> x" "piecewise x + 2 \<le> piecewise (x + 128 * env)"
  shows "piecewise y < piecewise (y + 128 * env)"
proof (cases "52 \<le> env")
  case True
  have "x < 314573"
  proof (rule ccontr)
    assume "\<not> x < 314573"
    then have "piecewise 314573 \<le> piecewise x" by (intro piecewise_mono) simp
    moreover have "piecewise 314573 = 65534" by code_simp
    ultimately show False using assms(4) piecewise_bounds(2) [of "x + 128 * env"] by simp
  qed
  then show ?thesis using True assms jumps_checked(6) seg_range(4) [of "y + 6554"] by (intro up_gap [of 6554 48]) auto
next
  case False
  have "x < 157287"
  proof (rule ccontr)
    assume "\<not> x < 157287"
    then have "seg 157287 \<le> seg (min x (327680 - 6528))" by (intro seg_mono) simp
    then have "37 \<le> seg (min x (327680 - 6528))" by (simp add: seg_def)
    then have "piecewise (x + 128 * env) \<le> piecewise x + 1"
      using False assms by (intro single_step_wide [OF single_step_checked(4)]) auto
    then show False using assms(4) by simp
  qed
  then show ?thesis using False assms jumps_checked(5) seg_range(3) [of "y + 1408"] by (intro up_gap [of 1408 36]) auto
qed

lemma down_gap:
  assumes "jumps g l 25" "int l \<le> seg y" "y + s \<le> 0" "g \<le> s" "0 \<le> g" "g \<le> 13106" "- 327680 \<le> y"
  shows "piecewise y < piecewise (y + s)"
proof -
  have "seg (y + g) \<le> 25" using assms(3,4) by (simp add: seg_range)
  then have "piecewise y < piecewise (y + g)"
    using assms by (intro jumps_window [OF assms(1)]) auto
  also have "\<dots> \<le> piecewise (y + s)" using assms(4) by (intro piecewise_mono) simp
  finally show ?thesis .
qed

lemma down_start:
  assumes "single_step g 0 u" "seg (g - 327680) \<le> int u" "0 \<le> s" "s \<le> g" "g \<le> 13106" "x + s \<le> 0"
    "piecewise x + 2 \<le> piecewise (x + s)" "x + s \<le> y"
  shows "int (u + 1) \<le> seg y"
proof -
  have "\<not> seg (max (x + s) (g - 327680)) \<le> int u"
    using single_step_low [OF assms(1) _ assms(3-5)] assms(6,7) by fastforce
  then have "int u < seg (x + s)" using assms(2) by (auto simp: max_def split: if_splits)
  then show ?thesis using seg_mono [OF assms(8)] by simp
qed

lemma down_gaps:
  assumes "11 \<le> env" "y + 128 * env \<le> 0" "x + 128 * env \<le> y" "piecewise x + 2 \<le> piecewise (x + 128 * env)"
  shows "piecewise y < piecewise (y + 128 * env)"
proof -
  have "- 327680 \<le> y"
  proof (rule ccontr)
    assume "\<not> - 327680 \<le> y"
    then have "piecewise (x + 128 * env) \<le> piecewise (- 327680)" using assms(3) by (intro piecewise_mono) simp
    moreover have "piecewise (- 327680) = 0" by code_simp
    ultimately show False using assms(4) piecewise_bounds(1) [of x] by simp
  qed
  note gap = down_gap [OF _ _ assms(2) _ _ _ this]
  have start: "int (u + 1) \<le> seg y" if "single_step g 0 u" "seg (g - 327680) \<le> int u" "128 * env \<le> g" "g \<le> 13106" for g u
    using that assms by (intro down_start [OF that(1,2) _ that(3,4) _ assms(4)]) auto
  consider "env = 11" | "12 \<le> env" "env \<le> 19" | "20 \<le> env" "env \<le> 51" | "52 \<le> env" using assms(1) by linarith
  then show ?thesis
  proof cases
    case 1
    then show ?thesis using start [OF single_step_checked(1)] by (intro gap [OF jumps_checked(1)]) (auto simp: seg_def)
  next
    case 2
    then show ?thesis using start [OF single_step_checked(2)] by (intro gap [OF jumps_checked(2)]) (auto simp: seg_def)
  next
    case 3
    then show ?thesis using start [OF single_step_checked(3)] by (intro gap [OF jumps_checked(3)]) (auto simp: seg_def)
  next
    case 4
    then show ?thesis using \<open>- 327680 \<le> y\<close> by (intro gap [OF jumps_checked(4)]) (auto simp: seg_def)
  qed
qed

subsection \<open>Clipping\<close>

text \<open>The edges of the symbol of a coefficient, and the function there.\<close>

definition cdf_at :: "int \<Rightarrow> int \<Rightarrow> int" where
  "cdf_at envQ8 edge = piecewise (s32 (edge * envQ8))"

lemma edge_product:
  assumes "0 \<le> env" "env \<le> 65535" "- 32768 \<le> e" "e \<le> 32767"
  shows "s32 (e * env) = e * env"
proof -
  have "\<bar>e\<bar> * env \<le> 32768 * 65535" using assms by (intro mult_mono) auto
  then have "\<bar>e * env\<bar> \<le> 32768 * 65535" using assms(1) by (simp add: abs_mult)
  then show ?thesis by (intro s32_id) auto
qed

lemma cdf_at_eq: "0 \<le> env \<Longrightarrow> env \<le> 65535 \<Longrightarrow> - 32768 \<le> e \<Longrightarrow> e \<le> 32767 \<Longrightarrow> cdf_at env e = piecewise (e * env)"
  by (simp add: cdf_at_def edge_product)

lemma cdf_at_bounds: "0 \<le> cdf_at env e" "cdf_at env e \<le> 65535" "u32 (cdf_at env e + 1) = cdf_at env e + 1"
  using piecewise_bounds [of "s32 (e * env)"] by (auto simp: cdf_at_def intro!: u32_id)

lemma central_symbol:
  assumes "1 \<le> env" "env \<le> 65535" "- 64 \<le> d" "d \<le> 64"
  shows "cdf_at env (d - 64) + 2 \<le> cdf_at env (d + 64)"
proof -
  have p: "piecewise (- 64) + 2 \<le> piecewise 0" "piecewise 0 + 2 \<le> piecewise 64" by code_simp+
  have e: "(d - 64) * env \<le> 0" "0 \<le> (d + 64) * env" using assms by (auto intro: mult_nonpos_nonneg)
  show ?thesis
  proof (cases "0 \<le> d")
    case True
    then have "64 * 1 \<le> (d + 64) * env" using assms(1) by (intro mult_mono) auto
    then show ?thesis using p(2) piecewise_mono [OF e(1)] piecewise_mono [of 64 "(d + 64) * env"] assms
      by (simp add: cdf_at_eq)
  next
    case False
    then have "64 * 1 \<le> (64 - d) * env" using assms(1) by (intro mult_mono) auto
    then have "(d - 64) * env \<le> - 64" by (simp add: left_diff_distrib)
    then show ?thesis using p(1) piecewise_mono [OF e(2)] piecewise_mono [of "(d - 64) * env" "- 64"] assms
      by (simp add: cdf_at_eq)
  qed
qed

text \<open>The clipped coefficient lies between zero and the given one, up to half a symbol.\<close>

definition clipped :: "int \<Rightarrow> int \<Rightarrow> int \<Rightarrow> bool" where
  "clipped env d d' \<longleftrightarrow> d' mod 128 = d mod 128 \<and> (if 0 < d then - 64 \<le> d' \<and> d' \<le> d \<or> d' = d else d \<le> d' \<and> d' \<le> 64 \<or> d' = d)
     \<and> cdf_at env (d' - 64) + 2 \<le> cdf_at env (d' + 64)"

lemma clip_loop_stops:
  "cdf_at env (d - 64) + 2 \<le> cdf_at env (d + 64) \<Longrightarrow>
    clip_loop env d (cdf_at env (d - 64)) (cdf_at env (d + 64)) = Some (d, cdf_at env (d - 64), cdf_at env (d + 64))"
  by (subst clip_loop.simps) (simp add: cdf_at_bounds)

lemma clip_loop_moves:
  assumes "\<not> cdf_at env (d - 64) + 2 \<le> cdf_at env (d + 64)" "- 32704 \<le> d" "d \<le> 32703"
  shows "0 < d \<Longrightarrow> clip_loop env d (cdf_at env (d - 64)) (cdf_at env (d + 64)) =
      clip_loop env (d - 128) (cdf_at env (d - 128 - 64)) (cdf_at env (d - 128 + 64))"
    "\<not> 0 < d \<Longrightarrow> clip_loop env d (cdf_at env (d - 64)) (cdf_at env (d + 64)) =
      clip_loop env (d + 128) (cdf_at env (d + 128 - 64)) (cdf_at env (d + 128 + 64))"
proof -
  have c: "(cdf_at env (d + 64) \<le> u32 (cdf_at env (d - 64) + 1)) = True" using assms(1) by (simp add: cdf_at_bounds)
  have s: "s16 (d - 128) = d - 128" if "0 < d" using that assms(3) by (intro s16_id) auto
  show "clip_loop env d (cdf_at env (d - 64)) (cdf_at env (d + 64)) =
      clip_loop env (d - 128) (cdf_at env (d - 128 - 64)) (cdf_at env (d - 128 + 64))" if "0 < d"
    unfolding clip_loop.simps [of env d "cdf_at env (d - 64)"] c if_True Let_def s [OF that] cdf_at_def [symmetric]
    using that by simp
  have s: "s16 (d + 128) = d + 128" if "\<not> 0 < d" using that assms(2) by (intro s16_id) auto
  show "clip_loop env d (cdf_at env (d - 64)) (cdf_at env (d + 64)) =
      clip_loop env (d + 128) (cdf_at env (d + 128 - 64)) (cdf_at env (d + 128 + 64))" if "\<not> 0 < d"
    unfolding clip_loop.simps [of env d "cdf_at env (d - 64)"] c if_True Let_def s [OF that] cdf_at_def [symmetric]
    using that by (simp add: add.commute [of d])
qed

lemma clip_loop_result:
  assumes "1 \<le> env" "env \<le> 65535" "- 32704 \<le> d" "d \<le> 32703"
  shows "\<exists>d'. clip_loop env d (cdf_at env (d - 64)) (cdf_at env (d + 64)) = Some (d', cdf_at env (d' - 64), cdf_at env (d' + 64))
    \<and> clipped env d d'"
  using assms(3,4)
proof (induction "nat \<bar>d\<bar>" arbitrary: d rule: less_induct)
  case less
  consider "cdf_at env (d - 64) + 2 \<le> cdf_at env (d + 64)" | "\<not> cdf_at env (d - 64) + 2 \<le> cdf_at env (d + 64)" "64 < d"
    | "\<not> cdf_at env (d - 64) + 2 \<le> cdf_at env (d + 64)" "d < - 64"
    using central_symbol [OF assms(1,2), of d] by linarith
  then show ?case
  proof cases
    case 1
    then show ?thesis by (intro exI [of _ d]) (simp add: clip_loop_stops clipped_def)
  next
    case 2
    then have "nat \<bar>d - 128\<bar> < nat \<bar>d\<bar>" by linarith
    from less.hyps [OF this] less.prems 2 obtain d' where d': "clip_loop env (d - 128) (cdf_at env (d - 128 - 64)) (cdf_at env (d - 128 + 64)) =
      Some (d', cdf_at env (d' - 64), cdf_at env (d' + 64))" "clipped env (d - 128) d'" by auto
    have "(d - 128) mod 128 = d mod 128" using mod_mult_self2 [of d "- 1" 128] by simp
    then have "clipped env d d'" using d'(2) 2 by (auto simp: clipped_def split: if_splits)
    then show ?thesis using d'(1) clip_loop_moves(1) [OF 2(1) less.prems] 2(2) by auto
  next
    case 3
    then have "nat \<bar>d + 128\<bar> < nat \<bar>d\<bar>" by linarith
    from less.hyps [OF this] less.prems 3 obtain d' where d': "clip_loop env (d + 128) (cdf_at env (d + 128 - 64)) (cdf_at env (d + 128 + 64)) =
      Some (d', cdf_at env (d' - 64), cdf_at env (d' + 64))" "clipped env (d + 128) d'" by auto
    have "(d + 128) mod 128 = d mod 128" by simp
    then have "clipped env d d'" using d'(2) 3 by (auto simp: clipped_def split: if_splits)
    then show ?thesis using d'(1) clip_loop_moves(2) [OF 3(1) less.prems] 3(2) by auto
  qed
qed

subsection \<open>The search of the decoder\<close>

text \<open>A coefficient that the encoder may send: its symbol is not too small and its edges are 16-bit values.\<close>

definition sendable :: "int \<Rightarrow> int \<Rightarrow> bool" where
  "sendable env d \<longleftrightarrow> 11 \<le> env \<and> env \<le> 65535 \<and> - 32704 \<le> d \<and> d \<le> 32703 \<and> cdf_at env (d - 64) + 2 \<le> cdf_at env (d + 64)"

lemma cdf_at_mono:
  "0 \<le> env \<Longrightarrow> env \<le> 65535 \<Longrightarrow> - 32768 \<le> e \<Longrightarrow> e \<le> e' \<Longrightarrow> e' \<le> 32767 \<Longrightarrow> cdf_at env e \<le> cdf_at env e'"
  by (simp add: cdf_at_eq piecewise_mono mult_right_mono)

lemma cand_bound_cdf: "cand_bound W env e = scale_cdf W (cdf_at env e)"
  by (simp add: cand_bound_def cdf_at_def)

lemma cand_bound_mono:
  assumes "0 \<le> W" "W < 4294967296" "cdf_at env e \<le> cdf_at env e'"
  shows "cand_bound W env e \<le> cand_bound W env e'"
  using assms cdf_at_bounds(1,2) [of env e] cdf_at_bounds(1,2) [of env e']
  by (simp add: cand_bound_cdf scale_cdf_eq zdiv_mono1 mult_left_mono)

lemma cand_bound_less:
  assumes "16777216 \<le> W" "W < 4294967296" "cdf_at env e < cdf_at env e'"
  shows "cand_bound W env e < cand_bound W env e'"
  using scale_cdf_gap [OF assms(1,2) cdf_at_bounds(1) assms(3)] cdf_at_bounds(2) [of env e'] by (simp add: cand_bound_cdf)

lemma sendable_edges:
  assumes "sendable env d"
  shows "piecewise ((d - 64) * env) + 2 \<le> piecewise ((d - 64) * env + 128 * env)"
proof -
  have s: "0 \<le> env" "env \<le> 65535" "- 32704 \<le> d" "d \<le> 32703" "cdf_at env (d - 64) + 2 \<le> cdf_at env (d + 64)"
    using assms by (simp_all add: sendable_def)
  have "cdf_at env (d - 64) = piecewise ((d - 64) * env)" "cdf_at env (d + 64) = piecewise ((d + 64) * env)"
    using s(1-4) by (simp_all add: cdf_at_eq)
  moreover have "(d - 64) * env + 128 * env = (d + 64) * env" by (simp add: algebra_simps)
  ultimately show ?thesis using s(5) by simp
qed

text \<open>Between a sendable coefficient and zero no symbol is empty.\<close>

lemma symbols_above_zero:
  assumes "sendable env d" "0 \<le> c" "c + 128 \<le> d + 64" "128 dvd (d + 64 - c)"
  shows "cdf_at env c < cdf_at env (c + 128)"
proof (cases "c = d - 64")
  case True
  then have e: "c + 128 = d + 64" by simp
  show ?thesis using assms(1) unfolding e unfolding True sendable_def by linarith
next
  case False
  have env: "11 \<le> env" "env \<le> 65535" and d: "d \<le> 32703" using assms(1) by (simp_all add: sendable_def)
  obtain n where n: "d + 64 - c = 128 * n" using assms(4) by (auto simp: dvd_def)
  then have "n \<noteq> 1" using False by auto
  then have c: "c + 128 \<le> d - 64" using n assms(3) by linarith
  have "piecewise (c * env) < piecewise (c * env + 128 * env)"
  proof (rule up_gaps)
    show "c * env + 128 * env \<le> (d - 64) * env" using c env by (simp add: distrib_right [symmetric])
    show "piecewise ((d - 64) * env) + 2 \<le> piecewise ((d - 64) * env + 128 * env)" by (rule sendable_edges [OF assms(1)])
  qed (use env assms(2) in auto)
  then show ?thesis using env assms(2) c d by (simp add: cdf_at_eq distrib_right [symmetric])
qed

lemma symbols_below_zero:
  assumes "sendable env d" "c \<le> 0" "d - 64 \<le> c - 128" "128 dvd (c - (d - 64))"
  shows "cdf_at env (c - 128) < cdf_at env c"
proof (cases "c = d + 64")
  case True
  then have "c - 128 = d - 64" by simp
  then show ?thesis using assms(1) True by (simp add: sendable_def)
next
  case False
  have env: "11 \<le> env" "env \<le> 65535" and d: "- 32704 \<le> d" using assms(1) by (simp_all add: sendable_def)
  obtain n where n: "c - (d - 64) = 128 * n" using assms(4) by (auto simp: dvd_def)
  then have "n \<noteq> 1" using False by auto
  then have c: "d + 64 \<le> c - 128" using n assms(3) by linarith
  have "piecewise ((c - 128) * env) < piecewise ((c - 128) * env + 128 * env)"
  proof (rule down_gaps)
    show "(c - 128) * env + 128 * env \<le> 0" using assms(2) env by (simp add: distrib_right [symmetric] mult_nonpos_nonneg)
    show "(d - 64) * env + 128 * env \<le> (c - 128) * env" using c env by (simp add: distrib_right [symmetric])
    show "piecewise ((d - 64) * env) + 2 \<le> piecewise ((d - 64) * env + 128 * env)" by (rule sendable_edges [OF assms(1)])
  qed (use env in auto)
  then show ?thesis using env assms(2) c d by (simp add: cdf_at_eq distrib_right [symmetric])
qed

lemma cand_up_finds:
  assumes W: "16777216 \<le> W" "W < 4294967296" and d: "sendable env d"
    and v: "cand_bound W env (d - 64) < v" "v \<le> cand_bound W env (d + 64)"
    and c: "0 \<le> d - 64 - 128 * int n"
  shows "cand_up W env v (d + 64 - 128 * int n) (cand_bound W env (d - 64 - 128 * int n)) (cand_bound W env (d + 64 - 128 * int n)) =
    Some (Found d (cand_bound W env (d - 64)) (cand_bound W env (d + 64)))"
  using c
proof (induction n)
  case 0
  have "s16 d = d" using d by (intro s16_id) (auto simp: sendable_def)
  then show ?case using v by (subst cand_up.simps) simp
next
  case (Suc n)
  let ?c = "d + 64 - 128 * int (Suc n)"
  have env: "0 \<le> env" "env \<le> 65535" and b: "d \<le> 32703" using d by (simp_all add: sendable_def)
  have c: "0 \<le> ?c" "?c + 128 \<le> d + 64" "?c \<le> d - 64" using Suc.prems by simp_all
  have "cdf_at env ?c < cdf_at env (?c + 128)" by (rule symbols_above_zero [OF d c(1,2)]) simp
  then have less: "cand_bound W env ?c < cand_bound W env (?c + 128)" by (rule cand_bound_less [OF W])
  have "cand_bound W env ?c \<le> cand_bound W env (d - 64)"
    using c b W env by (intro cand_bound_mono cdf_at_mono) auto
  then have gt: "v > cand_bound W env ?c" using v(1) by simp
  have s: "s16 (?c + 128) = ?c + 128" using c b by (intro s16_id) auto
  have next_edge: "?c + 128 = d + 64 - 128 * int n" "?c = d - 64 - 128 * int n" by simp_all
  have "cand_up W env v ?c (cand_bound W env (d - 64 - 128 * int (Suc n))) (cand_bound W env ?c) =
      cand_up W env v (?c + 128) (cand_bound W env ?c) (cand_bound W env (?c + 128))"
    using gt less by (subst cand_up.simps) (simp only: s Let_def if_True if_False less_imp_neq)
  also have "\<dots> = Some (Found d (cand_bound W env (d - 64)) (cand_bound W env (d + 64)))"
    unfolding next_edge(1) unfolding next_edge(2) by (rule Suc.IH) (use Suc.prems in simp)
  finally show ?case .
qed

lemma cand_down_finds:
  assumes W: "16777216 \<le> W" "W < 4294967296" and d: "sendable env d"
    and v: "cand_bound W env (d - 64) < v" "v \<le> cand_bound W env (d + 64)"
    and c: "d - 64 + 128 * int n \<le> 0"
  shows "cand_down W env v (d - 64 + 128 * int n) (cand_bound W env (d + 64 + 128 * int n)) (cand_bound W env (d - 64 + 128 * int n)) =
    Some (Found d (cand_bound W env (d - 64)) (cand_bound W env (d + 64)))"
  using c
proof (induction n)
  case 0
  have "s16 d = d" using d by (intro s16_id) (auto simp: sendable_def)
  then show ?case using v by (subst cand_down.simps) simp
next
  case (Suc n)
  let ?c = "d - 64 + 128 * int (Suc n)"
  have env: "0 \<le> env" "env \<le> 65535" and b: "- 32704 \<le> d" using d by (simp_all add: sendable_def)
  have c: "?c \<le> 0" "d - 64 \<le> ?c - 128" "d + 64 \<le> ?c" using Suc.prems by simp_all
  have "cdf_at env (?c - 128) < cdf_at env ?c" by (rule symbols_below_zero [OF d c(1,2)]) simp
  then have less: "cand_bound W env (?c - 128) < cand_bound W env ?c" by (rule cand_bound_less [OF W])
  have "cand_bound W env (d + 64) \<le> cand_bound W env ?c"
    using c b W env by (intro cand_bound_mono cdf_at_mono) auto
  then have gt: "\<not> v > cand_bound W env ?c" using v(2) by simp
  have s: "s16 (?c - 128) = ?c - 128" using c b by (intro s16_id) auto
  have next_edge: "?c - 128 = d - 64 + 128 * int n" "?c = d + 64 + 128 * int n" by simp_all
  have "cand_down W env v ?c (cand_bound W env (d + 64 + 128 * int (Suc n))) (cand_bound W env ?c) =
      cand_down W env v (?c - 128) (cand_bound W env ?c) (cand_bound W env (?c - 128))"
    using gt less by (subst cand_down.simps) (simp only: s Let_def if_True if_False less_imp_neq [THEN not_sym] not_False_eq_True)
  also have "\<dots> = Some (Found d (cand_bound W env (d - 64)) (cand_bound W env (d + 64)))"
    unfolding next_edge(1) unfolding next_edge(2) by (rule Suc.IH) (use Suc.prems in simp)
  finally show ?case .
qed

lemma cand_search_finds:
  assumes W: "16777216 \<le> W" "W < 4294967296" and d: "sendable env d" and t: "- 64 \<le> t" "t \<le> 64" "128 dvd (d + t)"
    and v: "cand_bound W env (d - 64) < v" "v \<le> cand_bound W env (d + 64)"
  shows "cand_search W env t v = Some (Found d (cand_bound W env (d - 64)) (cand_bound W env (d + 64)))"
proof -
  obtain m where "d + t = 128 * m" using t(3) by (auto simp: dvd_def)
  then have m: "d = 128 * m - t" by simp
  have env: "0 \<le> env" "env \<le> 65535" and b: "- 32704 \<le> d" "d \<le> 32703" using d by (simp_all add: sendable_def)
  have s: "s16 (- t + 64) = 64 - t" "s16 (64 - t + 128) = 192 - t" "s16 (64 - t - 128) = - 64 - t" using t by (auto simp: s16_id)
  show ?thesis
  proof (cases "1 \<le> m")
    case True
    have e: "192 - t = d + 64 - 128 * int (nat (m - 1))" "64 - t = d - 64 - 128 * int (nat (m - 1))" using True m by simp_all
    have "cand_bound W env (64 - t) \<le> cand_bound W env (d - 64)"
      using True m b W env t by (intro cand_bound_mono cdf_at_mono) auto
    then have "(cand_bound W env (64 - t) < v) = True" using v(1) by simp
    then have "cand_search W env t v = cand_up W env v (192 - t) (cand_bound W env (64 - t)) (cand_bound W env (192 - t))"
      by (simp only: cand_search_def Let_def s if_True)
    also have "\<dots> = Some (Found d (cand_bound W env (d - 64)) (cand_bound W env (d + 64)))"
      unfolding e by (rule cand_up_finds [OF W d v]) (use True m t in simp)
    finally show ?thesis .
  next
    case False
    have e: "- 64 - t = d - 64 + 128 * int (nat (- m))" "64 - t = d + 64 + 128 * int (nat (- m))" using False m by simp_all
    have "cand_bound W env (d + 64) \<le> cand_bound W env (64 - t)"
      using False m b W env t by (intro cand_bound_mono cdf_at_mono) auto
    then have "(cand_bound W env (64 - t) < v) = False" using v(2) by simp
    then have "cand_search W env t v = cand_down W env v (- 64 - t) (cand_bound W env (64 - t)) (cand_bound W env (- 64 - t))"
      by (simp only: cand_search_def Let_def s if_False)
    also have "\<dots> = Some (Found d (cand_bound W env (d - 64)) (cand_bound W env (d + 64)))"
      unfolding e by (rule cand_down_finds [OF W d v]) (use False m t in simp)
    finally show ?thesis .
  qed
qed

end
