(* ===== verification/IsacPacket.thy ===== *)
theory IsacPacket
  imports IsacLogist
begin

text \<open>
  Whole iSAC streams: the table coder and the logistic coder as coders of interval sequences, the contract of a
  decoder function as a locale, and the round trip of a packet that mixes both; the contract of the spectrum encoder and the
  envelope values for which the logistic coder fails.
\<close>

subsection \<open>Sequences of intervals\<close>

text \<open>All encoders of the codec do the same thing: they code a sequence of intervals of the 16-bit probability scale.\<close>

fun enc_intervals :: "(int \<times> int) list \<Rightarrow> Bitstr \<Rightarrow> Bitstr option" where
  "enc_intervals [] b = Some b"
| "enc_intervals ((cdf_lo, cdf_hi) # rest) b = Option.bind (enc_interval cdf_lo cdf_hi b) (enc_intervals rest)"

definition good_interval :: "int \<times> int \<Rightarrow> bool" where
  "good_interval = (\<lambda>(cdf_lo, cdf_hi). 0 \<le> cdf_lo \<and> cdf_lo < cdf_hi \<and> cdf_hi \<le> 65535)"

definition interval_item :: "int \<times> int \<Rightarrow> item" where
  "interval_item = (\<lambda>(cdf_lo, cdf_hi). (cdf_lo # cdf_hi # (if cdf_hi = 65535 then [] else [65535]), 0, 0))"

definition item_interval :: "item \<Rightarrow> int \<times> int" where
  "item_interval = (\<lambda>(cdf, d, h). (cdf ! nat d, cdf ! nat (d + 1)))"

lemma interval_item:
  assumes "good_interval iv"
  shows "valid_item (\<lambda>_ _. True) (interval_item iv)" "item_interval (interval_item iv) = iv"
  using assms by (auto simp: good_interval_def interval_item_def item_interval_def valid_item_def wf_cdf_def symbol_of_def)

lemma enc_loop_intervals: "enc_loop (enc_items items) b = enc_intervals (map item_interval items) b"
  by (induction items arbitrary: b) (auto simp: enc_items_def item_interval_def enc_symbol_def intro!: Option.bind_cong)

lemma item_interval_good: "valid_item ok x \<Longrightarrow> good_interval (item_interval x)"
  using wf_cdf_range wf_cdf_less
  by (force simp: valid_item_def good_interval_def item_interval_def symbol_of_def nat_add_distrib split: prod.splits)

lemma intervals_items:
  assumes "list_all good_interval ivs"
  shows "enc_intervals ivs b = enc_loop (enc_items (map interval_item ivs)) b"
    "list_all (valid_item (\<lambda>_ _. True)) (map interval_item ivs)"
proof -
  have "map item_interval (map interval_item ivs) = ivs"
    using assms by (induction ivs) (simp_all add: interval_item)
  then show "enc_intervals ivs b = enc_loop (enc_items (map interval_item ivs)) b" by (simp only: enc_loop_intervals)
  show "list_all (valid_item (\<lambda>_ _. True)) (map interval_item ivs)"
    using assms by (auto simp: list_all_iff interval_item)
qed

lemma enc_intervals_returns:
  assumes "enc_wf b" "list_all good_interval ivs"
  shows "\<exists>b'. enc_intervals ivs b = Some b' \<and> enc_wf b' \<and> stream_index b \<le> stream_index b' \<and> length (stream b') = length (stream b)"
  using enc_loop_returns [OF assms(1) intervals_items(2) [OF assms(2)]] by (simp only: intervals_items(1) [OF assms(2)])

lemma enc_intervals_within:
  assumes "enc_inv b" "list_all good_interval ivs" "enc_intervals ivs b = Some b'" "stream_index b' \<le> length (stream b)"
  shows "enc_inv b'" "within b' s \<Longrightarrow> within b s"
  using enc_loop_within [OF assms(1) intervals_items(2) [OF assms(2)] assms(3) [unfolded intervals_items(1) [OF assms(2)]] assms(4)]
  by auto

lemma enc_interval_step:
  assumes "enc_inv b" "good_interval (lo, hi)" "enc_interval lo hi b = Some b1" "list_all good_interval ivs"
    "enc_intervals ivs b1 = Some b'" "stream_index b' \<le> length (stream b)" "within b' s"
  shows "enc_inv b1" "stream_index b' \<le> length (stream b1)"
    "scale_cdf (W_upper b) lo < offset b s" "offset b s \<le> scale_cdf (W_upper b) hi"
    "dec_renorm (u32 (scale_cdf (W_upper b) hi - u32 (scale_cdf (W_upper b) lo + 1)))
       (u32 (offset b s - u32 (scale_cdf (W_upper b) lo + 1))) s (stream_index b + 3) =
       Some (W_upper b1, offset b1 s, stream_index b1 + 3)"
proof -
  have one: "list_all good_interval [(lo, hi)]" "enc_intervals [(lo, hi)] b = Some b1" using assms(2,3) by simp_all
  have w: "enc_wf b1" "length (stream b1) = length (stream b)" "stream_index b1 \<le> stream_index b'"
    using enc_intervals_returns [OF enc_inv_wf [OF assms(1)] one(1)] one(2) enc_intervals_returns [OF _ assms(4), of b1] assms(5) by auto
  then have fits: "stream_index b1 \<le> length (stream b)" using assms(6) by simp
  show inv: "enc_inv b1" by (rule enc_intervals_within(1) [OF assms(1) one fits])
  show fits': "stream_index b' \<le> length (stream b1)" using assms(6) w(2) by simp
  have code: "within b1 s" by (rule enc_intervals_within(2) [OF inv assms(4,5) fits' assms(7)])
  obtain cdf where cdf: "wf_cdf cdf" "symbol_of cdf 0" "cdf ! nat 0 = lo" "cdf ! nat (0 + 1) = hi"
    using interval_item [OF assms(2)] by (auto simp: interval_item_def valid_item_def item_interval_def)
  then have "enc_symbol cdf 0 b = Some b1" using assms(3) by (simp add: enc_symbol_def)
  note step = enc_dec_symbol [OF assms(1) cdf(1,2) this fits code refl refl, unfolded cdf(3,4)]
  show "scale_cdf (W_upper b) lo < offset b s" "offset b s \<le> scale_cdf (W_upper b) hi"
    "dec_renorm (u32 (scale_cdf (W_upper b) hi - u32 (scale_cdf (W_upper b) lo + 1)))
       (u32 (offset b s - u32 (scale_cdf (W_upper b) lo + 1))) s (stream_index b + 3) =
       Some (W_upper b1, offset b1 s, stream_index b1 + 3)"
    using step by simp_all
qed

lemma enc_intervals_append: "enc_intervals (xs @ ys) b = Option.bind (enc_intervals xs b) (enc_intervals ys)"
  by (induction xs b rule: enc_intervals.induct) (auto intro: Option.bind_cong)

subsection \<open>The length check\<close>

lemma enc_renorm_max:
  assumes "enc_renorm W v s i = Some r"
  shows "i \<le> snd (snd (snd r)) \<and>
    (enc_renorm_max W v s i = Some (Inr r) \<and> (i \<le> 399 \<longrightarrow> snd (snd (snd r)) \<le> 399)
     \<or> (\<exists>e. enc_renorm_max W v s i = Some (Inl e)) \<and> 399 < snd (snd (snd r)))"
proof (rule enc_renorm.raw_induct [OF _ assms])
  fix rec W v s i r
  assume IH: "\<And>W v s i r. rec W v s i = Some r \<Longrightarrow> i \<le> snd (snd (snd r)) \<and>
    (enc_renorm_max W v s i = Some (Inr r) \<and> (i \<le> 399 \<longrightarrow> snd (snd (snd r)) \<le> 399)
     \<or> (\<exists>e. enc_renorm_max W v s i = Some (Inl e)) \<and> 399 < snd (snd (snd r)))"
    and step: "(if W AND 0xFF000000 = 0 then rec (u32 (shl W 8)) (u32 (shl v 8)) (s[i := u8 (asr v 24)]) (i + 1)
       else Some (W, v, s, i)) = Some r"
  show "i \<le> snd (snd (snd r)) \<and>
    (enc_renorm_max W v s i = Some (Inr r) \<and> (i \<le> 399 \<longrightarrow> snd (snd (snd r)) \<le> 399)
     \<or> (\<exists>e. enc_renorm_max W v s i = Some (Inl e)) \<and> 399 < snd (snd (snd r)))"
  proof (cases "W AND 0xFF000000 = 0")
    case False
    then show ?thesis using step by (auto simp: enc_renorm_max.simps [of W])
  next
    case True
    then have "rec (u32 (shl W 8)) (u32 (shl v 8)) (s[i := u8 (asr v 24)]) (i + 1) = Some r" using step by simp
    from IH [OF this] show ?thesis
      by (subst (1 2) enc_renorm_max.simps) (auto simp: True STREAM_SIZE_MAX_60_def Let_def split: if_splits)
  qed
qed

lemma enc_interval_max:
  assumes "enc_interval lo hi b = Some b1"
  shows "enc_interval_max lo hi b = Some (Inr b1) \<and> (stream_index b \<le> 399 \<longrightarrow> stream_index b1 \<le> 399)
    \<or> (\<exists>b2. enc_interval_max lo hi b = Some (Inl b2)) \<and> 399 < stream_index b1"
proof -
  define wl W v s where "wl = u32 (scale_cdf (W_upper b) lo + 1)" and "W = u32 (scale_cdf (W_upper b) hi - wl)"
    and "v = u32 (streamval b + wl)" and "s = (if v < wl then propagate_carry (stream b) (stream_index b) else stream b)"
  note defs = this
  obtain r where r: "enc_renorm W v s (stream_index b) = Some r"
    "b1 = (case r of (W, v, s, i) \<Rightarrow> b\<lparr>stream := s, W_upper := W, streamval := v, stream_index := i\<rparr>)"
    using assms unfolding enc_interval_def Let_def defs [symmetric] by blast
  have "stream_index b1 = snd (snd (snd r))" by (cases r) (simp add: r(2))
  then show ?thesis using enc_renorm_max [OF r(1)] r(2)
    unfolding enc_interval_max_def Let_def defs [symmetric] by auto
qed

subsection \<open>The coding of a spectrum\<close>

text \<open>The coefficients with the envelope values that the loops use for them.\<close>

fun with_env :: "bool \<Rightarrow> nat \<Rightarrow> 'a list \<Rightarrow> int list \<Rightarrow> (int \<times> 'a) list" where
  "with_env sw k [] env = []"
| "with_env sw k (x # xs) env = (hd env, x) # with_env sw (k + 1) xs (drop (env_step sw k) env)"

definition env_period :: "bool \<Rightarrow> nat" where
  "env_period sw = (if sw then 2 else 4)"

lemma env_step_period: "k mod env_period sw + 1 = (k + 1) mod env_period sw + env_step sw k * env_period sw"
proof (cases sw)
  case True
  then show ?thesis by (simp add: env_step_def env_period_def) presburger
next
  case False
  have "odd k \<and> odd (k div 2) \<longleftrightarrow> k mod 4 = 3" by presburger
  moreover have "k mod 4 + 1 = (k + 1) mod 4 + (if k mod 4 = 3 then 4 else 0)" by presburger
  ultimately show ?thesis using False by (simp add: env_step_def env_period_def)
qed

lemma with_env_set:
  "length xs + k mod env_period sw \<le> env_period sw * length env \<Longrightarrow> (e, x) \<in> set (with_env sw k xs env) \<Longrightarrow> e \<in> set env \<and> x \<in> set xs"
proof (induction sw k xs env rule: with_env.induct)
  case (2 sw k x xs env)
  have "env \<noteq> []" using 2(2) by auto
  have "length xs + (k + 1) mod env_period sw \<le> env_period sw * length (drop (env_step sw k) env)"
    using 2(2) env_step_period [of k sw] by (simp add: diff_mult_distrib2 mult.commute)
  from 2(1) [OF this] 2(3) \<open>env \<noteq> []\<close> show ?case by (auto dest: in_set_dropD)
qed simp

lemma length_with_env [simp]: "length (with_env sw k xs env) = length xs"
  by (induction sw k xs env rule: with_env.induct) simp_all

text \<open>What is sent for a coefficient, and its interval.\<close>

definition sent :: "int \<Rightarrow> int \<Rightarrow> int" where
  "sent env d = fst (the (clip env d))"

definition symbol_interval :: "int \<Rightarrow> int \<Rightarrow> int \<times> int" where
  "symbol_interval env d = (cdf_at env (sent env d - 64), cdf_at env (sent env d + 64))"

definition codable :: "int \<Rightarrow> int \<Rightarrow> bool" where
  "codable env d \<longleftrightarrow> 1 \<le> env \<and> env \<le> 65535 \<and> - 32704 \<le> d \<and> d \<le> 32703"

lemma clip_sent:
  assumes "codable env d"
  shows "clip env d = Some (sent env d, symbol_interval env d)" "clipped env d (sent env d)"
proof -
  obtain d' where "clip env d = Some (d', cdf_at env (d' - 64), cdf_at env (d' + 64))" "clipped env d d'"
    using clip_loop_result [of env d] assms by (auto simp: clip_def codable_def simp flip: cdf_at_def)
  then show "clip env d = Some (sent env d, symbol_interval env d)" "clipped env d (sent env d)"
    by (simp_all add: sent_def symbol_interval_def)
qed

lemma sent_sendable: "codable env d \<Longrightarrow> 11 \<le> env \<Longrightarrow> sendable env (sent env d)"
  using clip_sent(2) [of env d] by (auto simp: codable_def sendable_def clipped_def split: if_splits)

lemma symbol_interval_good: "codable env d \<Longrightarrow> good_interval (symbol_interval env d)"
  using clip_sent(2) [of env d] by (auto simp: clipped_def good_interval_def symbol_interval_def cdf_at_bounds)

definition spectrum_intervals :: "bool \<Rightarrow> nat \<Rightarrow> int list \<Rightarrow> int list \<Rightarrow> (int \<times> int) list" where
  "spectrum_intervals sw k ds env = map (\<lambda>(e, d). symbol_interval e d) (with_env sw k ds env)"

definition spectrum_sent :: "bool \<Rightarrow> nat \<Rightarrow> int list \<Rightarrow> int list \<Rightarrow> int list" where
  "spectrum_sent sw k ds env = map (\<lambda>(e, d). sent e d) (with_env sw k ds env)"

lemma enc_logist_loop:
  assumes "list_all (\<lambda>(e, d). codable e d) (with_env sw k ds env)" "enc_intervals (spectrum_intervals sw k ds env) b = Some b'" "enc_wf b"
  shows "enc_logist_loop sw k ds env b = Some (spectrum_sent sw k ds env, Inr b') \<and> (stream_index b \<le> 399 \<longrightarrow> stream_index b' \<le> 399)
    \<or> (\<exists>ds' b2. enc_logist_loop sw k ds env b = Some (ds', Inl b2)) \<and> 399 < stream_index b'"
  using assms
proof (induction sw k ds env b rule: enc_logist_loop.induct)
  case (2 sw k d ds env b)
  obtain lo hi where iv: "symbol_interval (hd env) d = (lo, hi)" by fastforce
  have ok: "codable (hd env) d" "list_all (\<lambda>(e, d). codable e d) (with_env sw (k + 1) ds (drop (env_step sw k) env))"
    using 2(2) by simp_all
  note c = clip_sent(1) [OF ok(1), unfolded iv]
  obtain b1 where b1: "enc_interval lo hi b = Some b1" "enc_intervals (spectrum_intervals sw (k + 1) ds (drop (env_step sw k) env)) b1 = Some b'"
    using 2(3) by (auto simp: spectrum_intervals_def iv Option.bind_eq_Some_conv)
  have good: "list_all good_interval [(lo, hi)]" "list_all good_interval (spectrum_intervals sw (k + 1) ds (drop (env_step sw k) env))"
    using symbol_interval_good [OF ok(1)] ok(2) by (auto simp: iv spectrum_intervals_def list_all_iff dest: symbol_interval_good)
  have wf: "enc_wf b1" using enc_intervals_returns [OF 2(4) good(1)] b1(1) by simp
  have le: "stream_index b1 \<le> stream_index b'" using enc_intervals_returns [OF wf good(2)] b1(2) by simp
  from enc_interval_max [OF b1(1)] show ?case
  proof
    assume m: "enc_interval_max lo hi b = Some (Inr b1) \<and> (stream_index b \<le> 399 \<longrightarrow> stream_index b1 \<le> 399)"
    from 2(1) [OF c refl refl _ refl ok(2) b1(2) wf] m show ?thesis
      by (auto simp: c spectrum_sent_def)
  next
    assume "(\<exists>b2. enc_interval_max lo hi b = Some (Inl b2)) \<and> 399 < stream_index b1"
    then show ?thesis using le by (auto simp: c)
  qed
qed (simp add: spectrum_intervals_def spectrum_sent_def)

text \<open>A spectrum with its dither and envelope, as the codec passes them: the coefficients are on the dithered grid of
  step 128, and there is an envelope value for every four coefficients, or for every two at 12 kHz.\<close>

definition valid_spectrum :: "bool \<Rightarrow> int list \<Rightarrow> int list \<Rightarrow> int list \<Rightarrow> bool" where
  "valid_spectrum sw data dither env \<longleftrightarrow>
     list_all2 (\<lambda>d t. - 32704 \<le> d \<and> d \<le> 32703 \<and> - 64 \<le> t \<and> t \<le> 64 \<and> (d + t) mod 128 = 0) data dither \<and>
     list_all (\<lambda>e. 11 \<le> e \<and> e \<le> 65535) env \<and> length data \<le> env_period sw * length env"

lemma clipped_dvd: "clipped env d d' \<Longrightarrow> 128 dvd (d + t) \<Longrightarrow> 128 dvd (d' + t)"
  by (auto simp: clipped_def mod_eq_dvd_iff dest: dvd_add [of 128 "d' - d" "d + t"])

lemma dec_logist_loop:
  assumes "enc_inv b" "list_all (\<lambda>(e, d). codable e d \<and> 11 \<le> e) (with_env sw k ds env)"
    "list_all2 (\<lambda>d t. - 64 \<le> t \<and> t \<le> 64 \<and> 128 dvd (d + t)) ds ts"
    "enc_intervals (spectrum_intervals sw k ds env) b = Some b'" "stream_index b' \<le> length (stream b)" "within b' s"
  shows "dec_logist_loop sw k ts env (W_upper b) (offset b s) s (stream_index b + 3) =
    Some (spectrum_sent sw k ds env, Inr (W_upper b', offset b' s, stream_index b' + 3))"
  using assms
proof (induction sw k ds env arbitrary: b ts rule: with_env.induct)
  case (2 sw k d ds env)
  let ?env = "drop (env_step sw k) env"
  obtain t ts' where ts: "ts = t # ts'" "- 64 \<le> t" "t \<le> 64" "128 dvd (d + t)"
    "list_all2 (\<lambda>d t. - 64 \<le> t \<and> t \<le> 64 \<and> 128 dvd (d + t)) ds ts'"
    using "2.prems"(3) by (auto simp: list_all2_Cons1)
  have ok: "codable (hd env) d" "11 \<le> hd env" "list_all (\<lambda>(e, d). codable e d \<and> 11 \<le> e) (with_env sw (k + 1) ds ?env)"
    using "2.prems"(2) by simp_all
  define d' lo hi where "d' = sent (hd env) d" and "lo = cdf_at (hd env) (d' - 64)" and "hi = cdf_at (hd env) (d' + 64)"
  have iv: "symbol_interval (hd env) d = (lo, hi)" by (simp add: symbol_interval_def d'_def lo_def hi_def)
  obtain b1 where b1: "enc_interval lo hi b = Some b1" "enc_intervals (spectrum_intervals sw (k + 1) ds ?env) b1 = Some b'"
    using "2.prems"(4) by (auto simp: spectrum_intervals_def iv Option.bind_eq_Some_conv)
  have good: "good_interval (lo, hi)" "list_all good_interval (spectrum_intervals sw (k + 1) ds ?env)"
    using symbol_interval_good [OF ok(1)] ok(3) by (auto simp: iv spectrum_intervals_def list_all_iff dest: symbol_interval_good)
  note step = enc_interval_step [OF "2.prems"(1) good(1) b1(1) good(2) b1(2) "2.prems"(5,6)]
  have W: "16777216 \<le> W_upper b" "W_upper b < 4294967296" using "2.prems"(1) by (simp_all add: enc_inv_def)
  have "128 dvd (d' + t)" using clipped_dvd [OF clip_sent(2) [OF ok(1)] ts(4)] by (simp add: d'_def)
  then have "cand_search (W_upper b) (hd env) t (offset b s) = Some (Found d' (scale_cdf (W_upper b) lo) (scale_cdf (W_upper b) hi))"
    using cand_search_finds [OF W sent_sendable [OF ok(1,2)] ts(2,3), folded d'_def, unfolded cand_bound_cdf, folded lo_def hi_def]
      step(3,4) by simp
  then show ?case using step(5) "2.IH" [OF step(1) ok(3) ts(5) b1(2) step(2) "2.prems"(6)]
    by (simp add: ts(1) Let_def spectrum_sent_def d'_def)
qed (simp add: spectrum_intervals_def spectrum_sent_def)

lemma spectrum_codable:
  assumes "list_all (\<lambda>e. 1 \<le> e \<and> e \<le> 65535) env" "list_all (\<lambda>d. - 32704 \<le> d \<and> d \<le> 32703) data"
    "length data \<le> env_period sw * length env"
  shows "list_all (\<lambda>(e, d). codable e d) (with_env sw 0 data env)"
proof -
  have "e \<in> set env \<and> d \<in> set data" if "(e, d) \<in> set (with_env sw 0 data env)" for e d
    using with_env_set [OF _ that] assms(3) by simp
  then show ?thesis using assms(1,2) by (fastforce simp: list_all_iff codable_def)
qed

lemma valid_spectrum_coefs:
  assumes "valid_spectrum sw data dither env"
  shows "list_all (\<lambda>(e, d). codable e d \<and> 11 \<le> e) (with_env sw 0 data env)"
    "list_all2 (\<lambda>d t. - 64 \<le> t \<and> t \<le> 64 \<and> 128 dvd (d + t)) data dither" "length dither = length data"
proof -
  have "e \<in> set env \<and> d \<in> set data" if "(e, d) \<in> set (with_env sw 0 data env)" for e d
    using with_env_set [OF _ that] assms by (simp add: valid_spectrum_def)
  moreover have "- 32704 \<le> d \<and> d \<le> 32703" if "d \<in> set data" for d
    using that assms by (auto simp: valid_spectrum_def list_all2_conv_all_nth in_set_conv_nth)
  ultimately show "list_all (\<lambda>(e, d). codable e d \<and> 11 \<le> e) (with_env sw 0 data env)"
    using assms by (fastforce simp: list_all_iff codable_def valid_spectrum_def)
  show "list_all2 (\<lambda>d t. - 64 \<le> t \<and> t \<le> 64 \<and> 128 dvd (d + t)) data dither"
    using assms by (auto simp: valid_spectrum_def dvd_eq_mod_eq_0 elim: list_all2_mono)
  show "length dither = length data" using assms by (auto simp: valid_spectrum_def dest: list_all2_lengthD)
qed

lemma dec_logist_roundtrip:
  assumes "enc_inv b" "valid_spectrum sw data dither env" "enc_intervals (spectrum_intervals sw 0 data env) b = Some b'"
    "stream_index b' \<le> length (stream b)" "within b' (stream d)" "synced b d"
  shows "\<exists>d'. WebRtcIsac_DecLogisticMulti2 d env dither (int (length data)) sw =
      Some (int (stream_index b') + (if W_upper b' > 0x01FFFFFF then 1 else 2), spectrum_sent sw 0 data env, d')
    \<and> stream d' = stream d \<and> synced b' d'"
proof -
  note v = valid_spectrum_coefs [OF assms(2)]
  note loop = dec_logist_loop [OF assms(1) v(1,2) assms(3-5)]
  have good: "list_all good_interval (spectrum_intervals sw 0 data env)"
    using v(1) by (auto simp: spectrum_intervals_def list_all_iff dest: symbol_interval_good)
  have bytes: "byte_list (stream d)" "4 \<le> length (stream d)" using assms(5) by (auto simp: within_def)
  have "(if stream_index d = 0 then (shl (stream d ! 0) 24 OR shl (stream d ! 1) 16 OR shl (stream d ! 2) 8 OR stream d ! 3, 3)
      else (streamval d, stream_index d)) = (offset b (stream d), stream_index b + 3)" "W_upper d = W_upper b"
    using assms(6) unfolding first_word [OF bytes] synced_def by auto
  then have "WebRtcIsac_DecLogisticMulti2 d env dither (int (length data)) sw =
      Some (int (stream_index b') + (if W_upper b' > 0x01FFFFFF then 1 else 2), spectrum_sent sw 0 data env,
        d\<lparr>stream_index := stream_index b' + 3, W_upper := W_upper b', streamval := offset b' (stream d)\<rparr>)"
    using loop v(3) unfolding WebRtcIsac_DecLogisticMulti2_def by (simp add: Let_def)
  then show ?thesis by (simp add: synced_def)
qed

subsection \<open>Streams of several calls\<close>

text \<open>What a decoder function promises. \<open>code b d\<close> says that what the decoder may read is a code for the encoder
  state \<open>b\<close>, \<open>sync b d\<close> that the decoder has consumed the symbols that lead to \<open>b\<close>. Then a call returns what was sent, reports
  the length of the code, and stays synchronised.\<close>

locale interval_decoder =
  fixes valid :: "'c \<Rightarrow> bool" and intervals :: "'c \<Rightarrow> (int \<times> int) list"
    and dec :: "'c \<Rightarrow> 's \<Rightarrow> (int \<times> int list \<times> 's) option" and out :: "'c \<Rightarrow> int list"
    and code :: "Bitstr \<Rightarrow> 's \<Rightarrow> bool" and sync :: "Bitstr \<Rightarrow> 's \<Rightarrow> bool"
  assumes good: "valid c \<Longrightarrow> list_all good_interval (intervals c)"
    and code_back: "\<lbrakk>enc_inv b; list_all good_interval ivs; enc_intervals ivs b = Some b'; stream_index b' \<le> length (stream b);
      code b' d\<rbrakk> \<Longrightarrow> code b d"
    and decodes: "\<lbrakk>enc_inv b; valid c; enc_intervals (intervals c) b = Some b'; stream_index b' \<le> length (stream b);
      code b' d; sync b d\<rbrakk> \<Longrightarrow>
      \<exists>d'. dec c d = Some (int (stream_index b') + (if W_upper b' > 0x01FFFFFF then 1 else 2), out c, d')
        \<and> sync b' d' \<and> code b'' d' = code b'' d"

fun dec_sequence :: "('c \<Rightarrow> 's \<Rightarrow> (int \<times> int list \<times> 's) option) \<Rightarrow> 'c list \<Rightarrow> 's \<Rightarrow> (int list \<times> int list list) option" where
  "dec_sequence dec [] d = Some ([], [])"
| "dec_sequence dec (c # cs) d = Option.bind (dec c d)
    (\<lambda>(r, ds, d'). map_option (\<lambda>(rs, dss). (r # rs, ds # dss)) (dec_sequence dec cs d'))"

context interval_decoder
begin

lemma good_all: "list_all valid cs \<Longrightarrow> list_all good_interval (concat (map intervals cs))"
  using good by (auto simp: list_all_iff)

lemma sequence_decodes:
  assumes "enc_inv b" "list_all valid cs" "enc_intervals (concat (map intervals cs)) b = Some b'"
    "stream_index b' \<le> length (stream b)" "code b' d" "sync b d"
  shows "\<exists>rets. dec_sequence dec cs d = Some (rets, map out cs) \<and>
    (cs \<noteq> [] \<longrightarrow> rets \<noteq> [] \<and> last rets = int (stream_index b') + (if W_upper b' > 0x01FFFFFF then 1 else 2))"
  using assms
proof (induction cs arbitrary: b d)
  case (Cons c cs)
  have v: "valid c" "list_all valid cs" using Cons.prems(2) by simp_all
  obtain b1 where b1: "enc_intervals (intervals c) b = Some b1" "enc_intervals (concat (map intervals cs)) b1 = Some b'"
    using Cons.prems(3) by (auto simp: enc_intervals_append Option.bind_eq_Some_conv)
  have w: "enc_wf b1" "length (stream b1) = length (stream b)"
    using enc_intervals_returns [OF enc_inv_wf [OF Cons.prems(1)] good [OF v(1)]] b1(1) by auto
  have fits: "stream_index b1 \<le> length (stream b)" "stream_index b' \<le> length (stream b1)"
    using enc_intervals_returns [OF w(1) good_all [OF v(2)]] b1(2) Cons.prems(4) w(2) by auto
  have inv1: "enc_inv b1" by (rule enc_intervals_within(1) [OF Cons.prems(1) good [OF v(1)] b1(1) fits(1)])
  have "code b1 d" by (rule code_back [OF inv1 good_all [OF v(2)] b1(2) fits(2) Cons.prems(5)])
  from decodes [OF Cons.prems(1) v(1) b1(1) fits(1) this Cons.prems(6), of b']
  obtain d' where d': "dec c d = Some (int (stream_index b1) + (if W_upper b1 > 0x01FFFFFF then 1 else 2), out c, d')"
    "sync b1 d'" "code b' d' = code b' d" by blast
  from Cons.IH [OF inv1 v(2) b1(2) fits(2) _ d'(2)] Cons.prems(5) d'(3)
  obtain rets where "dec_sequence dec cs d' = Some (rets, map out cs)"
    "cs \<noteq> [] \<longrightarrow> rets \<noteq> [] \<and> last rets = int (stream_index b') + (if W_upper b' > 0x01FFFFFF then 1 else 2)" by auto
  then show ?case using d'(1) b1(2) by (cases "cs = []") auto
qed simp

end

text \<open>Every continuation of a terminated stream is a code for the final state.\<close>

lemma terminated_within:
  assumes "byte_list buf" "list_all good_interval ivs" "enc_intervals ivs (fresh_stream buf) = Some e"
    "stream_index e + 2 \<le> length buf" "WebRtcIsac_EncTerminate e = (len, e')"
  shows "enc_inv (fresh_stream buf)" "stream_index e \<le> length (stream (fresh_stream buf))"
    "len = int (stream_index e) + (if W_upper e > 0x01FFFFFF then 1 else 2)"
    "byte_list s \<Longrightarrow> stream_index e + 4 \<le> length s \<Longrightarrow> take (nat len) s = take (nat len) (stream e') \<Longrightarrow> within e s"
proof -
  show inv0: "enc_inv (fresh_stream buf)" by (rule fresh_stream_inv [OF assms(1)])
  show fits: "stream_index e \<le> length (stream (fresh_stream buf))" using assms(4) by (simp add: fresh_stream_def)
  have l: "length (stream e) = length buf"
    using enc_intervals_returns [OF enc_inv_wf [OF inv0] assms(2)] assms(3) by (auto simp: fresh_stream_def)
  have inv: "enc_inv e" by (rule enc_intervals_within(1) [OF inv0 assms(2,3) fits])
  show "len = int (stream_index e) + (if W_upper e > 0x01FFFFFF then 1 else 2)"
    using assms(5) by (auto simp: WebRtcIsac_EncTerminate_def Let_def term_add_def split: if_splits)
  show "within e s" if "byte_list s" "stream_index e + 4 \<le> length s" "take (nat len) s = take (nat len) (stream e')"
    using EncTerminate_within [OF inv that(2) _ assms(5) that(1,3)] assms(4) l by simp
qed

text \<open>The calls that code the parameters of a packet by tables, and those that code a spectrum.\<close>

datatype packet_call = Tables call | Spectrum bool "int list" "int list" "int list"

fun enc_packet_call :: "packet_call \<Rightarrow> Bitstr \<Rightarrow> (int list \<times> Bitstr) option" where
  "enc_packet_call (Tables (m, items)) b = map_option (Pair (map (\<lambda>(cdf, d, h). d) items))
     (WebRtcIsac_EncHistMulti b (map (\<lambda>(cdf, d, h). d) items) (map (\<lambda>(cdf, d, h). cdf) items) (int (length items)))"
| "enc_packet_call (Spectrum sw data dither env) b =
     (case WebRtcIsac_EncLogisticMulti2 b data env (int (length data)) sw of
        Some (r, data', b') \<Rightarrow> if r = 0 then Some (data', b') else None
      | None \<Rightarrow> None)"

fun enc_packet :: "packet_call list \<Rightarrow> Bitstr \<Rightarrow> (int list list \<times> Bitstr) option" where
  "enc_packet [] b = Some ([], b)"
| "enc_packet (c # cs) b = Option.bind (enc_packet_call c b) (\<lambda>(ds, b'). map_option (map_prod (Cons ds) id) (enc_packet cs b'))"

fun dec_packet_call :: "packet_call \<Rightarrow> Bitstr \<Rightarrow> (int \<times> int list \<times> Bitstr) option" where
  "dec_packet_call (Tables c) d = dec_call c d"
| "dec_packet_call (Spectrum sw data dither env) d = WebRtcIsac_DecLogisticMulti2 d env dither (int (length dither)) sw"

fun valid_packet_call :: "packet_call \<Rightarrow> bool" where
  "valid_packet_call (Tables c) = valid_call c"
| "valid_packet_call (Spectrum sw data dither env) = valid_spectrum sw data dither env"

fun packet_intervals :: "packet_call \<Rightarrow> (int \<times> int) list" where
  "packet_intervals (Tables (m, items)) = map item_interval items"
| "packet_intervals (Spectrum sw data dither env) = spectrum_intervals sw 0 data env"

fun packet_sent :: "packet_call \<Rightarrow> int list" where
  "packet_sent (Tables (m, items)) = map (\<lambda>(cdf, d, h). d) items"
| "packet_sent (Spectrum sw data dither env) = spectrum_sent sw 0 data env"

interpretation packet: interval_decoder valid_packet_call packet_intervals dec_packet_call packet_sent "\<lambda>b d. within b (stream d)" synced
proof
  fix c assume "valid_packet_call c"
  then show "list_all good_interval (packet_intervals c)"
    using valid_spectrum_coefs(1)
    by (cases c rule: packet_intervals.cases)
      (fastforce simp: valid_call_def list_all_iff spectrum_intervals_def dest: item_interval_good symbol_interval_good)+
next
  fix b ivs b' d
  assume "enc_inv b" "list_all good_interval ivs" "enc_intervals ivs b = Some b'" "stream_index b' \<le> length (stream b)" "within b' (stream d)"
  then show "within b (stream d)" by (rule enc_intervals_within(2))
next
  fix b c b' d b''
  assume a: "enc_inv b" "valid_packet_call c" "enc_intervals (packet_intervals c) b = Some b'" "stream_index b' \<le> length (stream b)"
    "within b' (stream d)" "synced b d"
  have "\<exists>d'. dec_packet_call c d = Some (int (stream_index b') + (if W_upper b' > 0x01FFFFFF then 1 else 2), packet_sent c, d')
    \<and> stream d' = stream d \<and> synced b' d'"
  proof (cases c rule: packet_intervals.cases)
    case (1 m items)
    then show ?thesis using dec_call_roundtrip [OF a(1) _ _ a(4-6), of m items] a(2,3) by (simp add: enc_loop_intervals)
  next
    case (2 sw data dither env)
    then show ?thesis using dec_logist_roundtrip [OF a(1) _ _ a(4-6), of sw data dither env] a(2,3)
      by (simp add: valid_spectrum_coefs(3))
  qed
  then show "\<exists>d'. dec_packet_call c d = Some (int (stream_index b') + (if W_upper b' > 0x01FFFFFF then 1 else 2), packet_sent c, d')
    \<and> synced b' d' \<and> within b'' (stream d') = within b'' (stream d)" by force
qed

subsection \<open>Properties\<close>

lemma EncLogisticMulti2_result:
  assumes "enc_wf b" "list_all (\<lambda>(e, d). codable e d) (with_env sw 0 data env)"
  shows "\<exists>b'. enc_intervals (spectrum_intervals sw 0 data env) b = Some b' \<and> enc_wf b' \<and>
    (WebRtcIsac_EncLogisticMulti2 b data env (int (length data)) sw = Some (0, spectrum_sent sw 0 data env, b')
        \<and> (stream_index b \<le> 399 \<longrightarrow> stream_index b' \<le> 399)
     \<or> (\<exists>data' b2. WebRtcIsac_EncLogisticMulti2 b data env (int (length data)) sw = Some (- 6440, data', b2)
        \<and> W_upper b2 = W_upper b \<and> stream_index b2 = stream_index b) \<and> 399 < stream_index b')"
proof -
  have good: "list_all good_interval (spectrum_intervals sw 0 data env)"
    using assms(2) by (auto simp: spectrum_intervals_def list_all_iff dest: symbol_interval_good)
  from enc_intervals_returns [OF assms(1) this] obtain b' where b': "enc_intervals (spectrum_intervals sw 0 data env) b = Some b'" "enc_wf b'" by auto
  from enc_logist_loop [OF assms(2) b'(1) assms(1)] show ?thesis
    by (intro exI [of _ b']) (auto simp: b' WebRtcIsac_EncLogisticMulti2_def)
qed

lemma enc_packet_call:
  assumes "enc_wf b" "valid_packet_call c" "enc_packet_call c b = Some (ds, b')"
  shows "ds = packet_sent c" "enc_intervals (packet_intervals c) b = Some b'"
proof -
  have "ds = packet_sent c \<and> enc_intervals (packet_intervals c) b = Some b'"
  proof (cases c rule: packet_intervals.cases)
    case (1 m items)
    then show ?thesis using assms(3) by (auto simp: EncHistMulti_items enc_loop_intervals)
  next
    case (2 sw data dither env)
    have "list_all (\<lambda>(e, d). codable e d) (with_env sw 0 data env)"
      using valid_spectrum_coefs(1) [of sw data dither env] assms(2) 2 by (auto simp: list_all_iff)
    from EncLogisticMulti2_result [OF assms(1) this] assms(3) 2 show ?thesis by (auto split: option.splits if_splits)
  qed
  then show "ds = packet_sent c" "enc_intervals (packet_intervals c) b = Some b'" by auto
qed

lemma enc_packet:
  "enc_packet cs b = Some (dss, e) \<Longrightarrow> enc_wf b \<Longrightarrow> list_all valid_packet_call cs \<Longrightarrow>
    dss = map packet_sent cs \<and> enc_intervals (concat (map packet_intervals cs)) b = Some e"
proof (induction cs arbitrary: b dss)
  case (Cons c cs)
  obtain ds b1 dss' where s: "enc_packet_call c b = Some (ds, b1)" "enc_packet cs b1 = Some (dss', e)" "dss = ds # dss'"
    using Cons.prems(1) by (auto simp: Option.bind_eq_Some_conv)
  note c = enc_packet_call [OF Cons.prems(2) _ s(1)]
  have v: "valid_packet_call c" "list_all valid_packet_call cs" using Cons.prems(3) by simp_all
  have "enc_wf b1" using enc_intervals_returns [OF Cons.prems(2) packet.good [OF v(1)]] c(2) [OF v(1)] by simp
  then show ?case using Cons.IH [OF s(2) _ v(2)] c v(1) s(3) by (simp add: enc_intervals_append)
qed simp

text \<open>C1. A whole iSAC packet: for any sequence of valid calls of the table coder and of the logistic coder that the encoder
  accepts, the terminated stream decodes to exactly what the encoder calls reported as sent (a spectrum as clipped by the
  encoder), whatever bytes follow it, and the last call returns the length of the stream. A valid call of the table coder
  has increasing tables ending in 65535, symbols of the tables and admissible hints. A valid spectrum has coefficients from
  -32704 to 32703, dither values from -64 to 64, coefficients on the dithered grid (coefficient plus dither a multiple of
  128), and enough envelope values, all from 11 to 65535; below 11 the statement is false (\<open>logistic_decoder_rejects\<close>,
  \<open>logistic_coder_hangs\<close>). The encoder's array has room for the two bytes of the termination, and the decoder's array at
  least four bytes from the encoder's last position on, which the decoder may look at.\<close>

theorem isac_packet_roundtrip:
  assumes "byte_list buf" "list_all valid_packet_call calls" "enc_packet calls (fresh_stream buf) = Some (sent_data, e)"
    "stream_index e + 2 \<le> length buf" "WebRtcIsac_EncTerminate e = (len, e')"
    "byte_list s" "stream_index e + 4 \<le> length s" "take (nat len) s = take (nat len) (stream e')"
  shows "\<exists>rets. dec_sequence dec_packet_call calls (fresh_stream s) = Some (rets, sent_data)
    \<and> (calls \<noteq> [] \<longrightarrow> rets \<noteq> [] \<and> last rets = len)"
proof -
  have "enc_wf (fresh_stream buf)" using assms(1) by (intro enc_inv_wf fresh_stream_inv)
  note sent = enc_packet [OF assms(3) this assms(2)]
  then have ivs: "enc_intervals (concat (map packet_intervals calls)) (fresh_stream buf) = Some e" by simp
  note e = terminated_within [OF assms(1) packet.good_all [OF assms(2)] ivs assms(4,5)]
  show ?thesis
    using packet.sequence_decodes [OF e(1) assms(2) ivs e(2), of "fresh_stream s"] e(3) e(4) [OF assms(6-8)] fresh_synced [of buf s] sent
    by (simp add: fresh_stream_def)
qed

text \<open>C21. The encoder of a spectrum returns, from any state of the coder with its position below the limit of 400 bytes, for every
  vector of coefficients from -32704 to 32703 (so that no edge of a symbol leaves 16 bits) and envelope values from 1 to 65535,
  though its clipping loop is not bounded: either the code fits the 400 bytes, and each coefficient is sent as it is when its
  symbol is wide enough, and otherwise moved towards zero on its grid to a symbol that is, and the new state is a state of the
  coder; or the error for the length is returned with interval and position unchanged. (The struct of the code has 600 cells, so
  the at most three bytes written before the length is tested stay inside of it.)\<close>

theorem EncLogisticMulti2_contract:
  assumes "enc_inv b" "stream_index b < 400" "400 \<le> length (stream b)"
    "list_all (\<lambda>e. 1 \<le> e \<and> e \<le> 65535) env" "list_all (\<lambda>d. - 32704 \<le> d \<and> d \<le> 32703) data"
    "length data \<le> env_period sw * length env"
  shows "\<exists>r data' b'. WebRtcIsac_EncLogisticMulti2 b data env (int (length data)) sw = Some (r, data', b') \<and>
    (r = 0 \<and> stream_index b' < 400 \<and> enc_inv b' \<and>
       list_all2 (\<lambda>(e, d) d'. clipped e d d' \<and> (cdf_at e (d - 64) + 2 \<le> cdf_at e (d + 64) \<longrightarrow> d' = d)) (with_env sw 0 data env) data'
     \<or> r = - 6440 \<and> W_upper b' = W_upper b \<and> stream_index b' = stream_index b)"
proof -
  note ok = spectrum_codable [OF assms(4-6)]
  have good: "list_all good_interval (spectrum_intervals sw 0 data env)"
    using ok by (auto simp: spectrum_intervals_def list_all_iff dest: symbol_interval_good)
  have same: "sent e d = d" if "cdf_at e (d - 64) + 2 \<le> cdf_at e (d + 64)" for e d
    using clip_loop_stops [OF that] by (simp add: sent_def clip_def flip: cdf_at_def)
  have sent: "list_all2 (\<lambda>(e, d) d'. clipped e d d' \<and> (cdf_at e (d - 64) + 2 \<le> cdf_at e (d + 64) \<longrightarrow> d' = d))
      (with_env sw 0 data env) (spectrum_sent sw 0 data env)"
    using ok same clip_sent(2) by (auto simp: spectrum_sent_def list_all2_conv_all_nth list_all_length split: prod.splits)
  from EncLogisticMulti2_result [OF enc_inv_wf [OF assms(1)] ok] obtain b' where b': "enc_intervals (spectrum_intervals sw 0 data env) b = Some b'"
    "WebRtcIsac_EncLogisticMulti2 b data env (int (length data)) sw = Some (0, spectrum_sent sw 0 data env, b') \<and> stream_index b' \<le> 399
     \<or> (\<exists>data' b2. WebRtcIsac_EncLogisticMulti2 b data env (int (length data)) sw = Some (- 6440, data', b2)
        \<and> W_upper b2 = W_upper b \<and> stream_index b2 = stream_index b)" using assms(2) by auto
  have "enc_inv b'" if "stream_index b' \<le> 399" using that assms(3) by (intro enc_intervals_within(1) [OF assms(1) good b'(1)]) simp
  then show ?thesis using b'(2) sent by fastforce
qed

text \<open>The walk of the decoder ends with the range error at the first two candidates of equal probability that lie below the
  value.\<close>

lemma cand_up_rejects:
  assumes W: "0 \<le> W" "W < 4294967296" and env: "0 \<le> env" "env \<le> 65535"
    and c: "- 32768 \<le> c" "c + 128 * int n + 128 \<le> 32767"
    and flat: "cdf_at env (c + 128 * int n) = cdf_at env (c + 128 * int n + 128)" and v: "cand_bound W env (c + 128 * int n) < v"
  shows "cand_up W env v c wl (cand_bound W env c) = Some Range_error"
  using c flat v
proof (induction n arbitrary: c wl)
  case 0
  have "s16 (c + 128) = c + 128" using 0 by (intro s16_id) auto
  then show ?case using 0 by (subst cand_up.simps) (simp add: Let_def cand_bound_cdf)
next
  case (Suc n)
  have s: "s16 (c + 128) = c + 128" using Suc.prems(1,2) by (intro s16_id) auto
  have "cand_bound W env c \<le> cand_bound W env (c + 128 * int (Suc n))"
    using Suc.prems(1,2) by (intro cand_bound_mono W cdf_at_mono env) auto
  then have gt: "cand_bound W env c < v" using Suc.prems(4) by simp
  have e: "c + 128 * int (Suc n) = c + 128 + 128 * int n" by simp
  have "cand_up W env v (c + 128) (cand_bound W env c) (cand_bound W env (c + 128)) = Some Range_error"
    using Suc.prems unfolding e by (intro Suc.IH) auto
  then show ?case using gt by (subst cand_up.simps) (simp only: s Let_def if_True simp_thms split: if_split)
qed

lemma cand_search_rejects:
  assumes W: "0 \<le> W" "W < 4294967296" and env: "0 \<le> env" "env \<le> 65535" and t: "- 64 \<le> t" "t \<le> 64"
    and c: "192 - t \<le> c" "c + 128 \<le> 32767" "(c + t - 64) mod 128 = 0"
    and flat: "cdf_at env c = cdf_at env (c + 128)" and v: "cand_bound W env c < v"
  shows "cand_search W env t v = Some Range_error"
proof -
  obtain k where k: "c + t - 64 = 128 * k" using c(3) by auto
  define n where "n = nat (k - 1)"
  have n: "c = 192 - t + 128 * int n" using k c(1) by (simp add: n_def)
  have s: "s16 (64 - t) = 64 - t" "s16 (192 - t) = 192 - t" using t by (simp_all add: s16_id)
  have "cand_bound W env (64 - t) \<le> cand_bound W env c" using t c(1,2) by (intro cand_bound_mono W cdf_at_mono env) auto
  then have "cand_bound W env (64 - t) < v" using v by simp
  moreover have "cand_up W env v (192 - t) (cand_bound W env (64 - t)) (cand_bound W env (192 - t)) = Some Range_error"
    using t c(2) flat v unfolding n by (intro cand_up_rejects [OF W env, of _ n]) auto
  ultimately show ?thesis by (simp add: cand_search_def Let_def s)
qed

text \<open>C22. The decoder refuses spectra of its own encoder: whenever a coefficient \<open>d\<close> has a symbol wide enough to be sent, but the
  distribution function is flat between two candidates \<open>c\<close> and \<open>c + 128\<close> that the decoder passes on its way from zero to
  \<open>d\<close>, the encoder accepts \<open>d\<close> and sends it unchanged, and the decoder returns the error -1 on the stream, whatever bytes
  follow it. The piecewise table has such places for the envelope values 7 to 10.\<close>

theorem logistic_decoder_rejects:
  assumes "1 \<le> env" "env \<le> 65535" "- 64 \<le> t" "t \<le> 64" "d \<le> 32703"
    and wide: "cdf_at env (d - 64) + 2 \<le> cdf_at env (d + 64)"
    and flat: "192 - t \<le> c" "c \<le> d - 64" "(c + t - 64) mod 128 = 0" "cdf_at env c = cdf_at env (c + 128)"
    and buf: "byte_list buf" "5 \<le> length buf"
  shows "\<exists>b len b'. WebRtcIsac_EncLogisticMulti2 (fresh_stream buf) [d] [env] 1 sw = Some (0, [d], b) \<and>
    WebRtcIsac_EncTerminate b = (len, b') \<and>
    (\<forall>s. byte_list s \<and> stream_index b + 4 \<le> length s \<and> take (nat len) s = take (nat len) (stream b') \<longrightarrow>
      WebRtcIsac_DecLogisticMulti2 (fresh_stream s) [env] [t] 1 sw = Some (- 1, [], fresh_stream s))"
proof -
  have ok: "codable env d" using assms(1-5) flat(1,2) by (simp add: codable_def)
  then have okl: "list_all (\<lambda>(e, d). codable e d) (with_env sw 0 [d] [env])" by simp
  have sent: "sent env d = d" using clip_loop_stops [OF wide] by (simp add: sent_def clip_def flip: cdf_at_def)
  have iv: "spectrum_intervals sw 0 [d] [env] = [(cdf_at env (d - 64), cdf_at env (d + 64))]"
    by (simp add: spectrum_intervals_def symbol_interval_def sent)
  have good: "good_interval (cdf_at env (d - 64), cdf_at env (d + 64))" using wide by (simp add: good_interval_def cdf_at_bounds)
  note inv = fresh_stream_inv [OF buf(1)]
  from EncLogisticMulti2_result [OF enc_inv_wf [OF inv] okl] obtain b where
    b: "enc_intervals [(cdf_at env (d - 64), cdf_at env (d + 64))] (fresh_stream buf) = Some b"
      "WebRtcIsac_EncLogisticMulti2 (fresh_stream buf) [d] [env] 1 sw = Some (0, [d], b) \<and> stream_index b \<le> 399 \<or> 399 < stream_index b"
    unfolding iv by (auto simp: spectrum_sent_def sent fresh_stream_def)
  obtain cdf where cdf: "wf_cdf cdf" "symbol_of cdf 0" "cdf ! nat 0 = cdf_at env (d - 64)" "cdf ! nat (0 + 1) = cdf_at env (d + 64)"
    using interval_item [OF good] by (auto simp: interval_item_def valid_item_def item_interval_def)
  have one: "enc_interval (cdf_at env (d - 64)) (cdf_at env (d + 64)) (fresh_stream buf) = Some b"
    using b(1) by (auto simp: Option.bind_eq_Some_conv)
  then have "enc_symbol cdf 0 (fresh_stream buf) = Some b" by (simp add: enc_symbol_def cdf(3,4) [simplified])
  then have i: "stream_index b \<le> 3"
    using checked_symbol_inside [OF inv _ cdf(1,2)] buf(2) by (auto simp: fresh_stream_def)
  then have enc: "WebRtcIsac_EncLogisticMulti2 (fresh_stream buf) [d] [env] 1 sw = Some (0, [d], b)" using b(2) i by simp
  obtain len b' where t: "WebRtcIsac_EncTerminate b = (len, b')" by fastforce
  have room: "stream_index b + 2 \<le> length buf" using i buf(2) by simp
  note e = terminated_within [OF buf(1) _ b(1) room t]
  have "WebRtcIsac_DecLogisticMulti2 (fresh_stream s) [env] [t] 1 sw = Some (- 1, [], fresh_stream s)"
    if s: "byte_list s" "stream_index b + 4 \<le> length s" "take (nat len) s = take (nat len) (stream b')" for s
  proof -
    have "within b s" using e(4) [OF _ s] good by simp
    then have off: "scale_cdf 4294967295 (cdf_at env (d - 64)) < offset (fresh_stream buf) s"
      using enc_interval_step(3) [OF inv good one, of "[]" b s] e(2) good by (simp add: fresh_stream_def)
    have o: "offset (fresh_stream buf) s = be_val (take 4 s)" by (simp add: offset_def fresh_stream_def state_val_def code_val_def)
    have "cand_bound 4294967295 env c \<le> scale_cdf 4294967295 (cdf_at env (d - 64))"
      unfolding cand_bound_cdf [symmetric] using assms(1-5) flat by (intro cand_bound_mono cdf_at_mono) auto
    then have "cand_search 4294967295 env t (be_val (take 4 s)) = Some Range_error"
      using off assms(1-5) flat by (intro cand_search_rejects [where c = c]) (auto simp: o)
    then show ?thesis using first_word [OF s(1)] s(2) by (simp add: WebRtcIsac_DecLogisticMulti2_def fresh_stream_def)
  qed
  then show ?thesis using enc t by blast
qed

theorem logistic_decoder_rejects_witness:
  "\<exists>b len b'. WebRtcIsac_EncLogisticMulti2 (fresh_stream (replicate 600 0)) [22416] [7] 1 False = Some (0, [22416], b) \<and>
    WebRtcIsac_EncTerminate b = (len, b') \<and>
    (\<forall>s. byte_list s \<and> stream_index b + 4 \<le> length s \<and> take (nat len) s = take (nat len) (stream b') \<longrightarrow>
      WebRtcIsac_DecLogisticMulti2 (fresh_stream s) [7] [- 16] 1 False = Some (- 1, [], fresh_stream s))"
proof -
  have "cdf_at 7 (22416 - 64) + 2 \<le> cdf_at 7 (22416 + 64)" "cdf_at 7 20560 = cdf_at 7 (20560 + 128)" by code_simp+
  from logistic_decoder_rejects [OF _ _ _ _ _ this(1) _ _ _ this(2), of "- 16" "replicate 600 0" False]
  show ?thesis by (simp add: byte_list_def list_all_iff)
qed

text \<open>Two loops that never return: the walk of the decoder when the candidates stay below the value and differ from their
  successors, and the clipping loop on an interval that is empty for every coefficient.\<close>

lemma cand_up_hangs:
  assumes "\<And>c. c \<in> C \<Longrightarrow> s16 (c + 128) \<in> C" "\<And>c. c \<in> C \<Longrightarrow> cand_bound W env c < v"
    "\<And>c. c \<in> C \<Longrightarrow> cand_bound W env c \<noteq> cand_bound W env (s16 (c + 128))" "c \<in> C"
  shows "cand_up W env v c wl (cand_bound W env c) = None"
proof (rule ccontr)
  assume "cand_up W env v c wl (cand_bound W env c) \<noteq> None"
  then obtain r where r: "cand_up W env v c wl (cand_bound W env c) = Some r" by auto
  let ?P = "\<lambda>W' env' v' c wl wt r. W' = W \<and> env' = env \<and> v' = v \<and> c \<in> C \<and> wt = cand_bound W env c \<longrightarrow> False"
  have "?P W env v c wl (cand_bound W env c) r"
  proof (rule cand_up.raw_induct [where P = ?P, OF _ r], rule impI, elim conjE)
    fix rec W' env' v' c wl wt r
    assume IH: "\<And>W' env' v' c wl wt r. rec W' env' v' c wl wt = Some r \<Longrightarrow> ?P W' env' v' c wl wt r"
      and step: "(if wt < v' then let wl = wt; c = s16 (c + 128); wt = cand_bound W' env' c
        in if wl = wt then Some Range_error else rec W' env' v' c wl wt else Some (Found (s16 (c - 64)) wl wt)) = Some r"
      and eqs: "W' = W" "env' = env" "v' = v" "c \<in> C" "wt = cand_bound W env c"
    have "rec W env v (s16 (c + 128)) (cand_bound W env c) (cand_bound W env (s16 (c + 128))) = Some r"
      using step assms(2,3) [OF eqs(4)] by (simp add: eqs Let_def)
    from IH [OF this] show False using assms(1) [OF eqs(4)] by simp
  qed
  then show False using assms(4) by simp
qed

lemma clip_loop_hangs:
  assumes "\<And>x. piecewise (s32 (x * 0)) = y" "0 \<le> y" "y < 65536"
  shows "clip_loop 0 d y y = None"
proof (rule ccontr)
  assume "clip_loop 0 d y y \<noteq> None"
  then obtain r where r: "clip_loop 0 d y y = Some r" by auto
  let ?P = "\<lambda>env d lo hi r. env = (0 :: int) \<and> lo = y \<and> hi = y \<longrightarrow> False"
  have "?P 0 d y y r"
  proof (rule clip_loop.raw_induct [where P = ?P, OF _ r], rule impI, elim conjE)
    fix rec env d lo hi r
    assume IH: "\<And>env d lo hi r. rec env d lo hi = Some r \<Longrightarrow> ?P env d lo hi r"
      and step: "(if hi \<le> u32 (lo + 1) then if 0 < d then let d = s16 (d - 128) in rec env d (piecewise (s32 ((d - 64) * env))) lo
        else let d = s16 (d + 128) in rec env d hi (piecewise (s32 ((d + 64) * env))) else Some (d, lo, hi)) = Some r"
      and eqs: "env = 0" "lo = y" "hi = y"
    have "y \<le> u32 (y + 1)" "piecewise (s32 0) = y" using assms(1) [of 0] assms(2,3) by (simp_all add: u32_id)
    then have "\<exists>d. rec 0 d y y = Some r" using step by (auto simp: eqs Let_def split: if_splits)
    then show False using IH by blast
  qed
  then show False by simp
qed

definition candidates :: "int set" where
  "candidates = {c. - 32704 \<le> c \<and> c \<le> 32704 \<and> (c - 64) mod 128 = 0}"

lemma candidates_next: "c \<in> candidates \<Longrightarrow> c < 32704 \<and> s16 (c + 128) = c + 128 \<and> c + 128 \<in> candidates
    \<or> c = 32704 \<and> s16 (c + 128) = - 32704"
proof -
  assume c: "c \<in> candidates"
  show ?thesis
  proof (cases "c = 32704")
    case True
    have "s16 32832 = - 32704" by code_simp
    then show ?thesis using True by simp
  next
    case False
    then have "c + 128 \<le> 32704" using c unfolding candidates_def by (auto, presburger)
    moreover have "(c + 128 - 64) mod 128 = (c - 64) mod 128" using mod_add_self2 [of "c - 64" 128] by (simp add: algebra_simps)
    ultimately show ?thesis using c by (auto simp: candidates_def s16_id)
  qed
qed

lemma candidates_differ:
  assumes "jumps (128 * env) l u" "1 \<le> env" "env \<le> 4" "int l \<le> seg (- 32704 * env)" "seg (32704 * env) \<le> int u" "c \<in> candidates"
  shows "cdf_at env c \<noteq> cdf_at env (s16 (c + 128))"
proof -
  have less: "cdf_at env c < cdf_at env (c + 128)" if "- 32704 \<le> c" "c + 128 \<le> 32704" for c
  proof -
    have e: "- 32704 * env \<le> c * env" "(c + 128) * env \<le> 32704 * env" using that assms(2) by (intro mult_right_mono; simp)+
    then have r: "- 32704 * env \<le> c * env" "c * env + 128 * env \<le> 32704 * env" by (simp_all only: distrib_right)
    have "- 327680 \<le> c * env" "c * env + 128 * env \<le> 327680" using r assms(2,3) by linarith+
    then have "piecewise (c * env) < piecewise (c * env + 128 * env)"
      using assms(2-5) seg_mono [OF r(1)] seg_mono [OF r(2)] by (intro jumps_window [OF assms(1)]) simp_all
    then show ?thesis using that assms(2,3) by (simp add: cdf_at_eq distrib_right)
  qed
  from candidates_next [OF assms(6)] show ?thesis
  proof
    assume "c < 32704 \<and> s16 (c + 128) = c + 128 \<and> c + 128 \<in> candidates"
    then show ?thesis using less [of c] assms(6) by (auto simp: candidates_def)
  next
    assume c: "c = 32704 \<and> s16 (c + 128) = - 32704"
    have "cdf_at env (- 32704) < cdf_at env (- 32576)" using less [of "- 32704"] by simp
    also have "\<dots> \<le> cdf_at env 32704" using assms(2,3) by (intro cdf_at_mono) auto
    finally show ?thesis using c by (metis less_irrefl)
  qed
qed

lemma decoder_hangs:
  assumes "jumps (128 * env) l u" "1 \<le> env" "env \<le> 4" "int l \<le> seg (- 32704 * env)" "seg (32704 * env) \<le> int u"
  shows "WebRtcIsac_DecLogisticMulti2 (fresh_stream (replicate 8 255)) [env] [0] 1 False = None"
proof -
  let ?W = "0xFFFFFFFF :: int"
  have lt: "cand_bound ?W env c < ?W" for c
  proof -
    have "?W * cdf_at env c \<le> ?W * 65535" using cdf_at_bounds(2) by (intro mult_left_mono) auto
    from zdiv_mono1 [OF this, of 65536] show ?thesis using cdf_at_bounds(1,2) [of env c] by (simp add: cand_bound_cdf scale_cdf_eq)
  qed
  have "cand_bound ?W env c \<noteq> cand_bound ?W env (s16 (c + 128))" if "c \<in> candidates" for c
    using candidates_differ [OF assms that] cand_bound_less [of ?W env c "s16 (c + 128)"] cand_bound_less [of ?W env "s16 (c + 128)" c]
    by (cases "cdf_at env c < cdf_at env (s16 (c + 128))") auto
  moreover have "s16 (c + 128) \<in> candidates" if "c \<in> candidates" for c
    using candidates_next [OF that] by (auto simp: candidates_def)
  ultimately have "cand_up ?W env ?W 192 wl (cand_bound ?W env 192) = None" for wl
    using lt by (intro cand_up_hangs [of candidates]) (auto simp: candidates_def)
  then have "cand_search ?W env 0 ?W = None"
    using lt by (simp add: cand_search_def s16_id Let_def)
  moreover have "shl 255 24 OR shl 255 16 OR shl 255 8 OR 255 = ?W" by code_simp
  ultimately show ?thesis
    by (simp add: WebRtcIsac_DecLogisticMulti2_def fresh_stream_def numeral_eq_Suc)
qed

text \<open>C23. Some envelope values make the coder hang: for 1 to 4 the walk of the decoder on a stream of \<open>0xFF\<close> bytes wraps
  around the 16-bit candidate before it meets two equal probabilities, and never ends; for 0 the clipping loop of the encoder
  never ends, whatever the coefficient.\<close>

theorem logistic_coder_hangs:
  "map (\<lambda>env. WebRtcIsac_DecLogisticMulti2 (fresh_stream (replicate 8 255)) [env] [0] 1 False) [1, 2, 3, 4] = [None, None, None, None]
   \<and> WebRtcIsac_EncLogisticMulti2 b [d] [0] 1 False = None"
proof
  have j: "jumps 128 22 28" "jumps 256 20 30" "jumps 384 17 33" "jumps 512 15 34" by code_simp+
  show "map (\<lambda>env. WebRtcIsac_DecLogisticMulti2 (fresh_stream (replicate 8 255)) [env] [0] 1 False) [1, 2, 3, 4] = [None, None, None, None]"
    using decoder_hangs [of 1 22 28] decoder_hangs [of 2 20 30] decoder_hangs [of 3 17 33] decoder_hangs [of 4 15 34] j
    by (simp add: seg_def)
  have "piecewise (s32 (x * 0)) = 33336" for x by (simp, code_simp)
  then have "clip_loop 0 d 33336 33336 = None" by (intro clip_loop_hangs) simp_all
  moreover have "piecewise 0 = 33336" by code_simp
  ultimately show "WebRtcIsac_EncLogisticMulti2 b [d] [0] 1 False = None"
    by (simp add: WebRtcIsac_EncLogisticMulti2_def clip_def)
qed

definition sample_packet :: "packet_call list" where
  "sample_packet = [Tables (OneStep, [([0, 100, 30000, 65535], 1, 2)]), Spectrum False [144, - 2160] [- 16, - 16] [256]]"

lemma sample_packet_valid: "list_all valid_packet_call sample_packet"
  by (simp add: sample_packet_def valid_call_def valid_item_def hint_ok_def wf_cdf_def symbol_of_def valid_spectrum_def env_period_def)

theorem isac_packet_roundtrip_witness:
  "\<exists>rets. dec_sequence dec_packet_call sample_packet (fresh_stream [94, 10, 99, 38, 7, 7]) = Some (rets, [[1], [144, - 1264]])
     \<and> rets \<noteq> [] \<and> last rets = 3"
proof -
  define e e' where "e = \<lparr>stream = [94, 10, 0, 0, 0, 0, 0, 0], W_upper = 999620608, streamval = 1647378432, stream_index = 2\<rparr>"
    and "e' = \<lparr>stream = [94, 10, 99, 0, 0, 0, 0, 0], W_upper = 999620608, streamval = 1664155648, stream_index = 2\<rparr>"
  have "enc_packet sample_packet (fresh_stream (replicate 8 0)) = Some ([[1], [144, - 1264]], e)" "WebRtcIsac_EncTerminate e = (3, e')"
    unfolding e_def e'_def by code_simp+
  note run = isac_packet_roundtrip [OF _ sample_packet_valid this(1) _ this(2), of "[94, 10, 99, 38, 7, 7]"]
  have "sample_packet \<noteq> []" by (simp add: sample_packet_def)
  then show ?thesis using run by (auto simp: e_def e'_def byte_list_def list_all_iff)
qed

theorem EncLogisticMulti2_contract_witness:
  "\<exists>r data' b'. WebRtcIsac_EncLogisticMulti2 (fresh_stream (replicate 600 0)) [144, - 2160] [3] 2 True = Some (r, data', b') \<and>
    (r = 0 \<and> stream_index b' < 400 \<and> enc_inv b' \<and>
       list_all2 (\<lambda>(e, d) d'. clipped e d d' \<and> (cdf_at e (d - 64) + 2 \<le> cdf_at e (d + 64) \<longrightarrow> d' = d)) [(3, 144), (3, - 2160)] data'
     \<or> r = - 6440 \<and> W_upper b' = 4294967295 \<and> stream_index b' = 0)"
proof -
  have "byte_list (replicate 600 0)" by (simp add: byte_list_def list_all_iff)
  from EncLogisticMulti2_contract [OF fresh_stream_inv [OF this], of "[3]" "[144, - 2160]" True] show ?thesis
    by (simp add: fresh_stream_def env_period_def env_step_def numeral_2_eq_2)
qed

end
