(* ===== verification/IsacFix.thy ===== *)
theory IsacFix imports IsacPacket SplMath
begin

text \<open>
  The arithmetic coder of the fixed-point iSAC codec
  (\<^verbatim>\<open>webrtc/modules/audio_coding/codecs/isac/fix/source\<close>: \<^verbatim>\<open>structs.h\<close>, \<^verbatim>\<open>arith_routines.c\<close>,
  \<^verbatim>\<open>arith_routines_hist.c\<close>, \<^verbatim>\<open>arith_routines_logist.c\<close>). It keeps its stream in 16-bit words, most significant byte
  first; \<open>full\<close> is 1 when the current word is still unused and 0 when its first byte is taken.

  The table searches are those of the floating-point codec (\<open>IsacArith\<close>): the loops are the same in both sources.
\<close>

subsection \<open>Structs\<close>

record Bitstr_enc =
  enc_stream :: "int list"
  enc_W_upper :: int
  enc_streamval :: int
  enc_stream_index :: nat
  enc_full :: int

record Bitstr_dec =
  dec_stream :: "int list"
  dec_W_upper :: int
  dec_streamval :: int
  dec_stream_index :: nat
  dec_full :: int
  stream_size :: nat

subsection \<open>Encoder\<close>

text \<open>\<open>while (!(++(*--streamPtrCarry)));\<close> on words. As in \<open>IsacArith\<close>, the list is left unchanged where the
  C code would write before the array (a carry past index 0); the carries of the fixed-point encoder are
  those of the byte encoder (\<open>carry_words_bytes\<close>), which never run past index 0 from a coder state of
  the invariant.\<close>

fun carry_words :: "int list \<Rightarrow> nat \<Rightarrow> int list" where
  "carry_words s 0 = s"
| "carry_words s (Suc i) =
    (let v = u16 (s ! i + 1) in if v = 0 then carry_words (s[i := v]) i else s[i := v])"

definition fix_carry :: "int list \<Rightarrow> nat \<Rightarrow> int \<Rightarrow> int list" where
  "fix_carry s i full =
    (if full = 0
     then let negCarry = u16 (s ! i + 0x0100); s = s[i := negCarry]
          in if negCarry = 0 then carry_words s i else s
     else carry_words s i)"

text \<open>The most significant byte of \<open>streamval\<close> goes to the stream.\<close>

definition put_byte :: "int \<Rightarrow> int list \<Rightarrow> nat \<Rightarrow> int \<Rightarrow> int list \<times> nat \<times> int" where
  "put_byte v s i full =
    (if full = 0 then (s[i := u16 (s ! i + u16 (asr v 24))], i + 1, 1)
     else (s[i := u16 (shl (asr v 24) 8)], i, 0))"

definition STREAM_MAXW16_60MS :: nat where
  "STREAM_MAXW16_60MS = 200"

partial_function (option) fix_renorm :: "int \<Rightarrow> int \<Rightarrow> int list \<Rightarrow> nat \<Rightarrow> int \<Rightarrow>
    (int \<times> int list \<times> int + int \<times> int \<times> int list \<times> nat \<times> int) option" where
  "fix_renorm W v s i full =
    (if W AND 0xFF000000 = 0
     then case put_byte v s i full of (s, i, full) \<Rightarrow>
            if i > STREAM_MAXW16_60MS - 1 then Some (Inl (v, s, full))
            else fix_renorm (u32 (shl W 8)) (u32 (shl v 8)) s i full
     else Some (Inr (W, v, s, i, full)))"

declare fix_renorm.simps [code]

text \<open>The coding of an interval, the same in both encoders: \<open>Inl\<close> when the stream is full. \<open>W_upper\<close> and the stream
  pointer are local variables and reach the struct only at the end of the call.\<close>

definition fix_interval :: "int \<Rightarrow> int \<Rightarrow> Bitstr_enc \<Rightarrow> (Bitstr_enc + Bitstr_enc) option" where
  "fix_interval cdfLo cdfHi b =
    (let W_lower = u32 (scale_cdf (enc_W_upper b) cdfLo + 1);
         W = u32 (scale_cdf (enc_W_upper b) cdfHi - W_lower);
         v = u32 (enc_streamval b + W_lower);
         s = (if v < W_lower then fix_carry (enc_stream b) (enc_stream_index b) (enc_full b) else enc_stream b)
     in map_option (map_sum (\<lambda>(v, s, full). b\<lparr>enc_stream := s, enc_streamval := v, enc_full := full\<rparr>)
          (\<lambda>(W, v, s, i, full). b\<lparr>enc_stream := s, enc_W_upper := W, enc_streamval := v, enc_stream_index := i, enc_full := full\<rparr>))
          (fix_renorm W v s (enc_stream_index b) (enc_full b)))"

fun fix_enc_loop :: "(int list \<times> int) list \<Rightarrow> Bitstr_enc \<Rightarrow> (Bitstr_enc + Bitstr_enc) option" where
  "fix_enc_loop [] b = Some (Inr b)"
| "fix_enc_loop ((cdf, d) # rest) b =
    (case fix_interval (cdf ! nat (u32 d)) (cdf ! (nat (u32 d) + 1)) b of
       Some (Inr b') \<Rightarrow> fix_enc_loop rest b'
     | r \<Rightarrow> r)"

definition enc_return :: "Bitstr_enc \<Rightarrow> Bitstr_enc + Bitstr_enc \<Rightarrow> int \<times> Bitstr_enc" where
  "enc_return b r = (case r of
       Inl b' \<Rightarrow> (- 6440, b'\<lparr>enc_W_upper := enc_W_upper b, enc_stream_index := enc_stream_index b\<rparr>)
     | Inr b' \<Rightarrow> (0, b'))"

definition WebRtcIsacfix_EncHistMulti :: "Bitstr_enc \<Rightarrow> int list \<Rightarrow> int list list \<Rightarrow> int \<Rightarrow> (int \<times> Bitstr_enc) option" where
  "WebRtcIsacfix_EncHistMulti b data cdf lenData =
    map_option (enc_return b) (fix_enc_loop (take (nat lenData) (zip cdf data)) b)"

text \<open>Termination: the value is added with its carry, then one or two bytes are written; the struct keeps its position.\<close>

definition fix_term_add :: "int \<Rightarrow> Bitstr_enc \<Rightarrow> Bitstr_enc" where
  "fix_term_add a b =
    (let v = u32 (enc_streamval b + a)
     in b\<lparr>enc_streamval := v,
          enc_stream := (if v < a then fix_carry (enc_stream b) (enc_stream_index b) (enc_full b) else enc_stream b)\<rparr>)"

definition WebRtcIsacfix_EncTerminate :: "Bitstr_enc \<Rightarrow> int \<times> Bitstr_enc" where
  "WebRtcIsacfix_EncTerminate b =
    (if enc_W_upper b > 0x01FFFFFF
     then let b = fix_term_add 0x01000000 b
          in case put_byte (enc_streamval b) (enc_stream b) (enc_stream_index b) (enc_full b) of (s, i, full) \<Rightarrow>
               (s16 (shl (int i) 1 + (if full = 0 then 1 else 0)), b\<lparr>enc_stream := s, enc_full := full\<rparr>)
     else let b = fix_term_add 0x00010000 b; s = enc_stream b; i = enc_stream_index b; v = enc_streamval b;
              s = (if enc_full b \<noteq> 0 then s[i := u16 (asr v 16)]
                   else s[i := u16 (s ! i OR u16 (asr v 24)), i + 1 := u16 (asr v 8) AND 0xFF00])
          in (s16 (shl (int (i + 1)) 1 + (if enc_full b = 0 then 1 else 0)), b\<lparr>enc_stream := s\<rparr>))"

subsection \<open>The distribution function\<close>

definition kHistEdges :: "int list" where
  "kHistEdges = [
    -327680, -314573, -301466, -288359, -275252, -262144, -249037, -235930, -222823, -209716,
    -196608, -183501, -170394, -157287, -144180, -131072, -117965, -104858,  -91751,  -78644,
    -65536,  -52429,  -39322,  -26215,  -13108,       0,   13107,   26214,   39321,   52428,
    65536,   78643,   91750,  104857,  117964,  131072,  144179,  157286,  170393,  183500,
    196608,  209715,  222822,  235929,  249036,  262144,  275251,  288358,  301465,  314572,
    327680]"

definition kCdfSlope :: "int list" where
  "kCdfSlope = [
    5,    5,     5,     5,     5,     5,     5,     5,    5,    5,
    5,    5,    13,    23,    47,    87,   154,   315,  700, 1088,
    2471, 6064, 14221, 21463, 36634, 36924, 19750, 13270, 5806, 2312,
    1095,  660,   316,   145,    86,    41,    32,     5,    5,    5,
    5,    5,     5,     5,     5,     5,     5,     5,    5,    2,
    0]"

definition kCdfLogistic :: "int list" where
  "kCdfLogistic = [
    0,     2,     4,     6,     8,    10,    12,    14,    16,    18,
    20,    22,    24,    29,    38,    57,    92,   153,   279,   559,
    994,  1983,  4408, 10097, 18682, 33336, 48105, 56005, 61313, 63636,
    64560, 64998, 65262, 65389, 65447, 65481, 65497, 65510, 65512, 65514,
    65516, 65518, 65520, 65522, 65524, 65526, 65528, 65530, 65532, 65534,
    65535]"

text \<open>The function with its narrower types.\<close>

definition WebRtcIsacfix_Piecewise :: "int \<Rightarrow> int" where
  "WebRtcIsacfix_Piecewise xinQ15 =
    (let qtmp1 = WEBRTC_SPL_SAT (kHistEdges ! 50) xinQ15 (kHistEdges ! 0);
         ind = s32 (5 * s32 (qtmp1 - kHistEdges ! 0));
         ind = nat (asr ind 16);
         qtmp1 = s32 (qtmp1 - kHistEdges ! ind);
         qtmp2 = u16 (asr (u32 (u32 qtmp1 * u16 (kCdfSlope ! ind))) 15)
     in u16 (kCdfLogistic ! ind + qtmp2))"

definition WEBRTC_SPL_MUL_16_U16 :: "int \<Rightarrow> int \<Rightarrow> int" where
  "WEBRTC_SPL_MUL_16_U16 a b = s32 (s16 a * u16 b)"

subsection \<open>Encoder of a spectrum\<close>

partial_function (option) fix_clip_loop :: "int \<Rightarrow> int \<Rightarrow> int \<Rightarrow> int \<Rightarrow> (int \<times> int \<times> int) option" where
  "fix_clip_loop envQ8 dataQ7 cdfLo cdfHi =
    (if u32 (cdfLo + 1) \<ge> cdfHi
     then if dataQ7 > 0
       then let dataQ7 = s16 (dataQ7 - 128)
            in fix_clip_loop envQ8 dataQ7 (WebRtcIsacfix_Piecewise (WEBRTC_SPL_MUL_16_U16 (dataQ7 - 64) envQ8)) cdfLo
       else let dataQ7 = s16 (dataQ7 + 128)
            in fix_clip_loop envQ8 dataQ7 cdfHi (WebRtcIsacfix_Piecewise (WEBRTC_SPL_MUL_16_U16 (dataQ7 + 64) envQ8))
     else Some (dataQ7, cdfLo, cdfHi))"

declare fix_clip_loop.simps [code]

definition fix_clip :: "int \<Rightarrow> int \<Rightarrow> (int \<times> int \<times> int) option" where
  "fix_clip envQ8 dataQ7 = fix_clip_loop envQ8 dataQ7 (WebRtcIsacfix_Piecewise (WEBRTC_SPL_MUL_16_U16 (dataQ7 - 64) envQ8))
     (WebRtcIsacfix_Piecewise (WEBRTC_SPL_MUL_16_U16 (dataQ7 + 64) envQ8))"

text \<open>\<open>(k & 1) & (k >> 1)\<close>.\<close>

definition fix_env_step :: "nat \<Rightarrow> nat" where
  "fix_env_step k = nat ((int k AND 1) AND asr (int k) 1)"

fun fix_enc_logist_loop :: "nat \<Rightarrow> int list \<Rightarrow> int list \<Rightarrow> Bitstr_enc \<Rightarrow> (int list \<times> (Bitstr_enc + Bitstr_enc)) option" where
  "fix_enc_logist_loop k [] env b = Some ([], Inr b)"
| "fix_enc_logist_loop k (d # ds) env b =
    (case fix_clip (hd env) d of
       None \<Rightarrow> None
     | Some (d', cdfLo, cdfHi) \<Rightarrow>
        (case fix_interval cdfLo cdfHi b of
           None \<Rightarrow> None
         | Some (Inl b') \<Rightarrow> Some (d' # ds, Inl b')
         | Some (Inr b') \<Rightarrow> map_option (\<lambda>(ds', r). (d' # ds', r))
             (fix_enc_logist_loop (k + 1) ds (drop (fix_env_step k) env) b')))"

definition WebRtcIsacfix_EncLogisticMulti2 :: "Bitstr_enc \<Rightarrow> int list \<Rightarrow> int list \<Rightarrow> int \<Rightarrow> (int \<times> int list \<times> Bitstr_enc) option" where
  "WebRtcIsacfix_EncLogisticMulti2 b dataQ7 envQ8 lenData =
    map_option (\<lambda>(ds, r). case enc_return b r of (ret, b') \<Rightarrow> (ret, ds @ drop (nat lenData) dataQ7, b'))
      (fix_enc_logist_loop 0 (take (nat lenData) dataQ7) envQ8 b)"

subsection \<open>Table decoders\<close>

text \<open>The next byte of the stream: the second one of the current word when \<open>full\<close> is 0, then the pointer moves on.\<close>

definition next_byte :: "int list \<Rightarrow> nat \<Rightarrow> int \<Rightarrow> int \<times> nat \<times> int" where
  "next_byte s i full = (if full = 0 then (s ! i AND 0x00FF, i + 1, 1) else (asr (s ! i) 8, i, 0))"

partial_function (option) fix_dec_renorm :: "int \<Rightarrow> int \<Rightarrow> int list \<Rightarrow> nat \<Rightarrow> int \<Rightarrow> (int \<times> int \<times> nat \<times> int) option" where
  "fix_dec_renorm W v s i full =
    (if W AND 0xFF000000 = 0
     then case next_byte s i full of (x, i, full) \<Rightarrow> fix_dec_renorm (u32 (shl W 8)) (u32 (shl v 8) OR x) s i full
     else Some (W, v, i, full))"

declare fix_dec_renorm.simps [code]

text \<open>The loop of either decoder; an error comes with the value of \<open>full\<close>, which is the only member written inside the
  loop. Data are 16-bit.\<close>

fun fix_dec_loop :: "bool \<Rightarrow> (int list \<Rightarrow> nat \<Rightarrow> int \<Rightarrow> int \<Rightarrow> int \<Rightarrow> search) \<Rightarrow> (int list \<times> nat) list \<Rightarrow> int \<Rightarrow> int \<Rightarrow> int
    \<Rightarrow> int list \<Rightarrow> nat \<Rightarrow> int \<Rightarrow> (int list \<times> (int \<times> int + int \<times> int \<times> nat \<times> int)) option" where
  "fix_dec_loop chk srch [] W v wl s i full = Some ([], Inr (W, v, i, full))"
| "fix_dec_loop chk srch ((cdf, h) # rest) W v wl s i full =
    (case srch cdf h W v wl of
       Range_error \<Rightarrow> Some ([], Inl (- 3, full))
     | Past_table \<Rightarrow> None
     | Found d wl wu \<Rightarrow>
        (let wl = u32 (wl + 1)
         in case fix_dec_renorm (u32 (wu - wl)) (u32 (v - wl)) s i full of
              None \<Rightarrow> None
            | Some (W, v, i, full) \<Rightarrow>
                if chk \<and> W = 0 then Some ([s16 d], Inl (- 2, full))
                else map_option (\<lambda>(ds, r). (s16 d # ds, r)) (fix_dec_loop chk srch rest W v wl s i full)))"

text \<open>The first call reads two words; every call ends with the number of bytes in the stream.\<close>

definition first_words :: "Bitstr_dec \<Rightarrow> int \<times> nat" where
  "first_words b = (if dec_stream_index b = 0 then (shl (dec_stream b ! 0) 16 OR dec_stream b ! 1, 2)
     else (dec_streamval b, dec_stream_index b))"

definition stream_bytes :: "int \<Rightarrow> nat \<Rightarrow> int \<Rightarrow> int" where
  "stream_bytes W i full = s16 (int i * 2 - (if W > 0x01FFFFFF then 3 else 2) + (if full = 0 then 1 else 0))"

definition fix_dec_multi :: "bool \<Rightarrow> (int list \<Rightarrow> nat \<Rightarrow> int \<Rightarrow> int \<Rightarrow> int \<Rightarrow> search) \<Rightarrow> (int list \<times> nat) list \<Rightarrow> Bitstr_dec
    \<Rightarrow> (int \<times> int list \<times> Bitstr_dec) option" where
  "fix_dec_multi chk srch items b =
    (if dec_W_upper b = 0 then Some (- 2, [], b)
     else case first_words b of (v, i) \<Rightarrow>
       (case fix_dec_loop chk srch items (dec_W_upper b) v 0 (dec_stream b) i (dec_full b) of
          None \<Rightarrow> None
        | Some (ds, Inl (e, full)) \<Rightarrow> Some (e, ds, b\<lparr>dec_full := full\<rparr>)
        | Some (ds, Inr (W, v, i, full)) \<Rightarrow>
            Some (stream_bytes W i full, ds,
              b\<lparr>dec_stream_index := i, dec_W_upper := W, dec_streamval := v, dec_full := full\<rparr>)))"

definition WebRtcIsacfix_DecHistBisectMulti :: "Bitstr_dec \<Rightarrow> int list list \<Rightarrow> nat list \<Rightarrow> int \<Rightarrow> (int \<times> int list \<times> Bitstr_dec) option" where
  "WebRtcIsacfix_DecHistBisectMulti b cdf cdfSize lenData = fix_dec_multi True bisect_search (take (nat lenData) (zip cdf cdfSize)) b"

definition WebRtcIsacfix_DecHistOneStepMulti :: "Bitstr_dec \<Rightarrow> int list list \<Rightarrow> nat list \<Rightarrow> int \<Rightarrow> (int \<times> int list \<times> Bitstr_dec) option" where
  "WebRtcIsacfix_DecHistOneStepMulti b cdf initIndex lenData = fix_dec_multi False onestep_search (take (nat lenData) (zip cdf initIndex)) b"

subsection \<open>Decoder of a spectrum\<close>

text \<open>Newton's iteration for the square root, ten further rounds at most; \<open>None\<close> is a division by zero. The result is the
  pair of \<open>res\<close> and \<open>newRes\<close>; the next root starts from \<open>res\<close>.\<close>

fun root_loop :: "nat \<Rightarrow> int \<Rightarrow> int \<Rightarrow> (int \<times> int) option" where
  "root_loop i inSqrt newRes =
    (let res = newRes
     in if res = 0 then None
        else let newRes = asr (s32 (inSqrt sdiv res + res)) 1
             in if newRes = res then Some (res, newRes)
                else case i of 0 \<Rightarrow> Some (res, newRes) | Suc i \<Rightarrow> root_loop i inSqrt newRes)"

declare root_loop.simps [simp del]

definition env_root :: "int \<Rightarrow> int \<Rightarrow> (int \<times> int) option" where
  "env_root inSqrt res =
    (let inSqrt = (if inSqrt < 0 then s32 (- inSqrt) else inSqrt)
     in if res = 0 then None else root_loop 10 inSqrt (asr (s32 (inSqrt sdiv res + res)) 1))"

definition first_root :: "int \<Rightarrow> int" where
  "first_root env0 = s32 (shl 1 (WebRtcSpl_GetSizeInBits (u32 env0) div 2))"

text \<open>A squared envelope of zero is such a case.\<close>

lemma env_root_zero: "env_root 0 (first_root 0) = None"
  by code_simp

text \<open>Bytes behind \<open>stream_size\<close> words are taken as zero and only counted.\<close>

definition next_byte_end :: "int list \<Rightarrow> nat \<Rightarrow> nat \<Rightarrow> int \<Rightarrow> nat \<Rightarrow> int \<times> nat \<times> int \<times> nat" where
  "next_byte_end s size_words i full off =
    (if i < size_words then (case next_byte s i full of (x, i, full) \<Rightarrow> (x, i, full, off))
     else if full = 0 then (0, i, 1, off + 1) else (0, i, 0, off))"

partial_function (option) fix_dec_renorm_end :: "int \<Rightarrow> int \<Rightarrow> int list \<Rightarrow> nat \<Rightarrow> nat \<Rightarrow> int \<Rightarrow> nat \<Rightarrow> (int \<times> int \<times> nat \<times> int \<times> nat) option" where
  "fix_dec_renorm_end W v s size_words i full off =
    (if W AND 0xFF000000 = 0
     then case next_byte_end s size_words i full off of (x, i, full, off) \<Rightarrow>
            fix_dec_renorm_end (u32 (shl W 8)) (u32 (shl v 8) OR x) s size_words i full off
     else Some (W, v, i, full, off))"

declare fix_dec_renorm_end.simps [code]

definition fix_cand_bound :: "int \<Rightarrow> int \<Rightarrow> int \<Rightarrow> int" where
  "fix_cand_bound W envQ8 candQ7 = scale_cdf W (WebRtcIsacfix_Piecewise (WEBRTC_SPL_MUL_16_U16 candQ7 envQ8))"

partial_function (option) fix_cand_up :: "int \<Rightarrow> int \<Rightarrow> int \<Rightarrow> int \<Rightarrow> int \<Rightarrow> int \<Rightarrow> search option" where
  "fix_cand_up W envQ8 v candQ7 W_lower W_tmp =
    (if v > W_tmp
     then let W_lower = W_tmp; candQ7 = s16 (candQ7 + 128); W_tmp = fix_cand_bound W envQ8 candQ7
          in if W_lower = W_tmp then Some Range_error else fix_cand_up W envQ8 v candQ7 W_lower W_tmp
     else Some (Found (s16 (candQ7 - 64)) W_lower W_tmp))"

declare fix_cand_up.simps [code]

partial_function (option) fix_cand_down :: "int \<Rightarrow> int \<Rightarrow> int \<Rightarrow> int \<Rightarrow> int \<Rightarrow> int \<Rightarrow> search option" where
  "fix_cand_down W envQ8 v candQ7 W_hi W_tmp =
    (if \<not> v > W_tmp
     then let W_hi = W_tmp; candQ7 = s16 (candQ7 - 128); W_tmp = fix_cand_bound W envQ8 candQ7
          in if W_hi = W_tmp then Some Range_error else fix_cand_down W envQ8 v candQ7 W_hi W_tmp
     else Some (Found (s16 (candQ7 + 64)) W_tmp W_hi))"

declare fix_cand_down.simps [code]

definition fix_cand_search :: "int \<Rightarrow> int \<Rightarrow> int \<Rightarrow> int \<Rightarrow> search option" where
  "fix_cand_search W envQ8 ditherQ7 v =
    (let candQ7 = s16 (- ditherQ7 + 64); W_tmp = fix_cand_bound W envQ8 candQ7
     in if v > W_tmp
        then let candQ7 = s16 (candQ7 + 128) in fix_cand_up W envQ8 v candQ7 W_tmp (fix_cand_bound W envQ8 candQ7)
        else let candQ7 = s16 (candQ7 - 128) in fix_cand_down W envQ8 v candQ7 W_tmp (fix_cand_bound W envQ8 candQ7))"

text \<open>The four coefficients of an envelope value, then the loop over the envelope. The data vector holds the dither and
  is overwritten.\<close>

fun fix_dec_four :: "int \<Rightarrow> int list \<Rightarrow> int \<Rightarrow> int \<Rightarrow> int list \<Rightarrow> nat \<Rightarrow> nat \<Rightarrow> int \<Rightarrow> nat \<Rightarrow>
    (int list \<times> (int + int \<times> int \<times> nat \<times> int \<times> nat)) option" where
  "fix_dec_four env [] W v s sz i full off = Some ([], Inr (W, v, i, full, off))"
| "fix_dec_four env (dither # dithers) W v s sz i full off =
    (case fix_cand_search W env dither v of
       Some (Found d wl wu) \<Rightarrow>
        (let wl = u32 (wl + 1)
         in case fix_dec_renorm_end (u32 (wu - wl)) (u32 (v - wl)) s sz i full off of
              None \<Rightarrow> None
            | Some (W, v, i, full, off) \<Rightarrow> map_option (\<lambda>(ds, r). (d # ds, r)) (fix_dec_four env dithers W v s sz i full off))
     | Some _ \<Rightarrow> Some (dither # dithers, Inl full)
     | None \<Rightarrow> None)"

function fix_dec_groups :: "int list \<Rightarrow> int list \<Rightarrow> int \<Rightarrow> int \<Rightarrow> int \<Rightarrow> int list \<Rightarrow> nat \<Rightarrow> nat \<Rightarrow> int \<Rightarrow> nat \<Rightarrow>
    (int list \<times> (int + int \<times> int \<times> nat \<times> int \<times> nat)) option" where
  "fix_dec_groups dithers env res W v s sz i full off =
    (if dithers = [] then Some ([], Inr (W, v, i, full, off))
     else case env_root (hd env) res of
         None \<Rightarrow> None
       | Some (res, newRes) \<Rightarrow>
          (case fix_dec_four (u16 newRes) (take 4 dithers) W v s sz i full off of
             None \<Rightarrow> None
           | Some (ds, Inl full) \<Rightarrow> Some (ds @ drop 4 dithers, Inl full)
           | Some (ds, Inr (W, v, i, full, off)) \<Rightarrow>
               map_option (\<lambda>(ds', r). (ds @ ds', r)) (fix_dec_groups (drop 4 dithers) (tl env) res W v s sz i full off)))"
  by auto
termination by (relation "measure (\<lambda>(dithers, _). length dithers)") auto

declare fix_dec_groups.simps [simp del]

text \<open>\<open>lenData\<close> is a multiple of four.\<close>

definition WebRtcIsacfix_DecLogisticMulti2 :: "int list \<Rightarrow> Bitstr_dec \<Rightarrow> int list \<Rightarrow> int \<Rightarrow> (int \<times> int list \<times> Bitstr_dec) option" where
  "WebRtcIsacfix_DecLogisticMulti2 dataQ7 b envQ8 lenData =
    (case first_words b of (v, i) \<Rightarrow>
       (case fix_dec_groups (take (nat lenData) dataQ7) envQ8 (first_root (hd envQ8)) (dec_W_upper b) v (dec_stream b) (stream_size b)
          i (dec_full b) 0 of
          None \<Rightarrow> None
        | Some (ds, Inl full) \<Rightarrow> Some (- 1, ds @ drop (nat lenData) dataQ7, b\<lparr>dec_full := full\<rparr>)
        | Some (ds, Inr (W, v, i, full, off)) \<Rightarrow>
            Some (stream_bytes W (i + off) full, ds @ drop (nat lenData) dataQ7,
              b\<lparr>dec_stream_index := i + off, dec_W_upper := W, dec_streamval := v, dec_full := full\<rparr>)))"

subsection \<open>Packets\<close>

text \<open>The calls of the fixed-point codec; a spectrum carries the coefficients, the dither, the envelope of the encoder and
  the squared envelope of the decoder.\<close>

datatype fix_call = Fix_tables call | Fix_spectrum "int list" "int list" "int list" "int list"

fun fix_enc_call :: "fix_call \<Rightarrow> Bitstr_enc \<Rightarrow> (int list \<times> Bitstr_enc) option" where
  "fix_enc_call (Fix_tables (m, items)) b =
     (case WebRtcIsacfix_EncHistMulti b (map (\<lambda>(cdf, d, h). d) items) (map (\<lambda>(cdf, d, h). cdf) items) (int (length items)) of
        Some (r, b') \<Rightarrow> if r = 0 then Some (map (\<lambda>(cdf, d, h). d) items, b') else None
      | None \<Rightarrow> None)"
| "fix_enc_call (Fix_spectrum data dither env env2) b =
     (case WebRtcIsacfix_EncLogisticMulti2 b data env (int (length data)) of
        Some (r, data', b') \<Rightarrow> if r = 0 then Some (data', b') else None
      | None \<Rightarrow> None)"

fun fix_enc_packet :: "fix_call list \<Rightarrow> Bitstr_enc \<Rightarrow> (int list list \<times> Bitstr_enc) option" where
  "fix_enc_packet [] b = Some ([], b)"
| "fix_enc_packet (c # cs) b = Option.bind (fix_enc_call c b) (\<lambda>(ds, b'). map_option (map_prod (Cons ds) id) (fix_enc_packet cs b'))"

fun fix_dec_call :: "fix_call \<Rightarrow> Bitstr_dec \<Rightarrow> (int \<times> int list \<times> Bitstr_dec) option" where
  "fix_dec_call (Fix_tables (m, items)) d =
     (case m of Bisect \<Rightarrow> WebRtcIsacfix_DecHistBisectMulti | OneStep \<Rightarrow> WebRtcIsacfix_DecHistOneStepMulti)
       d (map (\<lambda>(cdf, d, h). cdf) items) (map (\<lambda>(cdf, d, h). h) items) (int (length items))"
| "fix_dec_call (Fix_spectrum data dither env env2) d = WebRtcIsacfix_DecLogisticMulti2 dither d env2 (int (length dither))"

text \<open>The states at the beginning of a packet.\<close>

definition fresh_enc :: "int list \<Rightarrow> Bitstr_enc" where
  "fresh_enc s = \<lparr>enc_stream = s, enc_W_upper = 0xFFFFFFFF, enc_streamval = 0, enc_stream_index = 0, enc_full = 1\<rparr>"

definition fresh_dec :: "int list \<Rightarrow> nat \<Rightarrow> Bitstr_dec" where
  "fresh_dec s size_words = \<lparr>dec_stream = s, dec_W_upper = 0xFFFFFFFF, dec_streamval = 0, dec_stream_index = 0, dec_full = 1, stream_size = size_words\<rparr>"

end
