(* ===== verification/IsacFixEnc.thy ===== *)
theory IsacFixEnc imports IsacFix
begin

text \<open>
  The encoder of \<open>IsacFix\<close> against the byte encoder of \<open>IsacArith\<close> and \<open>IsacLogist\<close>: \<open>packed\<close> relates the words to
  the bytes, each operation is simulated (\<open>fix_carry_packed\<close>, \<open>put_byte_bytes\<close>, \<open>renorm_simulation\<close>,
  \<open>interval_simulation\<close>, \<open>terminate_simulation\<close>), and so are the calls and whole packets.
\<close>

subsection \<open>Words and bytes\<close>

definition word_list :: "int list \<Rightarrow> bool" where
  "word_list = list_all (\<lambda>w. 0 \<le> w \<and> w < 65536)"

definition word_bytes :: "int list \<Rightarrow> int list" where
  "word_bytes ws = concat (map (\<lambda>w. [w div 256, w mod 256]) ws)"

lemma word_bytes_simps [simp]: "word_bytes [] = []" "word_bytes (w # ws) = w div 256 # w mod 256 # word_bytes ws"
  by (simp_all add: word_bytes_def)

lemma length_word_bytes [simp]: "length (word_bytes ws) = 2 * length ws"
  by (induction ws) simp_all

lemma word_bytes_nth:
  "i < length ws \<Longrightarrow> word_bytes ws ! (2 * i) = ws ! i div 256 \<and> word_bytes ws ! Suc (2 * i) = ws ! i mod 256"
  by (induction ws arbitrary: i) (auto simp: nth_Cons split: nat.splits)

lemma word_bytes_update:
  "i < length ws \<Longrightarrow> word_bytes (ws[i := w]) = (word_bytes ws)[2 * i := w div 256, Suc (2 * i) := w mod 256]"
  by (induction ws arbitrary: i) (auto split: nat.splits)

lemma word_list_nth: "word_list ws \<Longrightarrow> i < length ws \<Longrightarrow> 0 \<le> ws ! i \<and> ws ! i < 65536"
  by (simp add: word_list_def list_all_length)

lemma word_list_update: "word_list ws \<Longrightarrow> 0 \<le> w \<Longrightarrow> w < 65536 \<Longrightarrow> word_list (ws[i := w])"
  by (auto simp: word_list_def list_all_iff dest!: subsetD [OF set_update_subset_insert])

lemma byte_list_word_bytes: "word_list ws \<Longrightarrow> byte_list (word_bytes ws)"
  by (induction ws) (auto simp: word_list_def byte_list_def)

lemma propagate_carry_append: "propagate_carry (s @ t) (length s) = propagate_carry s (length s) @ t"
proof (induction s arbitrary: t rule: rev_induct)
  case (snoc x s)
  show ?case using snoc [of "0 # t"] snoc [of "[0]"] by (simp add: Let_def nth_append)
qed simp

lemma propagate_carry_prefix:
  assumes "i \<le> length s"
  shows "propagate_carry s i = propagate_carry (take i s) i @ drop i s"
  using propagate_carry_append [of "take i s" "drop i s"] assms by simp

lemma u8_256 [simp]: "u8 256 = 0" and u16_65536 [simp]: "u16 65536 = 0"
  by (simp_all add: u8_def u16_def take_bit_eq_mod)

lemma word_top: "0 \<le> w \<Longrightarrow> w < 65536 \<Longrightarrow> (u16 (w + 1) = 0) = (w = 65535)" "0 \<le> w \<Longrightarrow> w < 65536 \<Longrightarrow> w \<noteq> 65535 \<Longrightarrow> u16 (w + 1) = w + 1"
  by (cases "w = 65535"; simp add: u16_id)+

lemma byte_top: "0 \<le> b \<Longrightarrow> b < 256 \<Longrightarrow> (u8 (b + 1) = 0) = (b = 255)" "0 \<le> b \<Longrightarrow> b < 256 \<Longrightarrow> b \<noteq> 255 \<Longrightarrow> u8 (b + 1) = b + 1"
  by (cases "b = 255"; simp add: u8_id)+

lemma div256_step:
  fixes w :: int
  shows "w mod 256 = 255 \<Longrightarrow> (w + 1) div 256 = w div 256 + 1 \<and> (w + 1) mod 256 = 0"
    and "w mod 256 \<noteq> 255 \<Longrightarrow> (w + 1) div 256 = w div 256 \<and> (w + 1) mod 256 = w mod 256 + 1"
proof -
  define q r where "q = w div 256" and "r = w mod 256"
  have w: "w = 256 * q + r" "0 \<le> r" "r < 256" by (simp_all add: q_def r_def)
  have "w + 1 = 256 * (q + 1)" if "r = 255" using w(1) that by simp
  then show "w mod 256 = 255 \<Longrightarrow> (w + 1) div 256 = w div 256 + 1 \<and> (w + 1) mod 256 = 0"
    by (simp add: r_def [symmetric] q_def [symmetric])
  have "w + 1 = 256 * q + (r + 1)" "r \<noteq> 255 \<Longrightarrow> r + 1 < 256" using w by simp_all
  then show "w mod 256 \<noteq> 255 \<Longrightarrow> (w + 1) div 256 = w div 256 \<and> (w + 1) mod 256 = w mod 256 + 1"
    using w(2) int_div_pos_eq [of "w + 1" 256 q "r + 1"] int_mod_pos_eq [of "w + 1" 256 q "r + 1"]
    by (simp add: r_def [symmetric] q_def [symmetric])
qed

lemma carry_words_above: "i \<le> k \<Longrightarrow> carry_words ws i ! k = ws ! k"
  by (induction ws i rule: carry_words.induct) (simp_all add: Let_def)

lemma length_carry_words [simp]: "length (carry_words ws i) = length ws"
  by (induction ws i rule: carry_words.induct) (simp_all add: Let_def)

lemma carry_words_bytes:
  "word_list ws \<Longrightarrow> i \<le> length ws \<Longrightarrow>
    word_list (carry_words ws i) \<and> word_bytes (carry_words ws i) = propagate_carry (word_bytes ws) (2 * i)"
proof (induction ws i rule: carry_words.induct)
  case (2 ws i)
  let ?w = "ws ! i" and ?lo = "word_bytes ws ! Suc (2 * i)" and ?hi = "word_bytes ws ! (2 * i)"
  have i: "i < length ws" using 2(3) by simp
  have w: "0 \<le> ?w" "?w < 65536" using word_list_nth [OF 2(2) i] by auto
  have b: "?hi = ?w div 256" "?lo = ?w mod 256" using word_bytes_nth [OF i] by auto
  have bounds: "0 \<le> ?hi" "?hi < 256" "0 \<le> ?lo" "?lo < 256" unfolding b using w by auto
  have two: "2 * Suc i = Suc (Suc (2 * i))" by simp
  show ?case
  proof (cases "?w = 65535")
    case True
    then have "?hi = 255" "?lo = 255" by (simp_all add: b)
    then have carried: "propagate_carry (word_bytes ws) (2 * Suc i) = propagate_carry (word_bytes (ws[i := 0])) (2 * i)"
      using i by (simp add: two Let_def byte_top word_bytes_update list_update_swap [of "Suc (2 * i)" "2 * i" _ 0 0])
    have v: "u16 (?w + 1) = 0" using True by simp
    have "word_list (ws[i := 0])" by (rule word_list_update [OF 2(2)]) simp_all
    then have "word_list (carry_words (ws[i := 0]) i) \<and>
        word_bytes (carry_words (ws[i := 0]) i) = propagate_carry (word_bytes (ws[i := 0])) (2 * i)"
      using 2(1) [OF refl v] i by (simp add: v)
    moreover have "carry_words ws (Suc i) = carry_words (ws[i := 0]) i" by (simp add: v Let_def)
    ultimately show ?thesis by (simp only: carried)
  next
    case False
    then have v: "u16 (?w + 1) = ?w + 1" "u16 (?w + 1) \<noteq> 0" using w by (simp_all add: word_top)
    have "propagate_carry (word_bytes ws) (2 * Suc i) = (word_bytes ws)[2 * i := (?w + 1) div 256, Suc (2 * i) := (?w + 1) mod 256]"
    proof (cases "?lo = 255")
      case True
      have "?w = ?w div 256 * 256 + ?w mod 256" by simp
      then have "?hi \<noteq> 255" "(?w + 1) div 256 = ?hi + 1" "(?w + 1) mod 256 = 0"
        using False True div256_step(1) [of ?w] unfolding b by auto
      moreover have "propagate_carry (word_bytes ws) (2 * Suc i) = (word_bytes ws)[Suc (2 * i) := 0, 2 * i := ?hi + 1]"
        using True bounds calculation(1) by (simp add: two Let_def byte_top)
      ultimately show ?thesis by (simp only: list_update_swap [of "Suc (2 * i)" "2 * i"] n_not_Suc_n not_False_eq_True)
    next
      case False
      then have "(?w + 1) div 256 = ?hi" "(?w + 1) mod 256 = ?lo + 1" using div256_step(2) [of ?w] unfolding b by auto
      then show ?thesis using False bounds by (simp add: two Let_def byte_top)
    qed
    then show ?thesis using v i w False by (simp add: Let_def word_bytes_update word_list_update 2(2))
  qed
qed simp

subsection \<open>The packing of the stream\<close>

text \<open>The words \<open>s\<close> hold the first \<open>j\<close> bytes of the byte stream \<open>t\<close>.\<close>

definition byte_position :: "nat \<Rightarrow> int \<Rightarrow> nat" where
  "byte_position i full = 2 * i + (if full = 0 then 1 else 0)"

definition packed :: "int list \<Rightarrow> nat \<Rightarrow> int \<Rightarrow> int list \<Rightarrow> nat \<Rightarrow> bool" where
  "packed s i full t j \<longleftrightarrow> word_list s \<and> length s = 200 \<and> 400 \<le> length t \<and> i < 200 \<and>
     (full = 0 \<and> s ! i mod 256 = 0 \<or> full = 1) \<and> j = byte_position i full \<and> take j (word_bytes s) = take j t"

lemma fix_carry_packed:
  assumes "packed s i full t j"
  shows "packed (fix_carry s i full) i full (propagate_carry t j) j"
proof -
  have p: "word_list s" "length s = 200" "400 \<le> length t" "i < 200" "j = byte_position i full" "take j (word_bytes s) = take j t"
    and full: "full = 0 \<and> s ! i mod 256 = 0 \<or> full = 1" using assms by (auto simp: packed_def)
  have j: "j \<le> length t" "j \<le> length (word_bytes s)" using p by (auto simp: byte_position_def)
  have "word_list (fix_carry s i full) \<and> length (fix_carry s i full) = 200 \<and> word_bytes (fix_carry s i full) = propagate_carry (word_bytes s) j
    \<and> (full = 0 \<longrightarrow> fix_carry s i full ! i mod 256 = 0)"
  proof (cases "full = 0")
    case False
    then show ?thesis using full carry_words_bytes [OF p(1), of i] p by (simp add: fix_carry_def byte_position_def)
  next
    case True
    let ?w = "s ! i"
    have w: "0 \<le> ?w" "?w < 65536" "?w mod 256 = 0" using word_list_nth [OF p(1), of i] p full True by auto
    have b: "word_bytes s ! (2 * i) = ?w div 256" using word_bytes_nth [of i s] p by simp
    have carried: "propagate_carry (word_bytes s) j = (if ?w div 256 = 255 then propagate_carry ((word_bytes s)[2 * i := 0]) (2 * i)
        else (word_bytes s)[2 * i := ?w div 256 + 1])"
      using p(5) True w byte_top [of "?w div 256"] by (simp add: byte_position_def Let_def b)
    have low: "(word_bytes s)[Suc (2 * i) := 0] = word_bytes s" using word_bytes_nth [of i s] p w(3) by (metis list_update_id)
    show ?thesis
    proof (cases "?w div 256 = 255")
      case t: True
      then have "?w = 65280" using w(3) div_mult_mod_eq [of ?w 256] by simp
      then have "u16 (?w + 256) = 0" by simp
      moreover have "word_bytes (s[i := 0]) = (word_bytes s)[2 * i := 0]"
        using p low word_bytes_update [of i s 0] by (simp add: list_update_swap [of "2 * i" "Suc (2 * i)"])
      moreover have "word_list (s[i := 0])" using p(1) by (simp add: word_list_update)
      moreover have "carry_words (s[i := 0]) i ! i = 0" using p by (simp add: carry_words_above)
      ultimately show ?thesis using carry_words_bytes [of "s[i := 0]" i] p True carried t by (simp add: fix_carry_def Let_def)
    next
      case f: False
      then have "u16 (?w + 256) = ?w + 256" "?w + 256 \<noteq> 0" "?w + 256 < 65536" using w by (auto simp: u16_id)
      moreover from this w have "(?w + 256) div 256 = ?w div 256 + 1" "(?w + 256) mod 256 = 0" by auto
      moreover have "(word_bytes s)[2 * i := x, Suc (2 * i) := 0] = (word_bytes s)[2 * i := x]" for x
        using low by (metis list_update_swap n_not_Suc_n)
      ultimately show ?thesis using p True f w carried word_bytes_update [of i s "?w + 256"]
        by (simp add: fix_carry_def Let_def word_list_update)
    qed
  qed
  moreover have "take j (propagate_carry (word_bytes s) j) = take j (propagate_carry t j)"
    using propagate_carry_prefix [OF j(1)] propagate_carry_prefix [OF j(2)] p(6) by (metis append_eq_conv_conj length_carry length_take min.absorb2 j(1))
  ultimately show ?thesis using p full by (auto simp: packed_def)
qed

lemma take_update_next: "j < length t \<Longrightarrow> take (Suc j) (t[j := x]) = take j t @ [x]"
  by (simp add: take_Suc_conv_app_nth)

lemma top_byte: "0 \<le> v \<Longrightarrow> v < 4294967296 \<Longrightarrow> 0 \<le> asr v 24 \<and> asr v 24 < 256 \<and> u8 (asr v 24) = asr v 24 \<and> u16 (asr v 24) = asr v 24"
  by (auto simp: asr_div intro!: u8_id u16_id)

lemma put_byte_bytes:
  assumes "packed s i full t j" "0 \<le> v" "v < 4294967296" "put_byte v s i full = (s', i', full')"
  shows "word_list s'" "length s' = 200" "byte_position i' full' = j + 1" "i' < 200 \<longleftrightarrow> j + 1 < 400"
    "take (j + 1) (word_bytes s') = take (j + 1) (t[j := u8 (asr v 24)])"
    "i' < 200 \<Longrightarrow> packed s' i' full' (t[j := u8 (asr v 24)]) (j + 1)"
proof -
  have p: "word_list s" "length s = 200" "400 \<le> length t" "i < 200" "j = byte_position i full" "take j (word_bytes s) = take j t"
    and full: "full = 0 \<and> s ! i mod 256 = 0 \<or> full = 1" using assms(1) by (auto simp: packed_def)
  let ?x = "asr v 24"
  note x = top_byte [OF assms(2,3)]
  have w: "0 \<le> s ! i" "s ! i < 65536" using word_list_nth [OF p(1)] p by auto
  have "word_list s' \<and> length s' = 200 \<and> byte_position i' full' = j + 1 \<and> (i' < 200 \<longleftrightarrow> j + 1 < 400) \<and>
    take (j + 1) (word_bytes s') = take j (word_bytes s) @ [?x] \<and> (full' = 0 \<and> s' ! i' mod 256 = 0 \<or> full' = 1)"
  proof (cases "full = 0")
    case True
    let ?w = "s ! i + ?x"
    have r: "s' = s[i := u16 ?w]" "i' = i + 1" "full' = 1" using assms(4) x True by (simp_all add: put_byte_def)
    have low: "s ! i = 256 * (s ! i div 256)" using full True by auto
    then have "?w = 256 * (s ! i div 256) + ?x" by simp
    then have d: "?w div 256 = s ! i div 256" "?w mod 256 = ?x"
      using x int_div_pos_eq [of ?w 256 "s ! i div 256" ?x] int_mod_pos_eq [of ?w 256 "s ! i div 256" ?x] by auto
    define q where "q = s ! i div 256"
    have q: "s ! i = 256 * q" using low by (simp only: q_def)
    then have "q < 256" using w(2) by simp
    with q have "?w < 65536" using conjunct1 [OF conjunct2 [OF x]] by linarith
    then have u: "u16 ?w = ?w" using w x by (intro u16_id) auto
    have "word_bytes s' = (word_bytes s)[Suc (2 * i) := ?x]"
      using p word_bytes_nth [of i s] by (simp add: r u word_bytes_update d) (metis list_update_id)
    then have "take (j + 1) (word_bytes s') = take j (word_bytes s) @ [?x]"
      using p True by (simp add: byte_position_def take_update_next)
    then show ?thesis using p True x w u \<open>?w < 65536\<close> by (simp add: r word_list_update byte_position_def)
  next
    case False
    have f: "full = 1" using False full by simp
    have u: "u16 (shl ?x 8) = 256 * ?x" using x by (simp add: shl_mult u16_id)
    have r: "s' = s[i := 256 * ?x]" "i' = i" "full' = 0" using assms(4) u f by (auto simp: put_byte_def)
    have "word_bytes s' = (word_bytes s)[2 * i := ?x, Suc (2 * i) := 0]" using p by (simp add: r word_bytes_update)
    then have "take (j + 1) (word_bytes s') = take j (word_bytes s) @ [?x]"
      using p f by (simp add: byte_position_def take_Suc_conv_app_nth)
    then show ?thesis using p f x by (simp add: r word_list_update byte_position_def)
  qed
  moreover have "take (j + 1) (t[j := u8 ?x]) = take j t @ [?x]"
    using p x by (auto simp: byte_position_def take_update_next)
  ultimately show "word_list s'" "length s' = 200" "byte_position i' full' = j + 1" "i' < 200 \<longleftrightarrow> j + 1 < 400"
    "take (j + 1) (word_bytes s') = take (j + 1) (t[j := u8 ?x])"
    "i' < 200 \<Longrightarrow> packed s' i' full' (t[j := u8 (asr v 24)]) (j + 1)"
    using p(2,3,6) by (auto simp: packed_def)
qed

text \<open>The outcome of a step of the fixed-point coder against the result of the byte coder.\<close>

definition renorm_result :: "(int \<times> int list \<times> int + int \<times> int \<times> int list \<times> nat \<times> int) option \<Rightarrow> int \<times> int \<times> int list \<times> nat \<Rightarrow> bool" where
  "renorm_result x = (\<lambda>(W', v', t', j').
     (\<exists>s' i' full'. x = Some (Inr (W', v', s', i', full')) \<and> packed s' i' full' t' j' \<and> 0 \<le> v' \<and> v' < 4294967296)
     \<or> (\<exists>e. x = Some (Inl e)) \<and> 399 < j')"

lemma renorm_simulation:
  assumes "enc_renorm W v t j = Some r" "packed s i full t j" "0 \<le> v" "v < 4294967296"
  shows "renorm_result (fix_renorm W v s i full) r"
proof -
  let ?P = "\<lambda>W v t j r. j \<le> snd (snd (snd r)) \<and>
     (\<forall>s i full. packed s i full t j \<and> 0 \<le> v \<and> v < 4294967296 \<longrightarrow> renorm_result (fix_renorm W v s i full) r)"
  have "?P W v t j r"
  proof (rule enc_renorm.raw_induct [where P = ?P, OF _ assms(1)])
    fix rec W v t j r
    assume IH: "\<And>W v t j r. rec W v t j = Some r \<Longrightarrow> ?P W v t j r"
      and step: "(if W AND 0xFF000000 = 0 then rec (u32 (shl W 8)) (u32 (shl v 8)) (t[j := u8 (asr v 24)]) (j + 1)
        else Some (W, v, t, j)) = Some r"
    show "?P W v t j r"
    proof (cases "W AND 0xFF000000 = 0")
      case False
      then show ?thesis using step by (auto simp: renorm_result_def fix_renorm.simps [of W])
    next
      case True
      from step True have rest: "?P (u32 (shl W 8)) (u32 (shl v 8)) (t[j := u8 (asr v 24)]) (j + 1) r" by (intro IH) simp
      have "renorm_result (fix_renorm W v s i full) r" if p: "packed s i full t j" "0 \<le> v" "v < 4294967296" for s i full
      proof -
        obtain s' i' full' where b: "put_byte v s i full = (s', i', full')" by (cases "put_byte v s i full") auto
        note q = put_byte_bytes [OF p b]
        show ?thesis
        proof (cases "i' < 200")
          case i: True
          then have "renorm_result (fix_renorm (u32 (shl W 8)) (u32 (shl v 8)) s' i' full') r" using rest q(6) u32_bounds by blast
          then show ?thesis using i by (subst fix_renorm.simps) (simp add: True b STREAM_MAXW16_60MS_def)
        next
          case False
          then have "399 < snd (snd (snd r))" using rest q(4) by auto
          then show ?thesis using False by (subst fix_renorm.simps) (simp add: True b STREAM_MAXW16_60MS_def renorm_result_def split_beta)
        qed
      qed
      then show ?thesis using rest by simp
    qed
  qed
  then show ?thesis using assms(2-4) by blast
qed

subsection \<open>Both codecs compute the same intervals\<close>

lemma tables_equal: "kHistEdges = kHistEdgesQ15" "kCdfSlope = kCdfSlopeQ0" "kCdfLogistic = kCdfQ16"
  by (simp_all add: kHistEdges_def kHistEdgesQ15_def kCdfSlope_def kCdfSlopeQ0_def kCdfLogistic_def kCdfQ16_def)

lemma Piecewise_equal: "WebRtcIsacfix_Piecewise x = piecewise x"
proof -
  let ?c = "clamp x" and ?i = "nat (seg (clamp x))"
  have sat: "WEBRTC_SPL_SAT (kHistEdgesQ15 ! 50) x (kHistEdgesQ15 ! 0) = ?c" by (simp add: WEBRTC_SPL_SAT_def edges clamp_def)
  have "s32 (?c - kHistEdgesQ15 ! 0) = ?c + 327680" "s32 (5 * (?c + 327680)) = (?c + 327680) * 5"
    using clamp_range [of x] by (simp_all add: edges s32_id)
  then have i: "nat (asr (s32 (5 * s32 (?c - kHistEdgesQ15 ! 0))) 16) = ?i" by (simp add: asr_div seg_def)
  note t = table_ranges [OF seg_nat(1), of x]
  have d: "0 \<le> ?c - kHistEdgesQ15 ! ?i" "?c - kHistEdgesQ15 ! ?i \<le> 13107"
    using t(3,4) clamp_segment [of x] edges(2) by auto
  let ?p = "(?c - kHistEdgesQ15 ! ?i) * kCdfSlopeQ0 ! ?i"
  have p: "0 \<le> ?p" "?p \<le> 13107 * 36924" using mult_mono [OF d(2) t(2)] t(1) d(1) by simp_all
  have u: "u32 (s32 (?c - kHistEdgesQ15 ! ?i)) = ?c - kHistEdgesQ15 ! ?i" "u16 (kCdfSlopeQ0 ! ?i) = kCdfSlopeQ0 ! ?i"
    using d t(1,2) by (simp_all add: s32_id u32_id u16_id)
  have "?p div 32768 \<le> 13107 * 36924 div 32768" using p by (intro zdiv_mono1) auto
  then have q: "u16 (asr (u32 ?p) 15) = kCdfSlopeQ0 ! ?i * (?c - kHistEdgesQ15 ! ?i) div 32768"
    using p by (simp add: u32_id u16_id asr_div pos_imp_zdiv_nonneg_iff mult.commute)
  have "u16 (segment ?i ?c) = segment ?i ?c"
    using segment_bounds(2) [OF seg_nat(1) clamp_segment, of x] segment_lower [OF seg_nat(1) clamp_segment(1), of x] t(6)
    by (intro u16_id) auto
  then show ?thesis unfolding piecewise_segment WebRtcIsacfix_Piecewise_def tables_equal Let_def sat i u q
    by (simp add: segment_def)
qed

lemma MUL_16_U16_equal:
  "- 32768 \<le> e \<Longrightarrow> e \<le> 32767 \<Longrightarrow> 0 \<le> env \<Longrightarrow> env \<le> 65535 \<Longrightarrow> WEBRTC_SPL_MUL_16_U16 e env = s32 (e * env)"
  by (simp add: WEBRTC_SPL_MUL_16_U16_def s16_id u16_id)

lemma fix_clip_loop_equal:
  assumes "clip_loop env d lo hi = Some r" "0 \<le> env" "env \<le> 65535" "- 32704 \<le> d" "d \<le> 32703"
  shows "fix_clip_loop env d lo hi = Some r"
proof -
  let ?P = "\<lambda>env d lo hi r. 0 \<le> env \<and> env \<le> 65535 \<and> - 32704 \<le> d \<and> d \<le> 32703 \<longrightarrow> fix_clip_loop env d lo hi = Some r"
  have "?P env d lo hi r"
  proof (rule clip_loop.raw_induct [where P = ?P, OF _ assms(1)], intro impI)
    fix rec env d lo hi r
    assume IH: "\<And>env d lo hi r. rec env d lo hi = Some r \<Longrightarrow> ?P env d lo hi r"
      and step: "(if hi \<le> u32 (lo + 1) then if 0 < d then let d = s16 (d - 128) in rec env d (piecewise (s32 ((d - 64) * env))) lo
        else let d = s16 (d + 128) in rec env d hi (piecewise (s32 ((d + 64) * env))) else Some (d, lo, hi)) = Some r"
      and p: "0 \<le> env \<and> env \<le> 65535 \<and> - 32704 \<le> d \<and> d \<le> 32703"
    consider "\<not> hi \<le> u32 (lo + 1)" | "hi \<le> u32 (lo + 1)" "0 < d" | "hi \<le> u32 (lo + 1)" "\<not> 0 < d" by blast
    then show "fix_clip_loop env d lo hi = Some r"
    proof cases
      case 1
      then show ?thesis using step by (subst fix_clip_loop.simps) simp
    next
      case 2
      then have s: "s16 (d - 128) = d - 128" using p by (intro s16_id) auto
      have "rec env (d - 128) (piecewise (s32 ((d - 128 - 64) * env))) lo = Some r" using step 2 s by (simp add: Let_def)
      from IH [OF this] p 2 have "fix_clip_loop env (d - 128) (piecewise (s32 ((d - 128 - 64) * env))) lo = Some r" by simp
      then show ?thesis using 2 s p by (subst fix_clip_loop.simps) (simp add: Let_def Piecewise_equal MUL_16_U16_equal)
    next
      case 3
      then have s: "s16 (d + 128) = d + 128" using p by (intro s16_id) auto
      have "rec env (d + 128) hi (piecewise (s32 ((d + 128 + 64) * env))) = Some r" using step 3 s by (simp add: Let_def)
      from IH [OF this] p 3 have "fix_clip_loop env (d + 128) hi (piecewise (s32 ((d + 128 + 64) * env))) = Some r" by simp
      then show ?thesis using 3 s p by (subst fix_clip_loop.simps) (simp add: Let_def Piecewise_equal MUL_16_U16_equal)
    qed
  qed
  then show ?thesis using assms(2-5) by simp
qed

lemma fix_clip_equal: "codable env d \<Longrightarrow> fix_clip env d = Some (sent env d, symbol_interval env d)"
  using clip_sent(1) [of env d] fix_clip_loop_equal [of env d]
  by (simp add: fix_clip_def clip_def codable_def Piecewise_equal MUL_16_U16_equal)

lemma fix_env_step_equal: "fix_env_step k = env_step False k"
proof -
  have "odd (int k div 2) = odd (k div 2)" by (metis even_of_nat of_nat_div of_nat_numeral)
  then have "nat ((int k AND 1) AND asr (int k) 1) = (if odd k \<and> odd (k div 2) then 1 else 0)"
    by (cases "odd k"; cases "odd (k div 2)") (simp_all add: asr_div and_one_eq one_and_eq mod2_eq_if)
  then show ?thesis by (simp add: fix_env_step_def env_step_def)
qed

subsection \<open>The encoders\<close>

definition enc_packs :: "Bitstr_enc \<Rightarrow> Bitstr \<Rightarrow> bool" where
  "enc_packs e b \<longleftrightarrow> packed (enc_stream e) (enc_stream_index e) (enc_full e) (stream b) (stream_index b) \<and>
     enc_W_upper e = W_upper b \<and> enc_streamval e = streamval b \<and> 0 \<le> streamval b \<and> streamval b < 4294967296"

text \<open>Either the fixed-point encoder does the same, or it reports that the stream is full and the byte coder is past 399
  bytes.\<close>

definition step_result :: "(Bitstr_enc + Bitstr_enc) option \<Rightarrow> Bitstr \<Rightarrow> bool" where
  "step_result x b \<longleftrightarrow> (\<exists>e. x = Some (Inr e) \<and> enc_packs e b) \<or> (\<exists>e. x = Some (Inl e)) \<and> 399 < stream_index b"

lemma interval_simulation:
  assumes "enc_packs e b" "enc_interval lo hi b = Some b'"
  shows "step_result (fix_interval lo hi e) b'"
proof -
  have eq: "enc_W_upper e = W_upper b" "enc_streamval e = streamval b" using assms(1) by (simp_all add: enc_packs_def)
  define wl W v s t where "wl = u32 (scale_cdf (W_upper b) lo + 1)" and "W = u32 (scale_cdf (W_upper b) hi - wl)"
    and "v = u32 (streamval b + wl)"
    and "s = (if v < wl then fix_carry (enc_stream e) (enc_stream_index e) (enc_full e) else enc_stream e)"
    and "t = (if v < wl then propagate_carry (stream b) (stream_index b) else stream b)"
  note defs = this
  have p: "packed s (enc_stream_index e) (enc_full e) t (stream_index b)"
    using assms(1) fix_carry_packed by (auto simp: enc_packs_def s_def t_def)
  obtain r where r: "enc_renorm W v t (stream_index b) = Some r"
    "b' = (case r of (W, v, s, i) \<Rightarrow> b\<lparr>stream := s, W_upper := W, streamval := v, stream_index := i\<rparr>)"
    using assms(2) unfolding enc_interval_def Let_def defs(1-3,5) [symmetric] by blast
  from renorm_simulation [OF r(1) p] have "renorm_result (fix_renorm W v s (enc_stream_index e) (enc_full e)) r"
    by (simp add: v_def u32_bounds)
  then show ?thesis
    unfolding fix_interval_def eq Let_def defs(1-4) [symmetric] r(2)
    by (auto simp: renorm_result_def step_result_def enc_packs_def split: prod.splits)
qed

lemma step_result_later: "step_result x b \<Longrightarrow> stream_index b \<le> stream_index b' \<Longrightarrow> x = Some (Inl e) \<Longrightarrow> step_result x b'"
  by (auto simp: step_result_def)

lemma wf_cdf_index: "wf_cdf cdf \<Longrightarrow> i < length cdf \<Longrightarrow> int i \<le> cdf ! i"
proof (induction i)
  case 0
  then show ?case using wf_cdf_range(1) [of cdf 0] by simp
next
  case (Suc i)
  then show ?case using wf_cdf_less [of cdf i "Suc i"] by simp
qed

lemma symbol_u32: "wf_cdf cdf \<Longrightarrow> symbol_of cdf d \<Longrightarrow> u32 d = d \<and> d < 65536"
proof -
  assume c: "wf_cdf cdf" "symbol_of cdf d"
  then have d: "0 \<le> d" "nat d < length cdf" by (auto simp: symbol_of_def)
  then have "d < 65536" using wf_cdf_index [OF c(1) d(2)] wf_cdf_range(2) [OF c(1) d(2)] by simp
  then show ?thesis using d(1) by (simp add: u32_id)
qed

lemma hist_simulation:
  assumes "enc_packs e b" "list_all (valid_item ok) items" "enc_loop (enc_items items) b = Some b'" "enc_wf b"
  shows "step_result (fix_enc_loop (enc_items items) e) b'"
  using assms
proof (induction items arbitrary: b e)
  case (Cons x items)
  obtain cdf d h where x: "x = (cdf, d, h)" by (cases x)
  have v: "wf_cdf cdf" "symbol_of cdf d" "list_all (valid_item ok) items" using Cons.prems(2) by (simp_all add: x valid_item_def)
  obtain b1 where b1: "enc_symbol cdf d b = Some b1" "enc_loop (enc_items items) b1 = Some b'"
    using Cons.prems(3) by (auto simp: x enc_items_def Option.bind_eq_Some_conv)
  have d: "nat (u32 d) = nat d" "nat (d + 1) = nat d + 1" using symbol_u32 [OF v(1,2)] v(2) by (auto simp: symbol_of_def)
  have wf: "enc_wf b1" using enc_symbol_returns [OF Cons.prems(4) v(1,2)] b1(1) by auto
  have le: "stream_index b1 \<le> stream_index b'" using enc_loop_returns [OF wf v(3)] b1(2) by auto
  have "step_result (fix_interval (cdf ! nat d) (cdf ! (nat d + 1)) e) b1"
    by (rule interval_simulation [OF Cons.prems(1)]) (use b1(1) d(2) in \<open>simp add: enc_symbol_def\<close>)
  then consider e1 where "fix_interval (cdf ! nat d) (cdf ! (nat d + 1)) e = Some (Inr e1)" "enc_packs e1 b1"
    | e1 where "fix_interval (cdf ! nat d) (cdf ! (nat d + 1)) e = Some (Inl e1)" "399 < stream_index b1" by (auto simp: step_result_def)
  then show ?case
  proof cases
    case (1 e1)
    then show ?thesis using Cons.IH [OF 1(2) v(3) b1(2) wf] by (simp add: x enc_items_def d)
  next
    case (2 e1)
    then show ?thesis using le by (simp add: x enc_items_def d step_result_def)
  qed
qed (simp add: enc_items_def step_result_def)

lemma spectrum_simulation:
  assumes "enc_packs e b" "list_all (\<lambda>(e, d). codable e d) (with_env False k ds env)"
    "enc_intervals (spectrum_intervals False k ds env) b = Some b'" "enc_wf b"
  shows "(\<exists>e'. fix_enc_logist_loop k ds env e = Some (spectrum_sent False k ds env, Inr e') \<and> enc_packs e' b')
    \<or> (\<exists>ds' e'. fix_enc_logist_loop k ds env e = Some (ds', Inl e')) \<and> 399 < stream_index b'"
  using assms
proof (induction k ds env e arbitrary: b rule: fix_enc_logist_loop.induct)
  case (2 k d ds env e)
  let ?env = "drop (env_step False k) env"
  obtain lo hi where iv: "symbol_interval (hd env) d = (lo, hi)" by fastforce
  have ok: "codable (hd env) d" "list_all (\<lambda>(e, d). codable e d) (with_env False (k + 1) ds ?env)"
    using "2.prems"(2) by simp_all
  note c = fix_clip_equal [OF ok(1), unfolded iv]
  obtain b1 where b1: "enc_interval lo hi b = Some b1" "enc_intervals (spectrum_intervals False (k + 1) ds ?env) b1 = Some b'"
    using "2.prems"(3) by (auto simp: spectrum_intervals_def iv Option.bind_eq_Some_conv)
  have good: "list_all good_interval [(lo, hi)]" "list_all good_interval (spectrum_intervals False (k + 1) ds ?env)"
    using symbol_interval_good [OF ok(1)] ok(2) by (auto simp: iv spectrum_intervals_def list_all_iff dest: symbol_interval_good)
  have wf: "enc_wf b1" using enc_intervals_returns [OF "2.prems"(4) good(1)] b1(1) by simp
  have le: "stream_index b1 \<le> stream_index b'" using enc_intervals_returns [OF wf good(2)] b1(2) by simp
  from interval_simulation [OF "2.prems"(1) b1(1)] consider e1 where "fix_interval lo hi e = Some (Inr e1)" "enc_packs e1 b1"
    | e1 where "fix_interval lo hi e = Some (Inl e1)" "399 < stream_index b1" by (auto simp: step_result_def)
  then show ?case
  proof cases
    case (1 e1)
    from "2.IH" [OF c refl refl 1(1) refl, of b1] 1 ok(2) b1(2) wf show ?thesis
      by (auto simp: c fix_env_step_equal spectrum_sent_def)
  next
    case (2 e1)
    then show ?thesis using le by (auto simp: c)
  qed
qed (simp add: spectrum_intervals_def spectrum_sent_def)

subsection \<open>Termination\<close>

lemma fix_term_add_packs: "enc_packs e b \<Longrightarrow> enc_packs (fix_term_add a e) (term_add a b)"
  by (auto simp: enc_packs_def fix_term_add_def term_add_def Let_def fix_carry_packed u32_bounds)

lemma and_FF00: "0 \<le> x \<Longrightarrow> x < 65536 \<Longrightarrow> x AND 0xFF00 = 256 * (x div 256)" for x :: int
proof -
  assume x: "0 \<le> x" "x < 65536"
  have m: "(0xFF00 :: int) = push_bit 8 (mask 8)" by (simp add: mask_eq_exp_minus_1 push_bit_eq_mult)
  have "x AND push_bit 8 (mask 8) = push_bit 8 (take_bit 8 (drop_bit 8 x))"
    by (rule bit_eqI) (auto simp: bit_simps)
  moreover have "take_bit 8 (drop_bit 8 x) = x div 256" using x by (simp add: take_bit_eq_mod drop_bit_eq_div)
  ultimately show ?thesis unfolding m by (simp add: push_bit_eq_mult)
qed

lemma term_words:
  assumes "packed s i full t j" "0 \<le> v" "v < 4294967296" "j + 2 \<le> 400"
    "s' = (if full \<noteq> 0 then s[i := u16 (asr v 16)] else s[i := u16 (s ! i OR u16 (asr v 24)), i + 1 := u16 (asr v 8) AND 0xFF00])"
  shows "take (j + 2) (word_bytes s') = take (j + 2) (t[j := u8 (asr v 24), j + 1 := u8 (asr v 16 AND 0x00FF)])"
proof -
  have p: "word_list s" "length s = 200" "400 \<le> length t" "i < 200" "j = byte_position i full" "take j (word_bytes s) = take j t"
    and full: "full = 0 \<and> s ! i mod 256 = 0 \<or> full = 1" using assms(1) by (auto simp: packed_def)
  define x y where "x = v div 16777216" and "y = v div 65536 mod 256"
  have xy: "0 \<le> x" "x < 256" "0 \<le> y" "y < 256" using assms(2,3) by (auto simp: x_def y_def)
  have u: "u8 (asr v 24) = x" "u16 (asr v 24) = x" "u8 (asr v 16 AND 0x00FF) = y"
    using xy by (simp_all add: asr_div and_FF x_def y_def u8_id u16_id)
  have t: "take (j + 2) (t[j := x, j + 1 := y]) = take j t @ [x, y]"
    using p(3) assms(4) by (simp add: take_Suc_conv_app_nth)
  have "v div 65536 div 256 = x" by (simp add: x_def div_mult2_eq [symmetric])
  then have v16: "v div 65536 = 256 * x + y" using mult_div_mod_eq [of 256 "v div 65536"] by (simp add: y_def)
  have "take (j + 2) (word_bytes s') = take j (word_bytes s) @ [x, y]"
  proof (cases "full = 0")
    case False
    have "u16 (asr v 16) = 256 * x + y" using v16 xy by (simp add: asr_div u16_id)
    moreover have "(256 * x + y) div 256 = x" "(256 * x + y) mod 256 = y"
      using xy int_div_pos_eq [of "256 * x + y" 256 x y] int_mod_pos_eq [of "256 * x + y" 256 x y] by auto
    ultimately have "word_bytes s' = (word_bytes s)[2 * i := x, Suc (2 * i) := y]"
      using False p by (simp add: assms(5) word_bytes_update)
    then show ?thesis using p False full by (simp add: byte_position_def take_Suc_conv_app_nth)
  next
    case True
    have w: "0 \<le> s ! i" "s ! i < 65536" "s ! i mod 256 = 0" using word_list_nth [OF p(1)] p full True by auto
    then have low: "s ! i = (s ! i div 256) * 256" by auto
    have "s ! i OR x = s ! i div 256 * 256 + x" using or_byte [of x "s ! i div 256"] low xy by simp
    moreover have "s ! i div 256 < 256" using w by simp
    ultimately have a: "u16 (s ! i OR u16 (asr v 24)) = 256 * (s ! i div 256) + x" using xy w u(2) by (simp add: u16_id)
    have d: "(256 * (s ! i div 256) + x) div 256 = s ! i div 256" "(256 * (s ! i div 256) + x) mod 256 = x"
      using xy int_div_pos_eq [of "256 * (s ! i div 256) + x" 256 "s ! i div 256" x] int_mod_pos_eq [of "256 * (s ! i div 256) + x" 256 "s ! i div 256" x] by auto
    have "v div 256 mod (256 * 256) = 256 * (v div 256 div 256 mod 256) + v div 256 mod 256" by (rule zmod_zmult2_eq) simp
    then have "u16 (asr v 8) div 256 = y"
      using zdiv_zmult2_eq [of 256 v 256] by (simp add: asr_div u16_def take_bit_eq_mod y_def)
    then have z: "u16 (asr v 8) AND 0xFF00 = 256 * y" using and_FF00 [of "u16 (asr v 8)"] u16_bounds [of "asr v 8"] by simp
    have i: "Suc i < 200" using p True assms(4) by (simp add: byte_position_def)
    have "word_bytes s' = (word_bytes s)[2 * i := s ! i div 256, Suc (2 * i) := x, 2 * Suc i := y, Suc (2 * Suc i) := 0]"
      using p True i xy by (simp add: assms(5) a z d word_bytes_update)
    then have "word_bytes s' = (word_bytes s)[Suc (2 * i) := x, Suc (Suc (2 * i)) := y, Suc (Suc (Suc (2 * i))) := 0]"
      using word_bytes_nth [of i s] p by (metis list_update_id mult_Suc_right add_2_eq_Suc)
    then show ?thesis using p True i by (simp add: byte_position_def take_Suc_conv_app_nth)
  qed
  then show ?thesis unfolding u(1,3) t using p(6) by simp
qed

lemma terminate_simulation:
  assumes "enc_packs e b" "stream_index b + 2 \<le> 400" "WebRtcIsac_EncTerminate b = (len, b')" "WebRtcIsacfix_EncTerminate e = (flen, e')"
  shows "flen = len" "take (nat len) (word_bytes (enc_stream e')) = take (nat len) (stream b')"
    "len = int (stream_index b) + (if W_upper b > 0x01FFFFFF then 1 else 2)" "word_list (enc_stream e')" "length (enc_stream e') = 200"
proof -
  let ?j = "stream_index b"
  have W: "enc_W_upper e = W_upper b" using assms(1) by (simp add: enc_packs_def)
  have "flen = len \<and> take (nat len) (word_bytes (enc_stream e')) = take (nat len) (stream b') \<and>
    len = int ?j + (if W_upper b > 0x01FFFFFF then 1 else 2) \<and> word_list (enc_stream e') \<and> length (enc_stream e') = 200"
  proof (cases "W_upper b > 0x01FFFFFF")
    case True
    let ?e = "fix_term_add 0x01000000 e" and ?b = "term_add 0x01000000 b"
    have p: "enc_packs ?e ?b" by (rule fix_term_add_packs [OF assms(1)])
    have i: "stream_index ?b = ?j" by (simp add: term_add_def Let_def)
    have q: "packed (enc_stream ?e) (enc_stream_index ?e) (enc_full ?e) (stream ?b) ?j" "enc_streamval ?e = streamval ?b"
      "0 \<le> streamval ?b" "streamval ?b < 4294967296" using p by (simp_all add: enc_packs_def i)
    obtain s i' full' where put: "put_byte (streamval ?b) (enc_stream ?e) (enc_stream_index ?e) (enc_full ?e) = (s, i', full')"
      by (cases "put_byte (streamval ?b) (enc_stream ?e) (enc_stream_index ?e) (enc_full ?e)") auto
    note r = put_byte_bytes [OF q(1,3,4) put]
    have "flen = s16 (shl (int i') 1 + (if full' = 0 then 1 else 0))" "enc_stream e' = s"
      using assms(4) True put by (auto simp: WebRtcIsacfix_EncTerminate_def Let_def W q(2) [symmetric])
    moreover have "shl (int i') 1 + (if full' = 0 then 1 else 0) = int (?j + 1)" using r(3) by (auto simp: shl_mult byte_position_def)
    moreover have "len = int (?j + 1)" "stream b' = (stream ?b)[?j := u8 (asr (streamval ?b) 24)]"
      using assms(3) True i by (auto simp: WebRtcIsac_EncTerminate_def Let_def)
    ultimately show ?thesis using r(1,2,5) assms(2) True by (simp add: s16_id nat_add_distrib)
  next
    case False
    let ?e = "fix_term_add 0x00010000 e" and ?b = "term_add 0x00010000 b"
    have p: "enc_packs ?e ?b" by (rule fix_term_add_packs [OF assms(1)])
    have i: "stream_index ?b = ?j" by (simp add: term_add_def Let_def)
    have q: "packed (enc_stream ?e) (enc_stream_index ?e) (enc_full ?e) (stream ?b) ?j" "enc_streamval ?e = streamval ?b"
      "0 \<le> streamval ?b" "streamval ?b < 4294967296" using p by (simp_all add: enc_packs_def i)
    define s where "s = (if enc_full ?e \<noteq> 0 then (enc_stream ?e)[enc_stream_index ?e := u16 (asr (streamval ?b) 16)]
      else (enc_stream ?e)[enc_stream_index ?e := u16 (enc_stream ?e ! enc_stream_index ?e OR u16 (asr (streamval ?b) 24)),
        enc_stream_index ?e + 1 := u16 (asr (streamval ?b) 8) AND 0xFF00])"
    note words = term_words [OF q(1,3,4) assms(2) s_def]
    have "flen = s16 (shl (int (enc_stream_index ?e + 1)) 1 + (if enc_full ?e = 0 then 1 else 0))" "enc_stream e' = s"
      using assms(4) False by (auto simp: WebRtcIsacfix_EncTerminate_def Let_def W q(2) s_def)
    moreover have "shl (int (enc_stream_index ?e + 1)) 1 + (if enc_full ?e = 0 then 1 else 0) = int (?j + 2)"
      using q(1) by (auto simp: shl_mult byte_position_def packed_def)
    moreover have "len = int (?j + 2)" "stream b' = (stream ?b)[?j := u8 (asr (streamval ?b) 24), ?j + 1 := u8 (asr (streamval ?b) 16 AND 0x00FF)]"
      using assms(3) False i by (auto simp: WebRtcIsac_EncTerminate_def Let_def)
    moreover have "word_list s" "length s = 200"
    proof -
      have w: "word_list (enc_stream ?e)" "length (enc_stream ?e) = 200" using q(1) by (simp_all add: packed_def)
      have "0 \<le> u16 x AND 0xFF00 \<and> u16 x AND 0xFF00 < 65536" for x
        using and_FF00 [OF u16_bounds, of x] u16_bounds [of x] by simp
      then show "word_list s" using w(1) by (simp add: s_def word_list_update u16_bounds)
      show "length s = 200" using w(2) by (simp add: s_def)
    qed
    ultimately show ?thesis using words assms(2) False by (simp add: s16_id nat_add_distrib)
  qed
  then show "flen = len" "take (nat len) (word_bytes (enc_stream e')) = take (nat len) (stream b')"
    "len = int (stream_index b) + (if W_upper b > 0x01FFFFFF then 1 else 2)" "word_list (enc_stream e')" "length (enc_stream e') = 200" by auto
qed

subsection \<open>Packets\<close>

text \<open>The same call in the floating-point codec.\<close>

fun main_call :: "fix_call \<Rightarrow> packet_call" where
  "main_call (Fix_tables c) = Tables c"
| "main_call (Fix_spectrum data dither env env2) = Spectrum False data dither env"

text \<open>Calls that an encoder can code: symbols of well-formed tables; coefficients whose symbols have 16-bit edges, with enough
  envelope values from 1 on.\<close>

fun encodable_call :: "fix_call \<Rightarrow> bool" where
  "encodable_call (Fix_tables (m, items)) \<longleftrightarrow> list_all (valid_item (\<lambda>_ _. True)) items"
| "encodable_call (Fix_spectrum data dither env env2) \<longleftrightarrow> list_all (\<lambda>e. 1 \<le> e \<and> e \<le> 65535) env \<and>
     list_all (\<lambda>d. - 32704 \<le> d \<and> d \<le> 32703) data \<and> length data \<le> env_period False * length env"

lemma valid_encodable: "valid_packet_call (main_call c) \<Longrightarrow> encodable_call c"
  by (cases c rule: encodable_call.cases)
    (auto simp: valid_call_def valid_item_def valid_spectrum_def list_all_iff list_all2_conv_all_nth in_set_conv_nth)

lemma fix_enc_call_simulation:
  assumes "enc_packs e b" "enc_wf b" "encodable_call c" "fix_enc_call c e = Some (ds, e')"
  shows "\<exists>b'. enc_packet_call (main_call c) b = Some (ds, b') \<and> enc_packs e' b' \<and> enc_wf b'"
proof (cases c)
  case (Fix_tables tc)
  obtain m items where tc: "tc = (m, items)" by (cases tc)
  have v: "list_all (valid_item (\<lambda>_ _. True)) items" using assms(3) by (simp add: Fix_tables tc)
  obtain b' where b': "enc_loop (enc_items items) b = Some b'" "enc_wf b'" using enc_loop_returns [OF assms(2) v] by auto
  have zip: "take (length items) (zip (map (\<lambda>(cdf, d, h). cdf) items) (map (\<lambda>(cdf, d, h). d) items)) = enc_items items"
    by (simp add: enc_items_def zip_map_map zip_same_conv_map split_def comp_def)
  from hist_simulation [OF assms(1) v b'(1) assms(2)] assms(4)
  have "enc_packs e' b' \<and> ds = map (\<lambda>(cdf, d, h). d) items"
    by (auto simp: step_result_def Fix_tables tc WebRtcIsacfix_EncHistMulti_def zip enc_return_def)
  then show ?thesis using b' by (simp add: Fix_tables tc EncHistMulti_items)
next
  case (Fix_spectrum data dither env env2)
  have ok: "list_all (\<lambda>(e, d). codable e d) (with_env False 0 data env)"
    using assms(3) by (intro spectrum_codable) (simp_all add: Fix_spectrum)
  from EncLogisticMulti2_result [OF assms(2) ok] obtain b' where b': "enc_intervals (spectrum_intervals False 0 data env) b = Some b'" "enc_wf b'"
    and m: "WebRtcIsac_EncLogisticMulti2 b data env (int (length data)) False = Some (0, spectrum_sent False 0 data env, b')
      \<or> 399 < stream_index b'" by auto
  from spectrum_simulation [OF assms(1) ok b'(1) assms(2)] assms(4)
  have e: "enc_packs e' b' \<and> ds = spectrum_sent False 0 data env"
    by (auto simp: Fix_spectrum WebRtcIsacfix_EncLogisticMulti2_def enc_return_def)
  then have "stream_index b' \<le> 399" by (auto simp: enc_packs_def packed_def byte_position_def)
  then show ?thesis using m b'(2) e by (simp add: Fix_spectrum)
qed

lemma fix_enc_packet_simulation:
  "enc_packs e b \<Longrightarrow> enc_wf b \<Longrightarrow> list_all encodable_call cs \<Longrightarrow> fix_enc_packet cs e = Some (dss, e') \<Longrightarrow>
    \<exists>b'. enc_packet (map main_call cs) b = Some (dss, b') \<and> enc_packs e' b' \<and> enc_wf b'"
proof (induction cs arbitrary: e b dss)
  case (Cons c cs)
  obtain ds e1 dss' where s: "fix_enc_call c e = Some (ds, e1)" "fix_enc_packet cs e1 = Some (dss', e')" "dss = ds # dss'"
    using Cons.prems(4) by (auto simp: Option.bind_eq_Some_conv)
  have v: "encodable_call c" "list_all encodable_call cs" using Cons.prems(3) by simp_all
  from fix_enc_call_simulation [OF Cons.prems(1,2) v(1) s(1)] obtain b1
    where b1: "enc_packet_call (main_call c) b = Some (ds, b1)" "enc_packs e1 b1" "enc_wf b1" by blast
  from Cons.IH [OF b1(2,3) v(2) s(2)] b1(1) s(3) show ?case by auto
qed simp

lemma fresh_enc_packs:
  assumes "word_list s" "length s = 200" "byte_list t" "400 \<le> length t"
  shows "enc_packs (fresh_enc s) (fresh_stream t)" "enc_wf (fresh_stream t)"
  using assms by (auto simp: enc_packs_def packed_def fresh_enc_def fresh_stream_def byte_position_def enc_wf_def)

text \<open>C2. The two iSAC codecs write the same streams: whatever the fixed-point encoder codes into its 16-bit words, with its own
  carry propagation, length check and termination, in a sequence of calls with symbols of well-formed tables and with
  spectra of coefficients from -32704 to 32703 and envelope values from 1 to 65535, the floating-point codec accepts the
  same calls, reports the same coefficients as sent, and produces the same bytes and the same length; whatever both buffers
  held before, with two of the 400 bytes left for the termination. Outside of this range the edges of a symbol leave 16 bits and the codecs differ (\<open>codecs_differ_outside\<close>).\<close>

theorem isac_same_stream:
  assumes "word_list words" "length words = 200" "byte_list buf" "400 \<le> length buf"
    "list_all encodable_call calls"
    "fix_enc_packet calls (fresh_enc words) = Some (sent_data, e)" "WebRtcIsacfix_EncTerminate e = (len, e')"
    "byte_position (enc_stream_index e) (enc_full e) + 2 \<le> 400"
  shows "\<exists>b b'. enc_packet (map main_call calls) (fresh_stream buf) = Some (sent_data, b) \<and> WebRtcIsac_EncTerminate b = (len, b') \<and>
    stream_index b = byte_position (enc_stream_index e) (enc_full e) \<and>
    take (nat len) (stream b') = take (nat len) (word_bytes (enc_stream e'))"
proof -
  from fix_enc_packet_simulation [OF fresh_enc_packs [OF assms(1-4)] assms(5,6)]
  obtain b where b: "enc_packet (map main_call calls) (fresh_stream buf) = Some (sent_data, b)" "enc_packs e b" by blast
  have i: "stream_index b = byte_position (enc_stream_index e) (enc_full e)" using b(2) by (simp add: enc_packs_def packed_def)
  obtain len' b' where t: "WebRtcIsac_EncTerminate b = (len', b')" by fastforce
  show ?thesis using terminate_simulation [OF b(2) _ t assms(7)] assms(8) b(1) i t by auto
qed

lemma codecs_differ_outside:
  "map_option fst (fix_enc_call (Fix_spectrum [32767] [] [1] []) (fresh_enc (replicate 200 0))) = Some [32639]
   \<and> map_option fst (enc_packet_call (Spectrum False [32767] [] [1]) (fresh_stream (replicate 600 0))) = Some [32767]"
  by code_simp

definition sample_fix :: "fix_call list" where
  "sample_fix = [Fix_tables (OneStep, [([0, 100, 30000, 65535], 1, 2)]),
     Fix_spectrum [144, - 2160, 16, - 112] [- 16, - 16, - 16, - 16] [256] [65536]]"

lemma sample_fix_coded:
  "fix_enc_packet sample_fix (fresh_enc (replicate 200 0)) = Some ([[1], [144, - 1264, 16, - 112]],
     \<lparr>enc_stream = 24074 # replicate 199 0, enc_W_upper = 124626628, enc_streamval = 1971974399, enc_stream_index = 1, enc_full = 1\<rparr>)"
  "WebRtcIsacfix_EncTerminate
     \<lparr>enc_stream = 24074 # replicate 199 0, enc_W_upper = 124626628, enc_streamval = 1971974399, enc_stream_index = 1, enc_full = 1\<rparr> =
     (3, \<lparr>enc_stream = 24074 # 30208 # replicate 198 0, enc_W_upper = 124626628, enc_streamval = 1988751615, enc_stream_index = 1, enc_full = 0\<rparr>)"
  by code_simp+

theorem isac_same_stream_witness:
  "\<exists>b b'. enc_packet (map main_call sample_fix) (fresh_stream (replicate 400 0)) = Some ([[1], [144, - 1264, 16, - 112]], b) \<and>
     WebRtcIsac_EncTerminate b = (3, b') \<and> stream_index b = 2 \<and> take 3 (stream b') = [94, 10, 118]"
proof -
  have "list_all encodable_call sample_fix"
    by (simp add: sample_fix_def valid_item_def wf_cdf_def symbol_of_def env_period_def)
  from isac_same_stream [OF _ _ _ _ this sample_fix_coded, of "replicate 400 0"] show ?thesis
    by (simp add: word_list_def byte_list_def list_all_iff byte_position_def numeral_eq_Suc)
qed

end
