(* ===== verification/IsacFixDec.thy ===== *)
theory IsacFixDec imports IsacFixEnc
begin

text \<open>
  The decoders of \<open>IsacFix\<close> against the byte decoders: the readers of words are simulated (\<open>fix_dec_renorm_simulation\<close>, and
  \<open>fix_dec_renorm_end_simulation\<close> for the one that puts zeros behind the stream), then the loops; the decoder calls
  interpret \<open>interval_decoder\<close>, which gives the round trip of packets.
\<close>

subsection \<open>The decoders against the byte decoders\<close>

lemma next_byte_value:
  assumes "word_list s" "i < length s" "full = 0 \<or> full = 1" "next_byte s i full = (x, i', full')"
  shows "x = word_bytes s ! byte_position i full" "byte_position i' full' = byte_position i full + 1" "full' = 0 \<or> full' = 1"
proof -
  have "word_bytes s ! (2 * i) = s ! i div 256" "word_bytes s ! Suc (2 * i) = s ! i mod 256" using word_bytes_nth [OF assms(2)] by auto
  then show "x = word_bytes s ! byte_position i full" "byte_position i' full' = byte_position i full + 1" "full' = 0 \<or> full' = 1"
    using assms(3,4) by (auto simp: next_byte_def byte_position_def and_FF asr_div split: if_splits)
qed

text \<open>What the readers promise for the bytes \<open>mem\<close> of the stream: positions up to \<open>m\<close> are read, the stream \<open>t\<close> of the byte decoder
  agrees with \<open>rd\<close> on the positions read.\<close>

lemma dec_renorm_mono: "dec_renorm W v t m = Some r \<Longrightarrow> m \<le> snd (snd r)"
proof -
  assume r: "dec_renorm W v t m = Some r"
  let ?P = "\<lambda>W v (t :: int list) m r. m \<le> snd (snd (r :: int \<times> int \<times> nat))"
  show "m \<le> snd (snd r)"
    by (rule dec_renorm.raw_induct [where P = ?P, OF _ r]) (fastforce split: if_splits)
qed

lemma fix_dec_renorm_simulation:
  assumes "dec_renorm W v t m = Some r" "word_list s" "full = 0 \<or> full = 1" "byte_position i full = m + 1"
    "\<And>j. m < j \<Longrightarrow> j \<le> snd (snd r) \<Longrightarrow> j < 2 * length s \<and> t ! j = word_bytes s ! j"
  shows "\<exists>i' full'. fix_dec_renorm W v s i full = Some (fst r, fst (snd r), i', full') \<and> (full' = 0 \<or> full' = 1)
    \<and> byte_position i' full' = snd (snd r) + 1"
proof -
  let ?P = "\<lambda>W v t m r. dec_renorm W v t m = Some r \<longrightarrow> (\<forall>i full. (full = 0 \<or> full = 1) \<and> byte_position i full = m + 1 \<and>
      (\<forall>j. m < j \<and> j \<le> snd (snd r) \<longrightarrow> j < 2 * length s \<and> t ! j = word_bytes s ! j) \<longrightarrow>
    (\<exists>i' full'. fix_dec_renorm W v s i full = Some (fst r, fst (snd r), i', full') \<and> (full' = 0 \<or> full' = 1)
      \<and> byte_position i' full' = snd (snd r) + 1))"
  have "?P W v t m r"
  proof (rule dec_renorm.raw_induct [where P = ?P, OF _ assms(1)], intro allI impI, elim conjE)
    fix rec W v t m r i full
    assume IH: "\<And>W v t m r. rec W v t m = Some r \<Longrightarrow> ?P W v t m r"
      and step: "(if W AND 0xFF000000 = 0 then rec (u32 (shl W 8)) (u32 (shl v 8) OR t ! (m + 1)) t (m + 1) else Some (W, v, m)) = Some r"
      and dr: "dec_renorm W v t m = Some r" and full: "full = (0 :: int) \<or> full = 1" and pos: "byte_position i full = m + 1"
      and agree: "\<forall>j. m < j \<and> j \<le> snd (snd r) \<longrightarrow> j < 2 * length s \<and> t ! j = word_bytes s ! j"
    show "\<exists>i' full'. fix_dec_renorm W v s i full = Some (fst r, fst (snd r), i', full') \<and> (full' = 0 \<or> full' = 1)
      \<and> byte_position i' full' = snd (snd r) + 1"
    proof (cases "W AND 0xFF000000 = 0")
      case False
      then show ?thesis using step full pos by (auto simp: fix_dec_renorm.simps [of W])
    next
      case True
      have rc: "rec (u32 (shl W 8)) (u32 (shl v 8) OR t ! (m + 1)) t (m + 1) = Some r" using step True by simp
      have d: "dec_renorm (u32 (shl W 8)) (u32 (shl v 8) OR t ! (m + 1)) t (m + 1) = Some r"
        using dr True by (simp add: dec_renorm.simps [of W])
      then have "m + 1 \<le> snd (snd r)" by (rule dec_renorm_mono)
      then have m: "m + 1 < 2 * length s" "t ! (m + 1) = word_bytes s ! (m + 1)" using agree by auto
      obtain x i' full' where nb: "next_byte s i full = (x, i', full')" by (cases "next_byte s i full") auto
      have "i < length s" using m(1) pos by (auto simp: byte_position_def split: if_splits)
      note n = next_byte_value [OF assms(2) this full nb]
      have "\<exists>i'' full''. fix_dec_renorm (u32 (shl W 8)) (u32 (shl v 8) OR t ! (m + 1)) s i' full' = Some (fst r, fst (snd r), i'', full'')
          \<and> (full'' = 0 \<or> full'' = 1) \<and> byte_position i'' full'' = snd (snd r) + 1"
        using IH [OF rc] d n(2,3) pos agree by auto
      moreover have "x = t ! (m + 1)" using n(1) m(2) pos by simp
      ultimately show ?thesis using True nb by (subst fix_dec_renorm.simps) simp
    qed
  qed
  then show ?thesis using assms by blast
qed

lemma fix_dec_renorm_end_simulation:
  assumes "dec_renorm W v t m = Some r" "word_list s" "sz \<le> length s" "full = 0 \<or> full = 1" "byte_position (i + off) full = m + 1"
    "off = 0 \<or> sz \<le> i"
    "\<And>j. m < j \<Longrightarrow> j \<le> snd (snd r) \<Longrightarrow> t ! j = (if j < 2 * sz then word_bytes s ! j else 0)"
  shows "\<exists>i' full' off'. fix_dec_renorm_end W v s sz i full off = Some (fst r, fst (snd r), i', full', off') \<and> (full' = 0 \<or> full' = 1)
    \<and> byte_position (i' + off') full' = snd (snd r) + 1 \<and> (off' = 0 \<or> sz \<le> i')"
proof -
  let ?P = "\<lambda>W v t m r. dec_renorm W v t m = Some r \<longrightarrow> (\<forall>i full off. (full = 0 \<or> full = 1) \<and> byte_position (i + off) full = m + 1 \<and>
      (off = 0 \<or> sz \<le> i) \<and> (\<forall>j. m < j \<and> j \<le> snd (snd r) \<longrightarrow> t ! j = (if j < 2 * sz then word_bytes s ! j else 0)) \<longrightarrow>
    (\<exists>i' full' off'. fix_dec_renorm_end W v s sz i full off = Some (fst r, fst (snd r), i', full', off') \<and> (full' = 0 \<or> full' = 1)
      \<and> byte_position (i' + off') full' = snd (snd r) + 1 \<and> (off' = 0 \<or> sz \<le> i')))"
  have "?P W v t m r"
  proof (rule dec_renorm.raw_induct [where P = ?P, OF _ assms(1)], intro allI impI, elim conjE)
    fix rec W v t m r i full off
    assume IH: "\<And>W v t m r. rec W v t m = Some r \<Longrightarrow> ?P W v t m r"
      and step: "(if W AND 0xFF000000 = 0 then rec (u32 (shl W 8)) (u32 (shl v 8) OR t ! (m + 1)) t (m + 1) else Some (W, v, m)) = Some r"
      and dr: "dec_renorm W v t m = Some r" and full: "full = (0 :: int) \<or> full = 1" and pos: "byte_position (i + off) full = m + 1"
      and off: "off = 0 \<or> sz \<le> i" and agree: "\<forall>j. m < j \<and> j \<le> snd (snd r) \<longrightarrow> t ! j = (if j < 2 * sz then word_bytes s ! j else 0)"
    show "\<exists>i' full' off'. fix_dec_renorm_end W v s sz i full off = Some (fst r, fst (snd r), i', full', off') \<and> (full' = 0 \<or> full' = 1)
      \<and> byte_position (i' + off') full' = snd (snd r) + 1 \<and> (off' = 0 \<or> sz \<le> i')"
    proof (cases "W AND 0xFF000000 = 0")
      case False
      then show ?thesis using step full pos off by (auto simp: fix_dec_renorm_end.simps [of W])
    next
      case True
      have rc: "rec (u32 (shl W 8)) (u32 (shl v 8) OR t ! (m + 1)) t (m + 1) = Some r" using step True by simp
      have d: "dec_renorm (u32 (shl W 8)) (u32 (shl v 8) OR t ! (m + 1)) t (m + 1) = Some r"
        using dr True by (simp add: dec_renorm.simps [of W])
      then have "m + 1 \<le> snd (snd r)" by (rule dec_renorm_mono)
      then have m: "t ! (m + 1) = (if m + 1 < 2 * sz then word_bytes s ! (m + 1) else 0)" using agree by auto
      obtain x i' full' off' where nb: "next_byte_end s sz i full off = (x, i', full', off')" by (cases "next_byte_end s sz i full off") auto
      have n: "x = t ! (m + 1)" "byte_position (i' + off') full' = m + 2" "full' = 0 \<or> full' = 1" "off' = 0 \<or> sz \<le> i'"
      proof -
        have "x = t ! (m + 1) \<and> byte_position (i' + off') full' = m + 2 \<and> (full' = 0 \<or> full' = 1) \<and> (off' = 0 \<or> sz \<le> i')"
        proof (cases "i < sz")
          case i: True
          then have o: "off = 0" "off' = 0" "next_byte s i full = (x, i', full')"
            using off nb by (auto simp: next_byte_end_def split: prod.splits)
          have "i < length s" using i assms(3) by simp
          from next_byte_value [OF assms(2) this full o(3)] show ?thesis
            using m pos i o full by (auto simp: byte_position_def split: if_splits)
        next
          case False
          then show ?thesis using nb full pos m by (auto simp: next_byte_end_def byte_position_def split: if_splits)
        qed
        then show "x = t ! (m + 1)" "byte_position (i' + off') full' = m + 2" "full' = 0 \<or> full' = 1" "off' = 0 \<or> sz \<le> i'" by auto
      qed
      have "\<exists>i'' full'' off''. fix_dec_renorm_end (u32 (shl W 8)) (u32 (shl v 8) OR t ! (m + 1)) s sz i' full' off' =
          Some (fst r, fst (snd r), i'', full'', off'') \<and> (full'' = 0 \<or> full'' = 1) \<and> byte_position (i'' + off'') full'' = snd (snd r) + 1
          \<and> (off'' = 0 \<or> sz \<le> i'')"
        using IH [OF rc] d n(2-4) agree by auto
      then show ?thesis using True nb n(1) by (subst fix_dec_renorm_end.simps) simp
    qed
  qed
  then show ?thesis using assms by blast
qed

lemma dec_loop_mono: "dec_loop chk srch items W v wl t m = Some (ds, Inr (W', v', m')) \<Longrightarrow> m \<le> m'"
proof (induction items arbitrary: W v wl m ds)
  case (Cons x items)
  then show ?case
    by (cases x) (fastforce simp: Let_def dest: dec_renorm_mono split: search.splits option.splits if_splits)
qed simp

lemma fix_dec_loop_simulation:
  assumes "dec_loop chk srch items W v wl t m = Some (ds, Inr (W', v', m'))" "word_list s" "full = 0 \<or> full = 1"
    "byte_position i full = m + 1" "\<And>j. m < j \<Longrightarrow> j \<le> m' \<Longrightarrow> j < 2 * length s \<and> t ! j = word_bytes s ! j"
  shows "\<exists>i' full'. fix_dec_loop chk srch items W v wl s i full = Some (map s16 ds, Inr (W', v', i', full')) \<and> (full' = 0 \<or> full' = 1)
    \<and> byte_position i' full' = m' + 1"
  using assms
proof (induction items arbitrary: W v wl m ds i full)
  case (Cons x items)
  obtain cdf h where x: "x = (cdf, h)" by (cases x)
  obtain d wl1 wu where f: "srch cdf h W v wl = Found d wl1 wu"
    using Cons.prems(1) by (auto simp: x split: search.splits)
  obtain W1 v1 m1 where r: "dec_renorm (u32 (wu - u32 (wl1 + 1))) (u32 (v - u32 (wl1 + 1))) t m = Some (W1, v1, m1)"
    using Cons.prems(1) by (auto simp: x f Let_def split: option.splits)
  obtain ds' where l: "\<not> (chk \<and> W1 = 0)" "dec_loop chk srch items W1 v1 (u32 (wl1 + 1)) t m1 = Some (ds', Inr (W', v', m'))" "ds = d # ds'"
    using Cons.prems(1) by (auto simp: x f r Let_def split: if_splits)
  have "m1 \<le> m'" "m \<le> m1" using dec_loop_mono [OF l(2)] dec_renorm_mono [OF r] by simp_all
  then have "\<And>j. m < j \<Longrightarrow> j \<le> snd (snd (W1, v1, m1)) \<Longrightarrow> j < 2 * length s \<and> t ! j = word_bytes s ! j" using Cons.prems(5) by auto
  from fix_dec_renorm_simulation [OF r Cons.prems(2-4) this] obtain i1 full1
    where r1: "fix_dec_renorm (u32 (wu - u32 (wl1 + 1))) (u32 (v - u32 (wl1 + 1))) s i full = Some (W1, v1, i1, full1)"
      "full1 = 0 \<or> full1 = 1" "byte_position i1 full1 = m1 + 1" by auto
  have "\<And>j. m1 < j \<Longrightarrow> j \<le> m' \<Longrightarrow> j < 2 * length s \<and> t ! j = word_bytes s ! j" using Cons.prems(5) \<open>m \<le> m1\<close> by auto
  from Cons.IH [OF l(2) Cons.prems(2) r1(2,3) this] obtain i2 full2
    where "fix_dec_loop chk srch items W1 v1 (u32 (wl1 + 1)) s i1 full1 = Some (map s16 ds', Inr (W', v', i2, full2))"
      "full2 = 0 \<or> full2 = 1" "byte_position i2 full2 = m' + 1" by auto
  then show ?case using f r1(1) l(1,3) by (auto simp: x Let_def)
qed simp

subsection \<open>The search for a coefficient\<close>

lemma fix_cand_bound_equal: "0 \<le> env \<Longrightarrow> env \<le> 65535 \<Longrightarrow> fix_cand_bound W env (s16 c) = cand_bound W env (s16 c)"
  by (simp add: fix_cand_bound_def cand_bound_def Piecewise_equal MUL_16_U16_equal s16_lower s16_upper)

lemma fix_cand_up_equal:
  assumes "cand_up W env v c wl wt = Some r" "0 \<le> env" "env \<le> 65535"
  shows "fix_cand_up W env v c wl wt = Some r"
proof -
  let ?P = "\<lambda>W env v c wl wt r. 0 \<le> env \<and> env \<le> 65535 \<longrightarrow> fix_cand_up W env v c wl wt = Some r"
  have "?P W env v c wl wt r"
  proof (rule cand_up.raw_induct [where P = ?P, OF _ assms(1)], intro impI)
    fix rec W env v c wl wt r
    assume IH: "\<And>W env v c wl wt r. rec W env v c wl wt = Some r \<Longrightarrow> ?P W env v c wl wt r"
      and step: "(if wt < v then let wl = wt; c = s16 (c + 128); wt = cand_bound W env c
        in if wl = wt then Some Range_error else rec W env v c wl wt else Some (Found (s16 (c - 64)) wl wt)) = Some r"
      and env: "0 \<le> env \<and> env \<le> 65535"
    show "fix_cand_up W env v c wl wt = Some r"
      using step IH [of W env v "s16 (c + 128)" wt "cand_bound W env (s16 (c + 128))" r] env
      by (subst fix_cand_up.simps) (auto simp: Let_def fix_cand_bound_equal split: if_splits)
  qed
  then show ?thesis using assms(2,3) by simp
qed

lemma fix_cand_down_equal:
  assumes "cand_down W env v c wl wt = Some r" "0 \<le> env" "env \<le> 65535"
  shows "fix_cand_down W env v c wl wt = Some r"
proof -
  let ?P = "\<lambda>W env v c wl wt r. 0 \<le> env \<and> env \<le> 65535 \<longrightarrow> fix_cand_down W env v c wl wt = Some r"
  have "?P W env v c wl wt r"
  proof (rule cand_down.raw_induct [where P = ?P, OF _ assms(1)], intro impI)
    fix rec W env v c wl wt r
    assume IH: "\<And>W env v c wl wt r. rec W env v c wl wt = Some r \<Longrightarrow> ?P W env v c wl wt r"
      and step: "(if \<not> wt < v then let wl = wt; c = s16 (c - 128); wt = cand_bound W env c
        in if wl = wt then Some Range_error else rec W env v c wl wt else Some (Found (s16 (c + 64)) wt wl)) = Some r"
      and env: "0 \<le> env \<and> env \<le> 65535"
    show "fix_cand_down W env v c wl wt = Some r"
      using step IH [of W env v "s16 (c - 128)" wt "cand_bound W env (s16 (c - 128))" r] env
      by (subst fix_cand_down.simps) (auto simp: Let_def fix_cand_bound_equal split: if_splits)
  qed
  then show ?thesis using assms(2,3) by simp
qed

lemma fix_cand_search_equal:
  "cand_search W env t v = Some r \<Longrightarrow> 0 \<le> env \<Longrightarrow> env \<le> 65535 \<Longrightarrow> fix_cand_search W env t v = Some r"
  by (auto simp: cand_search_def fix_cand_search_def Let_def fix_cand_bound_equal fix_cand_up_equal fix_cand_down_equal split: if_splits)

subsection \<open>Groups of four\<close>

text \<open>The byte decoder on coefficients of one envelope value.\<close>

fun dec_same :: "int \<Rightarrow> int list \<Rightarrow> int \<Rightarrow> int \<Rightarrow> int list \<Rightarrow> nat \<Rightarrow> (int list \<times> int \<times> int \<times> nat) option" where
  "dec_same env [] W v t m = Some ([], W, v, m)"
| "dec_same env (x # xs) W v t m =
    (case cand_search W env x v of
       Some (Found d wl wu) \<Rightarrow>
         Option.bind (dec_renorm (u32 (wu - u32 (wl + 1))) (u32 (v - u32 (wl + 1))) t m)
           (\<lambda>(W, v, m). map_option (\<lambda>(ds, r). (d # ds, r)) (dec_same env xs W v t m))
     | _ \<Rightarrow> None)"

lemma dec_logist_group:
  assumes "dec_logist_loop False k (xs @ ys) env W v t m = Some (ds, Inr R)" "k mod 4 + length xs \<le> 4"
  shows "\<exists>ds1 W1 v1 m1 ds2. dec_same (hd env) xs W v t m = Some (ds1, W1, v1, m1) \<and> ds = ds1 @ ds2 \<and>
    dec_logist_loop False (k + length xs) ys (drop ((k mod 4 + length xs) div 4) env) W1 v1 t m1 = Some (ds2, Inr R)"
  using assms
proof (induction xs arbitrary: k env W v m ds)
  case (Cons x xs)
  obtain d wl wu where c: "cand_search W (hd env) x v = Some (Found d wl wu)"
    using Cons.prems(1) by (auto split: option.splits search.splits)
  obtain W1 v1 m1 where r: "dec_renorm (u32 (wu - u32 (wl + 1))) (u32 (v - u32 (wl + 1))) t m = Some (W1, v1, m1)"
    using Cons.prems(1) by (auto simp: c Let_def split: option.splits)
  obtain ds' where l: "dec_logist_loop False (k + 1) (xs @ ys) (drop (env_step False k) env) W1 v1 t m1 = Some (ds', Inr R)" "ds = d # ds'"
    using Cons.prems(1) by (auto simp: c r Let_def)
  have step: "k mod 4 + 1 = (k + 1) mod 4 + env_step False k * 4" using env_step_period [of k False] by (simp add: env_period_def)
  show ?case
  proof (cases "xs = []")
    case True
    have "(k mod 4 + 1) div 4 = env_step False k" using step by (simp add: env_step_def split: if_splits)
    then show ?thesis using l c r True by auto
  next
    case False
    then have e: "env_step False k = 0" "(k + 1) mod 4 = k mod 4 + 1" using step Cons.prems(2) by (auto simp: env_step_def split: if_splits)
    from Cons.IH [of "k + 1" env W1 v1 m1 ds'] l(1) e Cons.prems(2) show ?thesis by (fastforce simp: c r l(2))
  qed
qed simp

lemma dec_same_mono: "dec_same env xs W v t m = Some (ds, W', v', m') \<Longrightarrow> m \<le> m'"
proof (induction xs arbitrary: W v m ds)
  case (Cons x xs)
  then show ?case
    by (fastforce simp: Option.bind_eq_Some_conv dest: dec_renorm_mono split: search.splits option.splits)
qed simp

lemma dec_logist_mono: "dec_logist_loop sw k xs env W v t m = Some (ds, Inr (W', v', m')) \<Longrightarrow> m \<le> m'"
proof (induction xs arbitrary: k env W v m ds)
  case (Cons x xs)
  then show ?case
    by (fastforce simp: Let_def dest: dec_renorm_mono split: search.splits option.splits)
qed simp

lemma fix_dec_four_simulation:
  assumes "dec_same env xs W v t m = Some (ds, W', v', m')" "word_list s" "sz \<le> length s" "0 \<le> env" "env \<le> 65535"
    "full = 0 \<or> full = 1" "byte_position (i + off) full = m + 1" "off = 0 \<or> sz \<le> i"
    "\<And>j. m < j \<Longrightarrow> j \<le> m' \<Longrightarrow> t ! j = (if j < 2 * sz then word_bytes s ! j else 0)"
  shows "\<exists>i' full' off'. fix_dec_four env xs W v s sz i full off = Some (ds, Inr (W', v', i', full', off')) \<and> (full' = 0 \<or> full' = 1)
    \<and> byte_position (i' + off') full' = m' + 1 \<and> (off' = 0 \<or> sz \<le> i')"
  using assms
proof (induction xs arbitrary: W v m ds i full off)
  case (Cons x xs)
  obtain d wl wu where c: "cand_search W env x v = Some (Found d wl wu)"
    using Cons.prems(1) by (auto split: option.splits search.splits)
  obtain W1 v1 m1 ds' where r: "dec_renorm (u32 (wu - u32 (wl + 1))) (u32 (v - u32 (wl + 1))) t m = Some (W1, v1, m1)"
    and l: "dec_same env xs W1 v1 t m1 = Some (ds', W', v', m')" "ds = d # ds'"
    using Cons.prems(1) by (auto simp: c Option.bind_eq_Some_conv)
  have le: "m1 \<le> m'" "m \<le> m1" using dec_same_mono [OF l(1)] dec_renorm_mono [OF r] by simp_all
  have "\<And>j. m < j \<Longrightarrow> j \<le> snd (snd (W1, v1, m1)) \<Longrightarrow> t ! j = (if j < 2 * sz then word_bytes s ! j else 0)" using Cons.prems(9) le by auto
  from fix_dec_renorm_end_simulation [OF r Cons.prems(2,3,6-8) this] obtain i1 full1 off1
    where r1: "fix_dec_renorm_end (u32 (wu - u32 (wl + 1))) (u32 (v - u32 (wl + 1))) s sz i full off = Some (W1, v1, i1, full1, off1)"
      "full1 = 0 \<or> full1 = 1" "byte_position (i1 + off1) full1 = m1 + 1" "off1 = 0 \<or> sz \<le> i1" by auto
  have "\<And>j. m1 < j \<Longrightarrow> j \<le> m' \<Longrightarrow> t ! j = (if j < 2 * sz then word_bytes s ! j else 0)" using Cons.prems(9) le by auto
  from Cons.IH [OF l(1) Cons.prems(2-5) r1(2-4) this] obtain i2 full2 off2
    where "fix_dec_four env xs W1 v1 s sz i1 full1 off1 = Some (ds', Inr (W', v', i2, full2, off2))"
      "full2 = 0 \<or> full2 = 1" "byte_position (i2 + off2) full2 = m' + 1" "off2 = 0 \<or> sz \<le> i2" by auto
  then show ?case using fix_cand_search_equal [OF c Cons.prems(4,5)] r1(1) l(2) by (auto simp: Let_def)
qed simp

text \<open>The envelope that the decoder computes from the squared one.\<close>

fun env_roots :: "int \<Rightarrow> int list \<Rightarrow> int list option" where
  "env_roots res [] = Some []"
| "env_roots res (e # es) = Option.bind (env_root e res) (\<lambda>(res, newRes). map_option (Cons (u16 newRes)) (env_roots res es))"

lemma fix_dec_groups_simulation:
  assumes "dec_logist_loop False k xs env W v t m = Some (ds, Inr (W', v', m'))" "k mod 4 = 0" "4 dvd length xs"
    "env_roots res env2 = Some env" "length xs \<le> 4 * length env2" "word_list s" "sz \<le> length s"
    "full = 0 \<or> full = 1" "byte_position (i + off) full = m + 1" "off = 0 \<or> sz \<le> i"
    "\<And>j. m < j \<Longrightarrow> j \<le> m' \<Longrightarrow> t ! j = (if j < 2 * sz then word_bytes s ! j else 0)"
  shows "\<exists>i' full' off'. fix_dec_groups xs env2 res W v s sz i full off = Some (ds, Inr (W', v', i', full', off')) \<and> (full' = 0 \<or> full' = 1)
    \<and> byte_position (i' + off') full' = m' + 1 \<and> (off' = 0 \<or> sz \<le> i')"
  using assms
proof (induction env2 arbitrary: k xs env W v m ds res i full off)
  case Nil
  then show ?case by (subst fix_dec_groups.simps) auto
next
  case (Cons e2 env2)
  show ?case
  proof (cases "xs = []")
    case True
    then show ?thesis using Cons.prems by (subst fix_dec_groups.simps) auto
  next
    case False
    then have len: "4 \<le> length xs" using Cons.prems(3) dvd_imp_le [of 4 "length xs"] False by simp
    obtain res1 root env' where root: "env_root e2 res = Some (res1, root)" "env_roots res1 env2 = Some env'" "env = u16 root # env'"
      using Cons.prems(4) by (auto simp: Option.bind_eq_Some_conv)
    have xs: "xs = take 4 xs @ drop 4 xs" by simp
    obtain ds1 W1 v1 m1 ds2 where g: "dec_same (u16 root) (take 4 xs) W v t m = Some (ds1, W1, v1, m1)" "ds = ds1 @ ds2"
      "dec_logist_loop False (k + 4) (drop 4 xs) env' W1 v1 t m1 = Some (ds2, Inr (W', v', m'))"
      using dec_logist_group [of k "take 4 xs" "drop 4 xs" env W v t m ds "(W', v', m')"] Cons.prems(1,2) len root(3)
      by (simp add: min_absorb2) blast
    have le: "m1 \<le> m'" "m \<le> m1" using dec_logist_mono [OF g(3)] dec_same_mono [OF g(1)] by simp_all
    have "\<And>j. m < j \<Longrightarrow> j \<le> m1 \<Longrightarrow> t ! j = (if j < 2 * sz then word_bytes s ! j else 0)" using Cons.prems(11) le by auto
    from fix_dec_four_simulation [OF g(1) Cons.prems(6,7) _ _ Cons.prems(8-10) this] u16_bounds [of root]
    obtain i1 full1 off1 where f: "fix_dec_four (u16 root) (take 4 xs) W v s sz i full off = Some (ds1, Inr (W1, v1, i1, full1, off1))"
      "full1 = 0 \<or> full1 = 1" "byte_position (i1 + off1) full1 = m1 + 1" "off1 = 0 \<or> sz \<le> i1" by auto
    have agree: "\<And>j. m1 < j \<Longrightarrow> j \<le> m' \<Longrightarrow> t ! j = (if j < 2 * sz then word_bytes s ! j else 0)" using Cons.prems(11) le by auto
    have "(k + 4) mod 4 = 0" "4 dvd length (drop 4 xs)" "length (drop 4 xs) \<le> 4 * length env2"
      using Cons.prems(2,3,5) len by simp_all
    from Cons.IH [OF g(3) this(1,2) root(2) this(3) Cons.prems(6,7) f(2-4) agree]
    obtain i2 full2 off2 where "fix_dec_groups (drop 4 xs) env2 res1 W1 v1 s sz i1 full1 off1 = Some (ds2, Inr (W', v', i2, full2, off2))"
      "full2 = 0 \<or> full2 = 1" "byte_position (i2 + off2) full2 = m' + 1" "off2 = 0 \<or> sz \<le> i2" by auto
    then show ?thesis using f(1) root(1) g(2) False by (subst fix_dec_groups.simps) auto
  qed
qed

subsection \<open>Decoding of a packet\<close>

text \<open>Symbols are 16-bit; the decoder's roots of the squared envelope are the envelope of the encoder.\<close>

fun valid_fix_call :: "fix_call \<Rightarrow> bool" where
  "valid_fix_call (Fix_tables (m, items)) \<longleftrightarrow> valid_call (m, items) \<and> list_all (\<lambda>(cdf, d, h). d \<le> 32767) items"
| "valid_fix_call (Fix_spectrum data dither env env2) \<longleftrightarrow> valid_spectrum False data dither env \<and> 4 dvd length data \<and>
     env2 \<noteq> [] \<and> env_roots (first_root (hd env2)) env2 = Some env"

lemma valid_fix_main: "valid_fix_call c \<Longrightarrow> valid_packet_call (main_call c)"
  by (cases c rule: valid_fix_call.cases) simp_all

text \<open>The bytes of \<open>t\<close> are what the reader can meet: the received bytes, and anything behind them. All such strings have to be
  codes, since the table decoders read the memory behind \<open>stream_size\<close> words and the spectrum decoder zeros.\<close>

definition agrees :: "int list \<Rightarrow> Bitstr_dec \<Rightarrow> bool" where
  "agrees t d \<longleftrightarrow> (\<forall>j < length t. j < 2 * stream_size d \<longrightarrow> t ! j = word_bytes (dec_stream d) ! j)"

definition fix_code :: "Bitstr \<Rightarrow> Bitstr_dec \<Rightarrow> bool" where
  "fix_code b d \<longleftrightarrow> word_list (dec_stream d) \<and> length (dec_stream d) = 200 \<and> stream_size d \<le> 200 \<and> stream_index b + 4 \<le> 400
     \<and> (\<forall>t. byte_list t \<and> length t = stream_index b + 4 \<and> agrees t d \<longrightarrow> within b t)"

definition fix_synced :: "Bitstr \<Rightarrow> Bitstr_dec \<Rightarrow> bool" where
  "fix_synced b d \<longleftrightarrow> dec_W_upper d = W_upper b \<and> (dec_full d = 0 \<or> dec_full d = 1) \<and>
     (\<exists>p. byte_list p \<and> length p = stream_index b + 4 \<and> agrees p d \<and> fst (first_words d) = offset b p \<and>
       byte_position (snd (first_words d)) (dec_full d) = stream_index b + 4)"

lemma offset_append: "stream_index b + 4 \<le> length p \<Longrightarrow> offset b (p @ q) = offset b p"
  by (simp add: offset_def)

lemma within_append: "within b (p @ q) \<Longrightarrow> length p = stream_index b + 4 \<Longrightarrow> within b p"
  by (simp add: within_def byte_list_def)

lemma agrees_extend:
  assumes "byte_list p" "agrees p d" "word_list (dec_stream d)" "length (dec_stream d) = 200" "length p \<le> n" "n \<le> 400"
  shows "byte_list (p @ map (\<lambda>j. if ok \<or> j < 2 * stream_size d then word_bytes (dec_stream d) ! j else 0) [length p ..< n])"
    "agrees (p @ map (\<lambda>j. if ok \<or> j < 2 * stream_size d then word_bytes (dec_stream d) ! j else 0) [length p ..< n]) d"
proof -
  have "0 \<le> word_bytes (dec_stream d) ! j \<and> word_bytes (dec_stream d) ! j < 256" if "j < n" for j
    using bytes_nth [OF byte_list_word_bytes [OF assms(3)], of j] assms(4,6) that by simp
  then show "byte_list (p @ map (\<lambda>j. if ok \<or> j < 2 * stream_size d then word_bytes (dec_stream d) ! j else 0) [length p ..< n])"
    using assms(1) by (auto simp: byte_list_def list_all_iff)
  show "agrees (p @ map (\<lambda>j. if ok \<or> j < 2 * stream_size d then word_bytes (dec_stream d) ! j else 0) [length p ..< n]) d"
    using assms(2) by (auto simp: agrees_def nth_append)
qed

lemma fix_code_back:
  assumes "enc_inv b" "list_all good_interval ivs" "enc_intervals ivs b = Some b'" "stream_index b' \<le> length (stream b)" "fix_code b' d"
  shows "fix_code b d"
proof -
  have i: "stream_index b \<le> stream_index b'" using enc_intervals_returns [OF enc_inv_wf [OF assms(1)] assms(2)] assms(3) by auto
  have ok: "word_list (dec_stream d)" "length (dec_stream d) = 200" "stream_index b' + 4 \<le> 400" using assms(5) by (simp_all add: fix_code_def)
  have "within b t" if t: "byte_list t" "length t = stream_index b + 4" "agrees t d" for t
  proof -
    note e = agrees_extend [OF t(1,3) ok(1,2) _ ok(3), where ok = False]
    have "within b' (t @ map (\<lambda>j. if False \<or> j < 2 * stream_size d then word_bytes (dec_stream d) ! j else 0) [length t ..< stream_index b' + 4])"
      using assms(5) e t(2) i by (simp add: fix_code_def)
    from enc_intervals_within(2) [OF assms(1-4) this] t(2) show ?thesis by (rule within_append)
  qed
  then show ?thesis using assms(5) i by (simp add: fix_code_def)
qed

text \<open>What a call starts from: the string that it is going to read. What it leaves: synchronisation.\<close>

lemma fix_call_start:
  assumes "enc_inv b" "list_all good_interval ivs" "enc_intervals ivs b = Some b'" "fix_code b' d" "fix_synced b d"
  obtains t where "within b' t" "length t = stream_index b' + 4" "agrees t d" "fst (first_words d) = offset b t"
    "byte_position (snd (first_words d)) (dec_full d) = stream_index b + 3 + 1"
    "\<And>j. stream_index b + 3 < j \<Longrightarrow> j \<le> stream_index b' + 3 \<Longrightarrow>
      t ! j = (if ok \<or> j < 2 * stream_size d then word_bytes (dec_stream d) ! j else 0)"
proof -
  obtain p where p: "byte_list p" "length p = stream_index b + 4" "agrees p d" "fst (first_words d) = offset b p"
    "byte_position (snd (first_words d)) (dec_full d) = stream_index b + 4" using assms(5) by (auto simp: fix_synced_def)
  have i: "stream_index b \<le> stream_index b'" using enc_intervals_returns [OF enc_inv_wf [OF assms(1)] assms(2)] assms(3) by auto
  have c: "word_list (dec_stream d)" "length (dec_stream d) = 200" "stream_index b' + 4 \<le> 400" using assms(4) by (simp_all add: fix_code_def)
  define t where "t = p @ map (\<lambda>j. if ok \<or> j < 2 * stream_size d then word_bytes (dec_stream d) ! j else 0) [length p ..< stream_index b' + 4]"
  have l: "length t = stream_index b' + 4" using p(2) i by (simp add: t_def)
  have t: "byte_list t" "agrees t d" unfolding t_def using agrees_extend [OF p(1,3) c(1,2) _ c(3)] p(2) i by simp_all
  show ?thesis
  proof (rule that [OF _ l t(2)])
    show "within b' t" using assms(4) t l by (simp add: fix_code_def)
    show "fst (first_words d) = offset b t" using p(2,4) by (simp add: t_def offset_append)
    show "byte_position (snd (first_words d)) (dec_full d) = stream_index b + 3 + 1" using p(5) by simp
    show "t ! j = (if ok \<or> j < 2 * stream_size d then word_bytes (dec_stream d) ! j else 0)"
      if "stream_index b + 3 < j" "j \<le> stream_index b' + 3" for j
      using that p(2) by (simp add: t_def nth_append)
  qed
qed

lemma fix_call_done:
  assumes "within b' t" "length t = stream_index b' + 4" "agrees t d" "full = 0 \<or> full = 1" "byte_position i full = stream_index b' + 3 + 1"
    "stream_index b' + 4 \<le> 400" "d' = d\<lparr>dec_stream_index := i, dec_W_upper := W_upper b', dec_streamval := offset b' t, dec_full := full\<rparr>"
  shows "fix_synced b' d'" "fix_code b'' d' = fix_code b'' d"
    "stream_bytes (W_upper b') i full = int (stream_index b') + (if W_upper b' > 0x01FFFFFF then 1 else 2)"
proof -
  have "agrees t d'" using assms(3) by (simp add: assms(7) agrees_def)
  moreover have "first_words d' = (offset b' t, i)" using assms(4,5) by (auto simp: assms(7) first_words_def byte_position_def)
  ultimately show "fix_synced b' d'"
    using assms(1,2,4,5) unfolding fix_synced_def by (intro conjI exI [of _ t]) (simp_all add: assms(7) within_def)
  show "fix_code b'' d' = fix_code b'' d" by (simp add: assms(7) fix_code_def agrees_def)
  show "stream_bytes (W_upper b') i full = int (stream_index b') + (if W_upper b' > 0x01FFFFFF then 1 else 2)"
    using assms(4-6) by (auto simp: stream_bytes_def byte_position_def s16_id)
qed

lemma fix_multi_decodes:
  assumes "dec_loop chk srch items (W_upper b) (offset b t) 0 t (stream_index b + 3) = Some (ds, Inr (W_upper b', offset b' t, stream_index b' + 3))"
    "within b' t" "length t = stream_index b' + 4" "agrees t d" "fst (first_words d) = offset b t"
    "byte_position (snd (first_words d)) (dec_full d) = stream_index b + 3 + 1"
    "\<And>j. stream_index b + 3 < j \<Longrightarrow> j \<le> stream_index b' + 3 \<Longrightarrow> t ! j = word_bytes (dec_stream d) ! j"
    "fix_synced b d" "fix_code b' d" "0 < W_upper b" "list_all (\<lambda>x. 0 \<le> x \<and> x \<le> 32767) ds"
  shows "\<exists>d'. fix_dec_multi chk srch items d = Some (int (stream_index b') + (if W_upper b' > 0x01FFFFFF then 1 else 2), ds, d')
    \<and> fix_synced b' d' \<and> fix_code b'' d' = fix_code b'' d"
proof -
  have c: "word_list (dec_stream d)" "length (dec_stream d) = 200" "stream_index b' + 4 \<le> 400" using assms(9) by (simp_all add: fix_code_def)
  have f: "dec_full d = 0 \<or> dec_full d = 1" "dec_W_upper d = W_upper b" using assms(8) by (simp_all add: fix_synced_def)
  have "\<And>j. stream_index b + 3 < j \<Longrightarrow> j \<le> stream_index b' + 3 \<Longrightarrow> j < 2 * length (dec_stream d) \<and> t ! j = word_bytes (dec_stream d) ! j"
    using assms(7) c(2,3) by simp
  from fix_dec_loop_simulation [OF assms(1) c(1) f(1) assms(6) this] obtain i full
    where r: "fix_dec_loop chk srch items (W_upper b) (offset b t) 0 (dec_stream d) (snd (first_words d)) (dec_full d) =
        Some (map s16 ds, Inr (W_upper b', offset b' t, i, full))" "full = 0 \<or> full = 1" "byte_position i full = stream_index b' + 3 + 1" by blast
  note e = fix_call_done [OF assms(2-4) r(2,3) c(3) refl]
  have "map s16 ds = ds" by (rule map_idI) (use assms(11) in \<open>auto simp: list_all_iff s16_id\<close>)
  then show ?thesis using r(1) e assms(5,10) f(2) by (cases "first_words d") (simp add: fix_dec_multi_def)
qed

lemma fix_tables_decode:
  assumes "enc_inv b" "valid_fix_call (Fix_tables (m, items))" "enc_loop (enc_items items) b = Some b'" "stream_index b' \<le> length (stream b)"
    "fix_code b' d" "fix_synced b d"
  shows "\<exists>d'. fix_dec_call (Fix_tables (m, items)) d =
      Some (int (stream_index b') + (if W_upper b' > 0x01FFFFFF then 1 else 2), map (\<lambda>(cdf, d, h). d) items, d')
    \<and> fix_synced b' d' \<and> fix_code b'' d' = fix_code b'' d"
proof -
  have v: "list_all (valid_item (hint_ok m)) items" using assms(2) by (simp add: valid_call_def)
  have good: "list_all good_interval (packet_intervals (Tables (m, items)))"
    using assms(2) by (intro packet.good) simp
  have ivs: "enc_intervals (packet_intervals (Tables (m, items))) b = Some b'" using assms(3) by (simp add: enc_loop_intervals)
  from fix_call_start [OF assms(1) good ivs assms(5,6), where ok = True] obtain t
    where t: "within b' t" "length t = stream_index b' + 4" "agrees t d" "fst (first_words d) = offset b t"
      "byte_position (snd (first_words d)) (dec_full d) = stream_index b + 3 + 1"
      "\<And>j. stream_index b + 3 < j \<Longrightarrow> j \<le> stream_index b' + 3 \<Longrightarrow> t ! j = word_bytes (dec_stream d) ! j" by auto
  have W: "0 < W_upper b" using assms(1) by (simp add: enc_inv_def)
  have small: "list_all (\<lambda>x. 0 \<le> x \<and> x \<le> 32767) (map (\<lambda>(cdf, d, h). d) items)"
    using v assms(2) by (fastforce simp: list_all_iff valid_item_def symbol_of_def)
  note multi = fix_multi_decodes [OF _ t assms(6,5) W small]
  have z: "zip (map (\<lambda>(cdf, d, h). cdf) items) (map (\<lambda>(cdf, d, h). h) items) = dec_items items"
    by (simp add: dec_items_def zip_map_map zip_same_conv_map split_def comp_def)
  have n: "take (length items) (dec_items items) = dec_items items" by (simp add: dec_items_def)
  show ?thesis
  proof (cases m)
    case Bisect
    from multi [OF bisection.dec_loop_roundtrip [OF assms(1) _ assms(3,4) t(1)]] v show ?thesis
      by (simp add: Bisect WebRtcIsacfix_DecHistBisectMulti_def z n hint_ok_def [abs_def])
  next
    case OneStep
    from multi [OF onestep.dec_loop_roundtrip [OF assms(1) _ assms(3,4) t(1)]] v show ?thesis
      by (simp add: OneStep WebRtcIsacfix_DecHistOneStepMulti_def z n hint_ok_def [abs_def])
  qed
qed

lemma env_roots_length: "env_roots res es = Some env \<Longrightarrow> length env = length es"
  by (induction es arbitrary: res env) (auto simp: Option.bind_eq_Some_conv)

lemma fix_spectrum_decode:
  assumes "enc_inv b" "valid_fix_call (Fix_spectrum data dither env env2)"
    "enc_intervals (spectrum_intervals False 0 data env) b = Some b'" "stream_index b' \<le> length (stream b)"
    "fix_code b' d" "fix_synced b d"
  shows "\<exists>d'. fix_dec_call (Fix_spectrum data dither env env2) d =
      Some (int (stream_index b') + (if W_upper b' > 0x01FFFFFF then 1 else 2), spectrum_sent False 0 data env, d')
    \<and> fix_synced b' d' \<and> fix_code b'' d' = fix_code b'' d"
proof -
  have spec: "valid_spectrum False data dither env" "4 dvd length data" and roots: "env_roots (first_root (hd env2)) env2 = Some env"
    using assms(2) by simp_all
  note v = valid_spectrum_coefs [OF spec(1)]
  have len: "length dither \<le> 4 * length env2" "4 dvd length dither"
    using spec env_roots_length [OF roots] v(3) by (simp_all add: valid_spectrum_def env_period_def)
  have good: "list_all good_interval (spectrum_intervals False 0 data env)"
    using v(1) by (auto simp: spectrum_intervals_def list_all_iff dest: symbol_interval_good)
  from fix_call_start [OF assms(1) good assms(3,5,6), where ok = False] obtain t
    where t: "within b' t" "length t = stream_index b' + 4" "agrees t d" "fst (first_words d) = offset b t"
      "byte_position (snd (first_words d)) (dec_full d) = stream_index b + 3 + 1"
      "\<And>j. stream_index b + 3 < j \<Longrightarrow> j \<le> stream_index b' + 3 \<Longrightarrow> t ! j = (if j < 2 * stream_size d then word_bytes (dec_stream d) ! j else 0)"
    by auto
  have c: "word_list (dec_stream d)" "stream_size d \<le> length (dec_stream d)" "stream_index b' + 4 \<le> 400"
    using assms(5) by (simp_all add: fix_code_def)
  have f: "dec_full d = 0 \<or> dec_full d = 1" "dec_W_upper d = W_upper b" using assms(6) by (simp_all add: fix_synced_def)
  have pos: "byte_position (snd (first_words d) + 0) (dec_full d) = stream_index b + 3 + 1" using t(5) by simp
  note loop = dec_logist_loop [OF assms(1) v(1,2) assms(3,4) t(1)]
  from fix_dec_groups_simulation [OF loop _ len(2) roots len(1) c(1,2) f(1) pos _ t(6)] obtain i full off
    where r: "fix_dec_groups dither env2 (first_root (hd env2)) (W_upper b) (offset b t) (dec_stream d) (stream_size d)
        (snd (first_words d)) (dec_full d) 0 = Some (spectrum_sent False 0 data env, Inr (W_upper b', offset b' t, i, full, off))"
      "full = 0 \<or> full = 1" "byte_position (i + off) full = stream_index b' + 3 + 1" by auto
  note e = fix_call_done [OF t(1-3) r(2,3) c(3) refl]
  show ?thesis using r(1) e f(2) t(4) by (cases "first_words d") (simp add: WebRtcIsacfix_DecLogisticMulti2_def)
qed

definition fix_intervals :: "fix_call \<Rightarrow> (int \<times> int) list" where
  "fix_intervals c = packet_intervals (main_call c)"

definition fix_sent :: "fix_call \<Rightarrow> int list" where
  "fix_sent c = packet_sent (main_call c)"

text \<open>The fixed-point decoder keeps the promise of \<open>interval_decoder\<close>.\<close>

interpretation fix_packet: interval_decoder valid_fix_call fix_intervals fix_dec_call fix_sent fix_code fix_synced
proof
  fix c assume "valid_fix_call c"
  then show "list_all good_interval (fix_intervals c)" unfolding fix_intervals_def by (intro packet.good valid_fix_main)
next
  fix b ivs b' d
  assume "enc_inv b" "list_all good_interval ivs" "enc_intervals ivs b = Some b'" "stream_index b' \<le> length (stream b)" "fix_code b' d"
  then show "fix_code b d" by (rule fix_code_back)
next
  fix b c b' d b''
  assume a: "enc_inv b" "valid_fix_call c" "enc_intervals (fix_intervals c) b = Some b'" "stream_index b' \<le> length (stream b)"
    "fix_code b' d" "fix_synced b d"
  show "\<exists>d'. fix_dec_call c d = Some (int (stream_index b') + (if W_upper b' > 0x01FFFFFF then 1 else 2), fix_sent c, d')
    \<and> fix_synced b' d' \<and> fix_code b'' d' = fix_code b'' d"
  proof (cases c rule: valid_fix_call.cases)
    case (1 m items)
    show ?thesis using fix_tables_decode [OF a(1) a(2) [unfolded 1] _ a(4-6)] a(3)
      by (simp add: 1 fix_intervals_def fix_sent_def enc_loop_intervals)
  next
    case (2 data dither env env2)
    show ?thesis using fix_spectrum_decode [OF a(1) a(2) [unfolded 2] _ a(4-6)] a(3)
      by (simp add: 2 fix_intervals_def fix_sent_def)
  qed
qed

lemma or_word: "0 \<le> b \<Longrightarrow> b < 65536 \<Longrightarrow> x * 65536 OR b = x * 65536 + b" for x b :: int
proof -
  assume "0 \<le> b" "b < 65536"
  then have "b = take_bit 16 b" by (simp add: take_bit_eq_mod)
  moreover have "push_bit 16 x AND take_bit 16 b = 0"
    by (rule bit_eqI) (auto simp: bit_and_iff bit_push_bit_iff bit_take_bit_iff)
  ultimately show ?thesis using disjunctive_add_eq_or [of "push_bit 16 x" b] by (simp add: push_bit_eq_mult)
qed

lemma fresh_dec_synced:
  assumes "word_list s" "length s = 200"
  shows "fix_synced (fresh_stream buf) (fresh_dec s n)"
proof -
  have b: "byte_list (word_bytes s)" "4 \<le> length (word_bytes s)" using byte_list_word_bytes [OF assms(1)] assms(2) by simp_all
  let ?p = "take 4 (word_bytes s)"
  obtain w0 w1 ws where s: "s = w0 # w1 # ws" using assms(2) by (cases s; cases "tl s") auto
  have w: "0 \<le> w0" "w0 < 65536" "0 \<le> w1" "w1 < 65536" using assms(1) by (auto simp: s word_list_def)
  have "be_val ?p = w0 * 65536 + w1" by (simp add: s be_val_def)
  moreover have "shl w0 16 OR w1 = w0 * 65536 + w1" using w by (simp add: or_word shl_mult)
  ultimately have "fst (first_words (fresh_dec s n)) = offset (fresh_stream buf) ?p"
    by (simp add: first_words_def fresh_dec_def s offset_def fresh_stream_def state_val_def code_val_def)
  then show ?thesis unfolding fix_synced_def using b
    by (intro conjI exI [of _ ?p]) (auto simp: fresh_dec_def fresh_stream_def first_words_def byte_position_def agrees_def byte_list_def
      list_all_iff dest: in_set_takeD)
qed

text \<open>C3. Round trip of the fixed-point iSAC coder: a packet of valid calls that the fixed-point encoder codes into 16-bit words,
  with at least four bytes left of the 400, is decoded by the fixed-point decoder to what the encoder reported as sent, and the
  last call returns the length of the stream. The decoder gets the first bytes of the stream; the rest of its last word and the
  memory behind \<open>stream_size\<close> words are arbitrary. The calls of the table coder are valid as in the floating-point codec; a
  valid spectrum has coefficients from -32704 to 32703, in groups of four, on the grid of dither values from -64 to 64, and
  a squared envelope whose integer square roots, which the decoder computes itself, are the envelope values of the encoder, all
  from 11 to 65535 (for 7 to 10 there are coefficients that the decoder refuses, as in the floating-point codec).\<close>

theorem fix_packet_roundtrip:
  assumes "word_list words" "length words = 200" "list_all valid_fix_call calls"
    "fix_enc_packet calls (fresh_enc words) = Some (sent_data, e)" "WebRtcIsacfix_EncTerminate e = (len, e')"
    "byte_position (enc_stream_index e) (enc_full e) + 4 \<le> 400"
    "word_list s" "length s = 200" "size_words \<le> 200" "len \<le> 2 * int size_words"
    "take (nat len) (word_bytes s) = take (nat len) (word_bytes (enc_stream e'))"
  shows "\<exists>rets. dec_sequence fix_dec_call calls (fresh_dec s size_words) = Some (rets, sent_data)
    \<and> (calls \<noteq> [] \<longrightarrow> rets \<noteq> [] \<and> last rets = len)"
proof -
  let ?buf = "replicate 400 (0 :: int)"
  have buf: "byte_list ?buf" "400 \<le> length ?buf" by (simp_all add: byte_list_def list_all_iff)
  have vc: "list_all (\<lambda>c. valid_packet_call (main_call c)) calls" using assms(3) valid_fix_main by (auto simp: list_all_iff)
  then have v: "list_all encodable_call calls" using valid_encodable by (auto simp: list_all_iff)
  from vc have vm: "list_all valid_packet_call (map main_call calls)" by (simp add: list_all_iff)
  from fix_enc_packet_simulation [OF fresh_enc_packs [OF assms(1,2) buf] v assms(4)]
  obtain b where b: "enc_packet (map main_call calls) (fresh_stream ?buf) = Some (sent_data, b)" "enc_packs e b" by blast
  obtain blen b' where t: "WebRtcIsac_EncTerminate b = (blen, b')" by fastforce
  have i: "stream_index b + 4 \<le> 400" using b(2) assms(6) by (simp add: enc_packs_def packed_def)
  note fin = terminate_simulation [OF b(2) _ t assms(5)]
  have "enc_wf (fresh_stream ?buf)" by (rule fresh_enc_packs(2) [OF assms(1,2) buf])
  note sent = enc_packet [OF b(1) this vm]
  have ivs: "enc_intervals (concat (map fix_intervals calls)) (fresh_stream ?buf) = Some b"
    using sent by (simp add: fix_intervals_def [abs_def] comp_def)
  note w = terminated_within [OF buf(1) fix_packet.good_all [OF assms(3)] ivs _ t]
  have "within b u" if "byte_list u" "length u = stream_index b + 4" "agrees u (fresh_dec s size_words)" for u
  proof (rule w(4) [OF _ that(1)])
    have len: "len = blen" "nat len \<le> stream_index b + 2" "nat len \<le> 2 * size_words"
      using fin(1,3) i assms(10) by auto
    have "take (nat len) u = take (nat len) (word_bytes s)"
      using that len assms(8) i by (intro nth_equalityI) (auto simp: agrees_def fresh_dec_def)
    then show "take (nat blen) u = take (nat blen) (stream b')" using assms(11) fin(2) i len(1) by simp
  qed (use that i in auto)
  then have "fix_code b (fresh_dec s size_words)" using assms(7-9) i by (simp add: fix_code_def fresh_dec_def)
  from fix_packet.sequence_decodes [OF w(1) assms(3) ivs w(2) this fresh_dec_synced [OF assms(7,8)]] w(3) fin(1) i sent
  show ?thesis by (auto simp: fix_sent_def [abs_def] comp_def)
qed

lemma sample_fix_valid: "list_all valid_fix_call sample_fix"
proof -
  have "env_roots (first_root 65536) [65536] = Some [256]" by code_simp
  moreover have "(4 :: nat) dvd Suc (Suc (Suc (Suc 0)))" by (simp add: numeral_eq_Suc)
  ultimately show ?thesis
    by (simp add: sample_fix_def valid_call_def valid_item_def hint_ok_def wf_cdf_def symbol_of_def valid_spectrum_def env_period_def del: env_roots.simps)
qed

theorem fix_packet_roundtrip_witness:
  "\<exists>rets. dec_sequence fix_dec_call sample_fix (fresh_dec (24074 # 30215 # replicate 198 7) 2) = Some (rets, [[1], [144, - 1264, 16, - 112]])
     \<and> rets \<noteq> [] \<and> last rets = 3"
proof -
  have "sample_fix \<noteq> []" by (simp add: sample_fix_def)
  then show ?thesis
    using fix_packet_roundtrip [OF _ _ sample_fix_valid sample_fix_coded, of "24074 # 30215 # replicate 198 7" 2]
    by (simp add: word_list_def list_all_iff byte_position_def numeral_eq_Suc)
qed

end
