(* ===== verification/IsacCrc.thy ===== *)
theory IsacCrc
  imports Prelude
begin

text \<open>
  The checksum of the iSAC bit stream (\<^verbatim>\<open>isac/main/source/crc.c\<close>): the table-driven
  \<open>WebRtcIsac_GetCrc\<close> against the bit-serial division by the polynomial it stands for.
\<close>

definition kCrcTable :: "int list" where
  "kCrcTable = [
  0, 0x4c11db7, 0x9823b6e, 0xd4326d9, 0x130476dc, 0x17c56b6b,
  0x1a864db2, 0x1e475005, 0x2608edb8, 0x22c9f00f, 0x2f8ad6d6, 0x2b4bcb61,
  0x350c9b64, 0x31cd86d3, 0x3c8ea00a, 0x384fbdbd, 0x4c11db70, 0x48d0c6c7,
  0x4593e01e, 0x4152fda9, 0x5f15adac, 0x5bd4b01b, 0x569796c2, 0x52568b75,
  0x6a1936c8, 0x6ed82b7f, 0x639b0da6, 0x675a1011, 0x791d4014, 0x7ddc5da3,
  0x709f7b7a, 0x745e66cd, 0x9823b6e0, 0x9ce2ab57, 0x91a18d8e, 0x95609039,
  0x8b27c03c, 0x8fe6dd8b, 0x82a5fb52, 0x8664e6e5, 0xbe2b5b58, 0xbaea46ef,
  0xb7a96036, 0xb3687d81, 0xad2f2d84, 0xa9ee3033, 0xa4ad16ea, 0xa06c0b5d,
  0xd4326d90, 0xd0f37027, 0xddb056fe, 0xd9714b49, 0xc7361b4c, 0xc3f706fb,
  0xceb42022, 0xca753d95, 0xf23a8028, 0xf6fb9d9f, 0xfbb8bb46, 0xff79a6f1,
  0xe13ef6f4, 0xe5ffeb43, 0xe8bccd9a, 0xec7dd02d, 0x34867077, 0x30476dc0,
  0x3d044b19, 0x39c556ae, 0x278206ab, 0x23431b1c, 0x2e003dc5, 0x2ac12072,
  0x128e9dcf, 0x164f8078, 0x1b0ca6a1, 0x1fcdbb16, 0x18aeb13, 0x54bf6a4,
  0x808d07d, 0xcc9cdca, 0x7897ab07, 0x7c56b6b0, 0x71159069, 0x75d48dde,
  0x6b93dddb, 0x6f52c06c, 0x6211e6b5, 0x66d0fb02, 0x5e9f46bf, 0x5a5e5b08,
  0x571d7dd1, 0x53dc6066, 0x4d9b3063, 0x495a2dd4, 0x44190b0d, 0x40d816ba,
  0xaca5c697, 0xa864db20, 0xa527fdf9, 0xa1e6e04e, 0xbfa1b04b, 0xbb60adfc,
  0xb6238b25, 0xb2e29692, 0x8aad2b2f, 0x8e6c3698, 0x832f1041, 0x87ee0df6,
  0x99a95df3, 0x9d684044, 0x902b669d, 0x94ea7b2a, 0xe0b41de7, 0xe4750050,
  0xe9362689, 0xedf73b3e, 0xf3b06b3b, 0xf771768c, 0xfa325055, 0xfef34de2,
  0xc6bcf05f, 0xc27dede8, 0xcf3ecb31, 0xcbffd686, 0xd5b88683, 0xd1799b34,
  0xdc3abded, 0xd8fba05a, 0x690ce0ee, 0x6dcdfd59, 0x608edb80, 0x644fc637,
  0x7a089632, 0x7ec98b85, 0x738aad5c, 0x774bb0eb, 0x4f040d56, 0x4bc510e1,
  0x46863638, 0x42472b8f, 0x5c007b8a, 0x58c1663d, 0x558240e4, 0x51435d53,
  0x251d3b9e, 0x21dc2629, 0x2c9f00f0, 0x285e1d47, 0x36194d42, 0x32d850f5,
  0x3f9b762c, 0x3b5a6b9b, 0x315d626, 0x7d4cb91, 0xa97ed48, 0xe56f0ff,
  0x1011a0fa, 0x14d0bd4d, 0x19939b94, 0x1d528623, 0xf12f560e, 0xf5ee4bb9,
  0xf8ad6d60, 0xfc6c70d7, 0xe22b20d2, 0xe6ea3d65, 0xeba91bbc, 0xef68060b,
  0xd727bbb6, 0xd3e6a601, 0xdea580d8, 0xda649d6f, 0xc423cd6a, 0xc0e2d0dd,
  0xcda1f604, 0xc960ebb3, 0xbd3e8d7e, 0xb9ff90c9, 0xb4bcb610, 0xb07daba7,
  0xae3afba2, 0xaafbe615, 0xa7b8c0cc, 0xa379dd7b, 0x9b3660c6, 0x9ff77d71,
  0x92b45ba8, 0x9675461f, 0x8832161a, 0x8cf30bad, 0x81b02d74, 0x857130c3,
  0x5d8a9099, 0x594b8d2e, 0x5408abf7, 0x50c9b640, 0x4e8ee645, 0x4a4ffbf2,
  0x470cdd2b, 0x43cdc09c, 0x7b827d21, 0x7f436096, 0x7200464f, 0x76c15bf8,
  0x68860bfd, 0x6c47164a, 0x61043093, 0x65c52d24, 0x119b4be9, 0x155a565e,
  0x18197087, 0x1cd86d30, 0x29f3d35, 0x65e2082, 0xb1d065b, 0xfdc1bec,
  0x3793a651, 0x3352bbe6, 0x3e119d3f, 0x3ad08088, 0x2497d08d, 0x2056cd3a,
  0x2d15ebe3, 0x29d4f654, 0xc5a92679, 0xc1683bce, 0xcc2b1d17, 0xc8ea00a0,
  0xd6ad50a5, 0xd26c4d12, 0xdf2f6bcb, 0xdbee767c, 0xe3a1cbc1, 0xe760d676,
  0xea23f0af, 0xeee2ed18, 0xf0a5bd1d, 0xf464a0aa, 0xf9278673, 0xfde69bc4,
  0x89b8fd09, 0x8d79e0be, 0x803ac667, 0x84fbdbd0, 0x9abc8bd5, 0x9e7d9662,
  0x933eb0bb, 0x97ffad0c, 0xafb010b1, 0xab710d06, 0xa6322bdf, 0xa2f33668,
  0xbcb4666d, 0xb8757bda, 0xb5365d03, 0xb1f740b4]"

definition crc_byte :: "int \<Rightarrow> int \<Rightarrow> int" where
  "crc_byte crc_state b =
    (let crc_tbl_indx = (asr crc_state 24 XOR b) AND 0xFF
     in u32 (shl crc_state 8) XOR kCrcTable ! nat crc_tbl_indx)"

text \<open>The result is the return value and the checksum, which is only written when the stream is not \<open>NULL\<close>.\<close>

definition WebRtcIsac_GetCrc :: "int list option \<Rightarrow> int \<Rightarrow> int \<Rightarrow> int \<times> int" where
  "WebRtcIsac_GetCrc bitstream len_bitstream_in_bytes crc =
    (case bitstream of
       None \<Rightarrow> (- 1, crc)
     | Some bs \<Rightarrow> (0, u32 (NOT (fold (\<lambda>b st. crc_byte st b) (take (nat len_bitstream_in_bytes) bs) 0xFFFFFFFF))))"

text \<open>One bit of the division by the polynomial \<open>0x04c11db7\<close>, most significant bit first, and one byte.\<close>

definition crc_bit :: "int \<Rightarrow> int" where
  "crc_bit x = u32 (shl x 1) XOR (if bit x 31 then 0x04c11db7 else 0)"

definition crc_ref_byte :: "int \<Rightarrow> int \<Rightarrow> int" where
  "crc_ref_byte st b = (crc_bit ^^ 8) (st XOR shl b 24)"

lemma table_double: "list_all (\<lambda>i. kCrcTable ! (2 * i) = crc_bit (kCrcTable ! i)) [0..<128]"
  by code_simp

lemma table_odd: "list_all (\<lambda>i. kCrcTable ! Suc (2 * i) = kCrcTable ! (2 * i) XOR 0x04c11db7) [0..<128]"
  by code_simp

definition is_u32 :: "int \<Rightarrow> bool" where
  "is_u32 x \<longleftrightarrow> take_bit 32 x = x"

lemma is_u32_iff: "is_u32 x \<longleftrightarrow> 0 \<le> x \<and> x < 4294967296"
  by (simp add: is_u32_def take_bit_int_eq_self_iff)

lemma crc_bit_range: "is_u32 (crc_bit x)"
  by (simp add: is_u32_def crc_bit_def u32_def)

lemma crc_bit_xor: "crc_bit (x XOR y) = crc_bit x XOR crc_bit y"
  by (simp add: crc_bit_def u32_def shl_def bit_xor_iff xor.assoc xor.left_commute xor.commute)

lemma crc_bits_xor: "(crc_bit ^^ n) (x XOR y) = (crc_bit ^^ n) x XOR (crc_bit ^^ n) y"
  by (induction n) (simp_all add: crc_bit_xor)

lemma not_bit_high: "0 \<le> x \<Longrightarrow> x < 2 ^ n \<Longrightarrow> \<not> bit x n" for x :: int
  by (simp add: bit_iff_odd)

lemma crc_bit_low: "0 \<le> x \<Longrightarrow> x < 2147483648 \<Longrightarrow> crc_bit x = 2 * x"
  using not_bit_high [of x 31] by (simp add: crc_bit_def shl_mult u32_id)

lemma crc_bits_low:
  assumes "0 \<le> x" "x * 2 ^ n < 4294967296"
  shows "(crc_bit ^^ n) x = x * 2 ^ n"
  using assms(2)
proof (induction n)
  case (Suc n)
  then show ?case using crc_bit_low [of "x * 2 ^ n"] assms(1) by (simp add: mult.left_commute)
qed simp

lemma xor_cancel: "a XOR b = a XOR c \<Longrightarrow> b = c" for a b c :: int
  by (metis xor.assoc xor_self_eq xor.left_neutral)

lemma crc_bit_inj:
  assumes "is_u32 x" "is_u32 y" "crc_bit x = crc_bit y"
  shows "x = y"
proof -
  define z where "z = x XOR y"
  have z: "crc_bit z = 0" unfolding z_def using assms(3) by (simp add: crc_bit_xor)
  have "is_u32 z" unfolding z_def using assms(1,2) by (simp add: is_u32_def)
  then have r: "0 \<le> z" "z < 4294967296" by (simp_all add: is_u32_iff)
  have "\<not> bit z 31"
  proof
    assume b: "bit z 31"
    have "\<not> bit (u32 (shl z 1)) 0" by (simp add: u32_def shl_def bit_take_bit_iff bit_0)
    then have "bit (crc_bit z) 0" using b by (simp add: crc_bit_def bit_xor_iff)
    then show False using z by simp
  qed
  moreover define q where "q = z div 2147483648"
  ultimately have "q mod 2 = 0" by (simp add: bit_iff_odd even_iff_mod_2_eq_zero)
  moreover have "0 \<le> q" "q < 2" unfolding q_def using r by linarith+
  ultimately have "q = 0" by presburger
  then have "z < 2147483648" unfolding q_def using r by linarith
  then have "z = 0" using crc_bit_low [OF r(1)] z by simp
  then show ?thesis unfolding z_def by (metis xor.assoc xor_self_eq xor.right_neutral xor.left_neutral)
qed

lemma crc_bits_inj: "is_u32 x \<Longrightarrow> is_u32 y \<Longrightarrow> (crc_bit ^^ n) x = (crc_bit ^^ n) y \<Longrightarrow> x = y"
proof (induction n)
  case (Suc n)
  have "is_u32 ((crc_bit ^^ n) x)" "is_u32 ((crc_bit ^^ n) y)" using Suc.prems(1,2) by (cases n; simp add: crc_bit_range)+
  then show ?case using Suc crc_bit_inj by simp
qed simp

lemma xor_power2: "m * 2 ^ Suc n XOR 2 ^ n = m * 2 ^ Suc n + 2 ^ n" for m :: int
proof -
  have "m * 2 ^ Suc n AND 2 ^ n = 0"
    by (rule bit_eqI)
      (auto simp add: bit_and_iff bit_exp_iff bit_push_bit_iff bit_0 simp flip: push_bit_eq_mult simp del: power_Suc)
  then show ?thesis by (simp add: disjunctive_xor_eq_or disjunctive_add_eq_or)
qed

lemma is_u32_xor: "is_u32 x \<Longrightarrow> is_u32 y \<Longrightarrow> is_u32 (x XOR y)"
  by (simp add: is_u32_def)

lemma u32_not_inj: "is_u32 x \<Longrightarrow> is_u32 y \<Longrightarrow> u32 (NOT x) = u32 (NOT y) \<Longrightarrow> x = y"
proof (rule bit_eqI)
  fix n assume "is_u32 x" "is_u32 y" and eq: "u32 (NOT x) = u32 (NOT y)"
  then have "bit x n \<longleftrightarrow> n < 32 \<and> bit x n" "bit y n \<longleftrightarrow> n < 32 \<and> bit y n"
    by (metis is_u32_def bit_take_bit_iff)+
  moreover have "n < 32 \<Longrightarrow> bit x n = bit y n"
    using arg_cong [OF eq, of "\<lambda>w. bit w n"] by (simp add: u32_def bit_take_bit_iff bit_not_int_iff)
  ultimately show "bit x n \<longleftrightarrow> bit y n" by blast
qed

lemma is_u32_top: "0 \<le> b \<Longrightarrow> b < 256 \<Longrightarrow> is_u32 (shl b 24)"
  by (simp add: is_u32_iff shl_mult)

text \<open>The table holds the byte steps of the division.\<close>

lemma crc_table: "i < 256 \<Longrightarrow> kCrcTable ! i = (crc_bit ^^ 8) (int i * 16777216)"
proof (induction i rule: less_induct)
  case (less i)
  have one: "(crc_bit ^^ 8) 16777216 = 0x04c11db7" by code_simp
  consider "i = 0" | j where "i = 2 * j" "0 < j" | j where "i = Suc (2 * j)" by (metis oddE evenE Suc_eq_plus1 gr0I mult_0_right)
  then show ?case
  proof cases
    case 1
    then show ?thesis using crc_bits_low [of 0 8] by (simp add: kCrcTable_def)
  next
    case 2
    then have j: "j < 128" "j < i" using less.prems by auto
    have "(crc_bit ^^ 8) (int i * 16777216) = (crc_bit ^^ 8) (crc_bit (int j * 16777216))"
      using crc_bit_low [of "int j * 16777216"] j(1) 2(1) by simp
    also have "\<dots> = crc_bit ((crc_bit ^^ 8) (int j * 16777216))" by (rule funpow_swap1 [symmetric])
    also have "\<dots> = kCrcTable ! i" using less.IH [OF j(2)] j table_double 2(1) by (simp add: list_all_iff)
    finally show ?thesis ..
  next
    case 3
    then have j: "j < 128" "2 * j < i" using less.prems by auto
    have "int i * 16777216 = (int (2 * j) * 16777216) XOR 16777216"
      using xor_power2 [of "int j" 24] 3 by (simp add: mult.commute)
    then have "(crc_bit ^^ 8) (int i * 16777216) = kCrcTable ! (2 * j) XOR 0x04c11db7"
      using less.IH [OF j(2)] j one by (simp only: crc_bits_xor)
    then show ?thesis using table_odd 3 j by (simp add: list_all_iff)
  qed
qed


lemma crc_byte_ref:
  assumes "is_u32 st" "0 \<le> b" "b < 256"
  shows "crc_byte st b = crc_ref_byte st b"
proof -
  define h l where "h = asr st 24 XOR b" and "l = take_bit 24 st"
  have st: "0 \<le> st" "st < 4294967296" using assms(1) by (simp_all add: is_u32_iff)
  have l: "0 \<le> l" "l < 16777216" by (simp_all add: l_def take_bit_eq_mod)
  have "asr st 24 = take_bit 8 (asr st 24)" "b = take_bit 8 b" using st assms(2,3) by (simp_all add: asr_div take_bit_eq_mod)
  then have h8: "h = take_bit 8 h" unfolding h_def by (metis take_bit_xor)
  then have "take_bit 8 h = h" by (rule sym)
  then have h: "0 \<le> h" "h < 256" "h AND 0xFF = h"
    unfolding mask_FF take_bit_eq_mask [symmetric] by (simp_all add: take_bit_int_eq_self_iff)
  have split: "st XOR shl b 24 = l XOR (h * 16777216)"
  proof -
    have "st = push_bit 24 (asr st 24) XOR l"
      by (rule bit_eqI) (auto simp: asr_def l_def bit_xor_iff bit_push_bit_iff bit_drop_bit_eq bit_take_bit_iff)
    then have "st XOR shl b 24 = l XOR push_bit 24 h"
      by (metis h_def push_bit_xor shl_def xor.assoc xor.commute)
    then show ?thesis by (simp add: push_bit_eq_mult)
  qed
  have "crc_ref_byte st b = (crc_bit ^^ 8) l XOR (crc_bit ^^ 8) (h * 16777216)"
    by (simp add: crc_ref_byte_def split crc_bits_xor del: funpow.simps)
  also have "(crc_bit ^^ 8) l = l * 256" using crc_bits_low [of l 8] l by simp
  also have "(crc_bit ^^ 8) (h * 16777216) = kCrcTable ! nat h" using crc_table [of "nat h"] h by simp
  also have "l * 256 = u32 (shl st 8)" using st by (simp add: l_def u32_def shl_mult take_bit_eq_mod mult_mod_left)
  finally show ?thesis by (simp add: crc_byte_def h_def [symmetric] h)
qed

lemma crc_ref_range: "is_u32 st \<Longrightarrow> is_u32 (crc_ref_byte st b)"
  using crc_bit_range by (simp add: crc_ref_byte_def numeral_eq_Suc)

lemma crc_fold_ref:
  "byte_list bs \<Longrightarrow> is_u32 st \<Longrightarrow> fold (\<lambda>b st. crc_byte st b) bs st = fold (\<lambda>b st. crc_ref_byte st b) bs st
    \<and> is_u32 (fold (\<lambda>b st. crc_ref_byte st b) bs st)"
  by (induction bs arbitrary: st) (simp_all add: byte_list_def crc_byte_ref crc_ref_range)

text \<open>C13. The table-driven checksum is the CRC-32 division by the polynomial \<open>0x04c11db7\<close>, bit by bit, with all
  ones as the initial value and the result complemented; a \<open>NULL\<close> stream is refused and leaves the result
  alone.\<close>

theorem GetCrc_correct:
  assumes "byte_list bs" "0 \<le> n" "n \<le> int (length bs)"
  shows "WebRtcIsac_GetCrc (Some bs) n crc =
      (0, u32 (NOT (fold (\<lambda>b st. (crc_bit ^^ 8) (st XOR shl b 24)) (take (nat n) bs) 0xFFFFFFFF)))
    \<and> WebRtcIsac_GetCrc None n crc = (- 1, crc)"
proof -
  have "byte_list (take (nat n) bs)" using assms(1) by (simp add: byte_list_def list_all_iff) (meson in_set_takeD)
  from crc_fold_ref [OF this, where st = "0xFFFFFFFF"] show ?thesis
    by (simp add: WebRtcIsac_GetCrc_def crc_ref_byte_def is_u32_iff del: funpow.simps)
qed

theorem GetCrc_correct_witness:
  "WebRtcIsac_GetCrc (Some [0x31, 0x32, 0x33]) 3 0 =
      (0, u32 (NOT (fold (\<lambda>b st. (crc_bit ^^ 8) (st XOR shl b 24)) (take (nat 3) [0x31, 0x32, 0x33]) 0xFFFFFFFF)))
    \<and> WebRtcIsac_GetCrc None 3 0 = (- 1, 0)"
  by (rule GetCrc_correct) (simp_all add: byte_list_def)

lemma crc_fold_inj:
  "is_u32 s \<Longrightarrow> is_u32 t \<Longrightarrow> fold (\<lambda>b st. crc_ref_byte st b) bs s = fold (\<lambda>b st. crc_ref_byte st b) bs t \<Longrightarrow> byte_list bs \<Longrightarrow> s = t"
proof (induction bs arbitrary: s t)
  case (Cons b bs)
  then have "crc_ref_byte s b = crc_ref_byte t b" by (simp add: crc_ref_range byte_list_def)
  then have "s XOR shl b 24 = t XOR shl b 24" using crc_bits_inj [of "s XOR shl b 24" "t XOR shl b 24" 8] Cons.prems
    by (simp add: crc_ref_byte_def is_u32_xor is_u32_top byte_list_def del: funpow.simps)
  then show ?case using xor_cancel [of "shl b 24" s t] by (simp add: xor.commute)
qed simp


text \<open>C26. The checksum detects every corruption of a single byte: two streams of the same length that differ in
  exactly one byte have different checksums.\<close>

theorem GetCrc_detects_byte_error:
  assumes "byte_list bs" "k < length bs" "0 \<le> x" "x < 256" "x \<noteq> bs ! k"
  shows "snd (WebRtcIsac_GetCrc (Some (bs[k := x])) (int (length bs)) c) \<noteq>
    snd (WebRtcIsac_GetCrc (Some bs) (int (length bs)) c)"
proof
  assume eq: "snd (WebRtcIsac_GetCrc (Some (bs[k := x])) (int (length bs)) c) =
    snd (WebRtcIsac_GetCrc (Some bs) (int (length bs)) c)"
  let ?f = "fold (\<lambda>b st. crc_ref_byte st b)"
  let ?st = "?f (take k bs) 0xFFFFFFFF"
  have parts: "bs = take k bs @ bs ! k # drop (Suc k) bs" "bs[k := x] = take k bs @ x # drop (Suc k) bs"
    using assms(2) by (simp_all add: id_take_nth_drop upd_conv_take_nth_drop)
  have b: "byte_list (take k bs)" "byte_list (drop (Suc k) bs)" "byte_list (bs[k := x])" "0 \<le> bs ! k" "bs ! k < 256"
    using assms bytes_nth [OF assms(1,2)] bytes_update [OF assms(1,3,4)]
    by (auto simp: byte_list_def list_all_iff dest: in_set_takeD in_set_dropD)
  have init: "is_u32 0xFFFFFFFF" by (simp add: is_u32_iff)
  have r: "is_u32 (?f bs 0xFFFFFFFF)" "is_u32 (?f (bs[k := x]) 0xFFFFFFFF)" "is_u32 ?st"
    using crc_fold_ref [OF assms(1) init] crc_fold_ref [OF b(3) init] crc_fold_ref [OF b(1) init] by auto
  have "u32 (NOT (?f (bs[k := x]) 0xFFFFFFFF)) = u32 (NOT (?f bs 0xFFFFFFFF))"
    using eq crc_fold_ref [OF assms(1) init] crc_fold_ref [OF b(3) init] by (simp add: WebRtcIsac_GetCrc_def)
  then have "?f (bs[k := x]) 0xFFFFFFFF = ?f bs 0xFFFFFFFF"
    by (rule u32_not_inj [OF r(2,1)])
  then have "?f (drop (Suc k) bs) (crc_ref_byte ?st x) = ?f (drop (Suc k) bs) (crc_ref_byte ?st (bs ! k))"
    by (subst (asm) (2) parts(1), subst (asm) parts(2)) simp
  then have "crc_ref_byte ?st x = crc_ref_byte ?st (bs ! k)" using crc_fold_inj [OF _ _ _ b(2)] r(3) by (simp add: crc_ref_range)
  then have "?st XOR shl x 24 = ?st XOR shl (bs ! k) 24"
    using crc_bits_inj [of "?st XOR shl x 24" "?st XOR shl (bs ! k) 24" 8] r(3) b(4,5) assms(3,4)
    by (simp add: crc_ref_byte_def is_u32_xor is_u32_top del: funpow.simps)
  then have "shl x 24 = shl (bs ! k) 24" by (rule xor_cancel)
  then show False using assms(5) by (simp add: shl_mult)
qed

theorem GetCrc_detects_byte_error_witness:
  "snd (WebRtcIsac_GetCrc (Some [1, 9, 3]) 3 0) \<noteq> snd (WebRtcIsac_GetCrc (Some [1, 2, 3]) 3 0)"
  using GetCrc_detects_byte_error [of "[1, 2, 3]" 1 9 0] by (simp add: byte_list_def)

end
