(* ===== verification/G722.thy ===== *)
theory G722
  imports Prelude
begin

text \<open>
  The G.722 sub-band ADPCM codec (\<^verbatim>\<open>webrtc/modules/audio_coding/codecs/g722\<close>): the state structs of
  \<^verbatim>\<open>g722_enc_dec.h\<close>, the encoder (\<^verbatim>\<open>g722_encode.c\<close>), the decoder (\<^verbatim>\<open>g722_decode.c\<close>) and the
  interface (\<^verbatim>\<open>g722_interface.c\<close>).

  The structs of encoder and decoder have the same fields and share one record; the array \<open>band[2]\<close> is the
  pair of fields \<open>band0\<close> and \<open>band1\<close>. The fields carry the prefix \<open>g_\<close>. Variables of type \<open>int\<close> are unbounded
  integers here: the invariant \<open>band_inv\<close> proved in \<open>G722Sync\<close> keeps every state variable within 16 bits, so the
  products and sums of the code stay within 32 bits. The unsigned bit buffers are reduced by \<open>u32\<close>.
\<close>

record g722_band =
  g_s :: int
  g_sp :: int
  g_sz :: int
  g_r :: "int list"
  g_a :: "int list"
  g_ap :: "int list"
  g_p :: "int list"
  g_d :: "int list"
  g_b :: "int list"
  g_bp :: "int list"
  g_sg :: "int list"
  g_nb :: int
  g_det :: int

record g722_encode_state_t =
  itu_test_mode :: bool
  packed :: bool
  eight_k :: bool
  bits_per_sample :: int
  g_x :: "int list"
  band0 :: g722_band
  band1 :: g722_band
  in_buffer :: int
  in_bits :: int
  out_buffer :: int
  out_bits :: int

type_synonym g722_decode_state_t = g722_encode_state_t

definition saturate :: "int \<Rightarrow> int" where
  "saturate amp = (let amp16 = s16 amp in if amp = amp16 then amp16 else if amp > 32767 then 32767 else -32768)"

subsection \<open>Block 4: the adaptive predictor\<close>

definition block4_recons :: "int \<Rightarrow> g722_band \<Rightarrow> g722_band" where
  "block4_recons dd B = B\<lparr>g_d := (g_d B)[0 := dd], g_r := (g_r B)[0 := saturate (g_s B + dd)],
     g_p := (g_p B)[0 := saturate (g_sz B + dd)]\<rparr>"

definition signs_p :: "g722_band \<Rightarrow> g722_band" where
  "signs_p B = B\<lparr>g_sg := (g_sg B)[0 := asr (g_p B ! 0) 15, 1 := asr (g_p B ! 1) 15, 2 := asr (g_p B ! 2) 15]\<rparr>"

text \<open>UPPOL2 and UPPOL1 of the encoder.\<close>

definition block4_uppol2 :: "g722_band \<Rightarrow> g722_band" where
  "block4_uppol2 B =
    (let B = signs_p B;
         wd1 = saturate (shl (g_a B ! 1) 2);
         wd2 = (if g_sg B ! 0 = g_sg B ! 1 then - wd1 else wd1);
         wd2 = (if wd2 > 32767 then 32767 else wd2);
         wd3 = asr wd2 7 + (if g_sg B ! 0 = g_sg B ! 2 then 128 else -128);
         wd3 = wd3 + asr (g_a B ! 2 * 32512) 15;
         wd3 = (if wd3 > 12288 then 12288 else if wd3 < -12288 then -12288 else wd3)
     in B\<lparr>g_ap := (g_ap B)[2 := wd3]\<rparr>)"

definition block4_uppol1 :: "g722_band \<Rightarrow> g722_band" where
  "block4_uppol1 B =
    (let B = B\<lparr>g_sg := (g_sg B)[0 := asr (g_p B ! 0) 15, 1 := asr (g_p B ! 1) 15]\<rparr>;
         wd1 = (if g_sg B ! 0 = g_sg B ! 1 then 192 else -192);
         wd2 = asr (g_a B ! 1 * 32640) 15;
         ap1 = saturate (wd1 + wd2);
         wd3 = saturate (15360 - g_ap B ! 2);
         ap1 = (if ap1 > wd3 then wd3 else if ap1 < - wd3 then - wd3 else ap1)
     in B\<lparr>g_ap := (g_ap B)[1 := ap1]\<rparr>)"

text \<open>UPZERO: the loop over the six zero coefficients.\<close>

definition block4_upzero :: "int \<Rightarrow> g722_band \<Rightarrow> g722_band" where
  "block4_upzero dd B =
    (let wd1 = (if dd = 0 then 0 else 128);
         B = B\<lparr>g_sg := (g_sg B)[0 := asr dd 15]\<rparr>
     in fold (\<lambda>i B.
          let B = B\<lparr>g_sg := (g_sg B)[i := asr (g_d B ! i) 15]\<rparr>;
              wd2 = (if g_sg B ! i = g_sg B ! 0 then wd1 else - wd1);
              wd3 = asr (g_b B ! i * 32640) 15
          in B\<lparr>g_bp := (g_bp B)[i := saturate (wd2 + wd3)]\<rparr>) [1, 2, 3, 4, 5, 6] B)"

definition block4_delaya :: "g722_band \<Rightarrow> g722_band" where
  "block4_delaya B =
    (let B = fold (\<lambda>i B. B\<lparr>g_d := (g_d B)[i := g_d B ! (i - 1)], g_b := (g_b B)[i := g_bp B ! i]\<rparr>) [6, 5, 4, 3, 2, 1] B
     in fold (\<lambda>i B. B\<lparr>g_r := (g_r B)[i := g_r B ! (i - 1)], g_p := (g_p B)[i := g_p B ! (i - 1)],
          g_a := (g_a B)[i := g_ap B ! i]\<rparr>) [2, 1] B)"

text \<open>FILTEP, FILTEZ and PREDIC.\<close>

definition block4_filtep :: "g722_band \<Rightarrow> g722_band" where
  "block4_filtep B =
    (let wd1 = saturate (g_r B ! 1 + g_r B ! 1);
         wd1 = asr (g_a B ! 1 * wd1) 15;
         wd2 = saturate (g_r B ! 2 + g_r B ! 2);
         wd2 = asr (g_a B ! 2 * wd2) 15
     in B\<lparr>g_sp := saturate (wd1 + wd2)\<rparr>)"

definition block4_filtez :: "g722_band \<Rightarrow> g722_band" where
  "block4_filtez B =
    (let sz = fold (\<lambda>i sz. let wd1 = saturate (g_d B ! i + g_d B ! i) in sz + asr (g_b B ! i * wd1) 15) [6, 5, 4, 3, 2, 1] 0
     in B\<lparr>g_sz := saturate sz\<rparr>)"

definition block4_predic :: "g722_band \<Rightarrow> g722_band" where
  "block4_predic B = B\<lparr>g_s := saturate (g_sp B + g_sz B)\<rparr>"

definition block4 :: "g722_band \<Rightarrow> int \<Rightarrow> g722_band" where
  "block4 B dd = block4_predic (block4_filtez (block4_filtep (block4_delaya (block4_upzero dd
     (block4_uppol1 (block4_uppol2 (block4_recons dd B)))))))"

text \<open>The decoder has its own copy of block 4, which adds up \<open>wd3\<close> of UPPOL2 in another order.\<close>

definition block4_uppol2_dec :: "g722_band \<Rightarrow> g722_band" where
  "block4_uppol2_dec B =
    (let B = signs_p B;
         wd1 = saturate (shl (g_a B ! 1) 2);
         wd2 = (if g_sg B ! 0 = g_sg B ! 1 then - wd1 else wd1);
         wd2 = (if wd2 > 32767 then 32767 else wd2);
         wd3 = (if g_sg B ! 0 = g_sg B ! 2 then 128 else -128);
         wd3 = wd3 + asr wd2 7;
         wd3 = wd3 + asr (g_a B ! 2 * 32512) 15;
         wd3 = (if wd3 > 12288 then 12288 else if wd3 < -12288 then -12288 else wd3)
     in B\<lparr>g_ap := (g_ap B)[2 := wd3]\<rparr>)"

definition block4_dec :: "g722_band \<Rightarrow> int \<Rightarrow> g722_band" where
  "block4_dec B dd = block4_predic (block4_filtez (block4_filtep (block4_delaya (block4_upzero dd
     (block4_uppol1 (block4_uppol2_dec (block4_recons dd B)))))))"

subsection \<open>Tables\<close>

definition q6 :: "int list" where
  "q6 = [0, 35, 72, 110, 150, 190, 233, 276, 323, 370, 422, 473, 530, 587, 650, 714,
     786, 858, 940, 1023, 1121, 1219, 1339, 1458, 1612, 1765, 1980, 2195, 2557, 2919, 0, 0]"

definition iln :: "int list" where
  "iln = [0, 63, 62, 31, 30, 29, 28, 27, 26, 25, 24, 23, 22, 21, 20, 19,
     18, 17, 16, 15, 14, 13, 12, 11, 10, 9, 8, 7, 6, 5, 4, 0]"

definition ilp :: "int list" where
  "ilp = [0, 61, 60, 59, 58, 57, 56, 55, 54, 53, 52, 51, 50, 49, 48, 47,
     46, 45, 44, 43, 42, 41, 40, 39, 38, 37, 36, 35, 34, 33, 32, 0]"

definition wl :: "int list" where
  "wl = [-60, -30, 58, 172, 334, 538, 1198, 3042]"

definition rl42 :: "nat list" where
  "rl42 = [0, 7, 6, 5, 4, 3, 2, 1, 7, 6, 5, 4, 3, 2, 1, 0]"

definition ilb :: "int list" where
  "ilb = [2048, 2093, 2139, 2186, 2233, 2282, 2332, 2383, 2435, 2489, 2543, 2599, 2656, 2714,
     2774, 2834, 2896, 2960, 3025, 3091, 3158, 3228, 3298, 3371, 3444, 3520, 3597, 3676, 3756, 3838, 3922, 4008]"

definition qm4 :: "int list" where
  "qm4 = [0, -20456, -12896, -8968, -6288, -4240, -2584, -1200, 20456, 12896, 8968, 6288, 4240, 2584, 1200, 0]"

definition qm2 :: "int list" where
  "qm2 = [-7408, -1616, 7408, 1616]"

definition qmf_coeffs :: "int list" where
  "qmf_coeffs = [3, -11, 12, 32, -210, 951, 3876, -805, 362, -156, 53, -11]"

definition ihn :: "int list" where
  "ihn = [0, 1, 0]"

definition ihp :: "int list" where
  "ihp = [0, 3, 2]"

definition wh :: "int list" where
  "wh = [0, -214, 798]"

definition rh2 :: "nat list" where
  "rh2 = [2, 1, 2, 1]"

definition qm5 :: "int list" where
  "qm5 = [-280, -280, -23352, -17560, -14120, -11664, -9752, -8184, -6864, -5712, -4696, -3784,
     -2960, -2208, -1520, -880, 23352, 17560, 14120, 11664, 9752, 8184, 6864, 5712,
     4696, 3784, 2960, 2208, 1520, 880, 280, -280]"

definition qm6 :: "int list" where
  "qm6 = [-136, -136, -136, -136, -24808, -21904, -19008, -16704, -14984, -13512, -12280, -11192,
     -10232, -9360, -8576, -7856, -7192, -6576, -6000, -5456, -4944, -4464, -4008, -3576,
     -3168, -2776, -2400, -2032, -1688, -1360, -1040, -728, 24808, 21904, 19008, 16704,
     14984, 13512, 12280, 11192, 10232, 9360, 8576, 7856, 7192, 6576, 6000, 5456,
     4944, 4464, 4008, 3576, 3168, 2776, 2400, 2032, 1688, 1360, 1040, 728, 432, 136, -432, -136]"

subsection \<open>Initialisation\<close>

text \<open>The state after \<open>memset(s, 0, sizeof( *s))\<close>.\<close>

definition zero_band :: g722_band where
  "zero_band = \<lparr>g_s = 0, g_sp = 0, g_sz = 0, g_r = replicate 3 0, g_a = replicate 3 0, g_ap = replicate 3 0,
     g_p = replicate 3 0, g_d = replicate 7 0, g_b = replicate 7 0, g_bp = replicate 7 0, g_sg = replicate 7 0,
     g_nb = 0, g_det = 0\<rparr>"

text \<open>\<open>None\<close> for the state is a \<open>NULL\<close> pointer; \<open>alloc\<close> says whether \<open>malloc\<close> succeeds.\<close>

definition WebRtc_g722_encode_init :: "bool \<Rightarrow> g722_encode_state_t option \<Rightarrow> int \<Rightarrow> int \<Rightarrow> g722_encode_state_t option" where
  "WebRtc_g722_encode_init alloc s rate options =
    (if s = None \<and> \<not> alloc then None
     else let bits = (if rate = 48000 then 6 else if rate = 56000 then 7 else 8)
          in Some \<lparr>itu_test_mode = False,
               packed = (options AND 0x0002 \<noteq> 0 \<and> bits \<noteq> 8),
               eight_k = (options AND 0x0001 \<noteq> 0), bits_per_sample = bits, g_x = replicate 24 0,
               band0 = zero_band\<lparr>g_det := 32\<rparr>, band1 = zero_band\<lparr>g_det := 8\<rparr>,
               in_buffer = 0, in_bits = 0, out_buffer = 0, out_bits = 0\<rparr>)"

definition WebRtc_g722_decode_init :: "bool \<Rightarrow> g722_decode_state_t option \<Rightarrow> int \<Rightarrow> int \<Rightarrow> g722_decode_state_t option" where
  "WebRtc_g722_decode_init alloc s rate options =
    (if s = None \<and> \<not> alloc then None
     else let bits = (if rate = 48000 then 6 else if rate = 56000 then 7 else 8)
          in Some \<lparr>itu_test_mode = False,
               packed = (options AND 0x0002 \<noteq> 0 \<and> bits \<noteq> 8),
               eight_k = (options AND 0x0001 \<noteq> 0), bits_per_sample = bits, g_x = replicate 24 0,
               band0 = zero_band\<lparr>g_det := 32\<rparr>, band1 = zero_band\<lparr>g_det := 8\<rparr>,
               in_buffer = 0, in_bits = 0, out_buffer = 0, out_bits = 0\<rparr>)"

subsection \<open>Encoder\<close>

text \<open>The transmit filter bank: the history is shifted by two and the two sums are formed over the even and the
  odd taps.\<close>

definition qmf_shift :: "int list \<Rightarrow> int \<Rightarrow> int \<Rightarrow> int list" where
  "qmf_shift x a b = (fold (\<lambda>i x. x[i := x ! (i + 2)]) [0..<22] x)[22 := a, 23 := b]"

definition qmf_odd :: "int list \<Rightarrow> int" where
  "qmf_odd x = fold (\<lambda>i t. t + x ! (2 * i) * qmf_coeffs ! i) [0..<12] 0"

definition qmf_even :: "int list \<Rightarrow> int" where
  "qmf_even x = fold (\<lambda>i t. t + x ! (2 * i + 1) * qmf_coeffs ! (11 - i)) [0..<12] 0"

text \<open>The inputs of the two bands, the state and the input position afterwards.\<close>

definition enc_input :: "g722_encode_state_t \<Rightarrow> int list \<Rightarrow> nat \<Rightarrow> int \<Rightarrow> int \<times> int \<times> g722_encode_state_t \<times> nat" where
  "enc_input s amp j xhigh =
    (if itu_test_mode s then (asr (amp ! j) 1, asr (amp ! j) 1, s, j + 1)
     else if eight_k s then (asr (amp ! j) 1, xhigh, s, j + 1)
     else let x = qmf_shift (g_x s) (amp ! j) (amp ! (j + 1));
              sumeven = qmf_even x; sumodd = qmf_odd x
          in (asr (sumeven + sumodd) 14, asr (sumeven - sumodd) 14, s\<lparr>g_x := x\<rparr>, j + 2))"

text \<open>QUANTL: the decision levels are searched from \<open>i = 1\<close>; without a \<open>break\<close> the loop ends with \<open>i = 30\<close>.\<close>

function quantl_loop :: "int \<Rightarrow> int \<Rightarrow> nat \<Rightarrow> nat" where
  "quantl_loop det wd i =
    (if i < 30 then (if wd < asr (q6 ! i * det) 12 then i else quantl_loop det wd (i + 1)) else i)"
  by auto
termination by (relation "measure (\<lambda>(det, wd, i). 30 - i)") auto

declare quantl_loop.simps [simp del]

definition quantl :: "g722_band \<Rightarrow> int \<Rightarrow> int" where
  "quantl B xlow =
    (let el = saturate (xlow - g_s B);
         wd = (if el \<ge> 0 then el else - (el + 1));
         i = quantl_loop (g_det B) wd 1
     in if el < 0 then iln ! i else ilp ! i)"

text \<open>INVQAL, LOGSCL and SCALEL with block 4, for the four leading bits \<open>ril\<close> of the low-band code.\<close>

definition low_adapt :: "g722_band \<Rightarrow> nat \<Rightarrow> g722_band" where
  "low_adapt B ril =
    (let wd2 = qm4 ! ril;
         dlow = asr (g_det B * wd2) 15;
         il4 = rl42 ! ril;
         wd = asr (g_nb B * 127) 7;
         nb = wd + wl ! il4;
         nb = (if nb < 0 then 0 else if nb > 18432 then 18432 else nb);
         wd1 = nat (asr nb 6 AND 31);
         wd2 = 8 - asr nb 11;
         wd3 = (if wd2 < 0 then shl (ilb ! wd1) (nat (- wd2)) else asr (ilb ! wd1) (nat wd2));
         B = B\<lparr>g_nb := nb, g_det := shl wd3 2\<rparr>
     in block4 B dlow)"

definition quanth :: "g722_band \<Rightarrow> int \<Rightarrow> int" where
  "quanth B xhigh =
    (let eh = saturate (xhigh - g_s B);
         wd = (if eh \<ge> 0 then eh else - (eh + 1));
         wd1 = asr (564 * g_det B) 12;
         mih = (if wd \<ge> wd1 then 2 else 1)
     in if eh < 0 then ihn ! mih else ihp ! mih)"

text \<open>INVQAH, LOGSCH and SCALEH with block 4.\<close>

definition high_adapt :: "g722_band \<Rightarrow> nat \<Rightarrow> g722_band" where
  "high_adapt B ihigh =
    (let wd2 = qm2 ! ihigh;
         dhigh = asr (g_det B * wd2) 15;
         ih2 = rh2 ! ihigh;
         wd = asr (g_nb B * 127) 7;
         nb = wd + wh ! ih2;
         nb = (if nb < 0 then 0 else if nb > 22528 then 22528 else nb);
         wd1 = nat (asr nb 6 AND 31);
         wd2 = 10 - asr nb 11;
         wd3 = (if wd2 < 0 then shl (ilb ! wd1) (nat (- wd2)) else asr (ilb ! wd1) (nat wd2));
         B = B\<lparr>g_nb := nb, g_det := shl wd3 2\<rparr>
     in block4 B dhigh)"

text \<open>One sample pair: the code word and the state.\<close>

definition enc_code :: "g722_encode_state_t \<Rightarrow> int \<Rightarrow> int \<Rightarrow> int \<times> g722_encode_state_t" where
  "enc_code s xlow xhigh =
    (let ilow = quantl (band0 s) xlow;
         s = s\<lparr>band0 := low_adapt (band0 s) (nat (asr ilow 2))\<rparr>
     in if eight_k s then (asr (0xC0 OR ilow) (nat (8 - bits_per_sample s)), s)
        else let ihigh = quanth (band1 s) xhigh;
                 s = s\<lparr>band1 := high_adapt (band1 s) (nat ihigh)\<rparr>
             in (asr (shl ihigh 6 OR ilow) (nat (8 - bits_per_sample s)), s))"

text \<open>Output of a code word: the bytes written and the state.\<close>

definition enc_output :: "g722_encode_state_t \<Rightarrow> int \<Rightarrow> int list \<times> g722_encode_state_t" where
  "enc_output s code =
    (if packed s
     then let ob = u32 (out_buffer s OR u32 (shl code (nat (out_bits s))));
              n = out_bits s + bits_per_sample s
          in if n \<ge> 8 then ([u8 (ob AND 0xFF)], s\<lparr>out_buffer := asr ob 8, out_bits := n - 8\<rparr>)
             else ([], s\<lparr>out_buffer := ob, out_bits := n\<rparr>)
     else ([u8 code], s))"

function enc_samples :: "g722_encode_state_t \<Rightarrow> int list \<Rightarrow> nat \<Rightarrow> nat \<Rightarrow> int \<Rightarrow> int list \<times> g722_encode_state_t" where
  "enc_samples s amp j len xhigh =
    (if j < len
     then let (xlow, xhigh, s, j') = enc_input s amp j xhigh;
              (code, s) = enc_code s xlow xhigh;
              (out, s) = enc_output s code;
              (rest, s) = enc_samples s amp j' len xhigh
          in (out @ rest, s)
     else ([], s))"
  by auto
termination
  by (relation "measure (\<lambda>(s, amp, j, len, xhigh). len - j)")
    (auto simp: enc_input_def Let_def split: if_splits)

declare enc_samples.simps [simp del]

text \<open>The return value is the number of bytes written to \<open>g722_data\<close>; the bytes come second.\<close>

definition WebRtc_g722_encode :: "g722_encode_state_t \<Rightarrow> int list \<Rightarrow> int \<Rightarrow> int \<times> int list \<times> g722_encode_state_t" where
  "WebRtc_g722_encode s amp len =
    (let (out, s) = enc_samples s amp 0 (nat len) 0 in (int (length out), out, s))"

subsection \<open>Decoder\<close>

text \<open>Input of a code word: the code, the state and the input position.\<close>

definition dec_input :: "g722_decode_state_t \<Rightarrow> int list \<Rightarrow> nat \<Rightarrow> int \<times> g722_decode_state_t \<times> nat" where
  "dec_input s data j =
    (if packed s
     then let (s, j) = (if in_bits s < bits_per_sample s
                        then (s\<lparr>in_buffer := u32 (in_buffer s OR u32 (shl (data ! j) (nat (in_bits s)))), in_bits := in_bits s + 8\<rparr>, j + 1)
                        else (s, j));
              bits = bits_per_sample s
          in (in_buffer s AND (shl 1 (nat bits) - 1),
              s\<lparr>in_buffer := asr (in_buffer s) (nat bits), in_bits := in_bits s - bits\<rparr>, j)
     else (data ! j, s, j + 1))"

text \<open>The \<open>switch\<close> on \<open>bits_per_sample\<close>: the four leading bits of the low band, the high-band code and the
  reconstruction level.\<close>

definition dec_fields :: "int \<Rightarrow> int \<Rightarrow> int \<times> int \<times> int" where
  "dec_fields bits code =
    (if bits = 7 then (asr (code AND 0x1F) 1, asr code 5 AND 0x03, qm5 ! nat (code AND 0x1F))
     else if bits = 6 then (code AND 0x0F, asr code 4 AND 0x03, qm4 ! nat (code AND 0x0F))
     else (asr (code AND 0x3F) 2, asr code 6 AND 0x03, qm6 ! nat (code AND 0x3F)))"

definition limit15 :: "int \<Rightarrow> int" where
  "limit15 v = (if v > 16383 then 16383 else if v < -16384 then -16384 else v)"

definition dec_low_adapt :: "g722_band \<Rightarrow> nat \<Rightarrow> g722_band" where
  "dec_low_adapt B wd1 =
    (let wd2 = qm4 ! wd1;
         dlowt = asr (g_det B * wd2) 15;
         wd2 = rl42 ! wd1;
         wd1 = asr (g_nb B * 127) 7;
         wd1 = wd1 + wl ! wd2;
         wd1 = (if wd1 < 0 then 0 else if wd1 > 18432 then 18432 else wd1);
         B = B\<lparr>g_nb := wd1\<rparr>;
         wd1 = nat (asr (g_nb B) 6 AND 31);
         wd2 = 8 - asr (g_nb B) 11;
         wd3 = (if wd2 < 0 then shl (ilb ! wd1) (nat (- wd2)) else asr (ilb ! wd1) (nat wd2));
         B = B\<lparr>g_det := shl wd3 2\<rparr>
     in block4_dec B dlowt)"

definition dec_high_adapt :: "g722_band \<Rightarrow> nat \<Rightarrow> int \<times> g722_band" where
  "dec_high_adapt B ihigh =
    (let wd2 = qm2 ! ihigh;
         dhigh = asr (g_det B * wd2) 15;
         rhigh = limit15 (dhigh + g_s B);
         wd2 = rh2 ! ihigh;
         wd1 = asr (g_nb B * 127) 7;
         wd1 = wd1 + wh ! wd2;
         wd1 = (if wd1 < 0 then 0 else if wd1 > 22528 then 22528 else wd1);
         B = B\<lparr>g_nb := wd1\<rparr>;
         wd1 = nat (asr (g_nb B) 6 AND 31);
         wd2 = 10 - asr (g_nb B) 11;
         wd3 = (if wd2 < 0 then shl (ilb ! wd1) (nat (- wd2)) else asr (ilb ! wd1) (nat wd2));
         B = B\<lparr>g_det := shl wd3 2\<rparr>
     in (rhigh, block4_dec B dhigh))"

text \<open>One code word: the reconstructed samples of the two bands and the state; \<open>rhigh\<close> keeps its value in
  narrow-band mode.\<close>

definition dec_code :: "g722_decode_state_t \<Rightarrow> int \<Rightarrow> int \<Rightarrow> int \<times> int \<times> g722_decode_state_t" where
  "dec_code s code rhigh =
    (let (wd1, ihigh, wd2) = dec_fields (bits_per_sample s) code;
         wd2 = asr (g_det (band0 s) * wd2) 15;
         rlow = limit15 (g_s (band0 s) + wd2);
         s = s\<lparr>band0 := dec_low_adapt (band0 s) (nat wd1)\<rparr>
     in if eight_k s then (rlow, rhigh, s)
        else let (rhigh, B) = dec_high_adapt (band1 s) (nat ihigh)
             in (rlow, rhigh, s\<lparr>band1 := B\<rparr>))"

definition dec_output :: "g722_decode_state_t \<Rightarrow> int \<Rightarrow> int \<Rightarrow> int list \<times> g722_decode_state_t" where
  "dec_output s rlow rhigh =
    (if itu_test_mode s then ([s16 (shl rlow 1), s16 (shl rhigh 1)], s)
     else if eight_k s then ([s16 (shl rlow 1)], s)
     else let x = qmf_shift (g_x s) (rlow + rhigh) (rlow - rhigh);
              xout2 = qmf_odd x; xout1 = qmf_even x
          in ([saturate (asr xout1 11), saturate (asr xout2 11)], s\<lparr>g_x := x\<rparr>))"

text \<open>The loop over the input; in packed mode an iteration may not consume a byte, so the loop is partial.\<close>

partial_function (option) dec_samples :: "g722_decode_state_t \<Rightarrow> int list \<Rightarrow> nat \<Rightarrow> nat \<Rightarrow> int \<Rightarrow> (int list \<times> g722_decode_state_t) option" where
  "dec_samples s data j len rhigh =
    (if j < len
     then let (code, s, j') = dec_input s data j;
              (rlow, rhigh, s) = dec_code s code rhigh;
              (out, s) = dec_output s rlow rhigh
          in Option.bind (dec_samples s data j' len rhigh) (\<lambda>(rest, s). Some (out @ rest, s))
     else Some ([], s))"

declare dec_samples.simps [code]

definition WebRtc_g722_decode :: "g722_decode_state_t \<Rightarrow> int list \<Rightarrow> int \<Rightarrow> (int \<times> int list \<times> g722_decode_state_t) option" where
  "WebRtc_g722_decode s data len =
    map_option (\<lambda>(out, s). (int (length out), out, s)) (dec_samples s data 0 (nat len) 0)"

subsection \<open>Interface\<close>

definition WebRtcG722_EncoderInit :: "bool \<Rightarrow> g722_encode_state_t option \<Rightarrow> int \<times> g722_encode_state_t option" where
  "WebRtcG722_EncoderInit alloc inst =
    (let r = WebRtc_g722_encode_init alloc inst 64000 2
     in (if r = None then - 1 else 0, if inst = None then None else r))"

definition WebRtcG722_Encode :: "g722_encode_state_t \<Rightarrow> int list \<Rightarrow> int \<Rightarrow> int \<times> int list \<times> g722_encode_state_t" where
  "WebRtcG722_Encode inst speechIn len =
    (let (r, out, s) = WebRtc_g722_encode inst speechIn len in (s16 r, out, s))"

definition WebRtcG722_DecoderInit :: "bool \<Rightarrow> g722_decode_state_t option \<Rightarrow> int \<times> g722_decode_state_t option" where
  "WebRtcG722_DecoderInit alloc inst =
    (let r = WebRtc_g722_decode_init alloc inst 64000 2
     in (if r = None then - 1 else 0, if inst = None then None else r))"

text \<open>The speech type is always \<open>G722_WEBRTC_SPEECH\<close>.\<close>

definition WebRtcG722_Decode :: "g722_decode_state_t \<Rightarrow> int list \<Rightarrow> int \<Rightarrow> (int \<times> int list \<times> int \<times> g722_decode_state_t) option" where
  "WebRtcG722_Decode inst encoded len =
    map_option (\<lambda>(r, out, s). (s16 r, out, 1, s)) (WebRtc_g722_decode inst encoded len)"

end
