(* ===== verification/G722Sync.thy ===== *)
theory G722Sync
  imports G722
begin

text \<open>
  Correctness of the G.722 model (\<open>G722\<close>). The decoder carries its own copies of the adaptation code; they are
  equal to those of the encoder (\<open>block4_dec_eq\<close>, \<open>dec_low_adapt_eq\<close>), and a received code word yields exactly
  the bits that drive the adaptation (\<open>dec_fields_code\<close>). So the predictors of both sides run in lockstep, frame
  by frame. The last section bounds the predictor state.
\<close>

subsection \<open>Decoder copies of encoder code\<close>

lemma block4_dec_eq: "block4_dec = block4"
proof -
  have "block4_uppol2_dec = block4_uppol2"
    by (rule ext) (simp add: block4_uppol2_dec_def block4_uppol2_def Let_def add.commute)
  then show ?thesis by (simp add: block4_dec_def [abs_def] block4_def [abs_def])
qed

lemma dec_low_adapt_eq: "dec_low_adapt = low_adapt"
  by (intro ext) (simp add: dec_low_adapt_def low_adapt_def Let_def block4_dec_eq)

lemma dec_high_adapt_eq: "snd (dec_high_adapt B ih) = high_adapt B ih"
  by (simp add: dec_high_adapt_def high_adapt_def Let_def block4_dec_eq)

subsection \<open>Code words\<close>

lemma quantl_loop_range: "1 \<le> i \<Longrightarrow> i \<le> 30 \<Longrightarrow> 1 \<le> quantl_loop det wd i \<and> quantl_loop det wd i \<le> 30"
proof (induction det wd i rule: quantl_loop.induct)
  case (1 det wd i)
  then show ?case by (subst (1 2) quantl_loop.simps) auto
qed

lemma low_codes:
  assumes "1 \<le> i" "i \<le> 30"
  shows "0 \<le> iln ! i \<and> iln ! i < 64" "0 \<le> ilp ! i \<and> ilp ! i < 64"
proof -
  have "list_all (\<lambda>i. 0 \<le> iln ! i \<and> iln ! i < 64 \<and> 0 \<le> ilp ! i \<and> ilp ! i < 64) [1..<31]" by code_simp
  then show "0 \<le> iln ! i \<and> iln ! i < 64" "0 \<le> ilp ! i \<and> ilp ! i < 64" using assms by (auto simp: list_all_iff)
qed

lemma quantl_range: "0 \<le> quantl B x \<and> quantl B x < 64"
  using low_codes quantl_loop_range [of 1] by (simp add: quantl_def Let_def)

lemma quanth_range: "0 \<le> quanth B x \<and> quanth B x < 4"
  by (simp add: quanth_def Let_def ihn_def ihp_def)

lemma code_join: "0 \<le> l \<Longrightarrow> l < 64 \<Longrightarrow> shl h 6 OR l = 64 * h + l"
proof -
  assume l: "0 \<le> l" "l < 64"
  then have "l = take_bit 6 l" by (simp add: take_bit_eq_mod)
  moreover have "push_bit 6 h AND take_bit 6 l = 0"
    by (rule bit_eqI) (auto simp: bit_and_iff bit_push_bit_iff bit_take_bit_iff)
  ultimately show ?thesis using disjunctive_add_eq_or [of "push_bit 6 h" l] by (simp add: shl_def push_bit_eq_mult)
qed

lemma and_masks: "x AND 0x3F = x mod 64" "x AND 0x1F = x mod 32" "x AND 0x0F = x mod 16" "x AND 0x03 = x mod 4" for x :: int
proof -
  have m: "(0x3F :: int) = mask 6" "(0x1F :: int) = mask 5" "(0x0F :: int) = mask 4" "(0x03 :: int) = mask 2"
    by (simp_all add: mask_eq_exp_minus_1)
  show "x AND 0x3F = x mod 64" "x AND 0x1F = x mod 32" "x AND 0x0F = x mod 16" "x AND 0x03 = x mod 4"
    unfolding m take_bit_eq_mask [symmetric] by (simp_all add: take_bit_eq_mod)
qed

text \<open>The decoder reads from a code word, at each rate, the high-band code and the four leading bits of the
  low-band code that the encoder put there.\<close>

lemma dec_fields_code:
  assumes "0 \<le> l" "l < 64" "0 \<le> h" "h < 4" "bits = 6 \<or> bits = 7 \<or> bits = 8"
  shows "\<exists>q. dec_fields bits (u8 (asr (shl h 6 OR l) (nat (8 - bits)))) = (asr l 2, h, q)"
proof -
  define q r where "q = l div 4" and "r = l mod 4"
  have l: "l = 4 * q + r" "0 \<le> r" "r < 4" "0 \<le> q" "q < 16" using assms(1,2) by (auto simp: q_def r_def)
  have c: "64 * h + l < 256" "0 \<le> 64 * h + l" using assms by auto
  have d: "(64 * h + l) div 2 = 32 * h + l div 2" "(64 * h + l) div 4 = 16 * h + q" by (simp_all add: q_def)
  have b: "l div 2 < 32" "l div 2 div 2 = q" using assms(1,2) by (simp_all add: q_def zdiv_zmult2_eq [symmetric])
  have "u8 (64 * h + l) = 64 * h + l" "u8 ((64 * h + l) div 2) = 32 * h + l div 2" "u8 ((64 * h + l) div 4) = 16 * h + q"
    using c assms l(4,5) by (simp_all add: u8_id d)
  then show ?thesis using assms(5) assms(1-4) b l(4,5)
    by (elim disjE) (simp_all add: dec_fields_def code_join asr_div and_masks q_def [symmetric])
qed

lemma eight_k_code: "0 \<le> l \<Longrightarrow> l < 64 \<Longrightarrow> 0xC0 OR l = shl 3 6 OR l"
  by (simp add: shl_mult)

subsection \<open>Lockstep\<close>

text \<open>Encoder and decoder are in step when their options and both predictors agree; the codes are not packed.\<close>

definition in_step :: "g722_encode_state_t \<Rightarrow> g722_decode_state_t \<Rightarrow> bool" where
  "in_step s t \<longleftrightarrow> \<not> packed s \<and> \<not> packed t \<and> eight_k s = eight_k t \<and> bits_per_sample s = bits_per_sample t
     \<and> (bits_per_sample s = 6 \<or> bits_per_sample s = 7 \<or> bits_per_sample s = 8)
     \<and> band0 s = band0 t \<and> band1 s = band1 t"

lemma code_in_step:
  assumes "in_step s t" "enc_code s xlow xhigh = (code, s')"
  shows "\<exists>rlow rhigh' t'. dec_code t (u8 code) rhigh = (rlow, rhigh', t') \<and> in_step s' t'
    \<and> itu_test_mode t' = itu_test_mode t \<and> eight_k t' = eight_k t"
proof -
  let ?l = "quantl (band0 s) xlow"
  have st: "eight_k t = eight_k s" "bits_per_sample t = bits_per_sample s" "band0 t = band0 s" "band1 t = band1 s"
    "bits_per_sample s = 6 \<or> bits_per_sample s = 7 \<or> bits_per_sample s = 8" "\<not> packed s" "\<not> packed t"
    using assms(1) by (auto simp: in_step_def)
  show ?thesis
  proof (cases "eight_k s")
    case True
    obtain q where "dec_fields (bits_per_sample s) (u8 (asr (0xC0 OR ?l) (nat (8 - bits_per_sample s)))) = (asr ?l 2, 3, q)"
      using dec_fields_code [of ?l 3 "bits_per_sample s"] quantl_range [of "band0 s" xlow] st(5) by (auto simp: eight_k_code)
    then show ?thesis using True assms(2) st
      by (auto simp: enc_code_def dec_code_def Let_def in_step_def dec_low_adapt_eq)
  next
    case False
    let ?h = "quanth (band1 s) xhigh"
    obtain q where "dec_fields (bits_per_sample s) (u8 (asr (shl ?h 6 OR ?l) (nat (8 - bits_per_sample s)))) = (asr ?l 2, ?h, q)"
      using dec_fields_code [of ?l ?h "bits_per_sample s"] quantl_range [of "band0 s" xlow] quanth_range [of "band1 s" xhigh] st(5) by auto
    then show ?thesis using False assms(2) st dec_high_adapt_eq [of "band1 s" "nat ?h"]
      by (auto simp: enc_code_def dec_code_def Let_def in_step_def dec_low_adapt_eq split: prod.splits)
  qed
qed

lemma enc_input_in_step:
  "enc_input s amp j xh = (xlow, xhigh, s', j') \<Longrightarrow> in_step s t \<Longrightarrow> in_step s' t"
  by (auto simp: enc_input_def in_step_def Let_def split: if_splits)

lemma dec_output_in_step:
  "dec_output t rl rh = (out, t') \<Longrightarrow> in_step s t \<Longrightarrow> in_step s t' \<and> itu_test_mode t' = itu_test_mode t \<and> eight_k t' = eight_k t
    \<and> length out = (if eight_k t \<and> \<not> itu_test_mode t then 1 else 2)"
  by (auto simp: dec_output_def in_step_def Let_def split: if_splits)

lemma frame_in_step:
  assumes "in_step s t" "enc_samples s amp j len xh = (out, s')"
  shows "\<exists>pcm t'. dec_samples t (pre @ out @ post) (length pre) (length pre + length out) rh = Some (pcm, t') \<and> in_step s' t'
    \<and> length pcm = (if eight_k t \<and> \<not> itu_test_mode t then 1 else 2) * length out
    \<and> eight_k t' = eight_k t \<and> itu_test_mode t' = itu_test_mode t"
  using assms
proof (induction s amp j len xh arbitrary: t pre rh out s' rule: enc_samples.induct)
  case (1 s amp j len xh)
  show ?case
  proof (cases "j < len")
    case False
    then have "out = []" "s' = s" using 1(3) by (simp_all add: enc_samples.simps [of s])
    then show ?thesis using 1(2) by (subst dec_samples.simps) simp
  next
    case True
    obtain xlow xhigh s1 j1 where in1: "enc_input s amp j xh = (xlow, xhigh, s1, j1)" by (cases "enc_input s amp j xh") auto
    obtain code s2 where c: "enc_code s1 xlow xhigh = (code, s2)" by (cases "enc_code s1 xlow xhigh")
    obtain rest s3 where r: "enc_samples s2 amp j1 len xhigh = (rest, s3)" by (cases "enc_samples s2 amp j1 len xhigh")
    have st1: "in_step s1 t" using enc_input_in_step [OF in1 1(2)] .
    obtain rlow rhigh t2 where d: "dec_code t (u8 code) rh = (rlow, rhigh, t2)" "in_step s2 t2"
      "itu_test_mode t2 = itu_test_mode t" "eight_k t2 = eight_k t" using code_in_step [OF st1 c] by blast
    have "\<not> packed s2" using d(2) by (simp add: in_step_def)
    then have o: "enc_output s2 code = ([u8 code], s2)" by (simp add: enc_output_def)
    have out: "out = u8 code # rest" "s' = s3" using 1(3) True by (simp_all add: enc_samples.simps [of s] in1 c o r)
    obtain pc t3 where p: "dec_output t2 rlow rhigh = (pc, t3)" by (cases "dec_output t2 rlow rhigh")
    note p' = dec_output_in_step [OF p d(2)]
    have IH: "\<exists>pcm t'. dec_samples t3 ((pre @ [u8 code]) @ rest @ post) (length (pre @ [u8 code])) (length (pre @ [u8 code]) + length rest) rhigh =
        Some (pcm, t') \<and> in_step s3 t'
      \<and> length pcm = (if eight_k t3 \<and> \<not> itu_test_mode t3 then 1 else 2) * length rest
      \<and> eight_k t' = eight_k t3 \<and> itu_test_mode t' = itu_test_mode t3"
      using 1(1) [OF True in1 [symmetric] refl refl refl c [symmetric] refl o [symmetric] refl, of t3 rest s3] p' r by blast
    then obtain pcm t' where i: "dec_samples t3 (pre @ out @ post) (Suc (length pre)) (length pre + length out) rhigh = Some (pcm, t')"
      "in_step s3 t'" "length pcm = (if eight_k t3 \<and> \<not> itu_test_mode t3 then 1 else 2) * length rest"
      "eight_k t' = eight_k t3" "itu_test_mode t' = itu_test_mode t3" by (auto simp: out)
    have "dec_input t (pre @ out @ post) (length pre) = (u8 code, t, Suc (length pre))"
      using 1(2) by (simp add: dec_input_def in_step_def out)
    then have "dec_samples t (pre @ out @ post) (length pre) (length pre + length out) rh = Some (pc @ pcm, t')"
      using i(1) d(1) p by (subst dec_samples.simps) (simp add: out)
    then show ?thesis using i p' d(3,4) out by simp
  qed
qed

lemma enc_samples_length:
  assumes "in_step s t" "enc_samples s amp j len xh = (out, s')"
  shows "length out = (if eight_k s \<or> itu_test_mode s then len - j else (len - j + 1) div 2)
    \<and> eight_k s' = eight_k s \<and> itu_test_mode s' = itu_test_mode s"
  using assms
proof (induction s amp j len xh arbitrary: t out s' rule: enc_samples.induct)
  case (1 s amp j len xh)
  show ?case
  proof (cases "j < len")
    case False
    then show ?thesis using 1(3) by (simp add: enc_samples.simps [of s])
  next
    case True
    obtain xlow xhigh s1 j1 where in1: "enc_input s amp j xh = (xlow, xhigh, s1, j1)" by (cases "enc_input s amp j xh") auto
    obtain code s2 where c: "enc_code s1 xlow xhigh = (code, s2)" by (cases "enc_code s1 xlow xhigh")
    obtain rest s3 where r: "enc_samples s2 amp j1 len xhigh = (rest, s3)" by (cases "enc_samples s2 amp j1 len xhigh")
    obtain t2 where d: "in_step s2 t2" using code_in_step [OF enc_input_in_step [OF in1 1(2)] c] by blast
    then have o: "enc_output s2 code = ([u8 code], s2)" by (simp add: enc_output_def in_step_def)
    have j1: "j1 = (if eight_k s \<or> itu_test_mode s then j + 1 else j + 2)" "eight_k s1 = eight_k s" "itu_test_mode s1 = itu_test_mode s"
      using in1 by (auto simp: enc_input_def Let_def split: if_splits)
    have s2: "eight_k s2 = eight_k s1" "itu_test_mode s2 = itu_test_mode s1" using c by (auto simp: enc_code_def Let_def split: if_splits)
    have out: "out = u8 code # rest" "s' = s3" using 1(3) True by (simp_all add: enc_samples.simps [of s] in1 c o r)
    from 1(1) [OF True in1 [symmetric] refl refl refl c [symmetric] refl o [symmetric] refl d r]
    moreover have "Suc ((len - Suc (Suc j) + 1) div 2) = (len - j + 1) div 2" using True by (cases "len = Suc j") auto
    ultimately show ?thesis using True out j1 s2 by auto
  qed
qed

text \<open>C5. The G.722 decoder stays in step with the encoder in the unpacked modes (one code per byte, at any of
  the three rates, wide or narrow band; packed mode, where codes straddle byte borders, is excluded by
  \<open>in_step\<close>): from states with the same options and predictors, encoding a frame and decoding its bytes
  leaves both predictors identical again; the decoder ends, and produces two samples per byte, or one in
  narrow-band mode.\<close>

theorem g722_lockstep:
  assumes "in_step s t" "WebRtc_g722_encode s amp len = (n, out, s')"
  shows "\<exists>m pcm t'. WebRtc_g722_decode t out n = Some (m, pcm, t') \<and> in_step s' t'
    \<and> n = int (length out) \<and> m = (if eight_k t \<and> \<not> itu_test_mode t then 1 else 2) * n"
proof -
  have e: "enc_samples s amp 0 (nat len) 0 = (out, s')" "n = int (length out)"
    using assms(2) by (auto simp: WebRtc_g722_encode_def Let_def split: prod.splits)
  from frame_in_step [OF assms(1) e(1), of "[]" "[]" 0] e(2) show ?thesis
    by (auto simp: WebRtc_g722_decode_def)
qed

definition g722_start :: g722_encode_state_t where
  "g722_start = the (WebRtc_g722_encode_init True None 64000 2)"

lemma start_in_step: "in_step g722_start g722_start"
  by (simp add: g722_start_def in_step_def WebRtc_g722_encode_init_def Let_def)

theorem g722_lockstep_witness:
  "\<exists>m pcm t'. WebRtc_g722_decode g722_start (fst (snd (WebRtc_g722_encode g722_start [100, 2000, -300, 4] 4))) 2 = Some (m, pcm, t')
    \<and> in_step (snd (snd (WebRtc_g722_encode g722_start [100, 2000, -300, 4] 4))) t' \<and> m = 4"
proof -
  obtain n out s' where e: "WebRtc_g722_encode g722_start [100, 2000, -300, 4] 4 = (n, out, s')" by (metis prod_cases3)
  have "length out = 2"
    using enc_samples_length [OF start_in_step, of "[100, 2000, -300, 4]" 0 4 0 out s'] e
    by (simp add: WebRtc_g722_encode_def Let_def g722_start_def WebRtc_g722_encode_init_def split: prod.splits)
  then show ?thesis using g722_lockstep [OF start_in_step e] e
    by (auto simp: g722_start_def WebRtc_g722_encode_init_def Let_def)
qed

text \<open>A session through the interface: the packets of the encoder and the samples of the decoder.\<close>

fun enc_frames :: "g722_encode_state_t \<Rightarrow> int list list \<Rightarrow> int list list \<times> g722_encode_state_t" where
  "enc_frames s [] = ([], s)"
| "enc_frames s (f # fs) =
    (let (r, out, s) = WebRtcG722_Encode s f (int (length f)); (rest, s) = enc_frames s fs in (out # rest, s))"

fun dec_frames :: "g722_decode_state_t \<Rightarrow> int list list \<Rightarrow> (int list list \<times> g722_decode_state_t) option" where
  "dec_frames t [] = Some ([], t)"
| "dec_frames t (p # ps) = Option.bind (WebRtcG722_Decode t p (int (length p)))
    (\<lambda>(r, pcm, ty, t). map_option (\<lambda>(rest, t). (pcm # rest, t)) (dec_frames t ps))"

lemma session_in_step:
  assumes "in_step s t" "\<not> eight_k s" "\<not> itu_test_mode s" "\<not> itu_test_mode t" "enc_frames s frames = (ps, s')"
  shows "\<exists>pcms t'. dec_frames t ps = Some (pcms, t') \<and> in_step s' t'
    \<and> map length ps = map (\<lambda>f. (length f + 1) div 2) frames \<and> map length pcms = map (\<lambda>p. 2 * length p) ps"
  using assms
proof (induction frames arbitrary: s t ps s')
  case (Cons f frames)
  obtain out s1 where e: "enc_samples s f 0 (length f) 0 = (out, s1)" by (cases "enc_samples s f 0 (length f) 0")
  obtain rest s2 where r: "enc_frames s1 frames = (rest, s2)" by (cases "enc_frames s1 frames")
  have ps: "ps = out # rest" "s' = s2"
    using Cons.prems(5) r by (simp_all add: WebRtcG722_Encode_def WebRtc_g722_encode_def e Let_def)
  note len = enc_samples_length [OF Cons.prems(1) e]
  have "\<not> eight_k t" using Cons.prems(1,2) by (simp add: in_step_def)
  then obtain pcm t1 where d: "dec_samples t out 0 (length out) 0 = Some (pcm, t1)" "in_step s1 t1"
    "length pcm = 2 * length out" "itu_test_mode t1 = itu_test_mode t"
    using frame_in_step [OF Cons.prems(1) e, of "[]" "[]" 0] by auto
  obtain pcms t' where "dec_frames t1 rest = Some (pcms, t') \<and> in_step s2 t'
    \<and> map length rest = map (\<lambda>f. (length f + 1) div 2) frames \<and> map length pcms = map (\<lambda>p. 2 * length p) rest"
    using Cons.IH [OF d(2) _ _ _ r] len Cons.prems(2-4) d(4) by auto
  then show ?case using ps d len Cons.prems(2,3)
    by (simp add: WebRtcG722_Decode_def WebRtc_g722_decode_def)
qed simp

text \<open>C27. A whole session through the WebRTC interface: after initialising encoder and decoder, for any sequence
  of frames the decoder accepts every packet, packets hold one byte per two input samples and decode to two
  samples per byte, and at the end the predictors of decoder and encoder are identical.\<close>

theorem g722_session:
  assumes "inst \<noteq> None" "inst' \<noteq> None" "WebRtcG722_EncoderInit alloc inst = (0, Some s)" "WebRtcG722_DecoderInit alloc' inst' = (0, Some t)"
    "enc_frames s frames = (ps, s')"
  shows "\<exists>pcms t'. dec_frames t ps = Some (pcms, t') \<and> band0 t' = band0 s' \<and> band1 t' = band1 s'
    \<and> map length ps = map (\<lambda>f. (length f + 1) div 2) frames \<and> map length pcms = map (\<lambda>p. 2 * length p) ps"
proof -
  have "s = t" "in_step s s" "\<not> eight_k s" "\<not> itu_test_mode s"
    using assms(1-4) by (auto simp: WebRtcG722_EncoderInit_def WebRtcG722_DecoderInit_def WebRtc_g722_encode_init_def
        WebRtc_g722_decode_init_def Let_def in_step_def split: if_splits)
  then show ?thesis using session_in_step [of s t frames ps s'] assms(5) by (auto simp: in_step_def)
qed

theorem g722_session_witness:
  "\<exists>pcms t'. dec_frames g722_start (fst (enc_frames g722_start [[1, 2], [3, 4, 5, 6]])) = Some (pcms, t')
    \<and> band0 t' = band0 (snd (enc_frames g722_start [[1, 2], [3, 4, 5, 6]]))
    \<and> map length pcms = [2, 4]"
proof -
  have i: "WebRtcG722_EncoderInit True (Some undefined) = (0, Some g722_start)" "WebRtcG722_DecoderInit True (Some undefined) = (0, Some g722_start)"
    by (simp_all add: WebRtcG722_EncoderInit_def WebRtcG722_DecoderInit_def g722_start_def WebRtc_g722_encode_init_def WebRtc_g722_decode_init_def Let_def)
  obtain ps s' where e: "enc_frames g722_start [[1, 2], [3, 4, 5, 6]] = (ps, s')" by (metis surj_pair)
  from g722_session [OF _ _ i e] obtain pcms t' where r: "dec_frames g722_start ps = Some (pcms, t')" "band0 t' = band0 s'"
    "map length ps = [1, 2]" "map length pcms = map (\<lambda>p. 2 * length p) ps" by auto
  have "map length pcms = map (\<lambda>n. 2 * n) (map length ps)" unfolding map_map comp_def by (rule r(4))
  then show ?thesis unfolding r(3) using r(1,2) e by simp
qed

subsection \<open>Bounds of the predictor state\<close>

definition bounded :: "nat \<Rightarrow> int list \<Rightarrow> bool" where
  "bounded n xs \<longleftrightarrow> length xs = n \<and> list_all is16 xs"

lemma bounded_update: "bounded n xs \<Longrightarrow> is16 v \<Longrightarrow> bounded n (xs[i := v])"
  by (cases "i < length xs") (auto simp: bounded_def list_all_length nth_list_update)

lemma bounded_nth: "bounded n xs \<Longrightarrow> i < n \<Longrightarrow> is16 (xs ! i)"
  by (simp add: bounded_def list_all_length)

lemma bounded_length: "bounded n xs \<Longrightarrow> length xs = n"
  by (simp add: bounded_def)

lemma is16_saturate [simp, intro]: "is16 (saturate v)"
proof -
  have "saturate v = s16 v \<or> saturate v = 32767 \<or> saturate v = -32768" by (simp add: saturate_def Let_def)
  then show ?thesis using is16_s16 [of v] by (auto simp: is16_def)
qed

lemma saturate_clamp: "saturate v = max (-32768) (min 32767 v)"
proof (cases "is16 v")
  case True
  then show ?thesis by (simp add: saturate_def Let_def) (simp add: is16_def)
next
  case False
  then have "s16 v \<noteq> v" by (metis is16_s16)
  then show ?thesis using False by (auto simp: saturate_def Let_def is16_def)
qed

text \<open>The pole coefficients stay in the stability region of the second-order section: \<open>|a2| <= 0.75\<close> and
  \<open>|a1| <= 1 - 2 ^ (-4) - a2\<close> in Q14.\<close>

definition stable :: "int list \<Rightarrow> bool" where
  "stable a \<longleftrightarrow> \<bar>a ! 2\<bar> \<le> 12288 \<and> \<bar>a ! 1\<bar> \<le> 15360 - a ! 2"

definition band_shape :: "g722_band \<Rightarrow> bool" where
  "band_shape B \<longleftrightarrow> bounded 3 (g_r B) \<and> bounded 3 (g_a B) \<and> bounded 3 (g_ap B) \<and> bounded 3 (g_p B) \<and> bounded 7 (g_d B)
     \<and> bounded 7 (g_b B) \<and> bounded 7 (g_bp B) \<and> length (g_sg B) = 7 \<and> is16 (g_s B) \<and> is16 (g_sp B) \<and> is16 (g_sz B)"

definition band_inv :: "g722_band \<Rightarrow> bool" where
  "band_inv B \<longleftrightarrow> band_shape B \<and> stable (g_a B) \<and> 0 \<le> g_nb B \<and> g_nb B \<le> 22528 \<and> 0 < g_det B \<and> g_det B \<le> 32064"

lemma recons_shape: "band_shape B \<Longrightarrow> is16 dd \<Longrightarrow> band_shape (block4_recons dd B)"
  by (simp add: block4_recons_def band_shape_def bounded_update)

lemma clamp_abs: "0 \<le> w \<Longrightarrow> \<bar>if v > w then w else if v < - w then - w else v\<bar> \<le> w" for v w :: int
  by (auto simp: abs_le_iff)

lemma uppol2_form: "\<exists>y. block4_uppol2 B = (signs_p B)\<lparr>g_ap := (g_ap (signs_p B))[2 := y]\<rparr> \<and> \<bar>y\<bar> \<le> 12288"
  unfolding block4_uppol2_def Let_def by (intro exI conjI, rule refl, rule clamp_abs) simp

lemma uppol2_shape:
  assumes "band_shape B"
  shows "band_shape (block4_uppol2 B)" "\<bar>g_ap (block4_uppol2 B) ! 2\<bar> \<le> 12288"
proof -
  obtain y where y: "block4_uppol2 B = (signs_p B)\<lparr>g_ap := (g_ap (signs_p B))[2 := y]\<rparr>" "\<bar>y\<bar> \<le> 12288"
    using uppol2_form by blast
  then have "is16 y" by (auto simp: is16_def abs_le_iff)
  then show "band_shape (block4_uppol2 B)" "\<bar>g_ap (block4_uppol2 B) ! 2\<bar> \<le> 12288"
    using assms y(2) bounded_length [of 3 "g_ap B"] by (simp_all add: y(1) signs_p_def band_shape_def bounded_update)
qed

lemma uppol1_form:
  assumes "C = B\<lparr>g_sg := (g_sg B)[0 := asr (g_p B ! 0) 15, 1 := asr (g_p B ! 1) 15]\<rparr>"
  shows "\<exists>y. block4_uppol1 B = C\<lparr>g_ap := (g_ap C)[1 := y]\<rparr>
     \<and> (0 \<le> saturate (15360 - g_ap C ! 2) \<longrightarrow> \<bar>y\<bar> \<le> saturate (15360 - g_ap C ! 2))"
  unfolding block4_uppol1_def Let_def assms [symmetric] by (intro exI conjI, rule refl, rule impI, rule clamp_abs)

lemma uppol1_shape:
  assumes "band_shape B" "\<bar>g_ap B ! 2\<bar> \<le> 12288"
  shows "band_shape (block4_uppol1 B)" "stable (g_ap (block4_uppol1 B))"
proof -
  have w: "saturate (15360 - g_ap B ! 2) = 15360 - g_ap B ! 2" using assms(2) by (auto simp: saturate_clamp)
  obtain y where y: "block4_uppol1 B = B\<lparr>g_sg := (g_sg B)[0 := asr (g_p B ! 0) 15, 1 := asr (g_p B ! 1) 15], g_ap := (g_ap B)[1 := y]\<rparr>"
    "\<bar>y\<bar> \<le> 15360 - g_ap B ! 2" using uppol1_form [OF refl, of B] w assms(2) by auto
  then have "is16 y" using assms(2) by (auto simp: is16_def abs_le_iff)
  then show "band_shape (block4_uppol1 B)" "stable (g_ap (block4_uppol1 B))"
    using assms y(2) bounded_length [of 3 "g_ap B"] by (simp_all add: y(1) band_shape_def bounded_update stable_def)
qed

lemma upzero_shape:
  assumes "band_shape B" "stable (g_ap B)"
  shows "band_shape (block4_upzero dd B) \<and> stable (g_ap (block4_upzero dd B))"
  unfolding block4_upzero_def Let_def
  by (rule fold_inv) (use assms in \<open>auto simp: band_shape_def bounded_update\<close>)

lemma delaya_shape:
  assumes "band_shape B" "stable (g_ap B)"
  shows "band_shape (block4_delaya B) \<and> stable (g_a (block4_delaya B))"
proof -
  have 1: "band_shape (fold (\<lambda>i B. B\<lparr>g_d := (g_d B)[i := g_d B ! (i - 1)], g_b := (g_b B)[i := g_bp B ! i]\<rparr>) [6, 5, 4, 3, 2, 1] B)
      \<and> stable (g_ap (fold (\<lambda>i B. B\<lparr>g_d := (g_d B)[i := g_d B ! (i - 1)], g_b := (g_b B)[i := g_bp B ! i]\<rparr>) [6, 5, 4, 3, 2, 1] B))"
    by (rule fold_inv) (use assms in \<open>auto simp: band_shape_def intro!: bounded_update bounded_nth\<close>)
  have 2: "band_shape C \<Longrightarrow> stable (g_ap C) \<Longrightarrow> band_shape (fold (\<lambda>i B. B\<lparr>g_r := (g_r B)[i := g_r B ! (i - 1)], g_p := (g_p B)[i := g_p B ! (i - 1)],
          g_a := (g_a B)[i := g_ap B ! i]\<rparr>) [2, 1] C) \<and> stable (g_a (fold (\<lambda>i B. B\<lparr>g_r := (g_r B)[i := g_r B ! (i - 1)], g_p := (g_p B)[i := g_p B ! (i - 1)],
          g_a := (g_a B)[i := g_ap B ! i]\<rparr>) [2, 1] C))" for C
    by (auto simp: band_shape_def stable_def bounded_length intro!: bounded_update bounded_nth)
  show ?thesis using 1 2 unfolding block4_delaya_def Let_def by blast
qed

lemma filters_shape:
  "band_shape B \<Longrightarrow> band_shape (block4_predic (block4_filtez (block4_filtep B)))"
  "g_a (block4_predic (block4_filtez (block4_filtep B))) = g_a B"
  by (simp_all add: block4_predic_def block4_filtez_def block4_filtep_def Let_def band_shape_def)

lemma block4_frame: "g_nb (block4 B dd) = g_nb B \<and> g_det (block4 B dd) = g_det B"
proof -
  let ?P = "\<lambda>C. g_nb C = g_nb B \<and> g_det C = g_det B"
  have recons: "?P (block4_recons dd B)" by (simp add: block4_recons_def)
  have pol2: "?P C \<Longrightarrow> ?P (block4_uppol2 C)" for C using uppol2_form [of C] by (auto simp: signs_p_def)
  have pol1: "?P C \<Longrightarrow> ?P (block4_uppol1 C)" for C using uppol1_form [OF refl, of C] by auto
  have zero: "?P C \<Longrightarrow> ?P (block4_upzero dd C)" for C
    unfolding block4_upzero_def Let_def by (rule fold_inv [where P = ?P]) auto
  have delay: "?P C \<Longrightarrow> ?P (block4_delaya C)" for C
    unfolding block4_delaya_def Let_def by (rule fold_inv [where P = ?P], rule fold_inv [where P = ?P]) auto
  have filters: "?P C \<Longrightarrow> ?P (block4_predic (block4_filtez (block4_filtep C)))" for C
    by (simp add: block4_predic_def block4_filtez_def block4_filtep_def Let_def)
  show ?thesis unfolding block4_def by (intro filters delay zero pol1 pol2 recons)
qed

lemma block4_inv:
  assumes "band_shape B" "is16 dd"
  shows "band_shape (block4 B dd) \<and> stable (g_a (block4 B dd))"
proof -
  note 1 = recons_shape [OF assms]
  note 2 = uppol1_shape [OF uppol2_shape [OF 1]]
  note 3 = delaya_shape [OF conjunct1 [OF upzero_shape [OF 2]] conjunct2 [OF upzero_shape [OF 2]]]
  show ?thesis using 3 filters_shape unfolding block4_def by auto
qed

text \<open>The step size: the exponent is 8 (10) minus the leading bits of the log step size, which is clamped.\<close>

lemma ilb_bounds: "k < 32 \<Longrightarrow> 2048 \<le> ilb ! k \<and> ilb ! k \<le> 4008"
proof -
  have "list_all (\<lambda>k. 2048 \<le> ilb ! k \<and> ilb ! k \<le> 4008) [0..<32]" by code_simp
  then show "k < 32 \<Longrightarrow> 2048 \<le> ilb ! k \<and> ilb ! k \<le> 4008" by (auto simp: list_all_iff)
qed

lemma scale_bounds:
  assumes "0 \<le> nb" "asr nb 11 \<le> m + 1" "0 \<le> m" "m \<le> 10"
    and det: "det = shl (if m - asr nb 11 < 0 then shl (ilb ! nat (asr nb 6 AND 31)) (nat (- (m - asr nb 11)))
        else asr (ilb ! nat (asr nb 6 AND 31)) (nat (m - asr nb 11))) 2"
  shows "0 < det \<and> det \<le> 32064"
proof -
  let ?k = "nat (asr nb 6 AND 31)" and ?e = "m - asr nb 11"
  have "?k < 32" using and_masks(2) [of "asr nb 6"] pos_mod_bound [of 32 "asr nb 6"] by simp
  then have i: "2048 \<le> ilb ! ?k" "ilb ! ?k \<le> 4008" using ilb_bounds by auto
  have a: "0 \<le> asr nb 11" using assms(1) by (simp add: asr_div)
  show ?thesis
  proof (cases "?e < 0")
    case True
    then have "nat (- ?e) = 1" using assms(2) by simp
    then show ?thesis using i True by (simp add: det shl_mult)
  next
    case False
    then have "nat ?e \<le> 10" using a assms(4) by simp
    have "1 \<le> asr (ilb ! ?k) (nat ?e)"
    proof -
      have "(2 :: int) ^ nat ?e \<le> 2 ^ 10" using \<open>nat ?e \<le> 10\<close> by (intro power_increasing) auto
      then have "1 * 2 ^ nat ?e \<le> ilb ! ?k" using i(1) by simp
      then show ?thesis using zdiv_mono1 [of "1 * 2 ^ nat ?e" "ilb ! ?k" "2 ^ nat ?e"] by (simp add: asr_div)
    qed
    moreover have "asr (ilb ! ?k) (nat ?e) \<le> ilb ! ?k"
      using i(1) zdiv_mono2 [of "ilb ! ?k" 1 "2 ^ nat ?e"] by (simp add: asr_div)
    ultimately show ?thesis using i(2) False by (simp add: det shl_mult)
  qed
qed


lemma det_product_bound: "0 < det \<Longrightarrow> det \<le> 32064 \<Longrightarrow> \<bar>w\<bar> \<le> 24808 \<Longrightarrow> is16 (asr (det * w) 15)"
proof -
  assume d: "0 < det" "det \<le> 32064" and w: "\<bar>w\<bar> \<le> 24808"
  have "\<bar>det * w\<bar> \<le> 32064 * 24808" using d w mult_mono [of det 32064 "\<bar>w\<bar>" 24808] by (simp add: abs_mult)
  then have "- 32768 * 2 ^ 15 \<le> det * w" "det * w < (32767 + 1) * 2 ^ 15" by simp_all
  from asr_bounds [OF this] show ?thesis by (simp add: is16_def)
qed

lemma table_bounds: "ril < 16 \<Longrightarrow> \<bar>qm4 ! ril\<bar> \<le> 24808" "ih < 4 \<Longrightarrow> \<bar>qm2 ! ih\<bar> \<le> 24808"
proof -
  have "list_all (\<lambda>k. \<bar>qm4 ! k\<bar> \<le> 24808) [0..<16]" "list_all (\<lambda>k. \<bar>qm2 ! k\<bar> \<le> 24808) [0..<4]" by code_simp+
  then show "ril < 16 \<Longrightarrow> \<bar>qm4 ! ril\<bar> \<le> 24808" "ih < 4 \<Longrightarrow> \<bar>qm2 ! ih\<bar> \<le> 24808" by (auto simp: list_all_iff)
qed

lemma low_adapt_inv:
  assumes "band_inv B" "ril < 16"
  shows "band_inv (low_adapt B ril) \<and> g_nb (low_adapt B ril) \<le> 18432"
proof -
  define w nb where "w = asr (g_nb B * 127) 7 + wl ! (rl42 ! ril)" and "nb = (if w < 0 then 0 else if w > 18432 then 18432 else w)"
  have nb: "low_adapt B ril = block4 (B\<lparr>g_nb := nb,
      g_det := shl (if 8 - asr nb 11 < 0 then shl (ilb ! nat (asr nb 6 AND 31)) (nat (- (8 - asr nb 11)))
        else asr (ilb ! nat (asr nb 6 AND 31)) (nat (8 - asr nb 11))) 2\<rparr>) (asr (g_det B * qm4 ! ril) 15)"
    "0 \<le> nb" "nb \<le> 18432" unfolding low_adapt_def Let_def w_def [symmetric] nb_def [symmetric] by (simp_all add: nb_def)
  have "asr nb 11 \<le> 8 + 1" using asr_bounds(2) [of 0 11 nb 9] nb by simp
  note det = scale_bounds [OF nb(2) this _ _ refl]
  have "is16 (asr (g_det B * qm4 ! ril) 15)" using assms table_bounds(1) by (intro det_product_bound) (auto simp: band_inv_def)
  then show ?thesis using assms(1) block4_inv block4_frame nb det
    by (simp add: band_inv_def band_shape_def)
qed

lemma high_adapt_inv:
  assumes "band_inv B" "ih < 4"
  shows "band_inv (high_adapt B ih)"
proof -
  define w nb where "w = asr (g_nb B * 127) 7 + wh ! (rh2 ! ih)" and "nb = (if w < 0 then 0 else if w > 22528 then 22528 else w)"
  have nb: "high_adapt B ih = block4 (B\<lparr>g_nb := nb,
      g_det := shl (if 10 - asr nb 11 < 0 then shl (ilb ! nat (asr nb 6 AND 31)) (nat (- (10 - asr nb 11)))
        else asr (ilb ! nat (asr nb 6 AND 31)) (nat (10 - asr nb 11))) 2\<rparr>) (asr (g_det B * qm2 ! ih) 15)"
    "0 \<le> nb" "nb \<le> 22528" unfolding high_adapt_def Let_def w_def [symmetric] nb_def [symmetric] by (simp_all add: nb_def)
  have "asr nb 11 \<le> 10 + 1" using asr_bounds(2) [of 0 11 nb 11] nb by simp
  note det = scale_bounds [OF nb(2) this _ _ refl]
  have "is16 (asr (g_det B * qm2 ! ih) 15)" using assms table_bounds(2) by (intro det_product_bound) (auto simp: band_inv_def)
  then show ?thesis using assms(1) block4_inv block4_frame nb det
    by (simp add: band_inv_def band_shape_def)
qed


text \<open>C28. The predictor state of both bands stays bounded for ever: whatever the input, every signal and
  coefficient of the state is a 16-bit number, the pole coefficients stay in the stability region, and the step
  size stays positive and at most 32064, for every code word that can be received.\<close>

theorem g722_state_bounded:
  assumes "band_inv (band0 t)" "band_inv (band1 t)" "dec_code t code rhigh = (rlow, rhigh', t')" "0 \<le> code" "code < 256"
    "bits_per_sample t = 6 \<or> bits_per_sample t = 7 \<or> bits_per_sample t = 8"
  shows "band_inv (band0 t') \<and> band_inv (band1 t') \<and> -16384 \<le> rlow \<and> rlow \<le> 16383"
proof -
  obtain w h q where f: "dec_fields (bits_per_sample t) code = (w, h, q)" by (cases "dec_fields (bits_per_sample t) code") auto
  have m: "0 \<le> code mod k \<and> code mod k < k" if "0 < k" for k :: int using that by simp
  have "nat w < 16" "nat h < 4"
    using f assms(4-6) m [of 64] m [of 32] m [of 16]
    by (auto simp: dec_fields_def asr_div and_masks split: if_splits)
  then have "band_inv (low_adapt (band0 t) (nat w))" "band_inv (high_adapt (band1 t) (nat h))"
    using low_adapt_inv [OF assms(1)] high_adapt_inv [OF assms(2)] by auto
  then show ?thesis using assms(1-3) f dec_high_adapt_eq [of "band1 t" "nat h"]
    by (auto simp: dec_code_def Let_def dec_low_adapt_eq limit15_def split: if_splits prod.splits)
qed

lemma start_band_inv: "band_inv (band0 g722_start)" "band_inv (band1 g722_start)"
  by (simp_all add: g722_start_def WebRtc_g722_encode_init_def Let_def zero_band_def band_inv_def band_shape_def stable_def
      bounded_def is16_def eval_nat_numeral)

theorem g722_state_bounded_witness:
  "band_inv (band0 (snd (snd (dec_code g722_start 77 0)))) \<and> band_inv (band1 (snd (snd (dec_code g722_start 77 0))))"
proof -
  obtain rl rh t' where d: "dec_code g722_start 77 0 = (rl, rh, t')" by (metis prod_cases3)
  have "bits_per_sample g722_start = 8" by (simp add: g722_start_def WebRtc_g722_encode_init_def Let_def)
  then show ?thesis using g722_state_bounded [OF start_band_inv d] d by simp
qed

end
