(* ===== verification/SplResample.thy ===== *)
theory SplResample
  imports SplMath
begin

text \<open>
  The fixed-ratio resamplers of the signal processing library:
  \<^verbatim>\<open>resample_by_2_internal.c\<close> (all-pass decimators, interpolators and half-band filters),
  \<^verbatim>\<open>resample_fractional.c\<close> (polyphase interpolation by 2/3 and 3/4) and
  \<^verbatim>\<open>resample_48khz.c\<close> (the chains between 48 kHz and 8 or 16 kHz).

  The chains work in a scratch array \<open>tmpmem\<close> whose regions overlap from stage to stage.
  The array is modelled as a list that is threaded through every loop, each iteration reading
  the current content and writing one cell, so that the effect of the overlaps is part of the
  model.  Sums and products of 32-bit values wrap around.
\<close>

section \<open>All-pass sections\<close>

definition kResampleAllpass :: "int list list" where
  "kResampleAllpass = [[821, 6110, 12382], [3050, 9368, 15063]]"

definition trunc14 :: "int \<Rightarrow> int" where
  "trunc14 d = (let diff = asr d 14 in if diff < 0 then diff + 1 else diff)"

definition allpass_step :: "int list \<Rightarrow> nat \<Rightarrow> int list \<Rightarrow> int \<Rightarrow> int list" where
  "allpass_step c k state x =
     (let diff = asr (s32 (s32 (x - state ! (k + 1)) + 8192)) 14;
          tmp1 = s32 (state ! k + s32 (diff * c ! 0));
          diff = trunc14 (s32 (tmp1 - state ! (k + 2)));
          tmp0 = s32 (state ! (k + 1) + s32 (diff * c ! 1));
          diff = trunc14 (s32 (tmp0 - state ! (k + 3)));
          s3 = s32 (state ! (k + 2) + s32 (diff * c ! 2))
      in state[k := x, k + 1 := tmp1, k + 2 := tmp0, k + 3 := s3])"

definition allpass_loop ::
  "(int list \<Rightarrow> nat \<Rightarrow> int) \<Rightarrow> (int list \<Rightarrow> nat \<Rightarrow> int \<Rightarrow> int list) \<Rightarrow> int list \<Rightarrow> nat \<Rightarrow> nat
    \<Rightarrow> int list \<times> int list \<Rightarrow> int list \<times> int list" where
  "allpass_loop rd wr c k len ms =
     fold (\<lambda>i (mem, state).
       let state' = allpass_step c k state (rd mem i)
       in (wr mem i (state' ! (k + 3)), state')) [0..<len] ms"

definition sat_short :: "int \<Rightarrow> int" where
  "sat_short x = (if x > 32767 then 32767 else if x < -32768 then -32768 else x)"

text \<open>A 16-bit input sample as the 32-bit fixed-point value the filters work on.\<close>

definition short_q15 :: "int \<Rightarrow> int" where
  "short_q15 x = s32 (shl x 15 + 16384)"

section \<open>Decimators\<close>

definition WebRtcSpl_DownBy2IntToShort ::
  "int list \<Rightarrow> nat \<Rightarrow> nat \<Rightarrow> int list \<Rightarrow> int list \<times> int list \<times> int list" where
  "WebRtcSpl_DownBy2IntToShort mem inp len state =
     (let n = len div 2;
          (mem, state) = allpass_loop (\<lambda>m i. m ! (inp + 2 * i))
             (\<lambda>m i y. m[inp + 2 * i := asr y 1]) (kResampleAllpass ! 1) 0 n (mem, state);
          (mem, state) = allpass_loop (\<lambda>m i. m ! (inp + 1 + 2 * i))
             (\<lambda>m i y. m[inp + 1 + 2 * i := asr y 1]) (kResampleAllpass ! 0) 4 n (mem, state);
          comb = (\<lambda>i. sat_short (asr (s32 (mem ! (inp + 2 * i) + mem ! (inp + 2 * i + 1))) 15));
          out = concat (map (\<lambda>j. [comb (2 * j), comb (2 * j + 1)]) [0..<(n + 1) div 2])
      in (out, mem, state))"

definition WebRtcSpl_DownBy2ShortToInt ::
  "int list \<Rightarrow> nat \<Rightarrow> int list \<Rightarrow> nat \<Rightarrow> int list \<Rightarrow> int list \<times> int list" where
  "WebRtcSpl_DownBy2ShortToInt inp len mem out state =
     (let n = len div 2;
          (mem, state) = allpass_loop (\<lambda>_ i. short_q15 (inp ! (2 * i)))
             (\<lambda>m i y. m[out + i := asr y 1]) (kResampleAllpass ! 1) 0 n (mem, state)
      in allpass_loop (\<lambda>_ i. short_q15 (inp ! (2 * i + 1)))
             (\<lambda>m i y. m[out + i := s32 (m ! (out + i) + asr y 1)])
             (kResampleAllpass ! 0) 4 n (mem, state))"

section \<open>Interpolators\<close>

definition WebRtcSpl_UpBy2ShortToInt ::
  "int list \<Rightarrow> nat \<Rightarrow> int list \<Rightarrow> nat \<Rightarrow> int list \<Rightarrow> int list \<times> int list" where
  "WebRtcSpl_UpBy2ShortToInt inp len mem out state =
     allpass_loop (\<lambda>_ i. short_q15 (inp ! i)) (\<lambda>m i y. m[out + 1 + 2 * i := asr y 15])
       (kResampleAllpass ! 1) 0 len
       (allpass_loop (\<lambda>_ i. short_q15 (inp ! i)) (\<lambda>m i y. m[out + 2 * i := asr y 15])
          (kResampleAllpass ! 0) 4 len (mem, state))"

definition WebRtcSpl_UpBy2IntToInt ::
  "int list \<Rightarrow> nat \<Rightarrow> nat \<Rightarrow> nat \<Rightarrow> int list \<Rightarrow> int list \<times> int list" where
  "WebRtcSpl_UpBy2IntToInt mem inp len out state =
     allpass_loop (\<lambda>m i. m ! (inp + i)) (\<lambda>m i y. m[out + 1 + 2 * i := y])
       (kResampleAllpass ! 1) 0 len
       (allpass_loop (\<lambda>m i. m ! (inp + i)) (\<lambda>m i y. m[out + 2 * i := y])
          (kResampleAllpass ! 0) 4 len (mem, state))"

definition WebRtcSpl_UpBy2IntToShort ::
  "int list \<Rightarrow> nat \<Rightarrow> int list \<Rightarrow> int list \<Rightarrow> int list \<times> int list" where
  "WebRtcSpl_UpBy2IntToShort inp len out state =
     allpass_loop (\<lambda>_ i. inp ! i) (\<lambda>m i y. m[1 + 2 * i := sat_short (asr y 15)])
       (kResampleAllpass ! 1) 0 len
       (allpass_loop (\<lambda>_ i. inp ! i) (\<lambda>m i y. m[2 * i := sat_short (asr y 15)])
          (kResampleAllpass ! 0) 4 len (out, state))"

section \<open>Half-band low-pass filters\<close>

definition lp_by2 ::
  "(int list \<Rightarrow> nat \<Rightarrow> int) \<Rightarrow> nat \<Rightarrow> int list \<Rightarrow> nat \<Rightarrow> int list \<Rightarrow> int list \<times> int list" where
  "lp_by2 rd len mem out state =
     (let n = len div 2;
          delay = state ! 12;
          ms = allpass_loop (\<lambda>m i. if i = 0 then delay else rd m (2 * (i - 1) + 1))
                 (\<lambda>m i y. m[out + 2 * i := asr y 1]) (kResampleAllpass ! 1) 0 n (mem, state);
          ms = allpass_loop (\<lambda>m i. rd m (2 * i))
                 (\<lambda>m i y. m[out + 2 * i := asr (s32 (m ! (out + 2 * i) + asr y 1)) 15])
                 (kResampleAllpass ! 0) 4 n ms;
          ms = allpass_loop (\<lambda>m i. rd m (2 * i))
                 (\<lambda>m i y. m[out + 1 + 2 * i := asr y 1]) (kResampleAllpass ! 1) 8 n ms
      in allpass_loop (\<lambda>m i. rd m (2 * i + 1))
           (\<lambda>m i y. m[out + 1 + 2 * i := asr (s32 (m ! (out + 1 + 2 * i) + asr y 1)) 15])
           (kResampleAllpass ! 0) 12 n ms)"

definition WebRtcSpl_LPBy2ShortToInt ::
  "int list \<Rightarrow> nat \<Rightarrow> int list \<Rightarrow> nat \<Rightarrow> int list \<Rightarrow> int list \<times> int list" where
  "WebRtcSpl_LPBy2ShortToInt inp len mem out state =
     lp_by2 (\<lambda>_ j. short_q15 (inp ! j)) len mem out state"

definition WebRtcSpl_LPBy2IntToInt ::
  "int list \<Rightarrow> nat \<Rightarrow> nat \<Rightarrow> nat \<Rightarrow> int list \<Rightarrow> int list \<times> int list" where
  "WebRtcSpl_LPBy2IntToInt mem inp len out state =
     lp_by2 (\<lambda>m j. m ! (inp + j)) len mem out state"

section \<open>Fractional interpolation\<close>

definition kCoefficients48To32 :: "int list list" where
  "kCoefficients48To32 =
     [[778, -2050, 1087, 23285, 12903, -3783, 441, 222],
      [222, 441, -3783, 12903, 23285, 1087, -2050, 778]]"

definition kCoefficients32To24 :: "int list list" where
  "kCoefficients32To24 =
     [[767, -2362, 2434, 24406, 10620, -3838, 721, 90],
      [386, -381, -2646, 19062, 19062, -2646, -381, 386],
      [90, 721, -3838, 10620, 24406, 2434, -2362, 767]]"

definition fir8 :: "int list \<Rightarrow> int list \<Rightarrow> nat \<Rightarrow> int" where
  "fir8 c mem p = fold (\<lambda>j tmp. s32 (tmp + s32 (c ! j * mem ! (p + j)))) [0..<8] 16384"

primrec WebRtcSpl_Resample48khzTo32khz :: "nat \<Rightarrow> int list \<Rightarrow> nat \<Rightarrow> nat \<Rightarrow> int list" where
  "WebRtcSpl_Resample48khzTo32khz 0 mem inp out = mem"
| "WebRtcSpl_Resample48khzTo32khz (Suc K) mem inp out =
     (let mem = mem[out := fir8 (kCoefficients48To32 ! 0) mem inp];
          mem = mem[out + 1 := fir8 (kCoefficients48To32 ! 1) mem (inp + 1)]
      in WebRtcSpl_Resample48khzTo32khz K mem (inp + 3) (out + 2))"

primrec WebRtcSpl_Resample32khzTo24khz :: "nat \<Rightarrow> int list \<Rightarrow> nat \<Rightarrow> nat \<Rightarrow> int list" where
  "WebRtcSpl_Resample32khzTo24khz 0 mem inp out = mem"
| "WebRtcSpl_Resample32khzTo24khz (Suc K) mem inp out =
     (let mem = mem[out := fir8 (kCoefficients32To24 ! 0) mem inp];
          mem = mem[out + 1 := fir8 (kCoefficients32To24 ! 1) mem (inp + 1)];
          mem = mem[out + 2 := fir8 (kCoefficients32To24 ! 2) mem (inp + 2)]
      in WebRtcSpl_Resample32khzTo24khz K mem (inp + 4) (out + 3))"

section \<open>The chains\<close>

record WebRtcSpl_State48khzTo8khz =
  S_48_24 :: "int list"
  S_24_24 :: "int list"
  S_24_16 :: "int list"
  S_16_8 :: "int list"

record WebRtcSpl_State48khzTo16khz =
  S_48_48 :: "int list"
  S_48_32 :: "int list"
  S_32_16 :: "int list"

definition mem_slice :: "int list \<Rightarrow> nat \<Rightarrow> nat \<Rightarrow> int list" where
  "mem_slice mem p n = take n (drop p mem)"

definition WebRtcSpl_Resample48khzTo8khz ::
  "int list \<Rightarrow> WebRtcSpl_State48khzTo8khz \<Rightarrow> int list
    \<Rightarrow> int list \<times> WebRtcSpl_State48khzTo8khz \<times> int list" where
  "WebRtcSpl_Resample48khzTo8khz inp state tmpmem =
     (let (tmpmem, s1) = WebRtcSpl_DownBy2ShortToInt inp 480 tmpmem 256 (S_48_24 state);
          (tmpmem, s2) = WebRtcSpl_LPBy2IntToInt tmpmem 256 240 16 (S_24_24 state);
          tmpmem = memcpy tmpmem 8 (S_24_16 state);
          s3 = mem_slice tmpmem 248 8;
          tmpmem = WebRtcSpl_Resample48khzTo32khz 80 tmpmem 8 0;
          (out, tmpmem, s4) = WebRtcSpl_DownBy2IntToShort tmpmem 0 160 (S_16_8 state)
      in (out, \<lparr>S_48_24 = s1, S_24_24 = s2, S_24_16 = s3, S_16_8 = s4\<rparr>, tmpmem))"

definition WebRtcSpl_ResetResample48khzTo8khz :: "WebRtcSpl_State48khzTo8khz" where
  "WebRtcSpl_ResetResample48khzTo8khz =
     \<lparr>S_48_24 = replicate 8 0, S_24_24 = replicate 16 0, S_24_16 = replicate 8 0,
      S_16_8 = replicate 8 0\<rparr>"

definition WebRtcSpl_Resample48khzTo16khz ::
  "int list \<Rightarrow> WebRtcSpl_State48khzTo16khz \<Rightarrow> int list
    \<Rightarrow> int list \<times> WebRtcSpl_State48khzTo16khz \<times> int list" where
  "WebRtcSpl_Resample48khzTo16khz inp state tmpmem =
     (let (tmpmem, s1) = WebRtcSpl_LPBy2ShortToInt inp 480 tmpmem 16 (S_48_48 state);
          tmpmem = memcpy tmpmem 8 (S_48_32 state);
          s2 = mem_slice tmpmem 488 8;
          tmpmem = WebRtcSpl_Resample48khzTo32khz 160 tmpmem 8 0;
          (out, tmpmem, s3) = WebRtcSpl_DownBy2IntToShort tmpmem 0 320 (S_32_16 state)
      in (out, \<lparr>S_48_48 = s1, S_48_32 = s2, S_32_16 = s3\<rparr>, tmpmem))"

definition WebRtcSpl_ResetResample48khzTo16khz :: "WebRtcSpl_State48khzTo16khz" where
  "WebRtcSpl_ResetResample48khzTo16khz =
     \<lparr>S_48_48 = replicate 16 0, S_48_32 = replicate 8 0, S_32_16 = replicate 8 0\<rparr>"

record WebRtcSpl_State16khzTo48khz =
  S_16_32 :: "int list"
  S_32_24 :: "int list"
  S_24_48 :: "int list"

definition WebRtcSpl_Resample16khzTo48khz ::
  "int list \<Rightarrow> int list \<Rightarrow> WebRtcSpl_State16khzTo48khz \<Rightarrow> int list
    \<Rightarrow> int list \<times> WebRtcSpl_State16khzTo48khz \<times> int list" where
  "WebRtcSpl_Resample16khzTo48khz inp out state tmpmem =
     (let (tmpmem, s1) = WebRtcSpl_UpBy2ShortToInt inp 160 tmpmem 16 (S_16_32 state);
          tmpmem = memcpy tmpmem 8 (S_32_24 state);
          s2 = mem_slice tmpmem 328 8;
          tmpmem = WebRtcSpl_Resample32khzTo24khz 80 tmpmem 8 0;
          (out, s3) = WebRtcSpl_UpBy2IntToShort tmpmem 240 out (S_24_48 state)
      in (out, \<lparr>S_16_32 = s1, S_32_24 = s2, S_24_48 = s3\<rparr>, tmpmem))"

definition WebRtcSpl_ResetResample16khzTo48khz :: "WebRtcSpl_State16khzTo48khz" where
  "WebRtcSpl_ResetResample16khzTo48khz =
     \<lparr>S_16_32 = replicate 8 0, S_32_24 = replicate 8 0, S_24_48 = replicate 8 0\<rparr>"

text \<open>The last stage of the 8 to 48 kHz chain has the same state name as that of the 16 to 48 kHz one.\<close>

record WebRtcSpl_State8khzTo48khz =
  S_8_16 :: "int list"
  S_16_12 :: "int list"
  S_12_24 :: "int list"
  S_24_48' :: "int list"

definition WebRtcSpl_Resample8khzTo48khz ::
  "int list \<Rightarrow> int list \<Rightarrow> WebRtcSpl_State8khzTo48khz \<Rightarrow> int list
    \<Rightarrow> int list \<times> WebRtcSpl_State8khzTo48khz \<times> int list" where
  "WebRtcSpl_Resample8khzTo48khz inp out state tmpmem =
     (let (tmpmem, s1) = WebRtcSpl_UpBy2ShortToInt inp 80 tmpmem 264 (S_8_16 state);
          tmpmem = memcpy tmpmem 256 (S_16_12 state);
          s2 = mem_slice tmpmem 416 8;
          tmpmem = WebRtcSpl_Resample32khzTo24khz 40 tmpmem 256 240;
          (tmpmem, s3) = WebRtcSpl_UpBy2IntToInt tmpmem 240 120 0 (S_12_24 state);
          (out, s4) = WebRtcSpl_UpBy2IntToShort tmpmem 240 out (S_24_48' state)
      in (out, \<lparr>S_8_16 = s1, S_16_12 = s2, S_12_24 = s3, S_24_48' = s4\<rparr>, tmpmem))"

definition WebRtcSpl_ResetResample8khzTo48khz :: "WebRtcSpl_State8khzTo48khz" where
  "WebRtcSpl_ResetResample8khzTo48khz =
     \<lparr>S_8_16 = replicate 8 0, S_16_12 = replicate 8 0, S_12_24 = replicate 8 0,
      S_24_48' = replicate 8 0\<rparr>"

end
