(* ===== verification/Vad.thy ===== *)
theory Vad
  imports SplVector SplResample
begin

text \<open>
  The voice activity detector of \<^verbatim>\<open>common_audio/vad\<close>: the instance structure (\<^verbatim>\<open>vad_core.h\<close>), the
  Gaussian probability (\<^verbatim>\<open>vad_gmm.c\<close>), the filter bank that extracts the band energies
  (\<^verbatim>\<open>vad_filterbank.c\<close>), the down-sampling and the tracking of the smallest energies (\<^verbatim>\<open>vad_sp.c\<close>),
  the decision and the model adaptation (\<^verbatim>\<open>vad_core.c\<close>) and the interface (\<^verbatim>\<open>webrtc_vad.c\<close>).
  C arrays are lists, conversions to narrower types are written out.
\<close>

section \<open>The instance\<close>

record VadInstT =
  vad :: int
  downsampling_filter_states :: "int list"
  state_48_to_8 :: WebRtcSpl_State48khzTo8khz
  noise_means :: "int list"
  speech_means :: "int list"
  noise_stds :: "int list"
  speech_stds :: "int list"
  frame_counter :: int
  over_hang :: int
  num_of_speech :: int
  index_vector :: "int list"
  low_value_vector :: "int list"
  mean_value :: "int list"
  upper_state :: "int list"
  lower_state :: "int list"
  hp_filter_state :: "int list"
  over_hang_max_1 :: "int list"
  over_hang_max_2 :: "int list"
  individual :: "int list"
  total_thr :: "int list"
  init_flag :: int

section \<open>Gaussian probability\<close>

text \<open>
  The block that approximates the exponential computes a mantissa \<^verbatim>\<open>exp_value\<close> and the count
  \<^verbatim>\<open>tmp16\<close> by which it is shifted right; \<open>gauss_exponent\<close> gives both. C leaves the shift undefined for a
  negative count or one above 31; the model takes the count modulo 32 there, as the 32-bit shift
  instruction of the target does, and \<open>GaussianProbability_bounds\<close> shows the count the code computes to
  be between 0 and 31 on the range it covers.
\<close>

definition gauss_exponent :: "int \<Rightarrow> int \<times> int" where
  "gauss_exponent tmp32 =
     (let t = s16 (WEBRTC_SPL_MUL_16_16_RSFT 5909 (s16 tmp32) 12);
          t = s16 (- t);
          e = s16 (0x0400 OR (t AND 0x03FF));
          t = s16 (t XOR 0xFFFF);
          t = asr t 10;
          t = s16 (t + 1)
      in (e, t))"

definition WebRtcVad_GaussianProbability :: "int \<Rightarrow> int \<Rightarrow> int \<Rightarrow> int \<times> int" where
  "WebRtcVad_GaussianProbability input mean std =
     (let inv_std = s16 (WebRtcSpl_DivW32W16 (s32 (131072 + asr std 1)) std);
          tmp16 = asr inv_std 2;
          inv_std2 = s16 (WEBRTC_SPL_MUL_16_16_RSFT tmp16 tmp16 2);
          tmp16 = s16 (shl input 3);
          tmp16 = s16 (tmp16 - mean);
          delta = s16 (WEBRTC_SPL_MUL_16_16_RSFT inv_std2 tmp16 10);
          tmp32 = WEBRTC_SPL_MUL_16_16_RSFT delta tmp16 9;
          exp_value =
            (if tmp32 < 22005 then let (e, t) = gauss_exponent tmp32 in asr e (nat (t mod 32))
             else 0)
      in (WEBRTC_SPL_MUL_16_16 inv_std exp_value, delta))"

section \<open>Filter bank\<close>

definition hp_step :: "int list \<Rightarrow> int \<Rightarrow> int list" where
  "hp_step st x =
     (let tmp32 = WEBRTC_SPL_MUL_16_16 6631 x;
          tmp32 = s32 (tmp32 + WEBRTC_SPL_MUL_16_16 (-13262) (st ! 0));
          tmp32 = s32 (tmp32 + WEBRTC_SPL_MUL_16_16 6631 (st ! 1));
          st = st[1 := st ! 0];
          st = st[0 := x];
          tmp32 = s32 (tmp32 - WEBRTC_SPL_MUL_16_16 (-7756) (st ! 2));
          tmp32 = s32 (tmp32 - WEBRTC_SPL_MUL_16_16 5620 (st ! 3));
          st = st[3 := st ! 2]
      in st[2 := s16 (asr tmp32 14)])"

primrec hp_loop :: "int list \<Rightarrow> int list \<Rightarrow> int list \<times> int list" where
  "hp_loop [] st = ([], st)"
| "hp_loop (x # xs) st = (let st = hp_step st x; (ys, st') = hp_loop xs st in (st ! 2 # ys, st'))"

definition HighPassFilter :: "int list \<Rightarrow> nat \<Rightarrow> int list \<Rightarrow> int list \<times> int list" where
  "HighPassFilter data_in data_length filter_state = hp_loop (take data_length data_in) filter_state"

primrec allpass16_loop :: "int \<Rightarrow> int list \<Rightarrow> int \<Rightarrow> int list \<times> int" where
  "allpass16_loop c [] state32 = ([], state32)"
| "allpass16_loop c (x # xs) state32 =
     (let tmp32 = s32 (state32 + WEBRTC_SPL_MUL_16_16 c x);
          tmp16 = s16 (asr tmp32 16);
          state32 = s32 (shl x 14);
          state32 = s32 (state32 - WEBRTC_SPL_MUL_16_16 c tmp16);
          state32 = s32 (shl state32 1);
          (ys, st) = allpass16_loop c xs state32
      in (tmp16 # ys, st))"

definition AllPassFilter :: "int list \<Rightarrow> nat \<Rightarrow> nat \<Rightarrow> int \<Rightarrow> int \<Rightarrow> int list \<times> int" where
  "AllPassFilter data_in first data_length filter_coefficient filter_state =
     (let (out, st) = allpass16_loop filter_coefficient
            (map (\<lambda>i. data_in ! (first + 2 * i)) [0..<data_length]) (s32 (shl filter_state 16))
      in (out, s16 (asr st 16)))"

definition SplitFilter :: "int list \<Rightarrow> nat \<Rightarrow> int \<Rightarrow> int \<Rightarrow> int list \<times> int list \<times> int \<times> int" where
  "SplitFilter data_in data_length upper lower =
     (let half_length = data_length div 2;
          (hp, upper) = AllPassFilter data_in 0 half_length 20972 upper;
          (lp, lower) = AllPassFilter data_in 1 half_length 5571 lower
      in (map2 (\<lambda>h l. s16 (h - l)) hp lp, map2 (\<lambda>h l. s16 (l + h)) hp lp, upper, lower))"

definition LogOfEnergy :: "int list \<Rightarrow> nat \<Rightarrow> int \<Rightarrow> int \<Rightarrow> int \<times> int" where
  "LogOfEnergy data_in data_length offset total_energy =
     (let (en, scaling) = WebRtcSpl_Energy data_in (int data_length);
          energy = u32 en
      in if energy \<noteq> 0 then
           let normalizing_rshifts = 17 - int (WebRtcSpl_NormU32 energy);
               tot_rshifts = int scaling + normalizing_rshifts;
               energy = (if normalizing_rshifts < 0 then u32 (shl energy (nat (- normalizing_rshifts)))
                         else asr energy (nat normalizing_rshifts));
               log2_energy = s16 (14336 + s16 (asr (energy AND 0x00003FFF) 4));
               log_energy = s16 (WEBRTC_SPL_MUL_16_16_RSFT 24660 log2_energy 19 +
                                 WEBRTC_SPL_MUL_16_16_RSFT tot_rshifts 24660 9);
               log_energy = (if log_energy < 0 then 0 else log_energy);
               log_energy = s16 (log_energy + offset);
               total_energy =
                 (if total_energy \<le> 10 then
                    if tot_rshifts \<ge> 0 then s16 (total_energy + 11)
                    else s16 (total_energy + s16 (asr energy (nat (- tot_rshifts))))
                  else total_energy)
           in (total_energy, log_energy)
         else (total_energy, offset))"

definition kOffsetVector :: "int list" where
  "kOffsetVector = [368, 368, 272, 176, 176, 176]"

definition WebRtcVad_CalculateFeatures :: "VadInstT \<Rightarrow> int list \<Rightarrow> nat \<Rightarrow> int \<times> int list \<times> VadInstT" where
  "WebRtcVad_CalculateFeatures self data_in data_length =
     (let half_data_length = data_length div 2;
          us = upper_state self; ls = lower_state self;
          (hp_120, lp_120, u, l) = SplitFilter data_in data_length (us ! 0) (ls ! 0);
          us = us[0 := u]; ls = ls[0 := l];
          (hp_60, lp_60, u, l) = SplitFilter hp_120 half_data_length (us ! 1) (ls ! 1);
          us = us[1 := u]; ls = ls[1 := l];
          len = half_data_length div 2;
          (total_energy, f5) = LogOfEnergy hp_60 len (kOffsetVector ! 5) 0;
          (total_energy, f4) = LogOfEnergy lp_60 len (kOffsetVector ! 4) total_energy;
          (hp_60, lp_60, u, l) = SplitFilter lp_120 half_data_length (us ! 2) (ls ! 2);
          us = us[2 := u]; ls = ls[2 := l];
          (total_energy, f3) = LogOfEnergy hp_60 len (kOffsetVector ! 3) total_energy;
          (hp_120, lp_120, u, l) = SplitFilter lp_60 len (us ! 3) (ls ! 3);
          us = us[3 := u]; ls = ls[3 := l];
          len = len div 2;
          (total_energy, f2) = LogOfEnergy hp_120 len (kOffsetVector ! 2) total_energy;
          (hp_60, lp_60, u, l) = SplitFilter lp_120 len (us ! 4) (ls ! 4);
          us = us[4 := u]; ls = ls[4 := l];
          len = len div 2;
          (total_energy, f1) = LogOfEnergy hp_60 len (kOffsetVector ! 1) total_energy;
          (hp_120, hs) = HighPassFilter lp_60 len (hp_filter_state self);
          (total_energy, f0) = LogOfEnergy hp_120 len (kOffsetVector ! 0) total_energy
      in (total_energy, [f0, f1, f2, f3, f4, f5],
          self\<lparr>upper_state := us, lower_state := ls, hp_filter_state := hs\<rparr>))"

section \<open>Down-sampling\<close>

primrec vad_down_loop :: "nat \<Rightarrow> int list \<Rightarrow> int \<Rightarrow> int \<Rightarrow> int list \<times> int \<times> int" where
  "vad_down_loop 0 signal tmp32_1 tmp32_2 = ([], tmp32_1, tmp32_2)"
| "vad_down_loop (Suc n) signal tmp32_1 tmp32_2 =
     (let tmp16_1 = s16 (asr tmp32_1 1 + WEBRTC_SPL_MUL_16_16_RSFT 5243 (signal ! 0) 14);
          tmp32_1 = s32 (signal ! 0 - WEBRTC_SPL_MUL_16_16_RSFT 5243 tmp16_1 12);
          tmp16_2 = s16 (asr tmp32_2 1 + WEBRTC_SPL_MUL_16_16_RSFT 1392 (signal ! 1) 14);
          out = s16 (tmp16_1 + tmp16_2);
          tmp32_2 = s32 (signal ! 1 - WEBRTC_SPL_MUL_16_16_RSFT 1392 tmp16_2 12);
          (outs, t1, t2) = vad_down_loop n (drop 2 signal) tmp32_1 tmp32_2
      in (out # outs, t1, t2))"

definition WebRtcVad_Downsampling :: "int list \<Rightarrow> int list \<Rightarrow> nat \<Rightarrow> nat \<Rightarrow> int list \<times> int list" where
  "WebRtcVad_Downsampling signal_in filter_state p in_length =
     (let (out, t1, t2) = vad_down_loop (in_length div 2) signal_in (filter_state ! p) (filter_state ! (p + 1))
      in (out, filter_state[p := t1, p + 1 := t2]))"

section \<open>The smallest values of a channel\<close>

text \<open>
  The removal loop reads one element beyond the sixteen of the channel, for the last channel one
  element beyond the array: there it finds the next member of the structure, whose first
  element is the argument \<open>beyond\<close>.
\<close>

definition shift_down :: "nat \<Rightarrow> nat \<Rightarrow> int \<Rightarrow> int list \<Rightarrow> int list" where
  "shift_down offset i beyond xs =
     fold (\<lambda>j xs. xs[offset + j := if offset + j + 1 < length xs then xs ! (offset + j + 1) else beyond]) [i..<16] xs"

definition age_step :: "nat \<Rightarrow> int \<Rightarrow> nat \<Rightarrow> int list \<times> int list \<Rightarrow> int list \<times> int list" where
  "age_step offset beyond i = (\<lambda>(age, smallest_values).
     if age ! (offset + i) \<noteq> 100 then (age[offset + i := s16 (age ! (offset + i) + 1)], smallest_values)
     else ((shift_down offset i (smallest_values ! 0) age)[offset + 15 := 101],
           (shift_down offset i beyond smallest_values)[offset + 15 := 10000]))"

definition find_position :: "(nat \<Rightarrow> int) \<Rightarrow> int \<Rightarrow> int" where
  "find_position sv fv =
     (if fv < sv 7 then
        if fv < sv 3 then
          if fv < sv 1 then (if fv < sv 0 then 0 else 1)
          else if fv < sv 2 then 2 else 3
        else if fv < sv 5 then (if fv < sv 4 then 4 else 5)
        else if fv < sv 6 then 6 else 7
      else if fv < sv 15 then
        if fv < sv 11 then
          if fv < sv 9 then (if fv < sv 8 then 8 else 9)
          else if fv < sv 10 then 10 else 11
        else if fv < sv 13 then (if fv < sv 12 then 12 else 13)
        else if fv < sv 14 then 14 else 15
      else -1)"

definition shift_up :: "nat \<Rightarrow> nat \<Rightarrow> int list \<Rightarrow> int list" where
  "shift_up offset position xs =
     fold (\<lambda>i xs. xs[offset + i := xs ! (offset + i - 1)]) (rev [Suc position..<16]) xs"

definition insert_value :: "nat \<Rightarrow> int \<Rightarrow> int list \<times> int list \<Rightarrow> int list \<times> int list" where
  "insert_value offset feature_value = (\<lambda>(age, smallest_values).
     let position = find_position (\<lambda>k. smallest_values ! (offset + k)) feature_value
     in if position > -1 then
          ((shift_up offset (nat position) age)[offset + nat position := 1],
           (shift_up offset (nat position) smallest_values)[offset + nat position := feature_value])
        else (age, smallest_values))"

definition WebRtcVad_FindMinimum :: "VadInstT \<Rightarrow> int \<Rightarrow> nat \<Rightarrow> int \<times> VadInstT" where
  "WebRtcVad_FindMinimum self feature_value channel =
     (let offset = 16 * channel;
          (age, sv) = fold (age_step offset (mean_value self ! 0)) [0..<16] (index_vector self, low_value_vector self);
          (age, sv) = insert_value offset feature_value (age, sv);
          current_median = (if frame_counter self > 2 then sv ! (offset + 2)
                            else if frame_counter self > 0 then sv ! offset else 1600);
          mean = mean_value self ! channel;
          alpha = (if frame_counter self > 0 then (if current_median < mean then 6553 else 32439) else 0);
          tmp32 = WEBRTC_SPL_MUL_16_16 (alpha + 1) mean;
          tmp32 = s32 (tmp32 + WEBRTC_SPL_MUL_16_16 (32767 - alpha) current_median);
          tmp32 = s32 (tmp32 + 16384);
          mean = s16 (asr tmp32 15)
      in (mean, self\<lparr>index_vector := age, low_value_vector := sv,
                     mean_value := (mean_value self)[channel := mean]\<rparr>))"

section \<open>Constants of the decision\<close>

definition kSpectrumWeight :: "int list" where
  "kSpectrumWeight = [6, 8, 10, 12, 14, 16]"

definition kMinimumDifference :: "int list" where
  "kMinimumDifference = [544, 544, 576, 576, 576, 576]"

definition kMaximumSpeech :: "int list" where
  "kMaximumSpeech = [11392, 11392, 11520, 11520, 11520, 11520]"

definition kMinimumMean :: "int list" where
  "kMinimumMean = [640, 768]"

definition kMaximumNoise :: "int list" where
  "kMaximumNoise = [9216, 9088, 8960, 8832, 8704, 8576]"

definition kNoiseDataWeights :: "int list" where
  "kNoiseDataWeights = [34, 62, 72, 66, 53, 25, 94, 66, 56, 62, 75, 103]"

definition kSpeechDataWeights :: "int list" where
  "kSpeechDataWeights = [48, 82, 45, 87, 50, 47, 80, 46, 83, 41, 78, 81]"

definition kNoiseDataMeans :: "int list" where
  "kNoiseDataMeans = [6738, 4892, 7065, 6715, 6771, 3369, 7646, 3863, 7820, 7266, 5020, 4362]"

definition kSpeechDataMeans :: "int list" where
  "kSpeechDataMeans = [8306, 10085, 10078, 11823, 11843, 6309, 9473, 9571, 10879, 7581, 8180, 7483]"

definition kNoiseDataStds :: "int list" where
  "kNoiseDataStds = [378, 1064, 493, 582, 688, 593, 474, 697, 475, 688, 421, 455]"

definition kSpeechDataStds :: "int list" where
  "kSpeechDataStds = [555, 505, 567, 524, 585, 1231, 509, 828, 492, 1540, 1079, 850]"

section \<open>The decision\<close>

definition WeightedAverage :: "int list \<Rightarrow> nat \<Rightarrow> int \<Rightarrow> int list \<Rightarrow> int \<times> int list" where
  "WeightedAverage data channel offset weights =
     fold (\<lambda>k (weighted_average, data).
        let d = s16 (data ! (channel + k * 6) + offset)
        in (s32 (weighted_average + s32 (d * weights ! (channel + k * 6))), data[channel + k * 6 := d]))
       [0..<2] (0, data)"

text \<open>Conditional probability of the first Gaussian of a channel.\<close>

definition first_share :: "int \<Rightarrow> int \<Rightarrow> int" where
  "first_share p h = s16 (WebRtcSpl_DivW32W16 (s32 (shl (p AND 0xFFFFF000) 2)) h)"

record gmm_locals =
  vadflag :: int
  sum_log_likelihood_ratios :: int
  deltaN :: "int list"
  deltaS :: "int list"
  ngprvec :: "int list"
  sgprvec :: "int list"

definition gmm_init :: gmm_locals where
  "gmm_init = \<lparr>vadflag = 0, sum_log_likelihood_ratios = 0, deltaN = replicate 12 0, deltaS = replicate 12 0,
     ngprvec = replicate 12 0, sgprvec = replicate 12 0\<rparr>"

definition gmm_likelihood :: "VadInstT \<Rightarrow> int list \<Rightarrow> int \<Rightarrow> nat \<Rightarrow> gmm_locals \<Rightarrow> gmm_locals" where
  "gmm_likelihood self features individualTest channel g =
     (let x = features ! channel; g2 = channel + 6;
          (pn0, dn0) = WebRtcVad_GaussianProbability x (noise_means self ! channel) (noise_stds self ! channel);
          (pn1, dn1) = WebRtcVad_GaussianProbability x (noise_means self ! g2) (noise_stds self ! g2);
          (ps0, ds0) = WebRtcVad_GaussianProbability x (speech_means self ! channel) (speech_stds self ! channel);
          (ps1, ds1) = WebRtcVad_GaussianProbability x (speech_means self ! g2) (speech_stds self ! g2);
          np0 = s32 (kNoiseDataWeights ! channel * pn0);
          np1 = s32 (kNoiseDataWeights ! g2 * pn1);
          sp0 = s32 (kSpeechDataWeights ! channel * ps0);
          sp1 = s32 (kSpeechDataWeights ! g2 * ps1);
          h0_test = s32 (np0 + np1);
          h1_test = s32 (sp0 + sp1);
          shifts_h0 = (if h0_test = 0 then 31 else int (WebRtcSpl_NormW32 h0_test));
          shifts_h1 = (if h1_test = 0 then 31 else int (WebRtcSpl_NormW32 h1_test));
          log_likelihood_ratio = s16 (shifts_h0 - shifts_h1);
          h0 = s16 (asr h0_test 12);
          h1 = s16 (asr h1_test 12)
      in \<lparr>vadflag = (if shl log_likelihood_ratio 2 > individualTest then 1 else vadflag g),
          sum_log_likelihood_ratios =
            s32 (sum_log_likelihood_ratios g + log_likelihood_ratio * kSpectrumWeight ! channel),
          deltaN = (deltaN g)[channel := dn0, g2 := dn1],
          deltaS = (deltaS g)[channel := ds0, g2 := ds1],
          ngprvec = (if h0 > 0 then (ngprvec g)[channel := first_share np0 h0, g2 := s16 (16384 - first_share np0 h0)]
                     else (ngprvec g)[channel := 16384]),
          sgprvec = (if h1 > 0 then (sgprvec g)[channel := first_share sp0 h1, g2 := s16 (16384 - first_share sp0 h1)]
                     else sgprvec g)\<rparr>)"

section \<open>Adaptation of the model\<close>

definition noise_mean_update :: "bool \<Rightarrow> int \<Rightarrow> int \<Rightarrow> int \<Rightarrow> int \<Rightarrow> nat \<Rightarrow> nat \<Rightarrow> int \<Rightarrow> int" where
  "noise_mean_update speech ngpr dN feature_minimum tmp1_s16 channel k nmk =
     (let nmk2 = (if speech then nmk
                  else let delt = s16 (WEBRTC_SPL_MUL_16_16_RSFT ngpr dN 11)
                       in s16 (nmk + s16 (WEBRTC_SPL_MUL_16_16_RSFT delt 655 22)));
          ndelt = s16 (shl feature_minimum 4 - tmp1_s16);
          nmk3 = s16 (nmk2 + s16 (WEBRTC_SPL_MUL_16_16_RSFT ndelt 154 9));
          tmp_s16 = s16 (shl (int k + 5) 7);
          nmk3 = (if nmk3 < tmp_s16 then tmp_s16 else nmk3);
          tmp_s16 = s16 (shl (72 + int k - int channel) 7)
      in if nmk3 > tmp_s16 then tmp_s16 else nmk3)"

definition speech_mean_update :: "int \<Rightarrow> int \<Rightarrow> int \<Rightarrow> nat \<Rightarrow> int \<Rightarrow> int" where
  "speech_mean_update sgpr dS maxspe k smk =
     (let delt = s16 (WEBRTC_SPL_MUL_16_16_RSFT sgpr dS 11);
          tmp_s16 = s16 (WEBRTC_SPL_MUL_16_16_RSFT delt 6554 21);
          smk2 = s16 (smk + asr (tmp_s16 + 1) 1);
          maxmu = s16 (maxspe + 640);
          smk2 = (if smk2 < kMinimumMean ! k then kMinimumMean ! k else smk2)
      in if smk2 > maxmu then maxmu else smk2)"

definition signed_div :: "int \<Rightarrow> int \<Rightarrow> int" where
  "signed_div x den =
     (if x > 0 then s16 (WebRtcSpl_DivW32W16 x den) else s16 (- s16 (WebRtcSpl_DivW32W16 (s32 (- x)) den)))"

definition speech_std_update :: "int \<Rightarrow> int \<Rightarrow> int \<Rightarrow> int \<Rightarrow> int \<Rightarrow> int" where
  "speech_std_update sgpr dS feature smk ssk =
     (let tmp_s16 = s16 (asr (smk + 4) 3);
          tmp_s16 = s16 (feature - tmp_s16);
          tmp1_s32 = WEBRTC_SPL_MUL_16_16_RSFT dS tmp_s16 3;
          tmp2_s32 = s32 (tmp1_s32 - 4096);
          tmp_s16 = asr sgpr 2;
          tmp1_s32 = s32 (tmp_s16 * tmp2_s32);
          tmp2_s32 = asr tmp1_s32 4;
          tmp_s16 = signed_div tmp2_s32 (s16 (ssk * 10));
          tmp_s16 = s16 (tmp_s16 + 128);
          ssk = s16 (ssk + asr tmp_s16 8)
      in if ssk < 384 then 384 else ssk)"

definition noise_std_update :: "int \<Rightarrow> int \<Rightarrow> int \<Rightarrow> int \<Rightarrow> int \<Rightarrow> int" where
  "noise_std_update ngpr dN feature nmk nsk =
     (let tmp_s16 = s16 (feature - asr nmk 3);
          tmp1_s32 = s32 (WEBRTC_SPL_MUL_16_16_RSFT dN tmp_s16 3 - 4096);
          tmp_s16 = s16 (asr (ngpr + 2) 2);
          tmp2_s32 = s32 (tmp_s16 * tmp1_s32);
          tmp1_s32 = asr tmp2_s32 14;
          tmp_s16 = signed_div tmp1_s32 nsk;
          tmp_s16 = s16 (tmp_s16 + 32);
          nsk = s16 (nsk + asr tmp_s16 6)
      in if nsk < 384 then 384 else nsk)"

definition gmm_update_gaussian ::
  "gmm_locals \<Rightarrow> int list \<Rightarrow> int \<Rightarrow> int \<Rightarrow> int \<Rightarrow> nat \<Rightarrow> nat \<Rightarrow> VadInstT \<Rightarrow> VadInstT" where
  "gmm_update_gaussian g features feature_minimum tmp1_s16 maxspe channel k self =
     (let gaussian = channel + k * 6;
          nmk = noise_means self ! gaussian;
          smk = speech_means self ! gaussian;
          nsk = noise_stds self ! gaussian;
          ssk = speech_stds self ! gaussian;
          self = self\<lparr>noise_means := (noise_means self)[gaussian :=
                   noise_mean_update (vadflag g \<noteq> 0) (ngprvec g ! gaussian) (deltaN g ! gaussian)
                     feature_minimum tmp1_s16 channel k nmk]\<rparr>
      in if vadflag g \<noteq> 0 then
           self\<lparr>speech_means := (speech_means self)[gaussian :=
                   speech_mean_update (sgprvec g ! gaussian) (deltaS g ! gaussian) maxspe k smk],
                speech_stds := (speech_stds self)[gaussian :=
                   speech_std_update (sgprvec g ! gaussian) (deltaS g ! gaussian) (features ! channel) smk ssk]\<rparr>
         else
           self\<lparr>noise_stds := (noise_stds self)[gaussian :=
                   noise_std_update (ngprvec g ! gaussian) (deltaN g ! gaussian) (features ! channel) nmk nsk]\<rparr>)"

definition shift_means :: "int list \<Rightarrow> nat \<Rightarrow> int \<Rightarrow> int list" where
  "shift_means means channel d =
     fold (\<lambda>k means. means[channel + k * 6 := s16 (means ! (channel + k * 6) - d)]) [0..<2] means"

text \<open>Separation of the two models of a channel and the limits on their means.\<close>

definition gmm_separate :: "nat \<Rightarrow> VadInstT \<Rightarrow> VadInstT" where
  "gmm_separate channel self =
     (let (noise_global_mean, nm) = WeightedAverage (noise_means self) channel 0 kNoiseDataWeights;
          (speech_global_mean, sm) = WeightedAverage (speech_means self) channel 0 kSpeechDataWeights;
          diff = s16 (s16 (asr speech_global_mean 9) - s16 (asr noise_global_mean 9));
          tmp_s16 = s16 (kMinimumDifference ! channel - diff);
          tmp1_s16 = s16 (WEBRTC_SPL_MUL_16_16_RSFT 13 tmp_s16 2);
          tmp2_s16 = s16 (WEBRTC_SPL_MUL_16_16_RSFT 3 tmp_s16 2);
          (speech_global_mean, sm) =
            (if diff < kMinimumDifference ! channel then WeightedAverage sm channel tmp1_s16 kSpeechDataWeights
             else (speech_global_mean, sm));
          (noise_global_mean, nm) =
            (if diff < kMinimumDifference ! channel then WeightedAverage nm channel (s16 (- tmp2_s16)) kNoiseDataWeights
             else (noise_global_mean, nm));
          tmp2_s16 = s16 (asr speech_global_mean 7);
          sm = (if tmp2_s16 > kMaximumSpeech ! channel
                then shift_means sm channel (s16 (tmp2_s16 - kMaximumSpeech ! channel)) else sm);
          tmp2_s16 = s16 (asr noise_global_mean 7);
          nm = (if tmp2_s16 > kMaximumNoise ! channel
                then shift_means nm channel (s16 (tmp2_s16 - kMaximumNoise ! channel)) else nm)
      in self\<lparr>noise_means := nm, speech_means := sm\<rparr>)"

definition gmm_update_channel :: "gmm_locals \<Rightarrow> int list \<Rightarrow> nat \<Rightarrow> VadInstT \<times> int \<Rightarrow> VadInstT \<times> int" where
  "gmm_update_channel g features channel = (\<lambda>(self, maxspe).
     let (feature_minimum, self) = WebRtcVad_FindMinimum self (features ! channel) channel;
         (noise_global_mean, nm) = WeightedAverage (noise_means self) channel 0 kNoiseDataWeights;
         self = self\<lparr>noise_means := nm\<rparr>;
         tmp1_s16 = s16 (asr noise_global_mean 6);
         self = fold (gmm_update_gaussian g features feature_minimum tmp1_s16 maxspe channel) [0..<2] self
     in (gmm_separate channel self, kMaximumSpeech ! channel))"

definition hangover :: "int \<Rightarrow> int \<Rightarrow> int \<Rightarrow> VadInstT \<Rightarrow> int \<times> VadInstT" where
  "hangover flag overhead1 overhead2 self =
     (if flag = 0 then
        if over_hang self > 0
        then (s16 (2 + over_hang self), self\<lparr>over_hang := s16 (over_hang self - 1), num_of_speech := 0\<rparr>)
        else (flag, self\<lparr>num_of_speech := 0\<rparr>)
      else let n = s16 (num_of_speech self + 1)
           in if n > 6 then (flag, self\<lparr>num_of_speech := 6, over_hang := overhead2\<rparr>)
              else (flag, self\<lparr>num_of_speech := n, over_hang := overhead1\<rparr>))"

definition GmmProbability :: "VadInstT \<Rightarrow> int list \<Rightarrow> int \<Rightarrow> nat \<Rightarrow> int \<times> VadInstT" where
  "GmmProbability self features total_power frame_length =
     (let i = (if frame_length = 80 then 0 else if frame_length = 160 then 1 else 2);
          overhead1 = over_hang_max_1 self ! i;
          overhead2 = over_hang_max_2 self ! i;
          individualTest = individual self ! i;
          totalTest = total_thr self ! i;
          (flag, self) =
            (if total_power > 10 then
               let g = fold (gmm_likelihood self features individualTest) [0..<6] gmm_init;
                   g = g\<lparr>vadflag := (if sum_log_likelihood_ratios g \<ge> totalTest then 1 else vadflag g)\<rparr>;
                   (self, _) = fold (gmm_update_channel g features) [0..<6] (self, 12800)
               in (vadflag g, self\<lparr>frame_counter := s32 (frame_counter self + 1)\<rparr>)
             else (0, self))
      in hangover flag overhead1 overhead2 self)"

section \<open>Initialisation, modes and entry points\<close>

definition WebRtcVad_set_mode_core :: "VadInstT \<Rightarrow> int \<Rightarrow> int \<times> VadInstT" where
  "WebRtcVad_set_mode_core self mode =
     (if mode = 0 then
        (0, self\<lparr>over_hang_max_1 := [8, 4, 3], over_hang_max_2 := [14, 7, 5],
                 individual := [24, 21, 24], total_thr := [57, 48, 57]\<rparr>)
      else if mode = 1 then
        (0, self\<lparr>over_hang_max_1 := [8, 4, 3], over_hang_max_2 := [14, 7, 5],
                 individual := [37, 32, 37], total_thr := [100, 80, 100]\<rparr>)
      else if mode = 2 then
        (0, self\<lparr>over_hang_max_1 := [6, 3, 2], over_hang_max_2 := [9, 5, 3],
                 individual := [82, 78, 82], total_thr := [285, 260, 285]\<rparr>)
      else if mode = 3 then
        (0, self\<lparr>over_hang_max_1 := [6, 3, 2], over_hang_max_2 := [9, 5, 3],
                 individual := [94, 94, 94], total_thr := [1100, 1050, 1100]\<rparr>)
      else (-1, self))"

definition WebRtcVad_InitCore :: "VadInstT option \<Rightarrow> int \<times> VadInstT option" where
  "WebRtcVad_InitCore handle =
     (case handle of None \<Rightarrow> (-1, None)
      | Some self \<Rightarrow>
          let self = self\<lparr>vad := 1, frame_counter := 0, over_hang := 0, num_of_speech := 0,
                downsampling_filter_states := replicate 4 0,
                state_48_to_8 := WebRtcSpl_ResetResample48khzTo8khz,
                noise_means := kNoiseDataMeans, speech_means := kSpeechDataMeans,
                noise_stds := kNoiseDataStds, speech_stds := kSpeechDataStds,
                low_value_vector := replicate 96 10000, index_vector := replicate 96 0,
                upper_state := replicate 5 0, lower_state := replicate 5 0,
                hp_filter_state := replicate 4 0, mean_value := replicate 6 1600\<rparr>;
              (r, self) = WebRtcVad_set_mode_core self 0
          in if r \<noteq> 0 then (-1, Some self) else (0, Some (self\<lparr>init_flag := 42\<rparr>)))"

definition WebRtcVad_CalcVad8khz :: "VadInstT \<Rightarrow> int list \<Rightarrow> nat \<Rightarrow> int \<times> VadInstT" where
  "WebRtcVad_CalcVad8khz inst speech_frame frame_length =
     (let (total_power, feature_vector, inst) = WebRtcVad_CalculateFeatures inst speech_frame frame_length;
          (v, inst) = GmmProbability inst feature_vector total_power frame_length
      in (v, inst\<lparr>vad := v\<rparr>))"

definition WebRtcVad_CalcVad16khz :: "VadInstT \<Rightarrow> int list \<Rightarrow> nat \<Rightarrow> int \<times> VadInstT" where
  "WebRtcVad_CalcVad16khz inst speech_frame frame_length =
     (let (speechNB, fs) = WebRtcVad_Downsampling speech_frame (downsampling_filter_states inst) 0 frame_length
      in WebRtcVad_CalcVad8khz (inst\<lparr>downsampling_filter_states := fs\<rparr>) speechNB (frame_length div 2))"

definition WebRtcVad_CalcVad32khz :: "VadInstT \<Rightarrow> int list \<Rightarrow> nat \<Rightarrow> int \<times> VadInstT" where
  "WebRtcVad_CalcVad32khz inst speech_frame frame_length =
     (let (speechWB, fs) = WebRtcVad_Downsampling speech_frame (downsampling_filter_states inst) 2 frame_length;
          len = frame_length div 2;
          (speechNB, fs) = WebRtcVad_Downsampling speechWB fs 0 len;
          len = len div 2
      in WebRtcVad_CalcVad8khz (inst\<lparr>downsampling_filter_states := fs\<rparr>) speechNB len)"

text \<open>Every iteration passes the same pointer to the resampler.\<close>

primrec resample_frames ::
  "nat \<Rightarrow> int list \<Rightarrow> WebRtcSpl_State48khzTo8khz \<Rightarrow> int list \<Rightarrow> int list \<times> WebRtcSpl_State48khzTo8khz" where
  "resample_frames 0 speech_frame st tmp_mem = ([], st)"
| "resample_frames (Suc n) speech_frame st tmp_mem =
     (let (out, st, tmp_mem) = WebRtcSpl_Resample48khzTo8khz speech_frame st tmp_mem;
          (outs, st) = resample_frames n speech_frame st tmp_mem
      in (out @ outs, st))"

definition WebRtcVad_CalcVad48khz :: "VadInstT \<Rightarrow> int list \<Rightarrow> nat \<Rightarrow> int \<times> VadInstT" where
  "WebRtcVad_CalcVad48khz inst speech_frame frame_length =
     (let (speech_nb, st) = resample_frames (frame_length div 480) speech_frame (state_48_to_8 inst) (replicate 736 0)
      in WebRtcVad_CalcVad8khz (inst\<lparr>state_48_to_8 := st\<rparr>) speech_nb (frame_length div 6))"

section \<open>The interface\<close>

definition kValidRates :: "int list" where
  "kValidRates = [8000, 16000, 32000, 48000]"

text \<open>Allocation returns a block with arbitrary content, or fails.\<close>

definition WebRtcVad_Create :: "bool \<Rightarrow> VadInstT option \<Rightarrow> int \<times> VadInstT option" where
  "WebRtcVad_Create handle_is_null block =
     (if handle_is_null then (-1, None)
      else case block of None \<Rightarrow> (-1, None) | Some self \<Rightarrow> (0, Some (self\<lparr>init_flag := 0\<rparr>)))"

definition WebRtcVad_Init :: "VadInstT option \<Rightarrow> int \<times> VadInstT option" where
  "WebRtcVad_Init handle = WebRtcVad_InitCore handle"

definition WebRtcVad_set_mode :: "VadInstT option \<Rightarrow> int \<Rightarrow> int \<times> VadInstT option" where
  "WebRtcVad_set_mode handle mode =
     (case handle of None \<Rightarrow> (-1, None)
      | Some self \<Rightarrow> if init_flag self \<noteq> 42 then (-1, Some self)
                     else let (r, self) = WebRtcVad_set_mode_core self mode in (r, Some self))"

primrec valid_length_loop :: "int list \<Rightarrow> int \<Rightarrow> int \<Rightarrow> int" where
  "valid_length_loop [] rate frame_length = -1"
| "valid_length_loop (r # rs) rate frame_length =
     (if r = rate then
        (if list_ex (\<lambda>valid_length_ms. frame_length = r sdiv 1000 * valid_length_ms) [10, 20, 30] then 0 else -1)
      else valid_length_loop rs rate frame_length)"

definition WebRtcVad_ValidRateAndFrameLength :: "int \<Rightarrow> int \<Rightarrow> int" where
  "WebRtcVad_ValidRateAndFrameLength rate frame_length = valid_length_loop kValidRates rate frame_length"

definition WebRtcVad_Process :: "VadInstT option \<Rightarrow> int \<Rightarrow> int list option \<Rightarrow> int \<Rightarrow> int \<times> VadInstT option" where
  "WebRtcVad_Process handle fs audio_frame frame_length =
     (case handle of None \<Rightarrow> (-1, None)
      | Some self \<Rightarrow>
          if init_flag self \<noteq> 42 then (-1, Some self)
          else (case audio_frame of None \<Rightarrow> (-1, Some self)
          | Some frame \<Rightarrow>
              if WebRtcVad_ValidRateAndFrameLength fs frame_length \<noteq> 0 then (-1, Some self)
              else let n = nat frame_length;
                       (v, self) = (if fs = 48000 then WebRtcVad_CalcVad48khz self frame n
                                    else if fs = 32000 then WebRtcVad_CalcVad32khz self frame n
                                    else if fs = 16000 then WebRtcVad_CalcVad16khz self frame n
                                    else if fs = 8000 then WebRtcVad_CalcVad8khz self frame n
                                    else (-1, self));
                       v = (if v > 0 then 1 else v)
                   in (v, Some self)))"

end
