(* ===== verification/VadMinima.thy ===== *)
theory VadMinima
  imports Vad
begin

text \<open>
  The memory of the sixteen smallest feature values of each channel (\<^verbatim>\<open>vad_sp.c\<close>): the loops over
  the flat arrays of the instance refine operations on the sorted list of (age, value) pairs of a
  channel, and the smoothing of the result.
\<close>


section \<open>The sixteen smallest values\<close>

definition chan :: "nat \<Rightarrow> int list \<Rightarrow> int list" where
  "chan c xs = take 16 (drop (16 * c) xs)"

lemma length_chan [simp]: "length xs = 96 \<Longrightarrow> c < 6 \<Longrightarrow> length (chan c xs) = 16"
  by (simp add: chan_def)

lemma chan_nth: "length xs = 96 \<Longrightarrow> c < 6 \<Longrightarrow> i < 16 \<Longrightarrow> chan c xs ! i = xs ! (16 * c + i)"
  by (simp add: chan_def)

lemma chan_eqI:
  assumes "length xs = 96" "length ys = 96" "c < 6" "\<And>i. i < 16 \<Longrightarrow> xs ! (16 * c + i) = ys ! (16 * c + i)"
  shows "chan c xs = chan c ys"
  using assms by (intro nth_equalityI) (simp_all add: chan_nth)

lemma chan_update:
  assumes "length xs = 96" "c < 6" "i < 16"
  shows "chan c (xs[16 * c + i := v]) = (chan c xs)[i := v]"
  using assms by (intro nth_equalityI) (auto simp: chan_nth nth_list_update)

lemma chan_update_other:
  assumes "c' \<noteq> c" "i < 16"
  shows "chan c' (xs[16 * c + i := v]) = chan c' xs"
proof (rule nth_equalityI)
  fix j assume "j < length (chan c' (xs[16 * c + i := v]))"
  then have j: "j < 16" "16 * c' + j < length xs" by (auto simp: chan_def)
  then have "c' = c" if "16 * c' + j = 16 * c + i" using that assms(2) by linarith
  then have "16 * c' + j \<noteq> 16 * c + i" using assms(1) by blast
  then show "chan c' (xs[16 * c + i := v]) ! j = chan c' xs ! j"
    using j by (auto simp: chan_def)
qed (simp add: chan_def)

text \<open>Removal: the later values move down, the given one is appended.\<close>

lemma length_shift [simp]: "length (shift_down off i b xs) = length xs" "length (shift_up off p xs) = length xs"
proof -
  have "length (fold (\<lambda>j xs. xs[off + j := if off + j + 1 < length xs then xs ! (off + j + 1) else b]) js xs) = length xs"
    for js by (induction js arbitrary: xs) auto
  then show "length (shift_down off i b xs) = length xs" by (simp add: shift_down_def)
  have "length (fold (\<lambda>i xs. xs[off + i := xs ! (off + i - 1)]) js xs) = length xs"
    for js by (induction js arbitrary: xs) auto
  then show "length (shift_up off p xs) = length xs" by (simp add: shift_up_def)
qed

lemma shift_down_nth:
  assumes "m \<le> 16" "off + 16 \<le> length xs" "q < length xs"
  shows "fold (\<lambda>j xs. xs[off + j := if off + j + 1 < length xs then xs ! (off + j + 1) else b]) [i..<m] xs ! q =
    (if off + i \<le> q \<and> q < off + m then (if q + 1 < length xs then xs ! (q + 1) else b) else xs ! q)"
  using assms(1)
proof (induction m)
  case (Suc m)
  have l: "length (fold (\<lambda>j xs. xs[off + j := if off + j + 1 < length xs then xs ! (off + j + 1) else b]) js xs) = length xs"
    for js by (induction js arbitrary: xs) auto
  show ?case
  proof (cases "i \<le> m")
    case True
    let ?F = "fold (\<lambda>j xs. xs[off + j := if off + j + 1 < length xs then xs ! (off + j + 1) else b]) [i..<m] xs"
    have "?F ! (off + m + 1) = xs ! (off + m + 1)" if "off + m + 1 < length xs"
    proof -
      have "?F ! t = xs ! t" if "off + m \<le> t" for t using that
      proof (induction m)
        case (Suc m)
        then show ?case by (cases "i \<le> m") (auto simp: nth_list_update)
      qed simp
      then show ?thesis by simp
    qed
    then show ?thesis using True Suc assms(2,3) l
      by (auto simp: nth_list_update)
  next
    case False
    then show ?thesis by auto
  qed
qed auto

lemma nth_shift_down:
  "off + 16 \<le> length xs \<Longrightarrow> q < length xs \<Longrightarrow> shift_down off i b xs ! q =
    (if off + i \<le> q \<and> q < off + 16 then (if q + 1 < length xs then xs ! (q + 1) else b) else xs ! q)"
  unfolding shift_down_def by (rule shift_down_nth) auto

lemma chan_shift_down:
  assumes "length xs = 96" "c < 6" "i < 16"
  shows "chan c ((shift_down (16 * c) i b xs)[16 * c + 15 := v]) = take i (chan c xs) @ drop (Suc i) (chan c xs) @ [v]"
proof (rule nth_equalityI)
  fix j assume "j < length (chan c ((shift_down (16 * c) i b xs)[16 * c + 15 := v]))"
  then have j: "j < 16" using assms by simp
  then show "chan c ((shift_down (16 * c) i b xs)[16 * c + 15 := v]) ! j =
    (take i (chan c xs) @ drop (Suc i) (chan c xs) @ [v]) ! j"
    using assms by (auto simp: chan_nth nth_list_update nth_shift_down nth_append min_def)
qed (use assms in simp)

lemma chan_shift_down_other:
  assumes "length xs = 96" "c < 6" "c' < 6" "i < 16" "c' \<noteq> c"
  shows "chan c' ((shift_down (16 * c) i b xs)[16 * c + 15 := v]) = chan c' xs"
  using assms
  by (intro chan_eqI) (auto simp: nth_list_update nth_shift_down)

text \<open>Insertion: the values from the position on move up, the last one is dropped.\<close>

lemma shift_up_nth:
  assumes "m \<le> 16" "off + 16 \<le> length xs"
  shows "fold (\<lambda>i xs. xs[off + i := xs ! (off + i - 1)]) (rev [Suc p..<m]) xs ! q =
    (if off + p < q \<and> q < off + m then xs ! (q - 1) else xs ! q)"
  using assms
proof (induction m arbitrary: xs)
  case (Suc m)
  show ?case
  proof (cases "p < m")
    case True
    then have "fold (\<lambda>i xs. xs[off + i := xs ! (off + i - 1)]) (rev [Suc p..<Suc m]) xs ! q =
      fold (\<lambda>i xs. xs[off + i := xs ! (off + i - 1)]) (rev [Suc p..<m]) (xs[off + m := xs ! (off + m - 1)]) ! q"
      by simp
    also have "\<dots> = (if off + p < q \<and> q < off + m then xs[off + m := xs ! (off + m - 1)] ! (q - 1)
       else xs[off + m := xs ! (off + m - 1)] ! q)"
      using Suc by simp
    also have "\<dots> = (if off + p < q \<and> q < off + Suc m then xs ! (q - 1) else xs ! q)"
      using Suc.prems True by (auto simp: nth_list_update)
    finally show ?thesis .
  next
    case False
    then show ?thesis by auto
  qed
qed auto

lemma nth_shift_up:
  "off + 16 \<le> length xs \<Longrightarrow>
    shift_up off p xs ! q = (if off + p < q \<and> q < off + 16 then xs ! (q - 1) else xs ! q)"
  unfolding shift_up_def by (rule shift_up_nth) auto

lemma chan_shift_up:
  assumes "length xs = 96" "c < 6" "p < 16"
  shows "chan c ((shift_up (16 * c) p xs)[16 * c + p := v]) = take 16 (take p (chan c xs) @ v # drop p (chan c xs))"
proof (rule nth_equalityI)
  fix j assume "j < length (chan c ((shift_up (16 * c) p xs)[16 * c + p := v]))"
  then have j: "j < 16" using assms by simp
  consider "j < p" | "j = p" | k where "j = Suc k" "p \<le> k" by (metis less_Suc_eq_le linorder_neqE_nat not0_implies_Suc not_less0)
  then show "chan c ((shift_up (16 * c) p xs)[16 * c + p := v]) ! j = take 16 (take p (chan c xs) @ v # drop p (chan c xs)) ! j"
    using assms j by cases (auto simp: chan_nth nth_list_update nth_shift_up nth_append min_def nth_Cons' Suc_diff_le)
qed (use assms in simp)

lemma chan_shift_up_other:
  assumes "length xs = 96" "c < 6" "c' < 6" "p < 16" "c' \<noteq> c"
  shows "chan c' ((shift_up (16 * c) p xs)[16 * c + p := v]) = chan c' xs"
  using assms
  by (intro chan_eqI) (auto simp: nth_list_update nth_shift_up)

text \<open>
  The same on the list of (age, value) pairs of a channel.  A value of age 100 is removed and an
  entry with the largest value is appended; the entry that takes its place is not aged in this
  round.
\<close>

function age_list :: "(int \<times> int) list \<Rightarrow> (int \<times> int) list" where
  "age_list [] = []"
| "age_list (x # r) =
     (if fst x \<noteq> 100 then (s16 (fst x + 1), snd x) # age_list r
      else case r of [] \<Rightarrow> [(101, 10000)] | y # r' \<Rightarrow> y # age_list (r' @ [(101, 10000)]))"
  by pat_completeness auto
termination by (relation "measure length") auto

definition insert_pair :: "int \<Rightarrow> (int \<times> int) list \<Rightarrow> (int \<times> int) list" where
  "insert_pair f ps =
     (if f < snd (last ps)
      then let p = length (takeWhile (\<lambda>x. snd x \<le> f) ps)
           in take (length ps) (take p ps @ (1, f) # drop p ps)
      else ps)"

definition pairs :: "nat \<Rightarrow> int list \<times> int list \<Rightarrow> (int \<times> int) list" where
  "pairs c = (\<lambda>(age, sv). zip (chan c age) (chan c sv))"

definition pair_step :: "nat \<Rightarrow> (int \<times> int) list \<Rightarrow> (int \<times> int) list" where
  "pair_step i ps =
     (if fst (ps ! i) \<noteq> 100 then ps[i := (s16 (fst (ps ! i) + 1), snd (ps ! i))]
      else take i ps @ drop (Suc i) ps @ [(101, 10000)])"

lemma pair_step_fold:
  "i \<le> length ps \<Longrightarrow> fold pair_step [i..<length ps] ps = take i ps @ age_list (drop i ps)"
proof (induction "length ps - i" arbitrary: i ps)
  case (Suc n)
  then have i: "i < length ps" by linarith
  let ?ps = "pair_step i ps"
  have l: "length ?ps = length ps" using i by (auto simp: pair_step_def)
  have d: "drop i ps = ps ! i # drop (Suc i) ps" using i by (simp add: Cons_nth_drop_Suc)
  have "fold pair_step [i..<length ps] ps = fold pair_step [Suc i..<length ?ps] ?ps"
    using i l by (simp add: upt_conv_Cons)
  also have "\<dots> = take (Suc i) ?ps @ age_list (drop (Suc i) ?ps)"
    using Suc(2) i l by (intro Suc(1)) auto
  also have "\<dots> = take i ps @ age_list (drop i ps)"
  proof (cases "fst (ps ! i) = 100")
    case True
    then show ?thesis using i d by (cases "drop (Suc i) ps") (simp_all add: pair_step_def)
  next
    case False
    then show ?thesis using i d by (simp add: pair_step_def take_Suc_conv_app_nth)
  qed
  finally show ?case .
qed simp

lemma length_age_list [simp]: "length (age_list ps) = length ps"
  by (induction ps rule: age_list.induct) (auto split: list.splits)

lemma age_list_values: "v \<in> snd ` set (age_list ps) \<Longrightarrow> v = 10000 \<or> v \<in> snd ` set ps"
proof (induction ps rule: age_list.induct)
  case (2 x r)
  show ?case
  proof (cases "fst x = 100")
    case False
    then have "v = snd x \<or> v \<in> snd ` set (age_list r)" using 2(3) by auto
    then show ?thesis using 2(1) [OF False] by auto
  next
    case True
    show ?thesis
    proof (cases r)
      case Nil
      then show ?thesis using 2(3) True by simp
    next
      case (Cons y r')
      then have "v = snd y \<or> v \<in> snd ` set (age_list (r' @ [(101, 10000)]))" using 2(3) True by auto
      then show ?thesis using 2(2) [of y r'] True Cons by auto
    qed
  qed
qed simp

lemma age_list_sorted:
  "sorted (map snd ps) \<Longrightarrow> snd ` set ps \<subseteq> {..10000} \<Longrightarrow> sorted (map snd (age_list ps))"
proof (induction ps rule: age_list.induct)
  case (2 x r)
  show ?case
  proof (cases "fst x = 100")
    case False
    have "snd x \<le> v" if "v \<in> snd ` set (age_list r)" for v
      using age_list_values [OF that] 2(3,4) by auto
    moreover have "sorted (map snd (age_list r))" using 2(1) [OF False] 2(3,4) by auto
    ultimately show ?thesis using False by auto
  next
    case True
    show ?thesis
    proof (cases r)
      case (Cons y r')
      have s: "sorted (map snd (r' @ [(101, 10000)]))" "snd ` set (r' @ [(101, 10000::int)]) \<subseteq> {..10000}"
        using 2(3,4) Cons by (auto simp: sorted_append)
      have "sorted (map snd (age_list (r' @ [(101, 10000)])))" using 2(2) True Cons s by auto
      moreover have "snd y \<le> v" if "v \<in> snd ` set (age_list (r' @ [(101, 10000)]))" for v
        using age_list_values [OF that] 2(3,4) Cons by auto
      ultimately show ?thesis using True Cons by auto
    qed (use True in simp)
  qed
qed simp

lemma find_position_correct:
  assumes "p = find_position sv f"
  shows "f < sv 15 \<Longrightarrow> 0 \<le> p \<and> p < 16 \<and> f < sv (nat p) \<and> (0 < p \<longrightarrow> sv (nat p - 1) \<le> f)"
    "\<not> f < sv 15 \<Longrightarrow> f < sv 7 \<or> p = -1"
  unfolding assms find_position_def by (auto split: if_splits)

lemma length_insert_pair [simp]: "length (insert_pair f ps) = length ps"
  by (auto simp: insert_pair_def Let_def min_def)

lemma insert_pair_split:
  "f < snd (last ps) \<Longrightarrow> insert_pair f ps =
    take (length ps) (takeWhile (\<lambda>x. snd x \<le> f) ps @ (1, f) # dropWhile (\<lambda>x. snd x \<le> f) ps)"
  unfolding insert_pair_def Let_def takeWhile_eq_take [symmetric] dropWhile_eq_drop [symmetric] by simp

lemma insert_pair_sorted:
  assumes "sorted (map snd ps)"
  shows "sorted (map snd (insert_pair f ps))"
proof (cases "f < snd (last ps)")
  case True
  define t where "t = takeWhile (\<lambda>x. snd x \<le> f) ps"
  define d where "d = dropWhile (\<lambda>x. snd x \<le> f) ps"
  have ps: "ps = t @ d" by (simp add: t_def d_def)
  have t: "snd x \<le> f" if "x \<in> set t" for x
    using that unfolding t_def by (auto dest: set_takeWhileD)
  have d: "f \<le> snd x" if "x \<in> set d" for x
  proof (cases d)
    case (Cons y ys)
    have "\<not> snd y \<le> f" using hd_dropWhile [of "\<lambda>x. snd x \<le> f" ps] Cons unfolding d_def [symmetric] by simp
    moreover have "snd y \<le> snd x" using that assms Cons by (auto simp: ps sorted_append)
    ultimately show ?thesis by simp
  qed (use that in simp)
  have "sorted (map snd (t @ (1, f) # d))"
    using assms t d by (auto simp: ps sorted_append)
  then show ?thesis unfolding insert_pair_split [OF True] t_def [symmetric] d_def [symmetric]
    by (simp only: take_map [symmetric] sorted_wrt_take)
next
  case False
  then show ?thesis using assms by (simp add: insert_pair_def)
qed

definition lens :: "int list \<times> int list \<Rightarrow> bool" where
  "lens av \<longleftrightarrow> length (fst av) = 96 \<and> length (snd av) = 96"

lemma age_step_lens: "lens av \<Longrightarrow> lens (age_step off b i av)"
  by (auto simp: lens_def age_step_def split: prod.splits)

lemma length_pairs [simp]: "lens av \<Longrightarrow> c < 6 \<Longrightarrow> length (pairs c av) = 16"
  by (auto simp: lens_def pairs_def split: prod.splits)

lemma map_snd_pairs: "lens av \<Longrightarrow> c < 6 \<Longrightarrow> map snd (pairs c av) = chan c (snd av)"
  by (auto simp: lens_def pairs_def split: prod.splits)

lemma age_step_pairs:
  assumes "lens av" "c < 6" "i < 16"
  shows "pairs c (age_step (16 * c) b i av) = pair_step i (pairs c av)"
proof -
  obtain a v where av: "av = (a, v)" by fastforce
  have l: "length a = 96" "length v = 96" using assms by (auto simp: lens_def av)
  have n: "pairs c av ! i = (a ! (16 * c + i), v ! (16 * c + i))"
    using assms l by (simp add: av pairs_def chan_nth)
  have self: "(chan c v)[i := v ! (16 * c + i)] = chan c v"
    using assms l by (metis chan_nth list_update_id)
  show ?thesis
  proof (cases "a ! (16 * c + i) = 100")
    case True
    then show ?thesis using assms l n
      by (simp add: av age_step_def pair_step_def) (simp add: pairs_def chan_shift_down take_zip drop_zip)
  next
    case False
    then show ?thesis using assms l n
      by (simp add: av age_step_def pair_step_def) (simp add: pairs_def chan_update update_zip self)
  qed
qed

lemma age_step_other:
  assumes "lens av" "c < 6" "c' < 6" "c' \<noteq> c" "i < 16"
  shows "pairs c' (age_step (16 * c) b i av) = pairs c' av"
  using assms chan_shift_down_other [OF _ assms(2,3,5,4)]
  by (auto simp: lens_def age_step_def pairs_def chan_update_other split: prod.splits)

lemma age_fold:
  assumes "lens av" "c < 6" "n \<le> 16"
  shows "lens (fold (age_step (16 * c) b) [0..<n] av) \<and>
    pairs c (fold (age_step (16 * c) b) [0..<n] av) = fold pair_step [0..<n] (pairs c av) \<and>
    (c' < 6 \<longrightarrow> c' \<noteq> c \<longrightarrow> pairs c' (fold (age_step (16 * c) b) [0..<n] av) = pairs c' av)"
  using assms(3)
  by (induction n) (use assms in \<open>simp_all add: age_step_lens age_step_pairs age_step_other\<close>)

lemma find_position_sorted:
  assumes "lens av" "c < 6" "sorted (chan c (snd av))"
  shows "find_position (\<lambda>k. snd av ! (16 * c + k)) f =
    (if f < snd (last (pairs c av)) then int (length (takeWhile (\<lambda>x. snd x \<le> f) (pairs c av))) else -1)"
proof -
  let ?sv = "\<lambda>k. snd av ! (16 * c + k)" and ?ps = "pairs c av"
  have l: "length (snd av) = 96" using assms by (simp add: lens_def)
  have n: "snd (?ps ! k) = ?sv k" if "k < 16" for k
    using assms that by (auto simp: lens_def pairs_def chan_nth split: prod.splits)
  have mono: "?sv j \<le> ?sv k" if "j \<le> k" "k < 16" for j k
    using sorted_nth_mono [OF assms(3), of j k] that assms(2) l by (simp add: chan_nth)
  have last: "snd (last ?ps) = ?sv 15"
    using assms n [of 15] by (subst last_conv_nth) (auto simp flip: length_0_conv)
  show ?thesis
  proof (cases "f < ?sv 15")
    case True
    define p where "p = find_position ?sv f"
    have p: "0 \<le> p" "p < 16" "f < ?sv (nat p)" "0 < p \<longrightarrow> ?sv (nat p - 1) \<le> f"
      using find_position_correct(1) [OF p_def True] by auto
    have "takeWhile (\<lambda>x. snd x \<le> f) ?ps = take (nat p) ?ps"
    proof (rule takeWhile_eq_take_P_nth)
      fix i assume "i < nat p"
      then have "?sv i \<le> ?sv (nat p - 1)" using p(2) by (intro mono) auto
      then show "snd (?ps ! i) \<le> f" using p \<open>i < nat p\<close> n [of i] by auto
    qed (use p n [of "nat p"] assms in auto)
    then show ?thesis using p assms True last unfolding p_def [symmetric] by simp
  next
    case False
    then have "\<not> f < ?sv 7" using mono [of 7 15] by simp
    then show ?thesis using find_position_correct(2) [of _ ?sv f, OF refl False] False last by simp
  qed
qed

lemma insert_value_pairs:
  assumes "lens av" "c < 6" "sorted (chan c (snd av))"
  shows "lens (insert_value (16 * c) f av) \<and> pairs c (insert_value (16 * c) f av) = insert_pair f (pairs c av) \<and>
    (c' < 6 \<longrightarrow> c' \<noteq> c \<longrightarrow> pairs c' (insert_value (16 * c) f av) = pairs c' av)"
proof -
  obtain a v where av: "av = (a, v)" by fastforce
  have l: "length a = 96" "length v = 96" using assms by (auto simp: lens_def av)
  let ?P = "\<lambda>x. snd x \<le> f"
  let ?p = "length (takeWhile ?P (pairs c av))"
  note fp = find_position_sorted [OF assms, of f]
  show ?thesis
  proof (cases "f < snd (last (pairs c av))")
    case True
    have p: "?p < 16"
    proof (rule ccontr)
      assume "\<not> ?p < 16"
      moreover have "length (pairs c av) = 16" using assms by simp
      ultimately have "takeWhile ?P (pairs c av) = pairs c av"
        by (metis length_takeWhile_le nat_less_le not_le_imp_less takeWhile_eq_take take_all_iff)
      then have "\<forall>x\<in>set (pairs c av). snd x \<le> f" by simp
      moreover have "last (pairs c av) \<in> set (pairs c av)" using assms by (intro last_in_set) (auto simp flip: length_0_conv)
      ultimately show False using True by fastforce
    qed
    then have pos: "find_position (\<lambda>k. v ! (16 * c + k)) f = int ?p" using fp True by (simp add: av)
    have iv: "insert_value (16 * c) f av =
      ((shift_up (16 * c) ?p a)[16 * c + ?p := 1], (shift_up (16 * c) ?p v)[16 * c + ?p := f])"
      unfolding av insert_value_def prod.case pos [unfolded av] by (simp add: Let_def)
    have z: "zip (take 16 (take p as @ x # drop p as)) (take 16 (take p bs @ y # drop p bs)) =
       take 16 (take p (zip as bs) @ (x, y) # drop p (zip as bs))"
      if "length as = length bs" "p \<le> length as" for p and as bs :: "int list" and x y
      using that by (simp add: take_zip drop_zip flip: zip_append zip_Cons_Cons)
    have "pairs c (insert_value (16 * c) f av) = insert_pair f (pairs c av)"
      unfolding iv insert_pair_def Let_def
      using True p assms l z [of "chan c a" "chan c v" ?p 1 f]
      by (simp add: pairs_def chan_shift_up av)
    then show ?thesis
      unfolding iv using assms l p by (auto simp: lens_def pairs_def chan_shift_up_other av)
  next
    case False
    then have "insert_value (16 * c) f av = av" using fp by (simp add: insert_value_def av)
    then show ?thesis using False assms by (simp add: insert_pair_def)
  qed
qed

text \<open>The memory of small values: sixteen values per channel in increasing order, all in the range of the features.\<close>

definition mins_ok :: "VadInstT \<Rightarrow> bool" where
  "mins_ok self \<longleftrightarrow> lens (index_vector self, low_value_vector self) \<and> length (mean_value self) = 6 \<and>
     list_all (\<lambda>c. sorted (chan c (low_value_vector self))) [0..<6] \<and>
     list_all (\<lambda>v. 0 \<le> v \<and> v \<le> 10000) (low_value_vector self) \<and>
     list_all (\<lambda>v. 0 \<le> v \<and> v \<le> 10000) (mean_value self)"

abbreviation channel_pairs :: "nat \<Rightarrow> VadInstT \<Rightarrow> (int \<times> int) list" where
  "channel_pairs c self \<equiv> pairs c (index_vector self, low_value_vector self)"

lemma mins_okI:
  assumes "lens (a, sv)" "length m = 6" "list_all (\<lambda>v. 0 \<le> v \<and> v \<le> 10000) m"
    and "\<And>c. c < 6 \<Longrightarrow> sorted (map snd (pairs c (a, sv))) \<and> snd ` set (pairs c (a, sv)) \<subseteq> {0..10000}"
  shows "mins_ok (self\<lparr>index_vector := a, low_value_vector := sv, mean_value := m\<rparr>)"
proof -
  have r: "0 \<le> sv ! p \<and> sv ! p \<le> 10000" if "p < 96" for p
  proof -
    have c: "p div 16 < 6" "p mod 16 < 16" using that by auto
    then have "chan (p div 16) sv ! (p mod 16) = sv ! p"
      using assms(1) by (simp add: chan_nth lens_def)
    moreover have "chan (p div 16) sv ! (p mod 16) \<in> set (chan (p div 16) sv)"
      using c assms(1) by (simp add: lens_def)
    ultimately have "sv ! p \<in> snd ` set (pairs (p div 16) (a, sv))"
      using map_snd_pairs [OF assms(1) c(1)] by (metis list.set_map snd_conv)
    then show ?thesis using assms(4) [OF c(1)] by auto
  qed
  show ?thesis
    using assms r map_snd_pairs [OF assms(1)] unfolding mins_ok_def
    by (auto simp: list_all_iff lens_def in_set_conv_nth)
qed

lemma mins_ok_pairs:
  assumes "mins_ok self" "c < 6"
  shows "sorted (map snd (channel_pairs c self))" "snd ` set (channel_pairs c self) \<subseteq> {0..10000}"
proof -
  have l: "lens (index_vector self, low_value_vector self)" using assms by (simp add: mins_ok_def)
  have m: "map snd (channel_pairs c self) = chan c (low_value_vector self)"
    using map_snd_pairs [OF l assms(2)] by simp
  show "sorted (map snd (channel_pairs c self))"
    using assms unfolding m by (simp add: mins_ok_def list_all_iff)
  have "set (chan c (low_value_vector self)) \<subseteq> set (low_value_vector self)"
    unfolding chan_def by (meson set_drop_subset set_take_subset subset_trans)
  then show "snd ` set (channel_pairs c self) \<subseteq> {0..10000}"
    using assms unfolding set_map [symmetric] m by (auto simp: mins_ok_def list_all_iff)
qed

lemma list_all_update: "list_all P xs \<Longrightarrow> P v \<Longrightarrow> list_all P (xs[i := v])"
  using set_update_subset_insert [of xs i v] by (auto simp: list_all_iff)

lemma insert_pair_values: "v \<in> snd ` set (insert_pair f ps) \<Longrightarrow> v \<in> snd ` set ps \<or> v = f \<and> f < snd (last ps)"
  by (force simp: insert_pair_def Let_def dest!: in_set_takeD dest: in_set_dropD split: if_splits)

lemma smooth_between:
  assumes "0 \<le> x" "x \<le> 10000" "0 \<le> y" "y \<le> 10000" "alpha = 0 \<or> alpha = 6553 \<or> alpha = 32439"
  shows "let m = s16 (asr (s32 (s32 (WEBRTC_SPL_MUL_16_16 (alpha + 1) x + WEBRTC_SPL_MUL_16_16 (32767 - alpha) y) + 16384)) 15)
     in min x y \<le> m \<and> m \<le> max x y"
proof -
  let ?t = "(alpha + 1) * x + (32767 - alpha) * y + 16384"
  have mul: "WEBRTC_SPL_MUL_16_16 (alpha + 1) x = (alpha + 1) * x"
    "WEBRTC_SPL_MUL_16_16 (32767 - alpha) y = (32767 - alpha) * y"
    using assms by (auto simp: WEBRTC_SPL_MUL_16_16_def s16_id s32_id)
  have lo: "32768 * min x y + 16384 \<le> ?t" and hi: "?t \<le> 32768 * max x y + 16384"
    using assms(5) by auto
  have t: "s32 (s32 ((alpha + 1) * x + (32767 - alpha) * y) + 16384) = ?t"
    using assms lo hi by (subst s32_id; (subst s32_id)?) (auto simp: min_def max_def split: if_splits)
  have q: "min x y \<le> ?t div 32768" "?t div 32768 \<le> max x y" using lo hi by linarith+
  then have "s16 (?t div 32768) = ?t div 32768" using assms by (intro s16_id) auto
  then show ?thesis using q unfolding mul t by (simp add: asr_div Let_def)
qed

lemma FindMinimum_state:
  assumes "mins_ok self" "c < 6" "0 \<le> f" "WebRtcVad_FindMinimum self f c = (m, s')"
  shows "channel_pairs c s' = insert_pair f (age_list (channel_pairs c self))" (is ?A)
    and "c' < 6 \<Longrightarrow> c' \<noteq> c \<Longrightarrow> channel_pairs c' s' = channel_pairs c' self"
    and "mins_ok s'" and "m = mean_value s' ! c"
    and "let med = (if frame_counter self > 2 then snd (channel_pairs c s' ! 2)
                    else if frame_counter self > 0 then snd (channel_pairs c s' ! 0) else 1600)
         in min (mean_value self ! c) med \<le> m \<and> m \<le> max (mean_value self ! c) med"
    and "s' = self\<lparr>index_vector := index_vector s', low_value_vector := low_value_vector s', mean_value := mean_value s'\<rparr>"
proof -
  define av where "av = fold (age_step (16 * c) (mean_value self ! 0)) [0..<16] (index_vector self, low_value_vector self)"
  define iv where "iv = insert_value (16 * c) f av"
  have l: "lens (index_vector self, low_value_vector self)" using assms by (simp add: mins_ok_def)
  note ok = mins_ok_pairs [OF assms(1)]
  have av: "lens av" "pairs c av = age_list (channel_pairs c self)"
    and av': "c' < 6 \<Longrightarrow> c' \<noteq> c \<Longrightarrow> pairs c' av = channel_pairs c' self" for c'
    using age_fold [OF l assms(2), of 16 "mean_value self ! 0"] pair_step_fold [of 0 "channel_pairs c self"] l assms(2)
    unfolding av_def [symmetric] by auto
  have rng: "snd ` set (age_list (channel_pairs c self)) \<subseteq> {0..10000}"
    using age_list_values [of _ "channel_pairs c self"] ok(2) [OF assms(2)] by fastforce
  have srt: "sorted (map snd (age_list (channel_pairs c self)))"
    using ok(1,2) [OF assms(2)] by (intro age_list_sorted) auto
  then have cs: "sorted (chan c (snd av))" using map_snd_pairs [OF av(1) assms(2)] av(2) by simp
  have iv: "lens iv" "pairs c iv = insert_pair f (age_list (channel_pairs c self))"
    and iv': "c' < 6 \<Longrightarrow> c' \<noteq> c \<Longrightarrow> pairs c' iv = channel_pairs c' self" for c'
    using insert_value_pairs [OF av(1) assms(2) cs, of f] av(2) av' unfolding iv_def [symmetric] by auto
  have nonempty: "age_list (channel_pairs c self) \<noteq> []" using l assms(2) by (simp flip: length_0_conv)
  then have last: "snd (last (age_list (channel_pairs c self))) \<le> 10000"
    using rng last_in_set [OF nonempty] by (meson atLeastAtMost_iff image_eqI subsetD)
  have vals: "snd ` set (pairs d iv) \<subseteq> {0..10000}" "sorted (map snd (pairs d iv))" if "d < 6" for d
  proof -
    show "snd ` set (pairs d iv) \<subseteq> {0..10000}"
    proof (cases "d = c")
      case True
      have "v \<in> {0..10000}" if "v \<in> snd ` set (insert_pair f (age_list (channel_pairs c self)))" for v
        using insert_pair_values [OF that] rng last assms(3) by auto
      then show ?thesis unfolding True iv(2) by blast
    next
      case False
      then show ?thesis using iv' [OF that] ok(2) [OF that] by simp
    qed
    show "sorted (map snd (pairs d iv))"
      using iv(2) iv' [OF that] ok(1) [OF that] insert_pair_sorted [OF srt] by (cases "d = c") auto
  qed
  define cm where "cm = (if frame_counter self > 2 then snd iv ! (16 * c + 2)
     else if frame_counter self > 0 then snd iv ! (16 * c) else 1600)"
  define mean where "mean = mean_value self ! c"
  define alpha :: int where "alpha = (if frame_counter self > 0 then (if cm < mean then 6553 else 32439) else 0)"
  have m: "m = s16 (asr (s32 (s32 (WEBRTC_SPL_MUL_16_16 (alpha + 1) mean + WEBRTC_SPL_MUL_16_16 (32767 - alpha) cm) + 16384)) 15)"
    and s': "s' = self\<lparr>index_vector := fst iv, low_value_vector := snd iv, mean_value := (mean_value self)[c := m]\<rparr>"
    using assms(4) unfolding WebRtcVad_FindMinimum_def av_def [symmetric] Let_def
    by (auto simp: alpha_def cm_def iv_def mean_def split: prod.splits)
  have nth: "snd (pairs c iv ! k) = snd iv ! (16 * c + k)" if "k < 16" for k
    using iv(1) assms(2) that by (auto simp: lens_def pairs_def chan_nth split: prod.splits)
  have nthr: "snd iv ! (16 * c + k) \<in> {0..10000}" if "k < 16" for k
    using vals(1) [OF assms(2)] nth [OF that] iv(1) assms(2) that
    by (metis image_subset_iff length_pairs nth_mem)
  have cm: "0 \<le> cm" "cm \<le> 10000" using nthr [of 2] nthr [of 0] by (auto simp: cm_def)
  have mean: "0 \<le> mean" "mean \<le> 10000" using assms(1,2) by (auto simp: mins_ok_def mean_def list_all_length)
  have btw: "min mean cm \<le> m \<and> m \<le> max mean cm"
    using smooth_between [OF mean cm, of alpha] unfolding m Let_def by (simp add: alpha_def)
  have mv: "list_all (\<lambda>v. 0 \<le> v \<and> v \<le> 10000) ((mean_value self)[c := m])"
    using assms(1) btw mean cm by (intro list_all_update) (auto simp: mins_ok_def)
  have eq: "index_vector s' = fst iv" "low_value_vector s' = snd iv" "mean_value s' = (mean_value self)[c := m]"
    by (simp_all add: s')
  have cmeq: "(if frame_counter self > 2 then snd (pairs c iv ! 2)
      else if frame_counter self > 0 then snd (pairs c iv ! 0) else 1600) = cm"
    unfolding cm_def using nth [of 2] nth [of 0] by simp
  show ?A unfolding eq using iv(2) by simp
  show "c' < 6 \<Longrightarrow> c' \<noteq> c \<Longrightarrow> channel_pairs c' s' = channel_pairs c' self" unfolding eq using iv' by simp
  show "mins_ok s'" unfolding s' using iv(1) vals mv assms(1) by (intro mins_okI) (auto simp: mins_ok_def)
  show "m = mean_value s' ! c" unfolding eq using assms(1,2) by (simp add: mins_ok_def)
  show "let med = (if frame_counter self > 2 then snd (channel_pairs c s' ! 2)
                    else if frame_counter self > 0 then snd (channel_pairs c s' ! 0) else 1600)
         in min (mean_value self ! c) med \<le> m \<and> m \<le> max (mean_value self ! c) med"
    using btw unfolding eq prod.collapse Let_def cmeq mean_def .
  show "s' = self\<lparr>index_vector := index_vector s', low_value_vector := low_value_vector s', mean_value := mean_value s'\<rparr>"
    unfolding eq by (simp add: s')
qed

end
