(* ===== verification/ResampleStream.thy ===== *)
theory ResampleStream
  imports SplResample
begin

text \<open>
  The resampling chains as stream transducers.  Each all-pass loop over the scratch array is a
  list function of its inputs as long as its writes do not touch the cells it still has to read;
  the in-place fractional stages are list functions because their output region trails their
  input region.  The chains are instances of the interface \<open>block_filter\<close>, whose client lemma
  says that block-wise processing equals processing of the whole signal.
\<close>

text \<open>The state after, and the last outputs during, a run of one all-pass section.\<close>

definition ap_st :: "int list \<Rightarrow> nat \<Rightarrow> int list \<Rightarrow> int list \<Rightarrow> int list" where
  "ap_st c k st xs = fold (\<lambda>x s. allpass_step c k s x) xs st"

primrec ap_out :: "int list \<Rightarrow> nat \<Rightarrow> int list \<Rightarrow> int list \<Rightarrow> int list" where
  "ap_out c k st [] = []"
| "ap_out c k st (x # xs) = allpass_step c k st x ! (k + 3) # ap_out c k (allpass_step c k st x) xs"

lemma ap_st_simps [simp]:
  "ap_st c k st [] = st"
  "ap_st c k st (x # xs) = ap_st c k (allpass_step c k st x) xs"
  "ap_st c k st (xs @ ys) = ap_st c k (ap_st c k st xs) ys"
  by (simp_all add: ap_st_def)

lemma length_ap_out [simp]: "length (ap_out c k st xs) = length xs"
  by (induction xs arbitrary: st) auto

lemma length_allpass_step [simp]: "length (allpass_step c k st x) = length st"
  by (simp add: allpass_step_def Let_def)

lemma length_ap_st [simp]: "length (ap_st c k st xs) = length st"
  by (induction xs arbitrary: st) auto

lemma ap_out_append [simp]:
  "ap_out c k st (xs @ ys) = ap_out c k st xs @ ap_out c k (ap_st c k st xs) ys"
  by (induction xs arbitrary: st) auto

lemma ap_out_nth: "i < length xs \<Longrightarrow> ap_out c k st xs ! i = ap_st c k st (take (Suc i) xs) ! (k + 3)"
  by (induction xs arbitrary: st i) (auto simp: nth_Cons split: nat.splits)

text \<open>Sections that use disjoint parts of the state do not interact.\<close>

lemma allpass_step_other:
  "j < k \<or> k + 3 < j \<Longrightarrow> allpass_step c k st x ! j = st ! j"
  by (auto simp: allpass_step_def Let_def)

lemma ap_st_other: "j < k \<or> k + 3 < j \<Longrightarrow> ap_st c k st xs ! j = st ! j"
  by (induction xs arbitrary: st) (simp_all add: allpass_step_other)

lemma allpass_step_cong:
  assumes "\<And>j. k \<le> j \<Longrightarrow> j \<le> k + 3 \<Longrightarrow> st ! j = st' ! j" "k + 3 < length st" "k + 3 < length st'"
  shows "k \<le> j \<Longrightarrow> j \<le> k + 3 \<Longrightarrow> allpass_step c k st x ! j = allpass_step c k st' x ! j"
proof -
  assume "k \<le> j" "j \<le> k + 3"
  then have "j = k \<or> j = k + 1 \<or> j = k + 2 \<or> j = k + 3" by arith
  moreover have "st ! k = st' ! k" "st ! (k + 1) = st' ! (k + 1)" "st ! (k + 2) = st' ! (k + 2)"
    "st ! (k + 3) = st' ! (k + 3)" by (simp_all add: assms(1))
  ultimately show ?thesis
    using assms(2,3) by (elim disjE) (simp_all add: allpass_step_def Let_def)
qed

lemma allpass_step_commute:
  assumes "k + 3 < k' \<or> k' + 3 < k" "k + 3 < length st" "k' + 3 < length st"
  shows "allpass_step c k (allpass_step c' k' st y) x = allpass_step c' k' (allpass_step c k st x) y"
    (is "?l = ?r")
proof (rule nth_equalityI)
  fix j
  have a: "?l ! j = allpass_step c k st x ! j" if "k \<le> j" "j \<le> k + 3"
    using that assms by (intro allpass_step_cong) (auto intro!: allpass_step_other)
  have b: "?r ! j = allpass_step c' k' st y ! j" if "k' \<le> j" "j \<le> k' + 3"
    using that assms by (intro allpass_step_cong) (auto intro!: allpass_step_other)
  show "?l ! j = ?r ! j"
  proof (cases "k \<le> j \<and> j \<le> k + 3")
    case True
    then have "j < k' \<or> k' + 3 < j" using assms(1) by auto
    then show ?thesis using a True by (simp add: allpass_step_other)
  next
    case False
    then show ?thesis using b by (cases "k' \<le> j \<and> j \<le> k' + 3") (auto simp: allpass_step_other)
  qed
qed simp

lemma ap_st_commute_step:
  assumes "k + 3 < k' \<or> k' + 3 < k" "k + 3 < length st" "k' + 3 < length st"
  shows "ap_st c k (allpass_step c' k' st y) xs = allpass_step c' k' (ap_st c k st xs) y"
  using assms(2,3) by (induction xs arbitrary: st) (simp_all add: allpass_step_commute [OF assms(1)])

lemma ap_st_commute:
  assumes "k + 3 < k' \<or> k' + 3 < k" "k + 3 < length st" "k' + 3 < length st"
  shows "ap_st c k (ap_st c' k' st ys) xs = ap_st c' k' (ap_st c k st xs) ys"
  using assms(2,3) by (induction ys arbitrary: st) (simp_all add: ap_st_commute_step [OF assms(1), symmetric])

lemma ap_out_cong:
  assumes "\<And>j. k \<le> j \<Longrightarrow> j \<le> k + 3 \<Longrightarrow> st ! j = st' ! j" "k + 3 < length st" "k + 3 < length st'"
  shows "ap_out c k st xs = ap_out c k st' xs"
  using assms
proof (induction xs arbitrary: st st')
  case (Cons x xs)
  have r: "allpass_step c k st x ! j = allpass_step c k st' x ! j" if "k \<le> j" "j \<le> k + 3" for j
    using allpass_step_cong [of k st st' j, OF Cons.prems] that by simp
  have "ap_out c k (allpass_step c k st x) xs = ap_out c k (allpass_step c k st' x) xs"
    by (rule Cons.IH) (use r Cons.prems(2,3) in auto)
  then show ?case using r by simp
qed simp

lemma ap_out_other:
  assumes "k + 3 < k' \<or> k' + 3 < k" "k + 3 < length st"
  shows "ap_out c k (ap_st c' k' st ys) xs = ap_out c k st xs"
  by (rule ap_out_cong) (use assms in \<open>auto intro!: ap_st_other\<close>)

lemma ap_out_other_run:
  assumes "k + 3 < k' \<or> k' + 3 < k" "k + 3 < length st" "k' + 3 < length st"
  shows "ap_out c k (ap_st c k (ap_st c' k' st ys) zs) xs = ap_out c k (ap_st c k st zs) xs"
  unfolding ap_st_commute [OF assms] by (rule ap_out_other) (use assms in auto)

section \<open>The loops as list functions\<close>

lemma allpass_loop_pure:
  assumes "\<And>j. j < n \<Longrightarrow>
    rd (fold (\<lambda>i m. wr m i (ap_st c k st (map (rd mem) [0..<Suc i]) ! (k + 3))) [0..<j] mem) j = rd mem j"
  shows "allpass_loop rd wr c k n (mem, st) =
    (fold (\<lambda>i m. wr m i (ap_st c k st (map (rd mem) [0..<Suc i]) ! (k + 3))) [0..<n] mem,
     ap_st c k st (map (rd mem) [0..<n]))"
  using assms
proof (induction n)
  case (Suc n)
  from Suc.IH Suc.prems show ?case by (simp add: allpass_loop_def Let_def)
qed (simp add: allpass_loop_def)

definition upd :: "(int \<Rightarrow> int \<Rightarrow> int) \<Rightarrow> nat \<Rightarrow> nat \<Rightarrow> (nat \<Rightarrow> int) \<Rightarrow> nat \<Rightarrow> int list \<Rightarrow> int list" where
  "upd f d out y n mem = fold (\<lambda>i m. m[out + d * i := f (m ! (out + d * i)) (y i)]) [0..<n] mem"

lemma length_upd [simp]: "length (upd f d out y n mem) = length mem"
  by (induction n) (simp_all add: upd_def)

lemma upd_Suc: "upd f d out y (Suc n) mem =
   (upd f d out y n mem)[out + d * n := f (upd f d out y n mem ! (out + d * n)) (y n)]"
  by (simp add: upd_def)

lemma upd_other:
  assumes "\<And>i. i < n \<Longrightarrow> p \<noteq> out + d * i"
  shows "upd f d out y n mem ! p = mem ! p"
  using assms
proof (induction n)
  case (Suc n)
  have "out + d * n \<noteq> p" using Suc.prems [of n] by simp
  then show ?case using Suc by (simp add: upd_Suc)
qed (simp add: upd_def)

lemma upd_at:
  assumes "i < n" "0 < d" "out + d * i < length mem"
  shows "upd f d out y n mem ! (out + d * i) = f (mem ! (out + d * i)) (y i)"
  using assms(1)
proof (induction n)
  case (Suc n)
  show ?case
  proof (cases "i = n")
    case True
    then show ?thesis using assms by (simp add: upd_Suc upd_other)
  next
    case False
    then show ?thesis using Suc assms(2) by (simp add: upd_Suc)
  qed
qed simp

lemma allpass_loop_upd:
  assumes rd: "\<And>j. j < n \<Longrightarrow> rd (upd f d out (\<lambda>i. ap_out c k st (map (rd mem) [0..<n]) ! i) j mem) j = rd mem j"
  shows "allpass_loop rd (\<lambda>m i y. m[out + d * i := f (m ! (out + d * i)) y]) c k n (mem, st) =
    (upd f d out (\<lambda>i. ap_out c k st (map (rd mem) [0..<n]) ! i) n mem, ap_st c k st (map (rd mem) [0..<n]))"
proof -
  have o: "ap_out c k st (map (rd mem) [0..<n]) ! i = ap_st c k st (map (rd mem) [0..<Suc i]) ! (k + 3)"
    if "i < n" for i
    using that by (simp add: ap_out_nth take_map del: upt_Suc)
  have u: "upd f d out (\<lambda>i. ap_out c k st (map (rd mem) [0..<n]) ! i) j mem =
    fold (\<lambda>i m. m[out + d * i := f (m ! (out + d * i)) (ap_st c k st (map (rd mem) [0..<Suc i]) ! (k + 3))]) [0..<j] mem"
    if "j \<le> n" for j
    unfolding upd_def using that by (intro fold_cong) (auto simp: o simp del: upt_Suc)
  show ?thesis
    using allpass_loop_pure [of n rd "\<lambda>m i y. m[out + d * i := f (m ! (out + d * i)) y]" c k st mem]
      rd u by (simp del: upt_Suc)
qed

definition evens :: "int list \<Rightarrow> int list" where
  "evens xs = map (\<lambda>i. xs ! (2 * i)) [0..<length xs div 2]"

definition odds :: "int list \<Rightarrow> int list" where
  "odds xs = map (\<lambda>i. xs ! (2 * i + 1)) [0..<length xs div 2]"

definition interleave :: "int list \<Rightarrow> int list \<Rightarrow> int list" where
  "interleave xs ys = concat (map2 (\<lambda>x y. [x, y]) xs ys)"

lemma length_evens_odds [simp]: "length (evens xs) = length xs div 2" "length (odds xs) = length xs div 2"
  by (simp_all add: evens_def odds_def)

lemma evens_append: "even (length xs) \<Longrightarrow> evens (xs @ ys) = evens xs @ evens ys"
  by (rule nth_equalityI) (auto simp: evens_def nth_append algebra_simps elim!: evenE)

lemma odds_append: "even (length xs) \<Longrightarrow> odds (xs @ ys) = odds xs @ odds ys"
  by (rule nth_equalityI) (auto simp: odds_def nth_append algebra_simps Suc_diff_le elim!: evenE)

lemma length_interleave: "length xs = length ys \<Longrightarrow> length (interleave xs ys) = 2 * length xs"
  by (induction xs ys rule: list_induct2) (simp_all add: interleave_def)

lemma interleave_append:
  "length xs = length xs' \<Longrightarrow> interleave (xs @ ys) (xs' @ ys') = interleave xs xs' @ interleave ys ys'"
  by (simp add: interleave_def)

lemma interleave_nth:
  assumes "length xs = length ys" "i < length xs"
  shows "interleave xs ys ! (2 * i) = xs ! i" "interleave xs ys ! (2 * i + 1) = ys ! i"
proof -
  have "interleave xs ys ! (2 * i) = xs ! i \<and> interleave xs ys ! (2 * i + 1) = ys ! i"
    using assms
    by (induction xs ys arbitrary: i rule: list_induct2)
      (auto simp: interleave_def nth_Cons split: nat.splits)
  then show "interleave xs ys ! (2 * i) = xs ! i" "interleave xs ys ! (2 * i + 1) = ys ! i" by simp_all
qed

lemma mem_slice_length: "p + n \<le> length mem \<Longrightarrow> length (mem_slice mem p n) = n"
  by (simp add: mem_slice_def)

lemma mem_slice_nth: "p + n \<le> length mem \<Longrightarrow> i < n \<Longrightarrow> mem_slice mem p n ! i = mem ! (p + i)"
  by (simp add: mem_slice_def)

abbreviation K1 :: "int list" where "K1 \<equiv> kResampleAllpass ! 1"
abbreviation K0 :: "int list" where "K0 \<equiv> kResampleAllpass ! 0"

text \<open>Decimation of a whole signal: the two polyphase branches, their sum, the final state.\<close>

definition half_sum :: "int \<Rightarrow> int \<Rightarrow> int" where
  "half_sum l u = s32 (asr l 1 + asr u 1)"

definition down2 :: "int list \<Rightarrow> int list \<Rightarrow> int list" where
  "down2 st xs = map2 half_sum (ap_out K1 0 st (evens xs)) (ap_out K0 4 st (odds xs))"

definition down2_st :: "int list \<Rightarrow> int list \<Rightarrow> int list" where
  "down2_st st xs = ap_st K0 4 (ap_st K1 0 st (evens xs)) (odds xs)"

lemma length_down2 [simp]: "length (down2 st xs) = length xs div 2"
  by (simp add: down2_def)

lemma down2_append:
  assumes "even (length xs)" "length st = 8"
  shows "down2 st (xs @ ys) = down2 st xs @ down2 (down2_st st xs) ys"
    "down2_st st (xs @ ys) = down2_st (down2_st st xs) ys"
  using assms
  by (simp add: down2_def down2_st_def evens_append odds_append ap_out_other ap_out_other_run)
     (use assms in \<open>simp add: down2_st_def evens_append odds_append ap_st_commute [of 0 4]\<close>)

lemma length_down2_st [simp]: "length (down2_st st xs) = length st"
  by (simp add: down2_st_def)

text \<open>Writing a list of values with a stride, and the blocks of memory that gives.\<close>

definition put :: "nat \<Rightarrow> nat \<Rightarrow> int list \<Rightarrow> int list \<Rightarrow> int list" where
  "put d out ys mem = upd (\<lambda>_ y. y) d out (\<lambda>i. ys ! i) (length ys) mem"

lemma length_put [simp]: "length (put d out ys mem) = length mem"
  by (simp add: put_def)

lemma put_at: "i < length ys \<Longrightarrow> 0 < d \<Longrightarrow> out + d * i < length mem \<Longrightarrow> put d out ys mem ! (out + d * i) = ys ! i"
  by (simp add: put_def upd_at)

lemma put_other: "(\<And>i. i < length ys \<Longrightarrow> p \<noteq> out + d * i) \<Longrightarrow> put d out ys mem ! p = mem ! p"
  by (simp add: put_def upd_other)

lemma upd_put: "length ys = n \<Longrightarrow> upd (\<lambda>_ y. g y) d out (\<lambda>i. ys ! i) n mem = put d out (map g ys) mem"
  unfolding put_def upd_def by (auto intro!: fold_cong)

lemma map2_map_left: "map2 f (map g xs) ys = map2 (\<lambda>x y. f (g x) y) xs ys"
  by (rule nth_equalityI) simp_all

lemma upd_put_put:
  assumes "length xs = n" "length ys = n" "0 < d" "out + d * (n - 1) < length mem"
  shows "upd f d out (\<lambda>i. ys ! i) n (put d out xs mem) = put d out (map2 f xs ys) mem"
proof (rule nth_equalityI)
  fix p
  show "upd f d out (\<lambda>i. ys ! i) n (put d out xs mem) ! p = put d out (map2 f xs ys) mem ! p"
  proof (cases "\<exists>i < n. p = out + d * i")
    case True
    then obtain i where i: "i < n" "p = out + d * i" by blast
    then have "i \<le> n - 1" by simp
    then have "d * i \<le> d * (n - 1)" by (rule mult_le_mono2)
    then have l: "out + d * i < length mem" using assms(4) by linarith
    show ?thesis using i l assms by (simp add: upd_at put_at)
  next
    case False
    then have "put d out zs mem ! p = mem ! p" if "length zs = n" for zs
      using that by (intro put_other) auto
    then show ?thesis using False assms by (simp add: upd_other)
  qed
qed simp

lemma put_block:
  assumes "out + length ys \<le> length mem"
  shows "put 1 out ys mem = memcpy mem out ys"
proof (rule nth_equalityI)
  fix p assume "p < length (put 1 out ys mem)"
  then have p: "p < length mem" by simp
  show "put 1 out ys mem ! p = memcpy mem out ys ! p"
  proof (cases "out \<le> p \<and> p < out + length ys")
    case True
    then have "p - out < length ys" by linarith
    then show ?thesis using put_at [of "p - out" ys 1 out mem] True p assms by (simp add: nth_memcpy)
  next
    case False
    then show ?thesis using p assms by (auto simp: nth_memcpy put_other)
  qed
qed (use assms in simp)

lemma put_interleave:
  assumes "out + 2 * length xs \<le> length mem" "length xs = length ys"
  shows "put 2 (out + 1) ys (put 2 out xs mem) = memcpy mem out (interleave xs ys)"
proof (rule nth_equalityI)
  fix p assume "p < length (put 2 (out + 1) ys (put 2 out xs mem))"
  then have p: "p < length mem" by simp
  show "put 2 (out + 1) ys (put 2 out xs mem) ! p = memcpy mem out (interleave xs ys) ! p"
  proof (cases "out \<le> p \<and> p < out + 2 * length xs")
    case True
    define i where "i = (p - out) div 2"
    have i: "i < length xs" using True by (auto simp: i_def)
    have "p = out + 2 * i \<or> p = out + 1 + 2 * i" using True unfolding i_def by presburger
    then show ?thesis
    proof
      assume 1: "p = out + 2 * i"
      then have "put 2 (out + 1) ys (put 2 out xs mem) ! p = put 2 out xs mem ! p"
        by (intro put_other) presburger
      then show ?thesis using 1 i assms p
        by (simp add: put_at nth_memcpy length_interleave interleave_nth)
    next
      assume 2: "p = out + 1 + 2 * i"
      then have "interleave xs ys ! (p - out) = ys ! i" using interleave_nth(2) [of xs ys i] i assms by simp
      then show ?thesis using 2 i assms p put_at [of i ys 2 "out + 1" "put 2 out xs mem"]
        by (simp add: nth_memcpy length_interleave)
    qed
  next
    case False
    then have "put 2 (out + 1) ys (put 2 out xs mem) ! p = mem ! p"
      using assms by (subst put_other, force, subst put_other, force, simp)
    then show ?thesis using False p assms by (auto simp: nth_memcpy length_interleave)
  qed
qed (use assms in simp)

lemma DownBy2ShortToInt_pure:
  assumes "length inp = len" "out + len div 2 \<le> length mem" "1 < len" "length st = 8"
  shows "WebRtcSpl_DownBy2ShortToInt inp len mem out st =
    (memcpy mem out (down2 st (map short_q15 inp)), down2_st st (map short_q15 inp))"
proof -
  let ?n = "len div 2"
  let ?x = "map short_q15 inp"
  have e: "map (\<lambda>i. short_q15 (inp ! (2 * i))) [0..<?n] = evens ?x"
    and od: "map (\<lambda>i. short_q15 (inp ! (2 * i + 1))) [0..<?n] = odds ?x"
    using assms(1) by (auto simp: evens_def odds_def)
  let ?m1 = "put 1 out (map (\<lambda>y. asr y 1) (ap_out K1 0 st (evens ?x))) mem"
  have 1: "allpass_loop (\<lambda>_ i. short_q15 (inp ! (2 * i))) (\<lambda>m i y. m[out + i := asr y 1]) K1 0 ?n (mem, st) =
    (?m1, ap_st K1 0 st (evens ?x))"
    using allpass_loop_upd [of ?n "\<lambda>_ i. short_q15 (inp ! (2 * i))" "\<lambda>_ y. asr y 1" 1 out K1 0 st mem] assms
    unfolding e by (simp add: upd_put)
  have "upd (\<lambda>x y. s32 (x + asr y 1)) 1 out (\<lambda>i. ap_out K0 4 (ap_st K1 0 st (evens ?x)) (odds ?x) ! i) ?n ?m1
    = memcpy mem out (down2 st ?x)"
    by (subst upd_put_put; use assms in \<open>simp add: ap_out_other put_block [of _ _ mem, simplified]
      down2_def half_sum_def map2_map_left\<close>)
  then have 2: "allpass_loop (\<lambda>_ i. short_q15 (inp ! (2 * i + 1)))
     (\<lambda>m i y. m[out + i := s32 (m ! (out + i) + asr y 1)]) K0 4 ?n (?m1, ap_st K1 0 st (evens ?x)) =
     (memcpy mem out (down2 st ?x), down2_st st ?x)"
    using allpass_loop_upd [of ?n "\<lambda>_ i. short_q15 (inp ! (2 * i + 1))" "\<lambda>x y. s32 (x + asr y 1)" 1 out K0 4
      "ap_st K1 0 st (evens ?x)" ?m1]
    unfolding od by (simp add: down2_st_def)
  show ?thesis
    unfolding WebRtcSpl_DownBy2ShortToInt_def Let_def 1 prod.case 2 ..
qed

text \<open>The half-band filter of a whole signal: four sections, the first fed one sample late.\<close>

definition lp_avg :: "int \<Rightarrow> int \<Rightarrow> int" where
  "lp_avg l u = asr (s32 (asr l 1 + asr u 1)) 15"

definition lp_in :: "int list \<Rightarrow> int list \<Rightarrow> int list" where
  "lp_in st xs = take (length xs div 2) (st ! 12 # odds xs)"

definition lp2 :: "int list \<Rightarrow> int list \<Rightarrow> int list" where
  "lp2 st xs = interleave
     (map2 lp_avg (ap_out K1 0 st (lp_in st xs)) (ap_out K0 4 st (evens xs)))
     (map2 lp_avg (ap_out K1 8 st (evens xs)) (ap_out K0 12 st (odds xs)))"

definition lp2_st :: "int list \<Rightarrow> int list \<Rightarrow> int list" where
  "lp2_st st xs =
     ap_st K0 12 (ap_st K1 8 (ap_st K0 4 (ap_st K1 0 st (lp_in st xs)) (evens xs)) (evens xs)) (odds xs)"

lemma length_lp [simp]:
  "length (lp_in st xs) = length xs div 2"
  "length (lp2 st xs) = 2 * (length xs div 2)"
  "length (lp2_st st xs) = length st"
  by (simp_all add: lp_in_def lp2_def lp2_st_def length_interleave)

lemma ap_st_first: "k < length st \<Longrightarrow> xs \<noteq> [] \<Longrightarrow> ap_st c k st xs ! k = last xs"
proof (induction xs rule: rev_induct)
  case (snoc x xs)
  then show ?case by (simp add: allpass_step_def Let_def)
qed simp

lemma lp2_st_delay:
  assumes "length st = 16"
  shows "lp2_st st xs ! 12 = last (st ! 12 # odds xs)"
proof (cases "odds xs = []")
  case True
  then show ?thesis by (simp add: lp2_st_def ap_st_other)
next
  case False
  then show ?thesis using assms by (simp add: lp2_st_def ap_st_first)
qed

lemma lp_in_append:
  assumes "even (length xs)" "length st = 16"
  shows "lp_in st (xs @ ys) = lp_in st xs @ lp_in (lp2_st st xs) ys"
proof -
  have t: "take (length as + n) (a # as @ bs) = take (length as) (a # as) @ take n (last (a # as) # bs)" 
    for a :: int and as bs n
    by (induction as arbitrary: a) (cases n; simp)+
  show ?thesis
    using assms t [of "odds xs" "length ys div 2" "st ! 12" "odds ys"]
    by (auto simp: lp_in_def odds_append lp2_st_delay [unfolded last.simps] elim!: evenE)
qed

lemma lp2_append:
  assumes "even (length xs)" "length st = 16"
  shows "lp2 st (xs @ ys) = lp2 st xs @ lp2 (lp2_st st xs) ys" (is ?A)
    and "lp2_st st (xs @ ys) = lp2_st (lp2_st st xs) ys" (is ?B)
proof -
  note app = lp_in_append [OF assms] evens_append [OF assms(1)] odds_append [OF assms(1)]
  have o: "ap_out K1 0 (lp2_st st xs) zs = ap_out K1 0 (ap_st K1 0 st (lp_in st xs)) zs"
    "ap_out K0 4 (lp2_st st xs) zs = ap_out K0 4 (ap_st K0 4 st (evens xs)) zs"
    "ap_out K1 8 (lp2_st st xs) zs = ap_out K1 8 (ap_st K1 8 st (evens xs)) zs"
    "ap_out K0 12 (lp2_st st xs) zs = ap_out K0 12 (ap_st K0 12 st (odds xs)) zs" for zs
    using assms(2) unfolding lp2_st_def
    by (simp_all add: ap_out_other ap_out_other_run ap_st_commute [of 8 4] ap_st_commute [of 12 4]
       ap_st_commute [of 12 8] ap_st_commute [of 4 0] ap_st_commute [of 8 0] ap_st_commute [of 12 0])
  show ?A unfolding lp2_def app ap_out_append o
    by (simp add: interleave_append)
  show ?B unfolding lp2_st_def [of _ "xs @ ys"] lp2_st_def [of _ ys] app ap_st_simps
    using assms(2)
    by (simp add: lp2_st_def [of st xs] ap_st_commute [of 8 4] ap_st_commute [of 12 4]
       ap_st_commute [of 12 8] ap_st_commute [of 4 0] ap_st_commute [of 8 0] ap_st_commute [of 12 0])
qed

definition same_outside :: "nat \<Rightarrow> nat \<Rightarrow> int list \<Rightarrow> int list \<Rightarrow> bool" where
  "same_outside out len mem m' \<longleftrightarrow> length m' = length mem \<and> (\<forall>p. p < out \<or> out + len \<le> p \<longrightarrow> m' ! p = mem ! p)"

lemma same_outside_upd:
  assumes "same_outside out len mem m" "n \<le> len div 2" "out' = out \<or> out' = out + 1"
  shows "same_outside out len mem (upd f 2 out' y n m)"
  unfolding same_outside_def
proof (intro conjI allI impI)
  fix p assume p: "p < out \<or> out + len \<le> p"
  have "p \<noteq> out' + 2 * i" if "i < n" for i
  proof -
    have "i < len div 2" using that assms(2) by linarith
    then have "2 * i + 1 < len" by linarith
    then show ?thesis using p assms(3) by linarith
  qed
  then have "upd f 2 out' y n m ! p = m ! p" by (rule upd_other)
  then show "upd f 2 out' y n m ! p = mem ! p"
    using p assms(1) by (auto simp: same_outside_def)
qed (use assms(1) in \<open>simp add: same_outside_def\<close>)

lemma same_outside_put:
  "same_outside out len mem m \<Longrightarrow> length ys \<le> len div 2 \<Longrightarrow> out' = out \<or> out' = out + 1 \<Longrightarrow>
     same_outside out len mem (put 2 out' ys m)"
  by (simp add: put_def same_outside_upd)

lemma lp_by2_pure:
  assumes rd: "\<And>m j. same_outside out len mem m \<Longrightarrow> j < len \<Longrightarrow> rd m j = rd mem j"
    and len: "even len" "0 < len" "out + len \<le> length mem" "length st = 16"
  shows "lp_by2 rd len mem out st = (memcpy mem out (lp2 st (map (rd mem) [0..<len])), lp2_st st (map (rd mem) [0..<len]))"
proof -
  let ?x = "map (rd mem) [0..<len]" and ?n = "len div 2"
  let ?rd0 = "\<lambda>m i. if i = 0 then st ! 12 else rd m (2 * (i - 1) + 1)"
  have fr: "same_outside out len mem mem" by (simp add: same_outside_def)
  have r0: "?rd0 m j = ?rd0 mem j" if "same_outside out len mem m" "j < ?n" for m j
    using rd [OF that(1), of "2 * (j - 1) + 1"] that(2) by auto
  have re: "rd m (2 * j) = rd mem (2 * j)" if "same_outside out len mem m" "j < ?n" for m j
    using rd [OF that(1), of "2 * j"] that(2) by auto
  have ro: "rd m (2 * j + 1) = rd mem (2 * j + 1)" if "same_outside out len mem m" "j < ?n" for m j
    using rd [OF that(1), of "2 * j + 1"] that(2) len(1) by auto
  have li: "map (?rd0 mem) [0..<?n] = lp_in st ?x"
    by (rule nth_equalityI) (auto simp: lp_in_def odds_def nth_Cons split: nat.splits)
  have ev: "map (\<lambda>i. rd mem (2 * i)) [0..<?n] = evens ?x" and od: "map (\<lambda>i. rd mem (2 * i + 1)) [0..<?n] = odds ?x"
    by (auto simp: evens_def odds_def)
  let ?s1 = "ap_st K1 0 st (lp_in st ?x)"
  let ?s2 = "ap_st K0 4 ?s1 (evens ?x)"
  let ?s3 = "ap_st K1 8 ?s2 (evens ?x)"
  let ?m1 = "put 2 out (map (\<lambda>y. asr y 1) (ap_out K1 0 st (lp_in st ?x))) mem"
  let ?e = "map2 lp_avg (ap_out K1 0 st (lp_in st ?x)) (ap_out K0 4 st (evens ?x))"
  let ?m2 = "put 2 out ?e mem"
  let ?m3 = "put 2 (out + 1) (map (\<lambda>y. asr y 1) (ap_out K1 8 st (evens ?x))) ?m2"
  let ?o = "map2 lp_avg (ap_out K1 8 st (evens ?x)) (ap_out K0 12 st (odds ?x))"
  have f1: "same_outside out len mem ?m1" and f2: "same_outside out len mem ?m2" using fr by (auto intro!: same_outside_put)
  then have f3: "same_outside out len mem ?m3" by (auto intro!: same_outside_put)
  have 1: "allpass_loop ?rd0 (\<lambda>m i y. m[out + 2 * i := asr y 1]) K1 0 ?n (mem, st) = (?m1, ?s1)"
    using allpass_loop_upd [of ?n ?rd0 "\<lambda>_ y. asr y 1" 2 out K1 0 st mem, OF r0 [OF same_outside_upd [OF fr]]]
    unfolding li by (simp add: upd_put)
  have 2: "allpass_loop (\<lambda>m i. rd m (2 * i)) (\<lambda>m i y. m[out + 2 * i := asr (s32 (m ! (out + 2 * i) + asr y 1)) 15])
      K0 4 ?n (?m1, ?s1) = (?m2, ?s2)"
  proof -
    have "map (\<lambda>i. rd ?m1 (2 * i)) [0..<?n] = map (\<lambda>i. rd mem (2 * i)) [0..<?n]"
      using re [OF f1] by (intro map_cong) auto
    then have "map (\<lambda>i. rd ?m1 (2 * i)) [0..<?n] = evens ?x" unfolding ev .
    moreover have "rd (upd f 2 out y j ?m1) (2 * j) = rd ?m1 (2 * j)" if "j < ?n" for f y j
      using re [OF same_outside_upd [OF f1, of j out f y] that] re [OF f1 that] that by simp
    ultimately show ?thesis
      using allpass_loop_upd [of ?n "\<lambda>m i. rd m (2 * i)" "\<lambda>x y. asr (s32 (x + asr y 1)) 15" 2 out K0 4 ?s1 ?m1]
        len by (simp add: upd_put_put ap_out_other map2_map_left lp_avg_def)
  qed
  have 3: "allpass_loop (\<lambda>m i. rd m (2 * i)) (\<lambda>m i y. m[out + 1 + 2 * i := asr y 1])
      K1 8 ?n (?m2, ?s2) = (?m3, ?s3)"
  proof -
    have "map (\<lambda>i. rd ?m2 (2 * i)) [0..<?n] = map (\<lambda>i. rd mem (2 * i)) [0..<?n]"
      using re [OF f2] by (intro map_cong) auto
    then have "map (\<lambda>i. rd ?m2 (2 * i)) [0..<?n] = evens ?x" unfolding ev .
    moreover have "rd (upd f 2 (out + 1) y j ?m2) (2 * j) = rd ?m2 (2 * j)" if "j < ?n" for f y j
      using re [OF same_outside_upd [OF f2, of j "out + 1" f y] that] re [OF f2 that] that by simp
    ultimately show ?thesis
      using allpass_loop_upd [of ?n "\<lambda>m i. rd m (2 * i)" "\<lambda>_ y. asr y 1" 2 "out + 1" K1 8 ?s2 ?m2] len
      by (simp add: upd_put ap_out_other)
  qed
  have 4: "allpass_loop (\<lambda>m i. rd m (2 * i + 1))
       (\<lambda>m i y. m[out + 1 + 2 * i := asr (s32 (m ! (out + 1 + 2 * i) + asr y 1)) 15]) K0 12 ?n (?m3, ?s3)
      = (put 2 (out + 1) ?o ?m2, lp2_st st ?x)"
  proof -
    have "map (\<lambda>i. rd ?m3 (2 * i + 1)) [0..<?n] = map (\<lambda>i. rd mem (2 * i + 1)) [0..<?n]"
      using ro [OF f3] by (intro map_cong) auto
    then have "map (\<lambda>i. rd ?m3 (2 * i + 1)) [0..<?n] = odds ?x" unfolding od .
    moreover have "rd (upd f 2 (out + 1) y j ?m3) (2 * j + 1) = rd ?m3 (2 * j + 1)" if "j < ?n" for f y j
      using ro [OF same_outside_upd [OF f3, of j "out + 1" f y] that] ro [OF f3 that] that by simp
    ultimately show ?thesis
      using allpass_loop_upd [of ?n "\<lambda>m i. rd m (2 * i + 1)" "\<lambda>x y. asr (s32 (x + asr y 1)) 15" 2 "out + 1" K0 12
        ?s3 ?m3] len by (auto simp: upd_put_put ap_out_other map2_map_left lp_avg_def lp2_st_def elim!: evenE)
  qed
  have "put 2 (out + 1) ?o ?m2 = memcpy mem out (lp2 st ?x)"
    unfolding lp2_def using len by (intro put_interleave) auto
  then show ?thesis
    unfolding lp_by2_def Let_def 1 2 3 4 by simp
qed

text \<open>Polyphase interpolation of a buffer that starts with eight samples of history.\<close>

definition poly :: "int list list \<Rightarrow> nat \<Rightarrow> int list \<Rightarrow> nat \<Rightarrow> int list" where
  "poly cs d buf K = concat (map (\<lambda>m. map (\<lambda>i. fir8 (cs ! i) buf (d * m + i)) [0..<length cs]) [0..<K])"

lemma fir8_cong: "(\<And>j. j < 8 \<Longrightarrow> mem ! (p + j) = mem' ! (p' + j)) \<Longrightarrow> fir8 c mem p = fir8 c mem' p'"
  unfolding fir8_def by (intro fold_cong) auto

lemma length_poly: "length (poly cs d buf K) = K * length cs"
  by (simp add: poly_def length_concat comp_def sum_list_triv)

lemma poly_add: "d * a \<le> length buf \<Longrightarrow> poly cs d buf (a + b) = poly cs d buf a @ poly cs d (drop (d * a) buf) b"
proof -
  assume l: "d * a \<le> length buf"
  have f: "fir8 (cs ! i) buf (d * (m + a) + i) = fir8 (cs ! i) (drop (d * a) buf) (d * m + i)" for m i
    using l by (intro fir8_cong) (simp add: add_mult_distrib2 add.assoc add.left_commute [of _ "d * a"])
  have u: "[0..<a + b] = [0..<a] @ map (\<lambda>m. m + a) [0..<b]"
    using upt_add_eq_append [of 0 a b] map_add_upt [of a b] by (simp add: add.commute [of b a])
  show ?thesis unfolding poly_def u map_append concat_append map_map comp_def f ..
qed

lemma poly_prefix:
  assumes "d * K + 8 \<le> length xs + 1" "length cs \<le> d"
  shows "poly cs d (xs @ ys) K = poly cs d xs K"
proof -
  have "fir8 (cs ! i) (xs @ ys) (d * m + i) = fir8 (cs ! i) xs (d * m + i)" if "m < K" "i < length cs" for m i
  proof (rule fir8_cong)
    fix j :: nat assume "j < 8"
    have "d * m + d \<le> d * K" using that(1) mult_le_mono2 [of "Suc m" K d] by simp
    then have "d * m + i + j < length xs" using that(2) assms \<open>j < 8\<close> by linarith
    then show "(xs @ ys) ! (d * m + i + j) = xs ! (d * m + i + j)" by (simp add: nth_append)
  qed
  then show ?thesis unfolding poly_def by (intro arg_cong [where f = concat] map_cong) auto
qed

lemma poly_history:
  assumes "length h = 8" "length xs = d * a" "length cs \<le> d" 
  shows "poly cs d (h @ xs @ ys) (a + b) =
    poly cs d (h @ xs) a @ poly cs d (drop (length xs) (h @ xs) @ ys) b"
proof -
  have "poly cs d (h @ xs @ ys) (a + b) = poly cs d (h @ xs @ ys) a @ poly cs d (drop (d * a) (h @ xs @ ys)) b"
    using assms by (intro poly_add) simp
  also have "poly cs d (h @ xs @ ys) a = poly cs d (h @ xs) a"
    using assms poly_prefix [of d a "h @ xs" cs ys] by simp
  finally show ?thesis using assms by simp
qed

text \<open>
  The fractional stages run in place: their output region starts at or below their input
  region, and no cell is overwritten before its last use.
\<close>

lemma memcpy_step: "out < length mem \<Longrightarrow> out + 1 + length ys \<le> length mem \<Longrightarrow>
  memcpy (mem[out := y]) (Suc out) ys = memcpy mem out (y # ys)"
  by (simp add: memcpy_fits take_Suc_conv_app_nth)

lemma poly_first:
  assumes "inp + d + 8 \<le> length mem + 1" "length cs \<le> d"
  shows "poly cs d (drop inp mem) (Suc K) =
    map (\<lambda>i. fir8 (cs ! i) mem (inp + i)) [0..<length cs] @ poly cs d (drop (inp + d) mem) K"
proof -
  have "poly cs d (drop inp mem) (1 + K) =
    poly cs d (drop inp mem) 1 @ poly cs d (drop (d * 1) (drop inp mem)) K"
    using assms by (intro poly_add) simp
  moreover have "poly cs d (drop inp mem) 1 = map (\<lambda>i. fir8 (cs ! i) mem (inp + i)) [0..<length cs]"
    unfolding poly_def using assms by (auto intro!: fir8_cong simp: add.assoc)
  ultimately show ?thesis by (simp add: add.commute)
qed

lemma fir8_update: "out < p \<Longrightarrow> fir8 c (mem[out := y]) p = fir8 c mem p"
  by (rule fir8_cong) simp

lemma Resample48khzTo32khz_in_place:
  assumes "out \<le> inp" "inp + 3 * K + 8 \<le> length mem"
  shows "WebRtcSpl_Resample48khzTo32khz K mem inp out = memcpy mem out (poly kCoefficients48To32 3 (drop inp mem) K)"
  using assms
proof (induction K arbitrary: mem inp out)
  case (Suc K)
  let ?a = "fir8 (kCoefficients48To32 ! 0) mem inp" and ?b = "fir8 (kCoefficients48To32 ! 1) mem (inp + 1)"
  let ?m = "mem[out := ?a, out + 1 := ?b]"
  let ?p = "poly kCoefficients48To32 3 (drop (inp + 3) mem) K"
  have l: "length ?p = 2 * K" by (simp add: length_poly kCoefficients48To32_def)
  have "WebRtcSpl_Resample48khzTo32khz (Suc K) mem inp out = WebRtcSpl_Resample48khzTo32khz K ?m (inp + 3) (out + 2)"
    using Suc.prems by (simp add: Let_def fir8_update)
  also have "\<dots> = memcpy ?m (out + 2) ?p"
    using Suc.prems by (subst Suc.IH) auto
  also have "\<dots> = memcpy mem out (?a # ?b # ?p)"
    using Suc.prems l memcpy_step [of "out + 1" "mem[out := ?a]" ?p ?b] memcpy_step [of out mem "?b # ?p" ?a]
    by simp
  also have "?a # ?b # ?p = poly kCoefficients48To32 3 (drop inp mem) (Suc K)"
    using Suc.prems by (subst poly_first) (auto simp: kCoefficients48To32_def)
  finally show ?case .
qed (simp add: poly_def)

lemma Resample32khzTo24khz_in_place:
  assumes "out \<le> inp" "inp + 4 * K + 8 \<le> length mem"
  shows "WebRtcSpl_Resample32khzTo24khz K mem inp out = memcpy mem out (poly kCoefficients32To24 4 (drop inp mem) K)"
  using assms
proof (induction K arbitrary: mem inp out)
  case (Suc K)
  let ?a = "fir8 (kCoefficients32To24 ! 0) mem inp" and ?b = "fir8 (kCoefficients32To24 ! 1) mem (inp + 1)"
    and ?c = "fir8 (kCoefficients32To24 ! 2) mem (inp + 2)"
  let ?m = "mem[out := ?a, out + 1 := ?b, out + 2 := ?c]"
  let ?p = "poly kCoefficients32To24 4 (drop (inp + 4) mem) K"
  have l: "length ?p = 3 * K" by (simp add: length_poly kCoefficients32To24_def)
  have "WebRtcSpl_Resample32khzTo24khz (Suc K) mem inp out = WebRtcSpl_Resample32khzTo24khz K ?m (inp + 4) (out + 3)"
    using Suc.prems by (simp add: Let_def fir8_update)
  also have "\<dots> = memcpy ?m (out + 3) ?p"
    using Suc.prems by (subst Suc.IH) auto
  also have "\<dots> = memcpy mem out (?a # ?b # ?c # ?p)"
    using Suc.prems l memcpy_step [of "out + 2" "mem[out := ?a, out + 1 := ?b]" ?p ?c]
      memcpy_step [of "out + 1" "mem[out := ?a]" "?c # ?p" ?b] memcpy_step [of out mem "?b # ?c # ?p" ?a]
    by (simp add: numeral_eq_Suc)
  also have "?a # ?b # ?c # ?p = poly kCoefficients32To24 4 (drop inp mem) (Suc K)"
    using Suc.prems by (subst poly_first) (auto simp: kCoefficients32To24_def numeral_eq_Suc)
  finally show ?case .
qed (simp add: poly_def)

lemma map_interleave: "length xs = length ys \<Longrightarrow> map g (interleave xs ys) = interleave (map g xs) (map g ys)"
  by (induction xs ys rule: list_induct2) (simp_all add: interleave_def)

lemma mem_slice_drop_nth: "p + n \<le> length mem \<Longrightarrow> map (\<lambda>i. mem ! (p + i)) [0..<n] = mem_slice mem p n"
  by (rule nth_equalityI) (simp_all add: mem_slice_def)

definition sat15 :: "int \<Rightarrow> int" where
  "sat15 y = sat_short (asr y 15)"

lemma pairs_concat: "concat (map (\<lambda>j. [f (2 * j), f (2 * j + 1)]) [0..<n]) = map f [0..<2 * n]"
  by (induction n) auto

lemma DownBy2IntToShort_pure:
  assumes "4 dvd len" "0 < len" "inp + len \<le> length mem" "length st = 8"
  shows "\<exists>m. length m = length mem \<and> WebRtcSpl_DownBy2IntToShort mem inp len st =
    (map sat15 (down2 st (mem_slice mem inp len)), m, down2_st st (mem_slice mem inp len))"
proof -
  let ?x = "mem_slice mem inp len" and ?n = "len div 2"
  have lx: "length ?x = len" using assms by (simp add: mem_slice_length)
  have ev: "map (\<lambda>i. mem ! (inp + 2 * i)) [0..<?n] = evens ?x"
    using assms by (auto simp: evens_def lx mem_slice_nth)
  have od: "map (\<lambda>i. mem ! (inp + 1 + 2 * i)) [0..<?n] = odds ?x"
    using assms by (auto simp: odds_def lx mem_slice_nth)
  let ?lo = "map (\<lambda>y. asr y 1) (ap_out K1 0 st (evens ?x))"
  let ?up = "map (\<lambda>y. asr y 1) (ap_out K0 4 st (odds ?x))"
  let ?s1 = "ap_st K1 0 st (evens ?x)"
  let ?m1 = "put 2 inp ?lo mem"
  have 1: "allpass_loop (\<lambda>m i. m ! (inp + 2 * i)) (\<lambda>m i y. m[inp + 2 * i := asr y 1]) K1 0 ?n (mem, st) = (?m1, ?s1)"
    using allpass_loop_upd [of ?n "\<lambda>m i. m ! (inp + 2 * i)" "\<lambda>_ y. asr y 1" 2 inp K1 0 st mem]
    unfolding ev by (simp add: upd_put upd_other lx)
  have o1: "?m1 ! (inp + 1 + 2 * i) = mem ! (inp + 1 + 2 * i)" for i
    by (rule put_other) presburger
  have od1: "map (\<lambda>i. ?m1 ! (inp + 1 + 2 * i)) [0..<?n] = odds ?x"
    unfolding o1 od ..
  let ?m2 = "put 2 (inp + 1) ?up ?m1"
  have 2: "allpass_loop (\<lambda>m i. m ! (inp + 1 + 2 * i)) (\<lambda>m i y. m[inp + 1 + 2 * i := asr y 1]) K0 4 ?n (?m1, ?s1)
      = (?m2, down2_st st ?x)"
    using allpass_loop_upd [of ?n "\<lambda>m i. m ! (inp + 1 + 2 * i)" "\<lambda>_ y. asr y 1" 2 "inp + 1" K0 4 ?s1 ?m1]
      assms(4) unfolding od1 by (simp add: upd_put upd_other lx ap_out_other down2_st_def)
  have m2: "?m2 = memcpy mem inp (interleave ?lo ?up)"
    using assms lx by (intro put_interleave) auto
  let ?comb = "\<lambda>i. sat_short (asr (s32 (?m2 ! (inp + 2 * i) + ?m2 ! (inp + 2 * i + 1))) 15)"
  have comb: "?comb i = sat15 (down2 st ?x ! i)" if "i < ?n" for i
  proof -
    have "?m2 ! (inp + 2 * i) = ?lo ! i" "?m2 ! (inp + 2 * i + 1) = ?up ! i"
      unfolding m2 using that assms lx interleave_nth [of ?lo ?up i]
      by (simp_all add: nth_memcpy length_interleave)
    then show ?thesis using that lx by (simp add: sat15_def down2_def half_sum_def)
  qed
  have "concat (map (\<lambda>j. [?comb (2 * j), ?comb (2 * j + 1)]) [0..<(?n + 1) div 2]) = map ?comb [0..<2 * ((?n + 1) div 2)]"
    by (rule pairs_concat)
  also have "2 * ((?n + 1) div 2) = ?n" using assms(1) by auto
  also have "map ?comb [0..<?n] = map sat15 (down2 st ?x)"
    using comb lx by (intro nth_equalityI) auto
  finally have out: "concat (map (\<lambda>j. [?comb (2 * j), ?comb (2 * j + 1)]) [0..<(?n + 1) div 2]) =
    map sat15 (down2 st ?x)" .
  have "WebRtcSpl_DownBy2IntToShort mem inp len st = (map sat15 (down2 st ?x), ?m2, down2_st st ?x)"
    unfolding WebRtcSpl_DownBy2IntToShort_def Let_def 1 prod.case 2 out ..
  moreover have "length ?m2 = length mem" by simp
  ultimately show ?thesis by blast
qed

text \<open>Interpolation by two of a whole signal.\<close>

definition up2 :: "int list \<Rightarrow> int list \<Rightarrow> int list" where
  "up2 st xs = interleave (ap_out K0 4 st xs) (ap_out K1 0 st xs)"

definition up2_st :: "int list \<Rightarrow> int list \<Rightarrow> int list" where
  "up2_st st xs = ap_st K1 0 (ap_st K0 4 st xs) xs"

lemma length_up2 [simp]: "length (up2 st xs) = 2 * length xs" "length (up2_st st xs) = length st"
  by (simp_all add: up2_def up2_st_def length_interleave)

lemma up2_append:
  assumes "length st = 8"
  shows "up2 st (xs @ ys) = up2 st xs @ up2 (up2_st st xs) ys"
    "up2_st st (xs @ ys) = up2_st (up2_st st xs) ys"
  using assms
  by (simp add: up2_def up2_st_def interleave_append ap_out_other ap_out_other_run)
     (use assms in \<open>simp add: up2_st_def ap_st_commute [of 4 0]\<close>)

lemma up2_loops:
  assumes rd: "\<And>m j. same_outside out (2 * len) mem m \<Longrightarrow> j < len \<Longrightarrow> rd m j = rd mem j"
    and len: "out + 2 * len \<le> length mem" "length st = 8"
  shows "allpass_loop rd (\<lambda>m i y. m[out + 1 + 2 * i := g y]) K1 0 len
      (allpass_loop rd (\<lambda>m i y. m[out + 2 * i := g y]) K0 4 len (mem, st)) =
    (memcpy mem out (map g (up2 st (map (rd mem) [0..<len]))), up2_st st (map (rd mem) [0..<len]))"
proof -
  let ?x = "map (rd mem) [0..<len]"
  let ?m1 = "put 2 out (map g (ap_out K0 4 st ?x)) mem"
  have fr: "same_outside out (2 * len) mem mem" by (simp add: same_outside_def)
  then have f1: "same_outside out (2 * len) mem ?m1" by (intro same_outside_put) auto
  have 1: "allpass_loop rd (\<lambda>m i y. m[out + 2 * i := g y]) K0 4 len (mem, st) = (?m1, ap_st K0 4 st ?x)"
    using allpass_loop_upd [of len rd "\<lambda>_. g" 2 out K0 4 st mem, OF rd [OF same_outside_upd [OF fr]]]
    by (simp add: upd_put)
  have x1: "map (rd ?m1) [0..<len] = ?x" using rd [OF f1] by (intro map_cong) auto
  have "rd (upd f 2 (out + 1) y j ?m1) j = rd ?m1 j" if "j < len" for f y j
    using rd [OF same_outside_upd [OF f1, of j "out + 1" f y] that] rd [OF f1 that] that by simp
  then have 2: "allpass_loop rd (\<lambda>m i y. m[out + 1 + 2 * i := g y]) K1 0 len (?m1, ap_st K0 4 st ?x) =
    (put 2 (out + 1) (map g (ap_out K1 0 st ?x)) ?m1, up2_st st ?x)"
    using allpass_loop_upd [of len rd "\<lambda>_. g" 2 "out + 1" K1 0 "ap_st K0 4 st ?x" ?m1] len(2)
    unfolding x1 by (simp add: upd_put ap_out_other up2_st_def)
  show ?thesis unfolding 1 2 up2_def
    using len by (subst put_interleave) (auto simp: map_interleave)
qed

lemma UpBy2ShortToInt_pure:
  assumes "length inp = len" "out + 2 * len \<le> length mem" "length st = 8"
  shows "WebRtcSpl_UpBy2ShortToInt inp len mem out st =
    (memcpy mem out (map (\<lambda>y. asr y 15) (up2 st (map short_q15 inp))), up2_st st (map short_q15 inp))"
proof -
  have "map (\<lambda>i. short_q15 (inp ! i)) [0..<len] = map short_q15 inp"
    using assms(1) by (intro nth_equalityI) auto
  then show ?thesis
    unfolding WebRtcSpl_UpBy2ShortToInt_def
    using up2_loops [of out len mem "\<lambda>_ i. short_q15 (inp ! i)" st "\<lambda>y. asr y 15"] assms by simp
qed

lemma UpBy2IntToInt_pure:
  assumes "out + 2 * len \<le> inp" "inp + len \<le> length mem" "length st = 8"
  shows "WebRtcSpl_UpBy2IntToInt mem inp len out st =
    (memcpy mem out (up2 st (mem_slice mem inp len)), up2_st st (mem_slice mem inp len))"
  unfolding WebRtcSpl_UpBy2IntToInt_def
  using up2_loops [of out len mem "\<lambda>m i. m ! (inp + i)" st "\<lambda>y. y"] assms
  by (simp add: mem_slice_drop_nth same_outside_def)

lemma UpBy2IntToShort_pure:
  assumes "len \<le> length inp" "length out = 2 * len" "length st = 8"
  shows "WebRtcSpl_UpBy2IntToShort inp len out st = (map sat15 (up2 st (take len inp)), up2_st st (take len inp))"
proof -
  have "map (\<lambda>i. inp ! i) [0..<len] = take len inp"
    using assms(1) by (intro nth_equalityI) auto
  then show ?thesis
    unfolding WebRtcSpl_UpBy2IntToShort_def
    using up2_loops [of 0 len out "\<lambda>_ i. inp ! i" st "\<lambda>y. sat_short (asr y 15)"] assms
    by (simp add: memcpy_whole sat15_def)
qed

section \<open>The chains as functions on whole signals\<close>

definition spec48to8 :: "WebRtcSpl_State48khzTo8khz \<Rightarrow> int list \<Rightarrow> int list \<times> WebRtcSpl_State48khzTo8khz" where
  "spec48to8 st xs =
     (let x1 = map short_q15 xs; x2 = down2 (S_48_24 st) x1; x3 = lp2 (S_24_24 st) x2;
          x4 = poly kCoefficients48To32 3 (S_24_16 st @ x3) (length x3 div 3)
      in (map sat15 (down2 (S_16_8 st) x4),
          \<lparr>S_48_24 = down2_st (S_48_24 st) x1, S_24_24 = lp2_st (S_24_24 st) x2,
           S_24_16 = drop (length x3) (S_24_16 st @ x3), S_16_8 = down2_st (S_16_8 st) x4\<rparr>))"

definition spec48to16 :: "WebRtcSpl_State48khzTo16khz \<Rightarrow> int list \<Rightarrow> int list \<times> WebRtcSpl_State48khzTo16khz" where
  "spec48to16 st xs =
     (let x1 = map short_q15 xs; x2 = lp2 (S_48_48 st) x1;
          x3 = poly kCoefficients48To32 3 (S_48_32 st @ x2) (length x2 div 3)
      in (map sat15 (down2 (S_32_16 st) x3),
          \<lparr>S_48_48 = lp2_st (S_48_48 st) x1, S_48_32 = drop (length x2) (S_48_32 st @ x2),
           S_32_16 = down2_st (S_32_16 st) x3\<rparr>))"

definition spec16to48 :: "WebRtcSpl_State16khzTo48khz \<Rightarrow> int list \<Rightarrow> int list \<times> WebRtcSpl_State16khzTo48khz" where
  "spec16to48 st xs =
     (let x1 = map short_q15 xs; x2 = map (\<lambda>y. asr y 15) (up2 (S_16_32 st) x1);
          x3 = poly kCoefficients32To24 4 (S_32_24 st @ x2) (length xs div 2)
      in (map sat15 (up2 (S_24_48 st) x3),
          \<lparr>S_16_32 = up2_st (S_16_32 st) x1, S_32_24 = drop (length x2) (S_32_24 st @ x2),
           S_24_48 = up2_st (S_24_48 st) x3\<rparr>))"

definition spec8to48 :: "WebRtcSpl_State8khzTo48khz \<Rightarrow> int list \<Rightarrow> int list \<times> WebRtcSpl_State8khzTo48khz" where
  "spec8to48 st xs =
     (let x1 = map short_q15 xs; x2 = map (\<lambda>y. asr y 15) (up2 (S_8_16 st) x1);
          x3 = poly kCoefficients32To24 4 (S_16_12 st @ x2) (length xs div 2);
          x4 = up2 (S_12_24 st) x3
      in (map sat15 (up2 (S_24_48' st) x4),
          \<lparr>S_8_16 = up2_st (S_8_16 st) x1, S_16_12 = drop (length x2) (S_16_12 st @ x2),
           S_12_24 = up2_st (S_12_24 st) x3, S_24_48' = up2_st (S_24_48' st) x4\<rparr>))"

definition wf48to8 :: "WebRtcSpl_State48khzTo8khz \<Rightarrow> bool" where
  "wf48to8 st \<longleftrightarrow> length (S_48_24 st) = 8 \<and> length (S_24_24 st) = 16 \<and> length (S_24_16 st) = 8 \<and>
     length (S_16_8 st) = 8"

definition wf48to16 :: "WebRtcSpl_State48khzTo16khz \<Rightarrow> bool" where
  "wf48to16 st \<longleftrightarrow> length (S_48_48 st) = 16 \<and> length (S_48_32 st) = 8 \<and> length (S_32_16 st) = 8"

definition wf16to48 :: "WebRtcSpl_State16khzTo48khz \<Rightarrow> bool" where
  "wf16to48 st \<longleftrightarrow> length (S_16_32 st) = 8 \<and> length (S_32_24 st) = 8 \<and> length (S_24_48 st) = 8"

definition wf8to48 :: "WebRtcSpl_State8khzTo48khz \<Rightarrow> bool" where
  "wf8to48 st \<longleftrightarrow> length (S_8_16 st) = 8 \<and> length (S_16_12 st) = 8 \<and> length (S_12_24 st) = 8 \<and>
     length (S_24_48' st) = 8"

lemmas wf_defs = wf48to8_def wf48to16_def wf16to48_def wf8to48_def

text \<open>What a stage finds in the scratch array after the previous ones.\<close>

lemma drop_memcpy:
  "k + length src \<le> length dst \<Longrightarrow> drop k (memcpy dst k src) = src @ drop (k + length src) dst"
  by (simp add: memcpy_fits)

lemma slice_memcpy:
  "k + length src \<le> length dst \<Longrightarrow> n = length src \<Longrightarrow> mem_slice (memcpy dst k src) k n = src"
  by (simp add: memcpy_fits mem_slice_def)

lemma hist_block:
  assumes "length h = 8" "p + 8 + length xs \<le> length mem"
  shows "drop p (memcpy (memcpy mem (p + 8) xs) p h) = h @ xs @ drop (p + 8 + length xs) mem"
    and "q = p + length xs \<Longrightarrow> mem_slice (memcpy (memcpy mem (p + 8) xs) p h) q 8 = drop (length xs) (h @ xs)"
proof -
  show d: "drop p (memcpy (memcpy mem (p + 8) xs) p h) = h @ xs @ drop (p + 8 + length xs) mem"
    using assms by (simp add: drop_memcpy memcpy_fits add.commute)
  assume q: "q = p + length xs"
  have "drop q (memcpy (memcpy mem (p + 8) xs) p h) = drop (length xs) (h @ xs @ drop (p + 8 + length xs) mem)"
    unfolding q d [symmetric] drop_drop by (simp add: add.commute)
  then show "mem_slice (memcpy (memcpy mem (p + 8) xs) p h) q 8 = drop (length xs) (h @ xs)"
    unfolding mem_slice_def using assms by simp
qed

lemma refine48to16:
  assumes "wf48to16 st" "length xs = 480" "496 \<le> length tmpmem"
  shows "\<exists>m. length m = length tmpmem \<and> WebRtcSpl_Resample48khzTo16khz xs st tmpmem =
    (fst (spec48to16 st xs), snd (spec48to16 st xs), m)"
proof -
  let ?x1 = "map short_q15 xs"
  let ?x2 = "lp2 (S_48_48 st) ?x1" and ?h = "S_48_32 st"
  have l2: "length ?x2 = 480" using assms by simp
  have x1: "map (\<lambda>j. short_q15 (xs ! j)) [0..<480] = ?x1"
    using assms(2) by (intro nth_equalityI) auto
  have 1: "WebRtcSpl_LPBy2ShortToInt xs 480 tmpmem 16 (S_48_48 st) = (memcpy tmpmem 16 ?x2, lp2_st (S_48_48 st) ?x1)"
    unfolding WebRtcSpl_LPBy2ShortToInt_def
    using lp_by2_pure [of 16 480 tmpmem "\<lambda>_ j. short_q15 (xs ! j)" "S_48_48 st"] assms
    unfolding x1 by (simp add: wf_defs)
  let ?m = "memcpy (memcpy tmpmem 16 ?x2) 8 ?h"
  have m: "drop 8 ?m = ?h @ ?x2 @ drop 496 tmpmem" "mem_slice ?m 488 8 = drop (length ?x2) (?h @ ?x2)"
    using hist_block(1) [of ?h 8 ?x2 tmpmem] hist_block(2) [of ?h 8 ?x2 tmpmem 488] assms l2
    by (simp_all add: wf_defs)
  have lm: "length ?m = length tmpmem" using assms by simp
  let ?x3 = "poly kCoefficients48To32 3 (?h @ ?x2) 160"
  have l3: "length ?x3 = 320" by (simp add: length_poly kCoefficients48To32_def)
  have "poly kCoefficients48To32 3 (drop 8 ?m) 160 = ?x3"
    unfolding m(1) append_assoc [symmetric] using assms l2
    by (intro poly_prefix) (simp_all add: wf_defs kCoefficients48To32_def)
  then have 2: "WebRtcSpl_Resample48khzTo32khz 160 ?m 8 0 = memcpy ?m 0 ?x3"
    using assms lm Resample48khzTo32khz_in_place [of 0 8 160 ?m] by simp
  have s: "mem_slice (memcpy ?m 0 ?x3) 0 320 = ?x3" using l3 lm assms by (intro slice_memcpy) auto
  obtain m' where "length m' = length tmpmem" "WebRtcSpl_DownBy2IntToShort (memcpy ?m 0 ?x3) 0 320 (S_32_16 st) =
    (map sat15 (down2 (S_32_16 st) ?x3), m', down2_st (S_32_16 st) ?x3)"
    using DownBy2IntToShort_pure [of 320 0 "memcpy ?m 0 ?x3" "S_32_16 st"] assms lm
    unfolding s by (auto simp: wf_defs)
  then show ?thesis
    using l2 by (simp add: WebRtcSpl_Resample48khzTo16khz_def Let_def 1 m(2) 2 spec48to16_def)
qed

lemma refine48to8:
  assumes "wf48to8 st" "length xs = 480" "496 \<le> length tmpmem"
  shows "\<exists>m. length m = length tmpmem \<and> WebRtcSpl_Resample48khzTo8khz xs st tmpmem =
    (fst (spec48to8 st xs), snd (spec48to8 st xs), m)"
proof -
  let ?x1 = "map short_q15 xs"
  let ?x2 = "down2 (S_48_24 st) ?x1"
  let ?x3 = "lp2 (S_24_24 st) ?x2" and ?h = "S_24_16 st"
  let ?mem = "memcpy tmpmem 256 ?x2"
  have l2: "length ?x2 = 240" and l3: "length ?x3 = 240" using assms by simp_all
  have 0: "WebRtcSpl_DownBy2ShortToInt xs 480 tmpmem 256 (S_48_24 st) = (?mem, down2_st (S_48_24 st) ?x1)"
    using assms by (intro DownBy2ShortToInt_pure) (auto simp: wf_defs)
  have s0: "map (\<lambda>j. ?mem ! (256 + j)) [0..<240] = ?x2"
    using assms l2 by (simp add: mem_slice_drop_nth slice_memcpy)
  have 1: "WebRtcSpl_LPBy2IntToInt ?mem 256 240 16 (S_24_24 st) = (memcpy ?mem 16 ?x3, lp2_st (S_24_24 st) ?x2)"
    unfolding WebRtcSpl_LPBy2IntToInt_def
    using lp_by2_pure [of 16 240 ?mem "\<lambda>m j. m ! (256 + j)" "S_24_24 st"] assms
    unfolding s0 by (simp add: wf_defs same_outside_def)
  let ?m = "memcpy (memcpy ?mem 16 ?x3) 8 ?h"
  have m: "drop 8 ?m = ?h @ ?x3 @ drop 256 ?mem" "mem_slice ?m 248 8 = drop (length ?x3) (?h @ ?x3)"
    using hist_block(1) [of ?h 8 ?x3 ?mem] hist_block(2) [of ?h 8 ?x3 ?mem 248] assms l3
    by (simp_all add: wf_defs)
  have lm: "length ?m = length tmpmem" using assms by simp
  let ?x4 = "poly kCoefficients48To32 3 (?h @ ?x3) 80"
  have l4: "length ?x4 = 160" by (simp add: length_poly kCoefficients48To32_def)
  have "poly kCoefficients48To32 3 (drop 8 ?m) 80 = ?x4"
    unfolding m(1) append_assoc [symmetric] using assms l3
    by (intro poly_prefix) (simp_all add: wf_defs kCoefficients48To32_def)
  then have 2: "WebRtcSpl_Resample48khzTo32khz 80 ?m 8 0 = memcpy ?m 0 ?x4"
    using assms lm Resample48khzTo32khz_in_place [of 0 8 80 ?m] by simp
  have s: "mem_slice (memcpy ?m 0 ?x4) 0 160 = ?x4" using l4 lm assms by (intro slice_memcpy) auto
  obtain m' where "length m' = length tmpmem" "WebRtcSpl_DownBy2IntToShort (memcpy ?m 0 ?x4) 0 160 (S_16_8 st) =
    (map sat15 (down2 (S_16_8 st) ?x4), m', down2_st (S_16_8 st) ?x4)"
    using DownBy2IntToShort_pure [of 160 0 "memcpy ?m 0 ?x4" "S_16_8 st"] assms lm
    unfolding s by (auto simp: wf_defs)
  then show ?thesis
    using l3 by (simp add: WebRtcSpl_Resample48khzTo8khz_def Let_def 0 1 m(2) 2 spec48to8_def)
qed

lemma refine16to48:
  assumes "wf16to48 st" "length xs = 160" "length out = 480" "336 \<le> length tmpmem"
  shows "\<exists>m. length m = length tmpmem \<and> WebRtcSpl_Resample16khzTo48khz xs out st tmpmem =
    (fst (spec16to48 st xs), snd (spec16to48 st xs), m)"
proof -
  let ?x1 = "map short_q15 xs"
  let ?x2 = "map (\<lambda>y. asr y 15) (up2 (S_16_32 st) ?x1)" and ?h = "S_32_24 st"
  have l2: "length ?x2 = 320" using assms by simp
  have 1: "WebRtcSpl_UpBy2ShortToInt xs 160 tmpmem 16 (S_16_32 st) = (memcpy tmpmem 16 ?x2, up2_st (S_16_32 st) ?x1)"
    using assms by (intro UpBy2ShortToInt_pure) (auto simp: wf_defs)
  let ?m = "memcpy (memcpy tmpmem 16 ?x2) 8 ?h"
  have m: "drop 8 ?m = ?h @ ?x2 @ drop 336 tmpmem" "mem_slice ?m 328 8 = drop (length ?x2) (?h @ ?x2)"
    using hist_block(1) [of ?h 8 ?x2 tmpmem] hist_block(2) [of ?h 8 ?x2 tmpmem 328] assms l2
    by (simp_all add: wf_defs)
  have lm: "length ?m = length tmpmem" using assms by simp
  let ?x3 = "poly kCoefficients32To24 4 (?h @ ?x2) 80"
  have l3: "length ?x3 = 240" by (simp add: length_poly kCoefficients32To24_def)
  have "poly kCoefficients32To24 4 (drop 8 ?m) 80 = ?x3"
    unfolding m(1) append_assoc [symmetric] using assms l2
    by (intro poly_prefix) (simp_all add: wf_defs kCoefficients32To24_def)
  then have 2: "WebRtcSpl_Resample32khzTo24khz 80 ?m 8 0 = memcpy ?m 0 ?x3"
    using assms lm Resample32khzTo24khz_in_place [of 0 8 80 ?m] by simp
  have s: "take 240 (memcpy ?m 0 ?x3) = ?x3" using l3 lm assms by (simp add: memcpy_fits)
  have 3: "WebRtcSpl_UpBy2IntToShort (memcpy ?m 0 ?x3) 240 out (S_24_48 st) =
    (map sat15 (up2 (S_24_48 st) ?x3), up2_st (S_24_48 st) ?x3)"
    using UpBy2IntToShort_pure [of 240 "memcpy ?m 0 ?x3" out "S_24_48 st"] assms lm
    unfolding s by (simp add: wf_defs)
  show ?thesis
    using l2 lm by (simp add: WebRtcSpl_Resample16khzTo48khz_def Let_def 1 m(2) 2 3 spec16to48_def)
qed

lemma refine8to48:
  assumes "wf8to48 st" "length xs = 80" "length out = 480" "424 \<le> length tmpmem"
  shows "\<exists>m. length m = length tmpmem \<and> WebRtcSpl_Resample8khzTo48khz xs out st tmpmem =
    (fst (spec8to48 st xs), snd (spec8to48 st xs), m)"
proof -
  let ?x1 = "map short_q15 xs"
  let ?x2 = "map (\<lambda>y. asr y 15) (up2 (S_8_16 st) ?x1)" and ?h = "S_16_12 st"
  have l2: "length ?x2 = 160" using assms by simp
  have 1: "WebRtcSpl_UpBy2ShortToInt xs 80 tmpmem 264 (S_8_16 st) = (memcpy tmpmem 264 ?x2, up2_st (S_8_16 st) ?x1)"
    using assms by (intro UpBy2ShortToInt_pure) (auto simp: wf_defs)
  let ?m = "memcpy (memcpy tmpmem 264 ?x2) 256 ?h"
  have m: "drop 256 ?m = ?h @ ?x2 @ drop 424 tmpmem" "mem_slice ?m 416 8 = drop (length ?x2) (?h @ ?x2)"
    using hist_block(1) [of ?h 256 ?x2 tmpmem] hist_block(2) [of ?h 256 ?x2 tmpmem 416] assms l2
    by (simp_all add: wf_defs)
  have lm: "length ?m = length tmpmem" using assms by simp
  let ?x3 = "poly kCoefficients32To24 4 (?h @ ?x2) 40"
  have l3: "length ?x3 = 120" by (simp add: length_poly kCoefficients32To24_def)
  have "poly kCoefficients32To24 4 (drop 256 ?m) 40 = ?x3"
    unfolding m(1) append_assoc [symmetric] using assms l2
    by (intro poly_prefix) (simp_all add: wf_defs kCoefficients32To24_def)
  then have 2: "WebRtcSpl_Resample32khzTo24khz 40 ?m 256 240 = memcpy ?m 240 ?x3"
    using assms lm Resample32khzTo24khz_in_place [of 240 256 40 ?m] by simp
  let ?m2 = "memcpy ?m 240 ?x3"
  have s: "mem_slice ?m2 240 120 = ?x3" using l3 lm assms by (intro slice_memcpy) auto
  let ?x4 = "up2 (S_12_24 st) ?x3"
  have l4: "length ?x4 = 240" using l3 by simp
  have 3: "WebRtcSpl_UpBy2IntToInt ?m2 240 120 0 (S_12_24 st) = (memcpy ?m2 0 ?x4, up2_st (S_12_24 st) ?x3)"
    using UpBy2IntToInt_pure [of 0 120 240 ?m2 "S_12_24 st"] assms lm unfolding s by (simp add: wf_defs)
  have s4: "take 240 (memcpy ?m2 0 ?x4) = ?x4" using l4 lm assms by (simp add: memcpy_fits)
  have 4: "WebRtcSpl_UpBy2IntToShort (memcpy ?m2 0 ?x4) 240 out (S_24_48' st) =
    (map sat15 (up2 (S_24_48' st) ?x4), up2_st (S_24_48' st) ?x4)"
    using UpBy2IntToShort_pure [of 240 "memcpy ?m2 0 ?x4" out "S_24_48' st"] assms lm
    unfolding s4 by (simp add: wf_defs)
  show ?thesis
    using l2 lm assms by (simp add: WebRtcSpl_Resample8khzTo48khz_def Let_def 1 m(2) 2 3 4 spec8to48_def)
qed

section \<open>Block-wise processing\<close>

text \<open>
  The interface of a stateful block filter: \<open>code\<close> processes one block of \<open>blk\<close> samples using
  some work memory, \<open>spec\<close> processes a signal of any number of blocks.  Inside the locale it
  follows that running the code block by block, with whatever the work memory holds at each
  call, gives the output and the final state of the whole signal.
\<close>

primrec run_blocks :: "(int list \<Rightarrow> 's \<Rightarrow> 'm \<Rightarrow> int list \<times> 's \<times> 'm) \<Rightarrow> 's \<Rightarrow> (int list \<times> 'm) list \<Rightarrow> int list \<times> 's" where
  "run_blocks code s [] = ([], s)"
| "run_blocks code s (b # bs) =
     (let (out, s, _) = code (fst b) s (snd b); (out', s) = run_blocks code s bs in (out @ out', s))"

locale block_filter =
  fixes blk :: nat
    and wf :: "'s \<Rightarrow> bool"
    and mem_ok :: "'m \<Rightarrow> bool"
    and code :: "int list \<Rightarrow> 's \<Rightarrow> 'm \<Rightarrow> int list \<times> 's \<times> 'm"
    and spec :: "'s \<Rightarrow> int list \<Rightarrow> int list \<times> 's"
  assumes refine: "wf s \<Longrightarrow> length x = blk \<Longrightarrow> mem_ok m \<Longrightarrow>
        \<exists>m'. code x s m = (fst (spec s x), snd (spec s x), m')"
    and wf_spec: "wf s \<Longrightarrow> length x = blk \<Longrightarrow> wf (snd (spec s x))"
    and spec_Nil: "wf s \<Longrightarrow> spec s [] = ([], s)"
    and spec_append: "wf s \<Longrightarrow> length x = blk \<Longrightarrow> blk dvd length y \<Longrightarrow>
        spec s (x @ y) = (fst (spec s x) @ fst (spec (snd (spec s x)) y), snd (spec (snd (spec s x)) y))"
begin

lemma dvd_concat: "list_all (\<lambda>b. length (fst b) = blk \<and> mem_ok (snd b)) bs \<Longrightarrow> blk dvd length (concat (map fst bs))"
  by (induction bs) auto

lemma run_blocks_spec:
  "wf s \<Longrightarrow> list_all (\<lambda>b. length (fst b) = blk \<and> mem_ok (snd b)) bs \<Longrightarrow>
     run_blocks code s bs = spec s (concat (map fst bs))"
proof (induction bs arbitrary: s)
  case (Cons b bs)
  then have b: "length (fst b) = blk" "mem_ok (snd b)" and bs: "list_all (\<lambda>b. length (fst b) = blk \<and> mem_ok (snd b)) bs"
    by simp_all
  obtain m' where m': "code (fst b) s (snd b) = (fst (spec s (fst b)), snd (spec s (fst b)), m')"
    using refine [OF Cons.prems(1) b] by blast
  show ?case
    using Cons.IH [OF wf_spec [OF Cons.prems(1) b(1)] bs] spec_append [OF Cons.prems(1) b(1) dvd_concat [OF bs]]
    by (simp add: m' split: prod.splits)
qed (simp add: spec_Nil)

end

lemma down2_Nil [simp]: "down2 st [] = []" "down2_st st [] = st"
  by (simp_all add: down2_def down2_st_def evens_def odds_def)

lemma lp2_Nil [simp]: "lp2 st [] = []" "lp2_st st [] = st"
  by (simp_all add: lp2_def lp2_st_def lp_in_def evens_def odds_def interleave_def)

lemma up2_Nil [simp]: "up2 st [] = []" "up2_st st [] = st"
  by (simp_all add: up2_def up2_st_def interleave_def)

lemma poly_0 [simp]: "poly cs d buf 0 = []"
  by (simp add: poly_def)

definition with_out :: "(int list \<Rightarrow> int list \<Rightarrow> 's \<Rightarrow> int list \<Rightarrow> int list \<times> 's \<times> int list)
    \<Rightarrow> int list \<Rightarrow> 's \<Rightarrow> int list \<times> int list \<Rightarrow> int list \<times> 's \<times> (int list \<times> int list)" where
  "with_out chain x s m = (let (out, s, t) = chain x (fst m) s (snd m) in (out, s, (out, t)))"

interpretation r48to8: block_filter 480 wf48to8 "\<lambda>m. 496 \<le> length m" WebRtcSpl_Resample48khzTo8khz spec48to8
proof
  fix s :: WebRtcSpl_State48khzTo8khz and x y :: "int list"
  assume s: "wf48to8 s" and x: "length x = 480"
  show "\<exists>m'. WebRtcSpl_Resample48khzTo8khz x s m = (fst (spec48to8 s x), snd (spec48to8 s x), m')"
    if "496 \<le> length m" for m using refine48to8 [OF s x that] by blast
  show "wf48to8 (snd (spec48to8 s x))"
    using s x by (simp add: wf_defs spec48to8_def Let_def)
  assume y: "480 dvd length y"
  then obtain k where k: "length y = 480 * k" by blast
  let ?x = "map short_q15 x" and ?y = "map short_q15 y"
  let ?x2 = "down2 (S_48_24 s) ?x" let ?x3 = "lp2 (S_24_24 s) ?x2"
  note w = s [unfolded wf48to8_def]
  have l3: "length ?x3 = 3 * 80" using x by simp
  have h: "length (S_24_16 s) = 8" "length kCoefficients48To32 = 2" using w by (simp_all add: kCoefficients48To32_def)
  show "spec48to8 s (x @ y) = (fst (spec48to8 s x) @ fst (spec48to8 (snd (spec48to8 s x)) y),
     snd (spec48to8 (snd (spec48to8 s x)) y))"
    using x k w
    by (simp add: spec48to8_def Let_def down2_append lp2_append poly_history [OF h(1) l3] h(2) length_poly add.commute [of 232])
qed (simp add: spec48to8_def wf_defs Let_def)

interpretation r48to16: block_filter 480 wf48to16 "\<lambda>m. 496 \<le> length m" WebRtcSpl_Resample48khzTo16khz spec48to16
proof
  fix s :: WebRtcSpl_State48khzTo16khz and x y :: "int list"
  assume s: "wf48to16 s" and x: "length x = 480"
  show "\<exists>m'. WebRtcSpl_Resample48khzTo16khz x s m = (fst (spec48to16 s x), snd (spec48to16 s x), m')"
    if "496 \<le> length m" for m using refine48to16 [OF s x that] by blast
  show "wf48to16 (snd (spec48to16 s x))"
    using s x by (simp add: wf_defs spec48to16_def Let_def)
  assume y: "480 dvd length y"
  then obtain k where k: "length y = 480 * k" by blast
  let ?x2 = "lp2 (S_48_48 s) (map short_q15 x)"
  note w = s [unfolded wf48to16_def]
  have l2: "length ?x2 = 3 * 160" using x by simp
  have h: "length (S_48_32 s) = 8" "length kCoefficients48To32 = 2" using w by (simp_all add: kCoefficients48To32_def)
  show "spec48to16 s (x @ y) = (fst (spec48to16 s x) @ fst (spec48to16 (snd (spec48to16 s x)) y),
     snd (spec48to16 (snd (spec48to16 s x)) y))"
    using x k w
    by (simp add: spec48to16_def Let_def down2_append lp2_append poly_history [OF h(1) l2] h(2) length_poly add.commute [of 472])
qed (simp add: spec48to16_def wf_defs Let_def)

interpretation r16to48: block_filter 160 wf16to48 "\<lambda>m. length (fst m) = 480 \<and> 336 \<le> length (snd m)"
  "with_out WebRtcSpl_Resample16khzTo48khz" spec16to48
proof
  fix s :: WebRtcSpl_State16khzTo48khz and x y :: "int list"
  assume s: "wf16to48 s" and x: "length x = 160"
  show "\<exists>m'. with_out WebRtcSpl_Resample16khzTo48khz x s m = (fst (spec16to48 s x), snd (spec16to48 s x), m')"
    if "length (fst m) = 480 \<and> 336 \<le> length (snd m)" for m
    using refine16to48 [OF s x, of "fst m" "snd m"] that by (auto simp: with_out_def)
  show "wf16to48 (snd (spec16to48 s x))"
    using s x by (simp add: wf_defs spec16to48_def Let_def)
  assume y: "160 dvd length y"
  then obtain k where k: "length y = 160 * k" by blast
  let ?x2 = "map (\<lambda>y. asr y 15) (up2 (S_16_32 s) (map short_q15 x))"
  note w = s [unfolded wf16to48_def]
  have l2: "length ?x2 = 4 * 80" using x by simp
  have h: "length (S_32_24 s) = 8" "length kCoefficients32To24 = 3" using w by (simp_all add: kCoefficients32To24_def)
  show "spec16to48 s (x @ y) = (fst (spec16to48 s x) @ fst (spec16to48 (snd (spec16to48 s x)) y),
     snd (spec16to48 (snd (spec16to48 s x)) y))"
    using x k w
    by (simp add: spec16to48_def Let_def up2_append poly_history [OF h(1) l2] h(2) length_poly add.commute [of 312])
qed (simp add: spec16to48_def wf_defs Let_def)

interpretation r8to48: block_filter 80 wf8to48 "\<lambda>m. length (fst m) = 480 \<and> 424 \<le> length (snd m)"
  "with_out WebRtcSpl_Resample8khzTo48khz" spec8to48
proof
  fix s :: WebRtcSpl_State8khzTo48khz and x y :: "int list"
  assume s: "wf8to48 s" and x: "length x = 80"
  show "\<exists>m'. with_out WebRtcSpl_Resample8khzTo48khz x s m = (fst (spec8to48 s x), snd (spec8to48 s x), m')"
    if "length (fst m) = 480 \<and> 424 \<le> length (snd m)" for m
    using refine8to48 [OF s x, of "fst m" "snd m"] that by (auto simp: with_out_def)
  show "wf8to48 (snd (spec8to48 s x))"
    using s x by (simp add: wf_defs spec8to48_def Let_def)
  assume y: "80 dvd length y"
  then obtain k where k: "length y = 80 * k" by blast
  let ?x2 = "map (\<lambda>y. asr y 15) (up2 (S_8_16 s) (map short_q15 x))"
  note w = s [unfolded wf8to48_def]
  have l2: "length ?x2 = 4 * 40" using x by simp
  have h: "length (S_16_12 s) = 8" "length kCoefficients32To24 = 3" using w by (simp_all add: kCoefficients32To24_def)
  show "spec8to48 s (x @ y) = (fst (spec8to48 s x) @ fst (spec8to48 (snd (spec8to48 s x)) y),
     snd (spec8to48 (snd (spec8to48 s x)) y))"
    using x k w
    by (simp add: spec8to48_def Let_def up2_append poly_history [OF h(1) l2] h(2) length_poly add.commute [of 152])
qed (simp add: spec8to48_def wf_defs Let_def)

lemma sat15_is16: "is16 (sat15 y)"
  by (simp add: sat15_def sat_short_def is16_def)

lemma all_sat15: "list_all is16 (map sat15 ys)"
  by (induction ys) (simp_all add: sat15_is16)

lemma length_concat_blocks: "list_all (\<lambda>b. length (fst b) = n \<and> P b) bs \<Longrightarrow> length (concat (map fst bs)) = n * length bs"
  by (induction bs) auto

text \<open>C6. The four resampling chains, run frame by frame from well-formed filter states, produce exactly
  the output and the final state of the filter pipeline (half-band filter, fractional interpolator,
  decimator or interpolator) applied to the whole signal.  The result does not depend on what the
  scratch arrays hold at each call, although their regions overlap from stage to stage.\<close>

theorem resample_chains_streaming:
  assumes "wf48to8 s1" "wf48to16 s2" "wf16to48 s3" "wf8to48 s4"
    and "list_all (\<lambda>b. length (fst b) = 480 \<and> 496 \<le> length (snd b)) bs"
    and "list_all (\<lambda>b. length (fst b) = 160 \<and> length (fst (snd b)) = 480 \<and> 336 \<le> length (snd (snd b))) cs"
    and "list_all (\<lambda>b. length (fst b) = 80 \<and> length (fst (snd b)) = 480 \<and> 424 \<le> length (snd (snd b))) ds"
  shows "run_blocks WebRtcSpl_Resample48khzTo8khz s1 bs = spec48to8 s1 (concat (map fst bs)) \<and>
    run_blocks WebRtcSpl_Resample48khzTo16khz s2 bs = spec48to16 s2 (concat (map fst bs)) \<and>
    run_blocks (with_out WebRtcSpl_Resample16khzTo48khz) s3 cs = spec16to48 s3 (concat (map fst cs)) \<and>
    run_blocks (with_out WebRtcSpl_Resample8khzTo48khz) s4 ds = spec8to48 s4 (concat (map fst ds))"
  using assms by (simp add: r48to8.run_blocks_spec r48to16.run_blocks_spec r16to48.run_blocks_spec r8to48.run_blocks_spec)

lemmas reset_defs = WebRtcSpl_ResetResample48khzTo8khz_def WebRtcSpl_ResetResample48khzTo16khz_def
  WebRtcSpl_ResetResample16khzTo48khz_def WebRtcSpl_ResetResample8khzTo48khz_def

lemma reset_wf: "wf48to8 WebRtcSpl_ResetResample48khzTo8khz" "wf48to16 WebRtcSpl_ResetResample48khzTo16khz"
  "wf16to48 WebRtcSpl_ResetResample16khzTo48khz" "wf8to48 WebRtcSpl_ResetResample8khzTo48khz"
  by (simp_all add: wf_defs reset_defs)

theorem resample_chains_streaming_witness:
  "run_blocks WebRtcSpl_Resample48khzTo8khz WebRtcSpl_ResetResample48khzTo8khz
       [(replicate 480 5, replicate 736 0), (replicate 480 (-9), replicate 736 77)] =
     spec48to8 WebRtcSpl_ResetResample48khzTo8khz (replicate 480 5 @ replicate 480 (-9)) \<and>
   run_blocks (with_out WebRtcSpl_Resample8khzTo48khz) WebRtcSpl_ResetResample8khzTo48khz
       [(replicate 80 3, replicate 480 0, replicate 424 1)] =
     spec8to48 WebRtcSpl_ResetResample8khzTo48khz (replicate 80 3)"
  using resample_chains_streaming [OF reset_wf, where bs = "[(replicate 480 5, replicate 736 0), (replicate 480 (-9), replicate 736 77)]"
      and cs = "[]" and ds = "[(replicate 80 3, replicate 480 0, replicate 424 1)]"]
  by simp

text \<open>C29. Frame by frame, the chains produce 80, 160 and 480 samples per frame, and every produced sample
  is a 16-bit value: the 32-bit intermediate values are saturated, never truncated.\<close>

theorem resample_chains_output:
  assumes "wf48to8 s1" "wf48to16 s2" "wf16to48 s3" "wf8to48 s4"
    and "list_all (\<lambda>b. length (fst b) = 480 \<and> 496 \<le> length (snd b)) bs"
    and "list_all (\<lambda>b. length (fst b) = 160 \<and> length (fst (snd b)) = 480 \<and> 336 \<le> length (snd (snd b))) cs"
    and "list_all (\<lambda>b. length (fst b) = 80 \<and> length (fst (snd b)) = 480 \<and> 424 \<le> length (snd (snd b))) ds"
  shows "let o1 = fst (run_blocks WebRtcSpl_Resample48khzTo8khz s1 bs);
      o2 = fst (run_blocks WebRtcSpl_Resample48khzTo16khz s2 bs);
      o3 = fst (run_blocks (with_out WebRtcSpl_Resample16khzTo48khz) s3 cs);
      o4 = fst (run_blocks (with_out WebRtcSpl_Resample8khzTo48khz) s4 ds)
    in length o1 = 80 * length bs \<and> length o2 = 160 * length bs \<and> length o3 = 480 * length cs \<and>
       length o4 = 480 * length ds \<and> list_all is16 (o1 @ o2 @ o3 @ o4)"
proof -
  have l: "length (concat (map fst bs)) = 480 * length bs" "length (concat (map fst cs)) = 160 * length cs"
    "length (concat (map fst ds)) = 80 * length ds"
    using assms(5-7) by (auto intro!: length_concat_blocks)
  have d: "2 * (480 * n div 2 div 2) div 3 = 80 * (n::nat)" "2 * (480 * n div 2) div 3 = 160 * n"
    "160 * n div 2 = 80 * n" "80 * n div 2 = 40 * n" for n by simp_all
  show ?thesis
    using assms l d
    by (simp add: Let_def r48to8.run_blocks_spec r48to16.run_blocks_spec r16to48.run_blocks_spec
      r8to48.run_blocks_spec spec48to8_def spec48to16_def spec16to48_def spec8to48_def length_poly
      kCoefficients48To32_def kCoefficients32To24_def all_sat15)
qed

theorem resample_chains_output_witness:
  "length (fst (run_blocks WebRtcSpl_Resample48khzTo16khz WebRtcSpl_ResetResample48khzTo16khz
       [(replicate 480 5, replicate 496 0)])) = 160"
  using resample_chains_output [OF reset_wf, where bs = "[(replicate 480 5, replicate 496 0)]" and cs = "[]" and ds = "[]"]
  by (simp add: Let_def)

end
