(* ===== verification/VadProps.thy ===== *)
theory VadProps
  imports VadMinima ResampleStream
begin

text \<open>
  The invariant of a detector instance, its preservation by every call, the contract of the
  interface, the hang-over, the probability computation and the 48 kHz path.
\<close>


section \<open>The range of the features\<close>

lemma GetSizeInBits_le: "WebRtcSpl_GetSizeInBits n \<le> 32"
  by (simp add: WebRtcSpl_GetSizeInBits_def size_step_def Let_def)

lemma NormU32_le: "WebRtcSpl_NormU32 a \<le> 31"
  by (simp add: WebRtcSpl_NormU32_def norm_step_def Let_def)

lemma GetScalingSquare_le: "WebRtcSpl_GetScalingSquare xs n m \<le> 32"
  using GetSizeInBits_le [of "u32 m"] by (simp add: WebRtcSpl_GetScalingSquare_def Let_def le_diff_conv trans_le_add1)

lemma Energy_scaling_le: "WebRtcSpl_Energy xs n = (en, sc) \<Longrightarrow> sc \<le> 32"
  using GetScalingSquare_le [of xs n n] by (auto simp: WebRtcSpl_Energy_def Let_def)

lemma LogOfEnergy_range:
  assumes "0 \<le> offset" "offset \<le> 400" "LogOfEnergy xs n offset t = (t', l)"
  shows "0 \<le> l \<and> l \<le> 4000"
proof -
  obtain en sc where e: "WebRtcSpl_Energy xs (int n) = (en, sc)" by fastforce
  have sc: "sc \<le> 32" using Energy_scaling_le [OF e] .
  define r where "r = 17 - int (WebRtcSpl_NormU32 (u32 en))"
  define tot where "tot = int sc + r"
  define E where "E = (if r < 0 then u32 (shl (u32 en) (nat (- r))) else asr (u32 en) (nat r))"
  define f where "f = asr (E AND 0x00003FFF) 4"
  have r: "-14 \<le> r" "r \<le> 17" using NormU32_le [of "u32 en"] by (auto simp: r_def)
  then have tot: "-14 \<le> tot" "tot \<le> 49" using sc by (auto simp: tot_def)
  have "0 \<le> E AND 0x00003FFF" "E AND 0x00003FFF \<le> 0x00003FFF" by simp_all
  moreover have "f = (E AND 0x00003FFF) div 16" by (simp add: f_def asr_div)
  ultimately have f: "0 \<le> f" "f \<le> 1023" by linarith+
  have m1: "WEBRTC_SPL_MUL_16_16_RSFT 24660 (14336 + f) 19 = 24660 * (14336 + f) div 524288"
    using f by (simp add: WEBRTC_SPL_MUL_16_16_RSFT_def WEBRTC_SPL_MUL_16_16_def s16_id s32_id asr_div)
  have m2: "WEBRTC_SPL_MUL_16_16_RSFT tot 24660 9 = tot * 24660 div 512"
    using tot by (simp add: WEBRTC_SPL_MUL_16_16_RSFT_def WEBRTC_SPL_MUL_16_16_def s16_id s32_id asr_div)
  define S where "S = 24660 * (14336 + f) div 524288 + tot * 24660 div 512"
  have "24660 * 14336 div 524288 \<le> 24660 * (14336 + f) div 524288"
    "24660 * (14336 + f) div 524288 \<le> 24660 * (14336 + 1023) div 524288"
    "-14 * 24660 div 512 \<le> tot * 24660 div 512" "tot * 24660 div 512 \<le> 49 * 24660 div 512"
    using f tot by (auto intro!: zdiv_mono1)
  then have s: "-32768 \<le> S" "S \<le> 3500" unfolding S_def by simp_all
  have l2: "s16 (14336 + s16 f) = 14336 + f" using f by (simp add: s16_id)
  show ?thesis
  proof (cases "u32 en = 0")
    case True
    then show ?thesis using assms by (simp add: LogOfEnergy_def e)
  next
    case False
    have "snd (LogOfEnergy xs n offset t) = s16 ((if s16 S < 0 then 0 else s16 S) + offset)"
      unfolding LogOfEnergy_def e prod.case Let_def r_def [symmetric] tot_def [symmetric] E_def [symmetric]
        f_def [symmetric] l2 m1 m2 S_def [symmetric] by (simp only: False not_False_eq_True if_True snd_conv)
    then have "l = s16 ((if s16 S < 0 then 0 else s16 S) + offset)" unfolding assms(3) by simp
    moreover have "s16 S = S" using s by (intro s16_id) auto
    ultimately show ?thesis using s assms(1,2) by (auto simp: s16_id)
  qed
qed

definition filt_ok :: "VadInstT \<Rightarrow> bool" where
  "filt_ok self \<longleftrightarrow> length (upper_state self) = 5 \<and> length (lower_state self) = 5 \<and>
     length (hp_filter_state self) = 4 \<and> length (downsampling_filter_states self) = 4 \<and> wf48to8 (state_48_to_8 self)"

lemma length_hp_step [simp]: "length (hp_step st x) = length st"
  by (simp add: hp_step_def Let_def)

lemma length_hp_loop: "length (snd (hp_loop xs st)) = length st"
  by (induction xs arbitrary: st) (simp_all add: Let_def split_beta)

lemma CalculateFeatures_ok:
  assumes "filt_ok self" "WebRtcVad_CalculateFeatures self xs n = (p, fs, s')"
  shows "length fs = 6" "list_all (\<lambda>f. 0 \<le> f \<and> f \<le> 4000) fs" "filt_ok s'"
    "s' = self\<lparr>upper_state := upper_state s', lower_state := lower_state s', hp_filter_state := hp_filter_state s'\<rparr>"
proof -
  have LE: "LogOfEnergy xs n (kOffsetVector ! k) t = (t', l) \<Longrightarrow> 0 \<le> l \<and> l \<le> 4000" if "k < 6" for xs n k t t' l
  proof -
    have "k = 0 \<or> k = 1 \<or> k = 2 \<or> k = 3 \<or> k = 4 \<or> k = 5" using that by linarith
    then have "0 \<le> kOffsetVector ! k \<and> kOffsetVector ! k \<le> 400" by (auto simp: kOffsetVector_def)
    then show "LogOfEnergy xs n (kOffsetVector ! k) t = (t', l) \<Longrightarrow> 0 \<le> l \<and> l \<le> 4000"
      by (auto dest!: LogOfEnergy_range [rotated 2])
  qed
  show "length fs = 6"
    using assms(2) by (auto simp: WebRtcVad_CalculateFeatures_def Let_def split: prod.splits)
  show "list_all (\<lambda>f. 0 \<le> f \<and> f \<le> 4000) fs"
    using assms(2) unfolding WebRtcVad_CalculateFeatures_def Let_def
    by (clarsimp split: prod.split_asm) (intro conjI; (rule LE [THEN conjunct1] LE [THEN conjunct2]); (assumption | simp))
  show "filt_ok s'"
    using assms length_hp_loop unfolding WebRtcVad_CalculateFeatures_def Let_def HighPassFilter_def
    by (auto simp: filt_ok_def split: prod.splits dest!: arg_cong [where f = "\<lambda>x. length (snd x)"])
  show "s' = self\<lparr>upper_state := upper_state s', lower_state := lower_state s', hp_filter_state := hp_filter_state s'\<rparr>"
    using assms(2) unfolding WebRtcVad_CalculateFeatures_def Let_def by (clarsimp split: prod.split_asm)
qed

section \<open>The state invariant\<close>

definition gmm_ok :: "VadInstT \<Rightarrow> bool" where
  "gmm_ok self \<longleftrightarrow> length (noise_means self) = 12 \<and> length (speech_means self) = 12 \<and>
     length (noise_stds self) = 12 \<and> length (speech_stds self) = 12 \<and>
     list_all is16 (noise_means self) \<and> list_all is16 (speech_means self) \<and>
     list_all (\<lambda>s. 378 \<le> s \<and> s \<le> 32767) (noise_stds self) \<and>
     list_all (\<lambda>s. 378 \<le> s \<and> s \<le> 32767) (speech_stds self)"

definition hang_ok :: "VadInstT \<Rightarrow> bool" where
  "hang_ok self \<longleftrightarrow> 0 \<le> num_of_speech self \<and> num_of_speech self \<le> 6 \<and>
     0 \<le> over_hang self \<and> over_hang self \<le> 14 \<and>
     length (over_hang_max_1 self) = 3 \<and> length (over_hang_max_2 self) = 3 \<and>
     length (individual self) = 3 \<and> length (total_thr self) = 3 \<and>
     list_all (\<lambda>h. 0 < h \<and> h \<le> 14) (over_hang_max_1 self) \<and>
     list_all (\<lambda>h. 0 < h \<and> h \<le> 14) (over_hang_max_2 self)"

definition vad_ok :: "VadInstT \<Rightarrow> bool" where
  "vad_ok self \<longleftrightarrow> mins_ok self \<and> gmm_ok self \<and> hang_ok self \<and> filt_ok self \<and> init_flag self = 42"

lemmas ok_defs = mins_ok_def gmm_ok_def hang_ok_def filt_ok_def

lemma ok_gmm_fields [simp]:
  "mins_ok (self\<lparr>noise_means := a\<rparr>) = mins_ok self" "mins_ok (self\<lparr>speech_means := a\<rparr>) = mins_ok self"
  "mins_ok (self\<lparr>noise_stds := a\<rparr>) = mins_ok self" "mins_ok (self\<lparr>speech_stds := a\<rparr>) = mins_ok self"
  "hang_ok (self\<lparr>noise_means := a\<rparr>) = hang_ok self" "hang_ok (self\<lparr>speech_means := a\<rparr>) = hang_ok self"
  "hang_ok (self\<lparr>noise_stds := a\<rparr>) = hang_ok self" "hang_ok (self\<lparr>speech_stds := a\<rparr>) = hang_ok self"
  "filt_ok (self\<lparr>noise_means := a\<rparr>) = filt_ok self" "filt_ok (self\<lparr>speech_means := a\<rparr>) = filt_ok self"
  "filt_ok (self\<lparr>noise_stds := a\<rparr>) = filt_ok self" "filt_ok (self\<lparr>speech_stds := a\<rparr>) = filt_ok self"
  by (simp_all add: ok_defs)

lemma vad_ok_hang:
  "vad_ok self \<Longrightarrow> 0 \<le> n \<Longrightarrow> n \<le> 6 \<Longrightarrow> vad_ok (self\<lparr>num_of_speech := n\<rparr>)"
  "vad_ok self \<Longrightarrow> 0 \<le> n \<Longrightarrow> n \<le> 6 \<Longrightarrow> 0 \<le> h \<Longrightarrow> h \<le> 14 \<Longrightarrow> vad_ok (self\<lparr>num_of_speech := n, over_hang := h\<rparr>)"
  "vad_ok self \<Longrightarrow> 0 \<le> n \<Longrightarrow> n \<le> 6 \<Longrightarrow> 0 \<le> h \<Longrightarrow> h \<le> 14 \<Longrightarrow> vad_ok (self\<lparr>over_hang := h, num_of_speech := n\<rparr>)"
  by (simp_all add: vad_ok_def ok_defs)

lemma noise_mean_update_is16: "is16 (noise_mean_update sp ng dN fm t c k nmk)"
  by (simp add: noise_mean_update_def Let_def)

lemma speech_mean_update_is16: "k < 2 \<Longrightarrow> is16 (speech_mean_update sg dS ms k smk)"
  by (cases "k = 0") (auto simp: speech_mean_update_def Let_def kMinimumMean_def is16_def s16_lower s16_upper nth_Cons')

lemma std_update_range:
  "378 \<le> speech_std_update sg dS f smk ssk \<and> speech_std_update sg dS f smk ssk \<le> 32767"
  "378 \<le> noise_std_update ng dN f nmk nsk \<and> noise_std_update ng dN f nmk nsk \<le> 32767"
  by (simp_all add: speech_std_update_def noise_std_update_def Let_def s16_upper)

lemma gmm_update_gaussian_ok:
  "vad_ok self \<Longrightarrow> k < 2 \<Longrightarrow> vad_ok (gmm_update_gaussian g features fm t ms c k self)"
  unfolding vad_ok_def gmm_update_gaussian_def Let_def
  by (simp add: gmm_ok_def list_all_update noise_mean_update_is16 speech_mean_update_is16 std_update_range)

lemma WeightedAverage_ok:
  "length d = 12 \<Longrightarrow> list_all is16 d \<Longrightarrow> WeightedAverage d c off w = (a, d') \<Longrightarrow> length d' = 12 \<and> list_all is16 d'"
  by (auto simp: WeightedAverage_def upt_rec Let_def intro!: list_all_update)

lemma shift_means_ok: "length d = 12 \<Longrightarrow> list_all is16 d \<Longrightarrow> length (shift_means d c o') = 12 \<and> list_all is16 (shift_means d c o')"
  by (auto simp: shift_means_def upt_rec intro!: list_all_update)

lemma gmm_separate_ok: "vad_ok self \<Longrightarrow> vad_ok (gmm_separate c self)"
proof -
  assume ok: "vad_ok self"
  obtain na nd where n: "WeightedAverage (noise_means self) c 0 kNoiseDataWeights = (na, nd)" by fastforce
  obtain sa sd where s: "WeightedAverage (speech_means self) c 0 kSpeechDataWeights = (sa, sd)" by fastforce
  have nd: "length nd = 12" "list_all is16 nd" and sd: "length sd = 12" "list_all is16 sd"
    using WeightedAverage_ok [OF _ _ n] WeightedAverage_ok [OF _ _ s] ok by (auto simp: vad_ok_def gmm_ok_def)
  have w: "length (snd (WeightedAverage d c o' w)) = 12 \<and> list_all is16 (snd (WeightedAverage d c o' w))"
    if "length d = 12" "list_all is16 d" for d o' w
    using WeightedAverage_ok [OF that, of c o' w] by (metis prod.collapse)
  show ?thesis
    using ok nd sd w [OF nd] w [OF sd] shift_means_ok
    unfolding vad_ok_def gmm_separate_def n s prod.case
    by (simp add: Let_def gmm_ok_def split_beta)
qed

lemma FindMinimum_ok:
  assumes "vad_ok self" "c < 6" "0 \<le> f" "WebRtcVad_FindMinimum self f c = (m, s')"
  shows "vad_ok s'"
proof -
  have "mins_ok self" using assms(1) by (simp add: vad_ok_def)
  note F = FindMinimum_state(3,6) [OF this assms(2-4)]
  have "gmm_ok s' \<and> hang_ok s' \<and> filt_ok s' \<and> init_flag s' = 42"
    using assms(1) by (subst (1 2 3 4) F(2)) (simp add: vad_ok_def ok_defs)
  then show ?thesis using F(1) by (simp add: vad_ok_def)
qed

lemma gmm_update_channel_ok:
  assumes "vad_ok (fst sm)" "c < 6" "length features = 6" "list_all (\<lambda>f. 0 \<le> f \<and> f \<le> 4000) features"
  shows "vad_ok (fst (gmm_update_channel g features c sm))"
proof -
  obtain self ms where sm: "sm = (self, ms)" by fastforce
  obtain m s' where F: "WebRtcVad_FindMinimum self (features ! c) c = (m, s')" by fastforce
  have "0 \<le> features ! c" using assms by (simp add: list_all_length)
  then have ok: "vad_ok s'" using FindMinimum_ok [OF _ assms(2) _ F] assms(1) by (simp add: sm)
  obtain na nd where n: "WeightedAverage (noise_means s') c 0 kNoiseDataWeights = (na, nd)" by fastforce
  have "vad_ok (s'\<lparr>noise_means := nd\<rparr>)"
    using ok WeightedAverage_ok [OF _ _ n] by (simp add: vad_ok_def gmm_ok_def)
  then have "vad_ok (fold (gmm_update_gaussian g features m t ms c) [0..<2] (s'\<lparr>noise_means := nd\<rparr>))" for t
    by (rule fold_inv) (auto intro: gmm_update_gaussian_ok)
  then show ?thesis unfolding gmm_update_channel_def sm prod.case F n Let_def
    by (simp add: gmm_separate_ok)
qed

lemma gmm_likelihood_flag: "vadflag g \<in> {0, 1} \<Longrightarrow> vadflag (gmm_likelihood s f t c g) \<in> {0, 1}"
  by (simp add: gmm_likelihood_def Let_def split_beta)

lemma hangover_ok:
  assumes "vad_ok self" "flag \<in> {0, 1}" "0 < o1 \<and> o1 \<le> 14" "0 < o2 \<and> o2 \<le> 14" "hangover flag o1 o2 self = (v, s')"
  shows "vad_ok s' \<and> 0 \<le> v \<and> v \<le> 16"
proof -
  have h: "0 \<le> num_of_speech self" "num_of_speech self \<le> 6" "0 \<le> over_hang self" "over_hang self \<le> 14"
    using assms(1) by (simp_all add: vad_ok_def hang_ok_def)
  then have n: "s16 (num_of_speech self + 1) = num_of_speech self + 1" "s16 (over_hang self - 1) = over_hang self - 1"
    "s16 (2 + over_hang self) = 2 + over_hang self" by (simp_all add: s16_id)
  show ?thesis
    using assms(2,5) h assms(3,4) unfolding hangover_def n Let_def
    by (auto split: if_split_asm intro!: vad_ok_hang [OF assms(1)])
qed

lemma hang_table: "hang_ok self \<Longrightarrow> i < 3 \<Longrightarrow> (0 < over_hang_max_1 self ! i \<and> over_hang_max_1 self ! i \<le> 14) \<and>
   (0 < over_hang_max_2 self ! i \<and> over_hang_max_2 self ! i \<le> 14)"
  by (simp add: hang_ok_def list_all_length)

lemma GmmProbability_ok:
  assumes "vad_ok self" "length features = 6" "list_all (\<lambda>f. 0 \<le> f \<and> f \<le> 4000) features"
    and "GmmProbability self features pw n = (v, s')"
  shows "vad_ok s' \<and> 0 \<le> v \<and> v \<le> 16"
proof -
  define i :: nat where "i = (if n = 80 then 0 else if n = 160 then 1 else 2)"
  define g where "g = fold (gmm_likelihood self features (individual self ! i)) [0..<6] gmm_init"
  define g' where "g' = g\<lparr>vadflag := (if sum_log_likelihood_ratios g \<ge> total_thr self ! i then 1 else vadflag g)\<rparr>"
  define u where "u = fst (fold (gmm_update_channel g' features) [0..<6] (self, 12800))"
  define fs where "fs = (if pw > 10 then (vadflag g', u\<lparr>frame_counter := s32 (frame_counter u + 1)\<rparr>) else (0, self))"
  have tab: "(0 < over_hang_max_1 self ! i \<and> over_hang_max_1 self ! i \<le> 14)" "(0 < over_hang_max_2 self ! i \<and> over_hang_max_2 self ! i \<le> 14)"
    using hang_table [of self i] assms(1) by (auto simp: vad_ok_def i_def)
  have "vadflag g \<in> {0, 1}" unfolding g_def
    by (rule fold_inv [where P = "\<lambda>g. vadflag g \<in> {0, 1}"]) (use gmm_likelihood_flag in \<open>auto simp: gmm_init_def\<close>)
  then have flag: "fst fs \<in> {0, 1}" by (auto simp: fs_def g'_def)
  have "vad_ok u" unfolding u_def
    by (rule fold_inv [where P = "\<lambda>x. vad_ok (fst x)"]) (use assms in \<open>auto intro!: gmm_update_channel_ok\<close>)
  then have ok: "vad_ok (snd fs)" using assms(1) by (auto simp: fs_def vad_ok_def ok_defs)
  have "hangover (fst fs) (over_hang_max_1 self ! i) (over_hang_max_2 self ! i) (snd fs) = (v, s')"
    using assms(4) unfolding GmmProbability_def Let_def i_def [symmetric] g_def [symmetric] g'_def [symmetric]
    by (simp add: fs_def u_def split_beta split: if_splits)
  then show ?thesis by (rule hangover_ok [OF ok flag tab])
qed

lemma vad_ok_vad: "vad_ok (self\<lparr>vad := v\<rparr>) = vad_ok self"
  by (simp add: vad_ok_def ok_defs)

lemma CalcVad8khz_ok:
  assumes "vad_ok self" "WebRtcVad_CalcVad8khz self xs n = (v, s')"
  shows "vad_ok s' \<and> 0 \<le> v \<and> v \<le> 16"
proof -
  obtain p fs s1 where F: "WebRtcVad_CalculateFeatures self xs n = (p, fs, s1)" by (metis prod.exhaust)
  obtain v2 s2 where G: "GmmProbability s1 fs p n = (v2, s2)" by fastforce
  have "filt_ok self" using assms(1) by (simp add: vad_ok_def)
  note C = CalculateFeatures_ok [OF this F]
  have "mins_ok s1 \<and> gmm_ok s1 \<and> hang_ok s1 \<and> init_flag s1 = 42"
    using assms(1) by (subst (1 2 3 4) C(4)) (simp add: vad_ok_def ok_defs)
  then have "vad_ok s1" using C(3) by (simp add: vad_ok_def)
  from GmmProbability_ok [OF this C(1,2) G] assms(2) show ?thesis
    by (auto simp: WebRtcVad_CalcVad8khz_def F G vad_ok_vad)
qed

lemma Downsampling_length: "length (snd (WebRtcVad_Downsampling xs fs p n)) = length fs"
  by (simp add: WebRtcVad_Downsampling_def split_beta Let_def)

lemma vad_ok_down: "vad_ok self \<Longrightarrow> length fs = 4 \<Longrightarrow> vad_ok (self\<lparr>downsampling_filter_states := fs\<rparr>)"
  by (simp add: vad_ok_def ok_defs)

lemma CalcVad16khz_ok:
  assumes "vad_ok self" "WebRtcVad_CalcVad16khz self xs n = (v, s')"
  shows "vad_ok s' \<and> 0 \<le> v \<and> v \<le> 16"
proof -
  let ?d = "WebRtcVad_Downsampling xs (downsampling_filter_states self) 0 n"
  have "vad_ok (self\<lparr>downsampling_filter_states := snd ?d\<rparr>)"
    using assms(1) by (intro vad_ok_down) (auto simp: vad_ok_def filt_ok_def Downsampling_length)
  from CalcVad8khz_ok [OF this] assms(2) show ?thesis
    by (simp add: WebRtcVad_CalcVad16khz_def Let_def split_beta)
qed

lemma CalcVad32khz_ok:
  assumes "vad_ok self" "WebRtcVad_CalcVad32khz self xs n = (v, s')"
  shows "vad_ok s' \<and> 0 \<le> v \<and> v \<le> 16"
proof -
  let ?d = "WebRtcVad_Downsampling xs (downsampling_filter_states self) 2 n"
  let ?e = "WebRtcVad_Downsampling (fst ?d) (snd ?d) 0 (n div 2)"
  have "vad_ok (self\<lparr>downsampling_filter_states := snd ?e\<rparr>)"
    using assms(1) by (intro vad_ok_down) (auto simp: vad_ok_def filt_ok_def Downsampling_length)
  from CalcVad8khz_ok [OF this] assms(2) show ?thesis
    by (simp add: WebRtcVad_CalcVad32khz_def Let_def split_beta)
qed

lemma allpass_loop_cong:
  "(\<And>m i. i < n \<Longrightarrow> rd m i = rd' m i) \<Longrightarrow> allpass_loop rd wr c k n ms = allpass_loop rd' wr c k n ms"
  unfolding allpass_loop_def by (intro fold_cong) auto

lemma Resample48khzTo8khz_prefix:
  "take 480 xs = take 480 ys \<Longrightarrow> WebRtcSpl_Resample48khzTo8khz xs st m = WebRtcSpl_Resample48khzTo8khz ys st m"
proof -
  assume e: "take 480 xs = take 480 ys"
  have n: "xs ! i = ys ! i" if "i < 480" for i using e that by (metis nth_take)
  have A: "allpass_loop (\<lambda>_ i. short_q15 (xs ! (2 * i))) wr c k (480 div 2) ms =
      allpass_loop (\<lambda>_ i. short_q15 (ys ! (2 * i))) wr c k (480 div 2) ms" for wr c k ms
    by (rule allpass_loop_cong) (simp add: n)
  have B: "allpass_loop (\<lambda>_ i. short_q15 (xs ! (2 * i + 1))) wr c k (480 div 2) ms =
      allpass_loop (\<lambda>_ i. short_q15 (ys ! (2 * i + 1))) wr c k (480 div 2) ms" for wr c k ms
    by (rule allpass_loop_cong) (simp add: n)
  have "WebRtcSpl_DownBy2ShortToInt xs 480 m 256 s = WebRtcSpl_DownBy2ShortToInt ys 480 m 256 s" for s
    unfolding WebRtcSpl_DownBy2ShortToInt_def Let_def A B ..
  then show ?thesis unfolding WebRtcSpl_Resample48khzTo8khz_def by simp
qed

lemma resample_frames_prefix:
  "take 480 xs = take 480 ys \<Longrightarrow> resample_frames n xs st m = resample_frames n ys st m"
  by (induction n arbitrary: st m) (simp_all add: Resample48khzTo8khz_prefix [of xs ys])

lemma resample_frames_wf:
  assumes "480 \<le> length xs"
  shows "wf48to8 st \<Longrightarrow> 496 \<le> length m \<Longrightarrow> wf48to8 (snd (resample_frames n xs st m))"
proof (induction n arbitrary: st m)
  case (Suc n)
  have l: "length (take 480 xs) = 480" using assms by simp
  obtain m' where m': "length m' = length m"
    "WebRtcSpl_Resample48khzTo8khz xs st m = (fst (spec48to8 st (take 480 xs)), snd (spec48to8 st (take 480 xs)), m')"
    using refine48to8 [OF Suc.prems(1) l Suc.prems(2)] Resample48khzTo8khz_prefix [of xs "take 480 xs" st m] by auto
  have "wf48to8 (snd (spec48to8 st (take 480 xs)))" using r48to8.wf_spec [OF Suc.prems(1) l] .
  then show ?case using Suc.IH [of _ m'] Suc.prems(2) m' by (simp add: split_beta)
qed simp

lemma CalcVad48khz_ok:
  assumes "vad_ok self" "480 \<le> length xs" "WebRtcVad_CalcVad48khz self xs n = (v, s')"
  shows "vad_ok s' \<and> 0 \<le> v \<and> v \<le> 16"
proof -
  let ?r = "resample_frames (n div 480) xs (state_48_to_8 self) (replicate 736 0)"
  have "vad_ok (self\<lparr>state_48_to_8 := snd ?r\<rparr>)"
    using assms(1) resample_frames_wf [OF assms(2), of "state_48_to_8 self" "replicate 736 0" "n div 480"]
    by (simp add: vad_ok_def ok_defs)
  from CalcVad8khz_ok [OF this] assms(3) show ?thesis
    by (simp add: WebRtcVad_CalcVad48khz_def Let_def split_beta)
qed

section \<open>Properties\<close>

definition vad_init :: VadInstT where
  "vad_init = the (snd (WebRtcVad_Init (Some \<lparr>vad = 0, downsampling_filter_states = [], state_48_to_8 = WebRtcSpl_ResetResample48khzTo8khz,
     noise_means = [], speech_means = [], noise_stds = [], speech_stds = [], frame_counter = 0, over_hang = 0,
     num_of_speech = 0, index_vector = [], low_value_vector = [], mean_value = [], upper_state = [], lower_state = [],
     hp_filter_state = [], over_hang_max_1 = [], over_hang_max_2 = [], individual = [], total_thr = [], init_flag = 0\<rparr>)))"

lemma set_mode_core_ok: "vad_ok self \<Longrightarrow> vad_ok (snd (WebRtcVad_set_mode_core self mode))"
  by (auto simp: WebRtcVad_set_mode_core_def vad_ok_def ok_defs)

lemma sorted_replicate_chan: "sorted (chan c (replicate 96 (10000::int)))"
  by (simp add: chan_def)

lemma Init_ok: "WebRtcVad_Init (Some self) = (0, Some s) \<Longrightarrow> vad_ok s"
  by (auto simp: WebRtcVad_Init_def WebRtcVad_InitCore_def WebRtcVad_set_mode_core_def Let_def vad_ok_def ok_defs
      lens_def sorted_replicate_chan list_all_iff wf_defs reset_defs
      kNoiseDataMeans_def kSpeechDataMeans_def kNoiseDataStds_def kSpeechDataStds_def is16_def)

lemma Init_returns: "\<exists>s. WebRtcVad_Init (Some self) = (0, Some s)"
  by (simp add: WebRtcVad_Init_def WebRtcVad_InitCore_def WebRtcVad_set_mode_core_def Let_def)

text \<open>The calls a client can make on an allocated instance.\<close>

datatype vad_call = Init | SetMode int | Process int "int list option" int

fun call_ok :: "vad_call \<Rightarrow> bool" where
  "call_ok (Process fs (Some frame) n) = (nat n \<le> length frame)"
| "call_ok _ = True"

fun do_call :: "vad_call \<Rightarrow> VadInstT \<Rightarrow> int \<times> VadInstT" where
  "do_call Init self = (let (r, h) = WebRtcVad_Init (Some self) in (r, the h))"
| "do_call (SetMode m) self = (let (r, h) = WebRtcVad_set_mode (Some self) m in (r, the h))"
| "do_call (Process fs frame n) self = (let (r, h) = WebRtcVad_Process (Some self) fs frame n in (r, the h))"

primrec run_calls :: "vad_call list \<Rightarrow> VadInstT \<Rightarrow> int list \<times> VadInstT" where
  "run_calls [] self = ([], self)"
| "run_calls (c # cs) self = (let (r, self) = do_call c self; (rs, self) = run_calls cs self in (r # rs, self))"

lemma valid_iff:
  "WebRtcVad_ValidRateAndFrameLength fs n = 0 \<longleftrightarrow>
     fs \<in> {8000, 16000, 32000, 48000} \<and> n \<in> {fs div 100, 2 * (fs div 100), 3 * (fs div 100)}"
  "WebRtcVad_ValidRateAndFrameLength fs n = 0 \<or> WebRtcVad_ValidRateAndFrameLength fs n = -1"
  by (auto simp: WebRtcVad_ValidRateAndFrameLength_def kValidRates_def)

lemma Process_ok:
  assumes "vad_ok self" "call_ok (Process fs frame n)" "WebRtcVad_Process (Some self) fs frame n = (v, h)"
  shows "\<exists>s. h = Some s \<and> vad_ok s \<and>
    (if frame \<noteq> None \<and> WebRtcVad_ValidRateAndFrameLength fs n = 0 then v \<in> {0, 1} else v = -1 \<and> s = self)"
proof (cases "frame \<noteq> None \<and> WebRtcVad_ValidRateAndFrameLength fs n = 0")
  case False
  then show ?thesis using assms by (auto simp: WebRtcVad_Process_def vad_ok_def split: option.splits)
next
  case True
  then obtain xs where xs: "frame = Some xs" by auto
  have fs: "fs \<in> {8000, 16000, 32000, 48000}" and n: "fs = 48000 \<Longrightarrow> 480 \<le> nat n"
    using True by (auto simp: valid_iff(1))
  let ?c = "if fs = 48000 then WebRtcVad_CalcVad48khz self xs (nat n)
     else if fs = 32000 then WebRtcVad_CalcVad32khz self xs (nat n)
     else if fs = 16000 then WebRtcVad_CalcVad16khz self xs (nat n)
     else if fs = 8000 then WebRtcVad_CalcVad8khz self xs (nat n) else (-1, self)"
  obtain w s where c: "?c = (w, s)" by fastforce
  have ok: "vad_ok s \<and> 0 \<le> w \<and> w \<le> 16"
  proof (cases "fs = 48000")
    case True
    then have "480 \<le> length xs" using n assms(2) by (simp add: xs)
    from CalcVad48khz_ok [OF assms(1) this] show ?thesis using c True by simp
  next
    case False
    then consider "fs = 32000" | "fs = 16000" | "fs = 8000" using fs by blast
    then show ?thesis
      using c CalcVad32khz_ok [OF assms(1)] CalcVad16khz_ok [OF assms(1)] CalcVad8khz_ok [OF assms(1)]
      by cases simp_all
  qed
  have "WebRtcVad_Process (Some self) fs frame n = (if w > 0 then 1 else w, Some s)"
    using True assms(1) c unfolding WebRtcVad_Process_def xs option.case vad_ok_def Let_def
    by (simp only: c prod.case if_False simp_thms)
  then show ?thesis using assms(3) True ok by auto
qed

lemma set_mode_result: "fst (WebRtcVad_set_mode_core self m) \<in> {-1, 0}"
  by (simp add: WebRtcVad_set_mode_core_def)

lemma do_call_ok:
  assumes "vad_ok self" "call_ok c" "do_call c self = (r, s)"
  shows "vad_ok s \<and> r \<in> {-1, 0, 1}"
proof (cases c)
  case Init
  obtain s0 where "WebRtcVad_Init (Some self) = (0, Some s0)" using Init_returns by blast
  then show ?thesis using Init Init_ok assms(3) by auto
next
  case (SetMode m)
  have "do_call c self = (fst (WebRtcVad_set_mode_core self m), snd (WebRtcVad_set_mode_core self m))"
    using assms(1) by (simp add: SetMode WebRtcVad_set_mode_def vad_ok_def split_beta)
  then have "r = fst (WebRtcVad_set_mode_core self m)" "s = snd (WebRtcVad_set_mode_core self m)"
    using assms(3) by (metis fst_conv, metis snd_conv)
  then show ?thesis using assms(1) set_mode_core_ok [of self m] set_mode_result [of self m] by auto
next
  case (Process fs frame n)
  obtain v h where P: "WebRtcVad_Process (Some self) fs frame n = (v, h)" by fastforce
  then show ?thesis
    using Process_ok [OF assms(1) _ P] assms(2,3) by (auto simp: Process split: if_splits)
qed

lemma run_calls_ok:
  "vad_ok self \<Longrightarrow> list_all call_ok cs \<Longrightarrow> vad_ok (snd (run_calls cs self)) \<and> list_all (\<lambda>r. r \<in> {-1, 0, 1}) (fst (run_calls cs self))"
proof (induction cs arbitrary: self)
  case (Cons c cs)
  obtain r s where d: "do_call c self = (r, s)" by fastforce
  show ?case using do_call_ok [OF Cons.prems(1) _ d] Cons.IH [of s] Cons.prems(2)
    by (simp add: d split_beta)
qed simp

text \<open>C7. Whatever block the allocator returned, after WebRtcVad_Init any sequence of calls of
  WebRtcVad_Init, WebRtcVad_set_mode and WebRtcVad_Process (with frames of at least the announced
  length) keeps the detector's invariant: the standard deviations never fall below 378, so that no
  division by zero can occur, the means stay 16-bit values, the sixteen smallest energies of every
  channel stay sorted, the hang-over counters stay within 6 and 14, and every call returns -1, 0 or 1.\<close>

theorem vad_session_invariant:
  assumes "list_all call_ok cs"
  shows "let (rs, s) = run_calls (Init # cs) block
    in vad_ok s \<and> list_all (\<lambda>r. r \<in> {-1, 0, 1}) rs \<and> hd rs = 0"
proof -
  obtain s0 where s0: "WebRtcVad_Init (Some block) = (0, Some s0)" using Init_returns by blast
  show ?thesis using run_calls_ok [OF Init_ok [OF s0] assms] by (simp add: s0 split_beta)
qed

theorem vad_session_invariant_witness:
  "vad_ok (snd (run_calls [Init, SetMode 3, Process 8000 (Some (replicate 80 7)) 80, Process 44100 None 1, SetMode 9] vad_init))"
  using vad_session_invariant [of "[SetMode 3, Process 8000 (Some (replicate 80 7)) 80, Process 44100 None 1, SetMode 9]" vad_init]
  unfolding split_beta Let_def by simp

text \<open>C30. WebRtcVad_Process fails exactly when the handle or the frame is null, the instance is not
  initialised, or the rate and length are not one of the twelve pairs 8, 16, 32 or 48 kHz with 10, 20
  or 30 ms; it then returns -1 and changes nothing.  Otherwise it decides 0 or 1.\<close>

theorem WebRtcVad_Process_contract:
  assumes "vad_ok self" "case frame of None \<Rightarrow> True | Some xs \<Rightarrow> nat n \<le> length xs"
  shows "WebRtcVad_Process None fs frame n = (-1, None) \<and>
    WebRtcVad_Process (Some (self\<lparr>init_flag := 0\<rparr>)) fs frame n = (-1, Some (self\<lparr>init_flag := 0\<rparr>)) \<and>
    (if frame \<noteq> None \<and> fs \<in> {8000, 16000, 32000, 48000} \<and> n \<in> {fs div 100, 2 * (fs div 100), 3 * (fs div 100)}
     then fst (WebRtcVad_Process (Some self) fs frame n) \<in> {0, 1}
     else WebRtcVad_Process (Some self) fs frame n = (-1, Some self))"
proof -
  obtain v h where P: "WebRtcVad_Process (Some self) fs frame n = (v, h)" by fastforce
  have "call_ok (Process fs frame n)" using assms(2) by (cases frame) auto
  from Process_ok [OF assms(1) this P] P show ?thesis
    unfolding valid_iff(1) by (auto simp: WebRtcVad_Process_def [of None] WebRtcVad_Process_def [of "Some (self\<lparr>init_flag := 0\<rparr>)"])
qed

lemma vad_init_ok: "vad_ok vad_init"
proof -
  obtain s0 where s0: "WebRtcVad_Init (Some \<lparr>vad = 0, downsampling_filter_states = [], state_48_to_8 = WebRtcSpl_ResetResample48khzTo8khz,
     noise_means = [], speech_means = [], noise_stds = [], speech_stds = [], frame_counter = 0, over_hang = 0,
     num_of_speech = 0, index_vector = [], low_value_vector = [], mean_value = [], upper_state = [], lower_state = [],
     hp_filter_state = [], over_hang_max_1 = [], over_hang_max_2 = [], individual = [], total_thr = [], init_flag = 0\<rparr>) = (0, Some s0)"
    using Init_returns by blast
  show ?thesis unfolding vad_init_def s0 using Init_ok [OF s0] by simp
qed

theorem WebRtcVad_Process_contract_witness:
  "fst (WebRtcVad_Process (Some vad_init) 16000 (Some (replicate 320 (-5))) 320) \<in> {0, 1} \<and>
   WebRtcVad_Process (Some vad_init) 44100 (Some (replicate 441 1)) 441 = (-1, Some vad_init)"
  using WebRtcVad_Process_contract [OF vad_init_ok, where frame = "Some (replicate 320 (-5))" and n = 320 and fs = 16000]
    WebRtcVad_Process_contract [OF vad_init_ok, where frame = "Some (replicate 441 1)" and n = 441 and fs = 44100] by simp

text \<open>C12. WebRtcVad_FindMinimum keeps, per channel, the sixteen smallest feature values in order: it ages
  and expires the entries, inserts the new value before the first larger one and drops the
  largest; the other channels are untouched, and the returned smoothed minimum lies between the
  previous one and the current low value.\<close>

theorem FindMinimum_correct:
  assumes "mins_ok self" "c < 6" "0 \<le> f"
  shows "let (m, s') = WebRtcVad_FindMinimum self f c;
      med = (if frame_counter self > 2 then snd (channel_pairs c s' ! 2)
             else if frame_counter self > 0 then snd (channel_pairs c s' ! 0) else 1600)
    in channel_pairs c s' = insert_pair f (age_list (channel_pairs c self)) \<and> mins_ok s' \<and>
       list_all (\<lambda>c'. c' = c \<or> channel_pairs c' s' = channel_pairs c' self) [0..<6] \<and>
       m = mean_value s' ! c \<and> min (mean_value self ! c) med \<le> m \<and> m \<le> max (mean_value self ! c) med"
proof -
  obtain m s' where F: "WebRtcVad_FindMinimum self f c = (m, s')" by fastforce
  note S = FindMinimum_state [OF assms F]
  have o: "list_all (\<lambda>c'. c' = c \<or> channel_pairs c' s' = channel_pairs c' self) [0..<6]"
    using S(2) unfolding list_all_iff by fastforce
  show ?thesis unfolding F prod.case Let_def
    using S(1,3,4) o S(5) [unfolded Let_def] by simp
qed

theorem FindMinimum_correct_witness:
  "snd (channel_pairs 2 (snd (WebRtcVad_FindMinimum vad_init 500 2)) ! 0) = 500"
proof -
  have a: "insert_pair 500 (age_list (channel_pairs 2 vad_init)) ! 0 = (1, 500)" by code_simp
  have "mins_ok vad_init" using vad_init_ok by (simp add: vad_ok_def)
  from FindMinimum_correct [OF this, of 2 500] a show ?thesis by (simp add: split_beta Let_def)
qed

section \<open>Hang-over\<close>

primrec hang_run :: "int \<Rightarrow> int \<Rightarrow> int list \<Rightarrow> VadInstT \<Rightarrow> int list \<times> VadInstT" where
  "hang_run o1 o2 [] self = ([], self)"
| "hang_run o1 o2 (flag # flags) self =
     (let (v, self) = hangover flag o1 o2 self; (vs, self) = hang_run o1 o2 flags self in (v # vs, self))"

lemma hang_run_append:
  "hang_run o1 o2 (xs @ ys) self =
    (fst (hang_run o1 o2 xs self) @ fst (hang_run o1 o2 ys (snd (hang_run o1 o2 xs self))),
     snd (hang_run o1 o2 ys (snd (hang_run o1 o2 xs self))))"
  by (induction xs arbitrary: self) (simp_all add: split_beta Let_def)

lemma hang_run_speech:
  assumes "0 \<le> num_of_speech self" "num_of_speech self \<le> 6"
  shows "fst (hang_run o1 o2 (replicate m 1) self) = replicate m 1 \<and>
    (0 < m \<longrightarrow> over_hang (snd (hang_run o1 o2 (replicate m 1) self)) = (if num_of_speech self + int m > 6 then o2 else o1))"
  using assms
proof (induction m arbitrary: self)
  case (Suc m)
  define n where "n = num_of_speech self"
  have n: "0 \<le> n" "n \<le> 6" using Suc.prems by (simp_all add: n_def)
  define s' where "s' = snd (hangover 1 o1 o2 self)"
  have "fst (hangover 1 o1 o2 self) = 1" by (simp add: hangover_def Let_def)
  then have s': "hangover 1 o1 o2 self = (1, s')" "num_of_speech s' = (if n = 6 then 6 else n + 1)"
    "over_hang s' = (if n = 6 then o2 else o1)"
    using n unfolding n_def s'_def by (auto simp: hangover_def Let_def s16_id prod_eq_iff)
  have "fst (hang_run o1 o2 (replicate m 1) s') = replicate m 1 \<and>
    (0 < m \<longrightarrow> over_hang (snd (hang_run o1 o2 (replicate m 1) s')) = (if num_of_speech s' + int m > 6 then o2 else o1))"
    using n s'(2) by (intro Suc.IH) auto
  then show ?case using s' n by (cases m) (auto simp: split_beta Let_def simp flip: n_def)
qed simp

lemma hang_run_silence:
  assumes "0 \<le> over_hang self" "over_hang self \<le> 14"
  shows "fst (hang_run o1 o2 (replicate k 0) self) =
    map (\<lambda>i. if int i < over_hang self then 2 + over_hang self - int i else 0) [0..<k]"
  using assms
proof (induction k arbitrary: self)
  case (Suc k)
  let ?s = "snd (hangover 0 o1 o2 self)" and ?h = "over_hang self"
  have h: "fst (hangover 0 o1 o2 self) = (if 0 < ?h then 2 + ?h else 0)"
    "over_hang ?s = (if 0 < ?h then ?h - 1 else 0)"
    using Suc.prems by (auto simp: hangover_def s16_id)
  have "fst (hang_run o1 o2 (replicate k 0) ?s) =
    map (\<lambda>i. if int i < over_hang ?s then 2 + over_hang ?s - int i else 0) [0..<k]"
    using h Suc.prems by (intro Suc.IH) auto
  moreover have "\<dots> = map ((\<lambda>i. if int i < ?h then 2 + ?h - int i else 0) \<circ> Suc) [0..<k]"
    using h(2) Suc.prems by auto
  ultimately show ?case
    using h(1) Suc.prems by (simp add: split_beta Let_def upt_conv_Cons map_Suc_upt [symmetric] del: upt_Suc)
qed simp

text \<open>C15. The hang-over: after a run of m speech frames that follows silence, exactly the next H frames
  are still reported active, where H is the first limit for up to six speech frames and the second one for
  longer runs; the frames report H + 2, H + 1, ..., 3 and after them silence is reported at once.\<close>

theorem hangover_exact:
  assumes "num_of_speech self = 0" "0 < m" "0 < o1" "o1 \<le> 14" "0 < o2" "o2 \<le> 14"
  shows "let H = (if m > 6 then o2 else o1) in
    fst (hang_run o1 o2 (replicate m 1 @ replicate k 0) self) =
      replicate m 1 @ map (\<lambda>i. if int i < H then 2 + H - int i else 0) [0..<k]"
proof -
  let ?s = "snd (hang_run o1 o2 (replicate m 1) self)"
  have m: "fst (hang_run o1 o2 (replicate m 1) self) = replicate m 1" "over_hang ?s = (if m > 6 then o2 else o1)"
    using hang_run_speech [of self o1 o2 m] assms by auto
  have "fst (hang_run o1 o2 (replicate k 0) ?s) =
    map (\<lambda>i. if int i < over_hang ?s then 2 + over_hang ?s - int i else 0) [0..<k]"
    using m(2) assms by (intro hang_run_silence) auto
  then show ?thesis unfolding hang_run_append m fst_conv Let_def by simp
qed

theorem hangover_exact_witness:
  "fst (hang_run 3 5 [1, 1, 0, 0, 0, 0, 0] vad_init) = [1, 1, 5, 4, 3, 0, 0]"
proof -
  have "num_of_speech vad_init = 0" by code_simp
  moreover have "[1, 1, 0, 0, 0, 0, 0] = replicate 2 1 @ replicate 5 (0::int)" by (simp add: numeral_eq_Suc)
  ultimately show ?thesis using hangover_exact [of vad_init 2 3 5 5] by (simp only:) (simp add: upt_rec numeral_2_eq_2)
qed

text \<open>C32. At 48 kHz only the first 10 ms of a frame are looked at: the loop over the 10 ms blocks never
  advances the input pointer, so two frames of 20 or 30 ms that agree on their first 480 samples are
  indistinguishable, in the decision and in the state.\<close>

theorem CalcVad48khz_ignores_rest:
  assumes "take 480 xs = take 480 ys"
  shows "WebRtcVad_CalcVad48khz self xs n = WebRtcVad_CalcVad48khz self ys n"
  unfolding WebRtcVad_CalcVad48khz_def resample_frames_prefix [OF assms] ..

theorem CalcVad48khz_ignores_rest_witness:
  "WebRtcVad_CalcVad48khz vad_init (replicate 480 0 @ replicate 960 0) 1440 =
   WebRtcVad_CalcVad48khz vad_init (replicate 480 0 @ replicate 960 30000) 1440"
  by (rule CalcVad48khz_ignores_rest) simp

section \<open>The Gaussian probability\<close>

lemma s16_xor_FFFF: "s16 (t XOR 0xFFFF) = s16 (NOT t)"
proof -
  have m: "(0xFFFF::int) = mask 16" by (simp add: mask_eq_exp_minus_1)
  show ?thesis unfolding s16_def m
    by (rule bit_eqI) (auto simp: bit_simps min_def)
qed

lemma sdiv_nonneg: "0 \<le> a \<Longrightarrow> 0 < b \<Longrightarrow> a sdiv b = a div (b::int)"
  by (cases "a = 0") (simp_all add: signed_divide_int_def)

lemma exp_part_bounds:
  fixes k :: int
  assumes "0 \<le> k" "k \<le> 31744"
  shows "let t = s16 (- k); e = s16 (0x0400 OR (t AND 0x03FF)); u = s16 (asr (s16 (t XOR 0xFFFF)) 10 + 1)
    in 0 \<le> u \<and> u \<le> 31 \<and> 0 \<le> asr e (nat u) \<and> asr e (nat u) \<le> 1024 \<and>
       (k = 0 \<longrightarrow> asr e (nat u) = 1024)"
proof -
  have t: "s16 (- k) = - k" using assms by (intro s16_id) auto
  have x: "s16 (- k XOR 0xFFFF) = k - 1"
    unfolding s16_xor_FFFF using assms by (simp add: not_int_def s16_id)
  define u where "u = (k - 1) div 1024 + 1"
  have u: "0 \<le> u" "u < 32" using assms by (auto simp: u_def)
  have su: "s16 (asr (k - 1) 10 + 1) = u" using u by (simp add: asr_div u_def s16_id)
  define e where "e = 0x0400 OR (- k AND 0x03FF)"
  have a: "0 \<le> - k AND 0x03FF" "- k AND 0x03FF < 1024"
    using AND_upper2 [of "0x03FF" "- k"] by simp_all
  have e: "0 \<le> e" "e < 2048"
    using a OR_upper [of "0x0400" 11 "- k AND 0x03FF"] by (auto simp: e_def)
  have se: "s16 e = e" using e by (intro s16_id) auto
  have q: "asr e (nat u) = e div 2 ^ nat u" by (simp add: asr_div)
  have "0 \<le> e div 2 ^ nat u" using e by (simp add: pos_imp_zdiv_nonneg_iff)
  moreover have "e div 2 ^ nat u \<le> 1024 \<and> (k = 0 \<longrightarrow> e div 2 ^ nat u = 1024)"
  proof (cases "k = 0")
    case True
    then show ?thesis by (simp add: u_def e_def)
  next
    case False
    then have "1 \<le> u" using assms by (simp add: u_def)
    then have "(2::int) ^ 1 \<le> 2 ^ nat u" by (intro power_increasing) auto
    then have "e div 2 ^ nat u \<le> e div 2" using e by (intro zdiv_mono2) auto
    then show ?thesis using e False by auto
  qed
  ultimately show ?thesis using u unfolding Let_def t x su e_def [symmetric] se by (simp add: q)
qed

lemma gauss_inv_bounds:
  assumes "378 \<le> std" "std \<le> 32767"
  shows "4 \<le> (131072 + std div 2) div std" (is "4 \<le> ?inv") and "(131072 + std div 2) div std \<le> (347::int)"
proof -
  let ?n = "131072 + std div 2"
  have num: "?n = std * ?inv + ?n mod std" "0 \<le> ?n mod std" "?n mod std < std"
    using assms(1) by simp_all
  show "?inv \<le> 347"
  proof (rule ccontr)
    assume "\<not> ?inv \<le> 347"
    then have "std * 348 \<le> std * ?inv" using assms(1) by (intro mult_left_mono) auto
    then show False using num assms(1) by linarith
  qed
  show "4 \<le> ?inv"
  proof (rule ccontr)
    assume "\<not> 4 \<le> ?inv"
    then have "std * ?inv \<le> std * 3" using assms(1) by (intro mult_left_mono) auto
    then show False using num assms(2) by linarith
  qed
qed

lemma gauss_delta_bounds:
  fixes i2 d :: int
  assumes i2: "0 \<le> i2" "i2 \<le> 1849" and d: "-17700 \<le> d" "d \<le> 17700" and delta_def: "delta = i2 * d div 1024"
  shows "i2 * d \<le> 1849 * 17700" "- (1849 * 17700) \<le> i2 * d" "-31961 \<le> delta" "delta \<le> 31961"
    "0 \<le> delta * d" "delta * d \<le> 31961 * 17700"
proof -
  have "i2 * d \<le> i2 * 17700" "i2 * (-17700) \<le> i2 * d" using i2 d by (intro mult_left_mono; simp)+
  then show b: "i2 * d \<le> 1849 * 17700" "- (1849 * 17700) \<le> i2 * d" using i2 by linarith+
  then show delta: "-31961 \<le> delta" "delta \<le> 31961" by (auto simp: delta_def)
  show sgn: "0 \<le> delta * d"
  proof (cases "0 \<le> d")
    case True
    then show ?thesis using i2 by (auto simp: delta_def intro!: mult_nonneg_nonneg pos_imp_zdiv_nonneg_iff [THEN iffD2])
  next
    case False
    then have "i2 * d \<le> 0" using i2 by (simp add: mult_nonneg_nonpos)
    then have "delta \<le> 0" by (simp add: delta_def)
    then show ?thesis using False by (intro mult_nonpos_nonpos) auto
  qed
  show "delta * d \<le> 31961 * 17700"
    using mult_mono [of "\<bar>delta\<bar>" 31961 "\<bar>d\<bar>" 17700] delta d sgn by (simp add: abs_mult [symmetric])
qed

lemma gauss_exponent_bounds:
  assumes x0: "0 \<le> x" "x < 22005" and e: "gauss_exponent x = (e, u)"
  shows "0 \<le> u" "u \<le> 31" "0 \<le> asr e (nat u)" "asr e (nat u) \<le> 1024" "x = 0 \<Longrightarrow> asr e (nat u) = 1024"
proof -
  define k where "k = 5909 * x div 4096"
  have k: "0 \<le> k" "k \<le> 31744"
  proof -
    show "0 \<le> k" using x0 by (simp add: k_def pos_imp_zdiv_nonneg_iff)
    have "5909 * x div 4096 \<le> 5909 * 22004 div 4096" using x0 by (intro zdiv_mono1) auto
    then show "k \<le> 31744" by (simp add: k_def)
  qed
  have m: "s16 (WEBRTC_SPL_MUL_16_16_RSFT 5909 (s16 x) 12) = k"
    using x0 k by (simp add: WEBRTC_SPL_MUL_16_16_RSFT_def WEBRTC_SPL_MUL_16_16_def asr_div s16_id s32_id flip: k_def)
  have eu: "e = s16 (0x0400 OR (s16 (- k) AND 0x03FF))" "u = s16 (asr (s16 (s16 (- k) XOR 0xFFFF)) 10 + 1)"
    using e by (simp_all only: gauss_exponent_def Let_def m prod.inject)
  note B = exp_part_bounds [OF k, unfolded Let_def, folded eu]
  show "0 \<le> u" "u \<le> 31" "0 \<le> asr e (nat u)" "asr e (nat u) \<le> 1024" using B by blast+
  assume "x = 0"
  then have "k = 0" by (simp add: k_def)
  then show "asr e (nat u) = 1024" using B by blast
qed

text \<open>C31. For the standard deviations of the invariant (378 to 32767 in Q7) and a 16-bit mean at most
  17700 in Q7 (138 units) from the feature, itself between -4096 and 4095 in Q4: the inverse deviation is between
  4 and 347 and the returned delta is the exact quotient, so no 16-bit intermediate overflows; the
  count by which the exponential is shifted is between 0 and 31, so the shift is defined in C; and the
  probability is the inverse deviation times the shifted mantissa, or 0 where the exponent is 22005 or
  more. It is never negative, never exceeds the peak 1024 / s, and is the peak where the feature equals
  the mean. Further from the mean the 16-bit delta can overflow.\<close>

theorem GaussianProbability_bounds:
  assumes "378 \<le> std" "std \<le> 32767" "-4096 \<le> input" "input < 4096" "is16 mean"
    and "-17700 \<le> 8 * input - mean" "8 * input - mean \<le> 17700"
  shows "let (p, delta) = WebRtcVad_GaussianProbability input mean std; inv = (131072 + std div 2) div std;
      x = delta * (8 * input - mean) div 512; (e, shift) = gauss_exponent x
    in 4 \<le> inv \<and> inv \<le> 347 \<and> 0 \<le> p \<and> p \<le> 1024 * inv \<and> (8 * input = mean \<longrightarrow> p = 1024 * inv) \<and>
       delta = (inv div 4) ^ 2 div 4 * (8 * input - mean) div 1024 \<and>
       (x < 22005 \<longrightarrow> 0 \<le> shift \<and> shift \<le> 31 \<and> p = inv * asr e (nat shift)) \<and> (22005 \<le> x \<longrightarrow> p = 0)"
proof -
  define inv where "inv = (131072 + std div 2) div std"
  define d where "d = 8 * input - mean"
  define i2 where "i2 = (inv div 4) ^ 2 div 4"
  define delta where "delta = i2 * d div 1024"
  define x where "x = delta * d div 512"
  note inv = gauss_inv_bounds [OF assms(1,2), folded inv_def]
  have q: "1 \<le> inv div 4" "inv div 4 \<le> 86" using inv by linarith+
  then have sq: "0 \<le> (inv div 4) ^ 2" "(inv div 4) ^ 2 \<le> 86 ^ 2" using power_mono [of "inv div 4" 86 2] by auto
  then have i2: "0 \<le> i2" "i2 \<le> 1849" by (auto simp: i2_def pos_imp_zdiv_nonneg_iff)
  have d: "-17700 \<le> d" "d \<le> 17700" using assms by (auto simp: d_def)
  note D = gauss_delta_bounds [OF i2 d delta_def]
  have x0: "0 \<le> x" using D(5) by (simp add: x_def pos_imp_zdiv_nonneg_iff)
  note arith = WEBRTC_SPL_MUL_16_16_RSFT_def WEBRTC_SPL_MUL_16_16_def asr_div
  have e1: "s16 (WebRtcSpl_DivW32W16 (s32 (131072 + asr std 1)) std) = inv"
    using assms(1,2) inv by (simp add: WebRtcSpl_DivW32W16_def asr_div s32_id s16_id sdiv_nonneg flip: inv_def)
  have "s32 ((inv div 4) ^ 2) = (inv div 4) ^ 2" "s16 i2 = i2"
    using order_trans [OF _ sq(1), of "-2147483648"] order_trans [OF sq(2), of 2147483647] i2
    by (intro s32_id s16_id; auto)+
  then have e2: "s16 (WEBRTC_SPL_MUL_16_16_RSFT (asr inv 2) (asr inv 2) 2) = i2"
    using q by (simp add: arith s16_id i2_def power2_eq_square)
  have e3: "s16 (s16 (shl input 3) - mean) = d"
    using assms(3,4) d by (simp add: shl_mult s16_id d_def mult.commute)
  have e4: "s16 (WEBRTC_SPL_MUL_16_16_RSFT i2 d 10) = delta"
    using i2 d D(1-4) by (simp add: arith s16_id s32_id flip: delta_def)
  have e5: "WEBRTC_SPL_MUL_16_16_RSFT delta d 9 = x"
    using d D(3-6) by (simp add: arith s16_id s32_id flip: x_def)
  obtain e u where eu: "gauss_exponent x = (e, u)" by fastforce
  define E where "E = (if x < 22005 then asr e (nat (u mod 32)) else 0)"
  have EX: "0 \<le> u \<and> u \<le> 31 \<and> E = asr e (nat u)" if "x < 22005"
    using gauss_exponent_bounds(1,2) [OF x0 that eu] that by (simp add: E_def)
  have E: "0 \<le> E" "E \<le> 1024" "x = 0 \<Longrightarrow> E = 1024"
    using gauss_exponent_bounds(3-5) [OF x0 _ eu] EX by (cases "x < 22005"; simp add: E_def; fail)+
  have iE: "inv * E \<le> 347 * 1024" "0 \<le> inv * E" using mult_mono [of inv 347 E 1024] inv E(1,2) by auto
  then have "s32 (inv * E) = inv * E" by (intro s32_id) linarith+
  then have e6: "WEBRTC_SPL_MUL_16_16 inv E = inv * E" using inv E by (simp add: arith s16_id)
  have "WebRtcVad_GaussianProbability input mean std = (WEBRTC_SPL_MUL_16_16 inv E, delta)"
    unfolding WebRtcVad_GaussianProbability_def Let_def e1 e2 e3 e4 e5 E_def eu by simp
  then have G: "WebRtcVad_GaussianProbability input mean std = (inv * E, delta)" unfolding e6 .
  have "inv * E \<le> 1024 * inv" using E(2) inv(1) by (auto simp: mult.commute [of inv] intro: mult_right_mono)
  moreover have "E = 1024" if "8 * input = mean" using that by (intro E(3)) (simp add: x_def d_def)
  moreover have "E = 0" if "22005 \<le> x" using that by (simp add: E_def)
  moreover have "delta * (8 * input - mean) div 512 = x" by (simp add: x_def d_def)
  ultimately show ?thesis
    using inv iE(2) EX by (simp add: G eu Let_def inv_def [symmetric] i2_def [symmetric] delta_def d_def)
qed

theorem GaussianProbability_bounds_witness:
  "fst (WebRtcVad_GaussianProbability 842 6736 378) = 1024 * 347"
  using GaussianProbability_bounds [of 378 842 6736] by (simp add: is16_def split_beta Let_def)

end
