(* ===== verification/SplResample22.thy ===== *)
theory SplResample22
  imports ResampleStream
begin

text \<open>
  The 22 kHz resamplers of the signal processing library: \<^verbatim>\<open>resample.c\<close> (the chains between 22 kHz and 8 or 16 kHz
  with the 11/16 interpolator) and the 8/11 interpolator of \<^verbatim>\<open>resample_fractional.c\<close>. A chain processes 10 ms in
  several sub-blocks and keeps its scratch array from one to the next.
\<close>

section \<open>Fractional interpolation with 9 taps\<close>

definition kCoefficients44To32 :: "int list list" where
  "kCoefficients44To32 =
     [[117, -669, 2245, -6183, 26267, 13529, -3245, 845, -138],
      [-101, 612, -2283, 8532, 29790, -5138, 1789, -524, 91],
      [50, -292, 1016, -3064, 32010, 3933, -1147, 315, -53],
      [-156, 974, -3863, 18603, 21691, -6246, 2353, -712, 126]]"

definition kCoefficients32To22 :: "int list list" where
  "kCoefficients32To22 =
     [[127, -712, 2359, -6333, 23456, 16775, -3695, 945, -154],
      [-39, 230, -830, 2785, 32366, -2324, 760, -218, 38],
      [117, -663, 2222, -6133, 26634, 13070, -3174, 831, -137],
      [-77, 457, -1677, 5958, 31175, -4136, 1405, -408, 71],
      [98, -560, 1900, -5406, 29240, 9423, -2480, 663, -110]]"

text \<open>An inner product of nine samples, read upwards or downwards.\<close>

definition dot9 :: "int list \<Rightarrow> (nat \<Rightarrow> int) \<Rightarrow> int" where
  "dot9 c x = fold (\<lambda>j tmp. s32 (tmp + s32 (c ! j * x j))) [0..<9] 16384"

definition WebRtcSpl_ResampDotProduct :: "int list \<Rightarrow> nat \<Rightarrow> nat \<Rightarrow> int list \<Rightarrow> nat \<Rightarrow> nat \<Rightarrow> int list" where
  "WebRtcSpl_ResampDotProduct mem in1 in2 coef out1 out2 =
     (let tmp1 = dot9 coef (\<lambda>j. mem ! (in1 + j)); tmp2 = dot9 coef (\<lambda>j. mem ! (in2 - j))
      in mem[out1 := tmp1, out2 := tmp2])"

definition WebRtcSpl_DotProdIntToInt :: "int list \<Rightarrow> nat \<Rightarrow> nat \<Rightarrow> int list \<Rightarrow> nat \<Rightarrow> nat \<Rightarrow> int list" where
  "WebRtcSpl_DotProdIntToInt mem in1 in2 coef out1 out2 =
     (let tmp1 = dot9 coef (\<lambda>j. mem ! (in1 + j)); tmp2 = dot9 coef (\<lambda>j. mem ! (in2 - j))
      in mem[out1 := tmp1, out2 := tmp2])"

text \<open>This one writes to an output array of its own.\<close>

definition WebRtcSpl_DotProdIntToShort :: "int list \<Rightarrow> nat \<Rightarrow> nat \<Rightarrow> int list \<Rightarrow> int list \<Rightarrow> nat \<Rightarrow> nat \<Rightarrow> int list" where
  "WebRtcSpl_DotProdIntToShort mem in1 in2 coef out out1 out2 =
     (let tmp1 = dot9 coef (\<lambda>j. mem ! (in1 + j)); tmp2 = dot9 coef (\<lambda>j. mem ! (in2 - j));
          tmp1 = sat_short (asr tmp1 15); tmp2 = sat_short (asr tmp2 15)
      in out[out1 := tmp1, out2 := tmp2])"

primrec WebRtcSpl_Resample44khzTo32khz :: "nat \<Rightarrow> int list \<Rightarrow> nat \<Rightarrow> nat \<Rightarrow> int list" where
  "WebRtcSpl_Resample44khzTo32khz 0 mem inp out = mem"
| "WebRtcSpl_Resample44khzTo32khz (Suc K) mem inp out =
     (let mem = mem[out := short_q15 (mem ! (inp + 3))];
          mem = mem[out + 4 := dot9 (kCoefficients44To32 ! 3) (\<lambda>j. mem ! (inp + 5 + j))];
          mem = WebRtcSpl_ResampDotProduct mem inp (inp + 17) (kCoefficients44To32 ! 0) (out + 1) (out + 7);
          mem = WebRtcSpl_ResampDotProduct mem (inp + 2) (inp + 15) (kCoefficients44To32 ! 1) (out + 2) (out + 6);
          mem = WebRtcSpl_ResampDotProduct mem (inp + 3) (inp + 14) (kCoefficients44To32 ! 2) (out + 3) (out + 5)
      in WebRtcSpl_Resample44khzTo32khz K mem (inp + 11) (out + 8))"

primrec WebRtcSpl_32khzTo22khzIntToInt :: "nat \<Rightarrow> int list \<Rightarrow> nat \<Rightarrow> nat \<Rightarrow> int list" where
  "WebRtcSpl_32khzTo22khzIntToInt 0 mem inp out = mem"
| "WebRtcSpl_32khzTo22khzIntToInt (Suc K) mem inp out =
     (let mem = mem[out := short_q15 (mem ! (inp + 3))];
          mem = WebRtcSpl_DotProdIntToInt mem inp (inp + 22) (kCoefficients32To22 ! 0) (out + 1) (out + 10);
          mem = WebRtcSpl_DotProdIntToInt mem (inp + 2) (inp + 20) (kCoefficients32To22 ! 1) (out + 2) (out + 9);
          mem = WebRtcSpl_DotProdIntToInt mem (inp + 3) (inp + 19) (kCoefficients32To22 ! 2) (out + 3) (out + 8);
          mem = WebRtcSpl_DotProdIntToInt mem (inp + 5) (inp + 17) (kCoefficients32To22 ! 3) (out + 4) (out + 7);
          mem = WebRtcSpl_DotProdIntToInt mem (inp + 6) (inp + 16) (kCoefficients32To22 ! 4) (out + 5) (out + 6)
      in WebRtcSpl_32khzTo22khzIntToInt K mem (inp + 16) (out + 11))"

primrec WebRtcSpl_32khzTo22khzIntToShort :: "nat \<Rightarrow> int list \<Rightarrow> nat \<Rightarrow> int list \<Rightarrow> nat \<Rightarrow> int list" where
  "WebRtcSpl_32khzTo22khzIntToShort 0 mem inp Out out = Out"
| "WebRtcSpl_32khzTo22khzIntToShort (Suc K) mem inp Out out =
     (let Out = Out[out := sat_short (mem ! (inp + 3))];
          Out = WebRtcSpl_DotProdIntToShort mem inp (inp + 22) (kCoefficients32To22 ! 0) Out (out + 1) (out + 10);
          Out = WebRtcSpl_DotProdIntToShort mem (inp + 2) (inp + 20) (kCoefficients32To22 ! 1) Out (out + 2) (out + 9);
          Out = WebRtcSpl_DotProdIntToShort mem (inp + 3) (inp + 19) (kCoefficients32To22 ! 2) Out (out + 3) (out + 8);
          Out = WebRtcSpl_DotProdIntToShort mem (inp + 5) (inp + 17) (kCoefficients32To22 ! 3) Out (out + 4) (out + 7);
          Out = WebRtcSpl_DotProdIntToShort mem (inp + 6) (inp + 16) (kCoefficients32To22 ! 4) Out (out + 5) (out + 6)
      in WebRtcSpl_32khzTo22khzIntToShort K mem (inp + 16) Out (out + 11))"

section \<open>The chains\<close>

text \<open>The sub-blocks of a frame: \<open>body\<close> processes \<open>n\<close> samples; the pointers to input and output advance, the scratch memory and
  the filter state stay.\<close>

primrec sub_blocks :: "nat \<Rightarrow> nat \<Rightarrow> (int list \<Rightarrow> 's \<Rightarrow> 'm \<Rightarrow> int list \<times> 's \<times> 'm) \<Rightarrow> int list \<Rightarrow> 's \<Rightarrow> 'm \<Rightarrow> int list \<times> 's \<times> 'm" where
  "sub_blocks n 0 body inp s m = ([], s, m)"
| "sub_blocks n (Suc K) body inp s m =
     (let (out, s, m) = body (take n inp) s m; (out', s, m) = sub_blocks n K body (drop n inp) s m
      in (out @ out', s, m))"

definition SUB_BLOCKS_22_16 :: nat where "SUB_BLOCKS_22_16 = 5"
definition SUB_BLOCKS_16_22 :: nat where "SUB_BLOCKS_16_22 = 4"
definition SUB_BLOCKS_22_8 :: nat where "SUB_BLOCKS_22_8 = 2"
definition SUB_BLOCKS_8_22 :: nat where "SUB_BLOCKS_8_22 = 2"

record WebRtcSpl_State22khzTo16khz =
  S_22_44 :: "int list"
  S_44_32 :: "int list"
  S_32_16' :: "int list"

record WebRtcSpl_State16khzTo22khz =
  S_16_32' :: "int list"
  S_32_22 :: "int list"

record WebRtcSpl_State22khzTo8khz =
  S_22_22 :: "int list"
  S_22_16 :: "int list"
  S_16_8' :: "int list"

record WebRtcSpl_State8khzTo22khz =
  S_8_16' :: "int list"
  S_16_11 :: "int list"
  S_11_22 :: "int list"

definition block22to16 :: "int list \<Rightarrow> WebRtcSpl_State22khzTo16khz \<Rightarrow> int list \<Rightarrow> int list \<times> WebRtcSpl_State22khzTo16khz \<times> int list" where
  "block22to16 inp state tmpmem =
     (let (tmpmem, s1) = WebRtcSpl_UpBy2ShortToInt inp (220 div SUB_BLOCKS_22_16) tmpmem 16 (S_22_44 state);
          tmpmem = memcpy tmpmem 8 (S_44_32 state);
          s2 = mem_slice tmpmem (440 div SUB_BLOCKS_22_16 + 8) 8;
          tmpmem = WebRtcSpl_Resample44khzTo32khz (40 div SUB_BLOCKS_22_16) tmpmem 8 0;
          (out, tmpmem, s3) = WebRtcSpl_DownBy2IntToShort tmpmem 0 (320 div SUB_BLOCKS_22_16) (S_32_16' state)
      in (out, \<lparr>S_22_44 = s1, S_44_32 = s2, S_32_16' = s3\<rparr>, tmpmem))"

definition WebRtcSpl_Resample22khzTo16khz ::
  "int list \<Rightarrow> WebRtcSpl_State22khzTo16khz \<Rightarrow> int list \<Rightarrow> int list \<times> WebRtcSpl_State22khzTo16khz \<times> int list" where
  "WebRtcSpl_Resample22khzTo16khz = sub_blocks (220 div SUB_BLOCKS_22_16) SUB_BLOCKS_22_16 block22to16"

definition WebRtcSpl_ResetResample22khzTo16khz :: "WebRtcSpl_State22khzTo16khz" where
  "WebRtcSpl_ResetResample22khzTo16khz = \<lparr>S_22_44 = replicate 8 0, S_44_32 = replicate 8 0, S_32_16' = replicate 8 0\<rparr>"

text \<open>The output array is part of the memory where a stage writes it cell by cell; the block returns its part of the array.\<close>

definition block16to22 ::
  "int list \<Rightarrow> WebRtcSpl_State16khzTo22khz \<Rightarrow> int list \<times> int list \<Rightarrow> int list \<times> WebRtcSpl_State16khzTo22khz \<times> (int list \<times> int list)" where
  "block16to22 inp state m =
     (let (out, tmpmem) = m;
          (tmpmem, s1) = WebRtcSpl_UpBy2ShortToInt inp (160 div SUB_BLOCKS_16_22) tmpmem 8 (S_16_32' state);
          tmpmem = memcpy tmpmem 0 (S_32_22 state);
          s2 = mem_slice tmpmem (320 div SUB_BLOCKS_16_22) 8;
          out = WebRtcSpl_32khzTo22khzIntToShort (20 div SUB_BLOCKS_16_22) tmpmem 0 out 0;
          n = 220 div SUB_BLOCKS_16_22
      in (take n out, \<lparr>S_16_32' = s1, S_32_22 = s2\<rparr>, (drop n out, tmpmem)))"

definition WebRtcSpl_Resample16khzTo22khz ::
  "int list \<Rightarrow> WebRtcSpl_State16khzTo22khz \<Rightarrow> int list \<times> int list \<Rightarrow> int list \<times> WebRtcSpl_State16khzTo22khz \<times> (int list \<times> int list)" where
  "WebRtcSpl_Resample16khzTo22khz = sub_blocks (160 div SUB_BLOCKS_16_22) SUB_BLOCKS_16_22 block16to22"

definition WebRtcSpl_ResetResample16khzTo22khz :: "WebRtcSpl_State16khzTo22khz" where
  "WebRtcSpl_ResetResample16khzTo22khz = \<lparr>S_16_32' = replicate 8 0, S_32_22 = replicate 8 0\<rparr>"

definition block22to8 :: "int list \<Rightarrow> WebRtcSpl_State22khzTo8khz \<Rightarrow> int list \<Rightarrow> int list \<times> WebRtcSpl_State22khzTo8khz \<times> int list" where
  "block22to8 inp state tmpmem =
     (let (tmpmem, s1) = WebRtcSpl_LPBy2ShortToInt inp (220 div SUB_BLOCKS_22_8) tmpmem 16 (S_22_22 state);
          tmpmem = memcpy tmpmem 8 (S_22_16 state);
          s2 = mem_slice tmpmem (220 div SUB_BLOCKS_22_8 + 8) 8;
          tmpmem = WebRtcSpl_Resample44khzTo32khz (20 div SUB_BLOCKS_22_8) tmpmem 8 0;
          (out, tmpmem, s3) = WebRtcSpl_DownBy2IntToShort tmpmem 0 (160 div SUB_BLOCKS_22_8) (S_16_8' state)
      in (out, \<lparr>S_22_22 = s1, S_22_16 = s2, S_16_8' = s3\<rparr>, tmpmem))"

definition WebRtcSpl_Resample22khzTo8khz ::
  "int list \<Rightarrow> WebRtcSpl_State22khzTo8khz \<Rightarrow> int list \<Rightarrow> int list \<times> WebRtcSpl_State22khzTo8khz \<times> int list" where
  "WebRtcSpl_Resample22khzTo8khz = sub_blocks (220 div SUB_BLOCKS_22_8) SUB_BLOCKS_22_8 block22to8"

definition WebRtcSpl_ResetResample22khzTo8khz :: "WebRtcSpl_State22khzTo8khz" where
  "WebRtcSpl_ResetResample22khzTo8khz = \<lparr>S_22_22 = replicate 16 0, S_22_16 = replicate 8 0, S_16_8' = replicate 8 0\<rparr>"

definition block8to22 ::
  "int list \<Rightarrow> WebRtcSpl_State8khzTo22khz \<Rightarrow> int list \<times> int list \<Rightarrow> int list \<times> WebRtcSpl_State8khzTo22khz \<times> (int list \<times> int list)" where
  "block8to22 inp state m =
     (let (out, tmpmem) = m;
          (tmpmem, s1) = WebRtcSpl_UpBy2ShortToInt inp (80 div SUB_BLOCKS_8_22) tmpmem 18 (S_8_16' state);
          tmpmem = memcpy tmpmem 10 (S_16_11 state);
          s2 = mem_slice tmpmem (160 div SUB_BLOCKS_8_22 + 10) 8;
          tmpmem = WebRtcSpl_32khzTo22khzIntToInt (10 div SUB_BLOCKS_8_22) tmpmem 10 0;
          (out, s3) = WebRtcSpl_UpBy2IntToShort tmpmem (110 div SUB_BLOCKS_8_22) out (S_11_22 state);
          n = 220 div SUB_BLOCKS_8_22
      in (take n out, \<lparr>S_8_16' = s1, S_16_11 = s2, S_11_22 = s3\<rparr>, (drop n out, tmpmem)))"

definition WebRtcSpl_Resample8khzTo22khz ::
  "int list \<Rightarrow> WebRtcSpl_State8khzTo22khz \<Rightarrow> int list \<times> int list \<Rightarrow> int list \<times> WebRtcSpl_State8khzTo22khz \<times> (int list \<times> int list)" where
  "WebRtcSpl_Resample8khzTo22khz = sub_blocks (80 div SUB_BLOCKS_8_22) SUB_BLOCKS_8_22 block8to22"

definition WebRtcSpl_ResetResample8khzTo22khz :: "WebRtcSpl_State8khzTo22khz" where
  "WebRtcSpl_ResetResample8khzTo22khz = \<lparr>S_8_16' = replicate 8 0, S_16_11 = replicate 8 0, S_11_22 = replicate 8 0\<rparr>"

end
