(* ===== verification/Resample22Stream.thy ===== *)
theory Resample22Stream
  imports SplResample22
begin

text \<open>
  The chains between 22 kHz and 8 or 16 kHz as streaming filters.  Each interpolator is a function of a window that slides over
  the signal; that it runs in place is harmless because its outputs trail its inputs.  A call processes its frame in several
  sub-blocks: the interface \<open>frame_filter\<close> turns a correct sub-block into a correct frame and is an instance of the interface
  \<open>block_filter\<close> of the other chains.
\<close>

section \<open>Interpolation as a function on signals\<close>

text \<open>An interpolator computes a block of outputs from a window \<open>x\<close> of the buffer, and moves on by \<open>d\<close> samples.\<close>

definition windowed :: "((nat \<Rightarrow> int) \<Rightarrow> int list) \<Rightarrow> nat \<Rightarrow> int list \<Rightarrow> nat \<Rightarrow> int list" where
  "windowed f d buf K = concat (map (\<lambda>m. f (\<lambda>j. buf ! (d * m + j))) [0..<K])"

definition needs :: "nat \<Rightarrow> nat \<Rightarrow> ((nat \<Rightarrow> int) \<Rightarrow> int list) \<Rightarrow> bool" where
  "needs w n f \<longleftrightarrow> (\<forall>x y. (\<forall>j<w. x j = y j) \<longrightarrow> f x = f y) \<and> (\<forall>x. length (f x) = n)"

lemma needsD: "needs w n f \<Longrightarrow> (\<And>j. j < w \<Longrightarrow> x j = y j) \<Longrightarrow> f x = f y" "needs w n f \<Longrightarrow> length (f x) = n"
  by (auto simp: needs_def)

lemma windowed_0 [simp]: "windowed f d buf 0 = []"
  by (simp add: windowed_def)

lemma length_windowed: "needs w n f \<Longrightarrow> length (windowed f d buf K) = K * n"
  by (simp add: windowed_def length_concat comp_def needsD(2) sum_list_triv)

lemma windowed_add:
  assumes "d * a \<le> length buf"
  shows "windowed f d buf (a + b) = windowed f d buf a @ windowed f d (drop (d * a) buf) b"
proof -
  have f: "(\<lambda>j. buf ! (d * (m + a) + j)) = (\<lambda>j. drop (d * a) buf ! (d * m + j))" for m
    using assms by (simp add: add_mult_distrib2 add.assoc add.left_commute [of _ "d * a"])
  have u: "[0..<a + b] = [0..<a] @ map (\<lambda>m. m + a) [0..<b]"
    using upt_add_eq_append [of 0 a b] map_add_upt [of a b] by (simp add: add.commute [of b a])
  show ?thesis unfolding windowed_def u map_append concat_append map_map comp_def f ..
qed

lemma windowed_prefix:
  assumes "needs w n f" "d * K + w \<le> length xs + d"
  shows "windowed f d (xs @ ys) K = windowed f d xs K"
proof -
  have "f (\<lambda>j. (xs @ ys) ! (d * m + j)) = f (\<lambda>j. xs ! (d * m + j))" if "m < K" for m
  proof (rule needsD(1) [OF assms(1)])
    fix j assume "j < w"
    moreover have "d * m + d \<le> d * K" using that mult_le_mono2 [of "Suc m" K d] by simp
    ultimately have "d * m + j < length xs" using assms(2) by linarith
    then show "(xs @ ys) ! (d * m + j) = xs ! (d * m + j)" by (simp add: nth_append)
  qed
  then show ?thesis unfolding windowed_def by (intro arg_cong [where f = concat] map_cong) auto
qed

lemma windowed_history:
  assumes "needs w n f" "w \<le> d + 8" "length h = 8" "length xs = d * a"
  shows "windowed f d (h @ xs @ ys) (a + b) = windowed f d (h @ xs) a @ windowed f d (drop (length xs) (h @ xs) @ ys) b"
proof -
  have "windowed f d (h @ xs @ ys) (a + b) = windowed f d (h @ xs @ ys) a @ windowed f d (drop (d * a) (h @ xs @ ys)) b"
    using assms(3,4) by (intro windowed_add) simp
  also have "windowed f d (h @ xs @ ys) a = windowed f d (h @ xs) a"
    using windowed_prefix [OF assms(1), of d a "h @ xs" ys] assms(2-4) by simp
  finally show ?thesis using assms(3,4) by simp
qed

lemma windowed_first:
  assumes "inp + d \<le> length mem"
  shows "windowed f d (drop inp mem) (Suc K) = f (\<lambda>j. mem ! (inp + j)) @ windowed f d (drop (inp + d) mem) K"
proof -
  have "windowed f d (drop inp mem) (1 + K) = windowed f d (drop inp mem) 1 @ windowed f d (drop (d * 1) (drop inp mem)) K"
    using assms by (intro windowed_add) simp
  then show ?thesis using assms by (simp add: windowed_def add.commute [of d])
qed

lemma dot9_cong: "(\<And>j. j < 9 \<Longrightarrow> x j = y j) \<Longrightarrow> dot9 c x = dot9 c y"
  unfolding dot9_def by (intro fold_cong) auto

lemma dot9_up [simp]: "o' < p \<Longrightarrow> dot9 c (\<lambda>j. mem[o' := v] ! (p + j)) = dot9 c (\<lambda>j. mem ! (p + j))"
  by (rule dot9_cong) simp

lemma dot9_down [simp]: "o' + 8 < q \<Longrightarrow> dot9 c (\<lambda>j. mem[o' := v] ! (q - j)) = dot9 c (\<lambda>j. mem ! (q - j))"
  by (rule dot9_cong) simp

definition resample44to32_block :: "(nat \<Rightarrow> int) \<Rightarrow> int list" where
  "resample44to32_block x =
     (let k = kCoefficients44To32
      in [short_q15 (x 3), dot9 (k ! 0) x, dot9 (k ! 1) (\<lambda>j. x (2 + j)), dot9 (k ! 2) (\<lambda>j. x (3 + j)),
          dot9 (k ! 3) (\<lambda>j. x (5 + j)), dot9 (k ! 2) (\<lambda>j. x (14 - j)), dot9 (k ! 1) (\<lambda>j. x (15 - j)), dot9 (k ! 0) (\<lambda>j. x (17 - j))])"

definition resample32to22_block :: "(nat \<Rightarrow> int) \<Rightarrow> int list" where
  "resample32to22_block x =
     (let k = kCoefficients32To22
      in [short_q15 (x 3), dot9 (k ! 0) x, dot9 (k ! 1) (\<lambda>j. x (2 + j)), dot9 (k ! 2) (\<lambda>j. x (3 + j)),
          dot9 (k ! 3) (\<lambda>j. x (5 + j)), dot9 (k ! 4) (\<lambda>j. x (6 + j)), dot9 (k ! 4) (\<lambda>j. x (16 - j)), dot9 (k ! 3) (\<lambda>j. x (17 - j)),
          dot9 (k ! 2) (\<lambda>j. x (19 - j)), dot9 (k ! 1) (\<lambda>j. x (20 - j)), dot9 (k ! 0) (\<lambda>j. x (22 - j))])"

definition sat_block :: "(nat \<Rightarrow> int) \<Rightarrow> int list" where
  "sat_block x = sat_short (x 3) # map sat15 (tl (resample32to22_block x))"

lemma resample_needs: "needs 18 8 resample44to32_block" "needs 23 11 resample32to22_block"
  by (auto simp: needs_def resample44to32_block_def resample32to22_block_def Let_def intro!: dot9_cong arg_cong [where f = short_q15])

lemma sat_needs: "needs 23 11 sat_block"
  unfolding needs_def
proof (intro conjI allI impI)
  fix x y :: "nat \<Rightarrow> int"
  assume eq: "\<forall>j<23. x j = y j"
  then have "resample32to22_block x = resample32to22_block y" using needsD(1) [OF resample_needs(2)] by blast
  moreover have "x 3 = y 3" using eq by simp
  ultimately show "sat_block x = sat_block y" by (simp add: sat_block_def)
next
  fix x :: "nat \<Rightarrow> int"
  show "length (sat_block x) = 11" using needsD(2) [OF resample_needs(2), of x] by (simp add: sat_block_def)
qed

lemma memcpy_block:
  assumes "out + length ys + length zs \<le> length mem"
  shows "memcpy (memcpy mem out ys) (out + length ys) zs = memcpy mem out (ys @ zs)"
  using assms by (simp add: memcpy_fits ac_simps)

lemma block44to32:
  assumes "out + 8 \<le> inp" "inp \<le> length mem"
  shows "WebRtcSpl_Resample44khzTo32khz (Suc K) mem inp out =
    WebRtcSpl_Resample44khzTo32khz K (memcpy mem out (resample44to32_block (\<lambda>j. mem ! (inp + j)))) (inp + 11) (out + 8)"
proof -
  let ?k = "kCoefficients44To32" and ?x = "\<lambda>j. mem ! (inp + j)"
  have d: "dot9 c (\<lambda>j. mem ! (inp + q - j)) = dot9 c (\<lambda>j. mem ! (inp + (q - j)))" if "8 \<le> q" for c q
    using that by (intro dot9_cong) simp
  let ?m = "mem[out := short_q15 (?x 3), out + 4 := dot9 (?k ! 3) (\<lambda>j. ?x (5 + j)), out + 1 := dot9 (?k ! 0) ?x,
      out + 7 := dot9 (?k ! 0) (\<lambda>j. ?x (17 - j)), out + 2 := dot9 (?k ! 1) (\<lambda>j. ?x (2 + j)), out + 6 := dot9 (?k ! 1) (\<lambda>j. ?x (15 - j)),
      out + 3 := dot9 (?k ! 2) (\<lambda>j. ?x (3 + j)), out + 5 := dot9 (?k ! 2) (\<lambda>j. ?x (14 - j))]"
  have "?m = memcpy mem out (resample44to32_block ?x)"
  proof (rule nth_equalityI)
    fix i assume i: "i < length ?m"
    consider "i < out" | "out + 8 \<le> i" | "i - out \<in> {0, 1, 2, 3, 4, 5, 6, 7}" "out \<le> i" by fastforce
    then show "?m ! i = memcpy mem out (resample44to32_block ?x) ! i"
    proof cases
      case 3
      then have "i = out + (i - out)" by simp
      with 3 show ?thesis using i assms
        by (elim insertE) (simp_all add: nth_memcpy nth_list_update resample44to32_block_def Let_def)
    qed (use i assms in \<open>simp_all add: nth_memcpy nth_list_update resample44to32_block_def Let_def\<close>)
  qed (use assms in \<open>simp\<close>)
  then show ?thesis
    using assms by (simp add: WebRtcSpl_ResampDotProduct_def Let_def d [symmetric] add.assoc)
qed

lemma below_11: "j < 11 \<Longrightarrow> j \<in> {0, 1, 2, 3, 4, 5, 6, 7, 8, 9, 10}" for j :: nat
  by (simp add: numeral_eq_Suc less_Suc_eq)

lemma block32to22:
  assumes "out + 10 \<le> inp" "inp + 8 \<le> length mem"
  shows "WebRtcSpl_32khzTo22khzIntToInt (Suc K) mem inp out =
    WebRtcSpl_32khzTo22khzIntToInt K (memcpy mem out (resample32to22_block (\<lambda>j. mem ! (inp + j)))) (inp + 16) (out + 11)"
proof -
  let ?k = "kCoefficients32To22" and ?x = "\<lambda>j. mem ! (inp + j)"
  have d: "dot9 c (\<lambda>j. mem ! (inp + q - j)) = dot9 c (\<lambda>j. mem ! (inp + (q - j)))" if "8 \<le> q" for c q
    using that by (intro dot9_cong) simp
  let ?m = "mem[out := short_q15 (?x 3), out + 1 := dot9 (?k ! 0) ?x, out + 10 := dot9 (?k ! 0) (\<lambda>j. ?x (22 - j)),
      out + 2 := dot9 (?k ! 1) (\<lambda>j. ?x (2 + j)), out + 9 := dot9 (?k ! 1) (\<lambda>j. ?x (20 - j)),
      out + 3 := dot9 (?k ! 2) (\<lambda>j. ?x (3 + j)), out + 8 := dot9 (?k ! 2) (\<lambda>j. ?x (19 - j)),
      out + 4 := dot9 (?k ! 3) (\<lambda>j. ?x (5 + j)), out + 7 := dot9 (?k ! 3) (\<lambda>j. ?x (17 - j)),
      out + 5 := dot9 (?k ! 4) (\<lambda>j. ?x (6 + j)), out + 6 := dot9 (?k ! 4) (\<lambda>j. ?x (16 - j))]"
  have "?m = memcpy mem out (resample32to22_block ?x)"
  proof (rule nth_equalityI)
    fix i assume i: "i < length ?m"
    consider "i < out" | "out + 11 \<le> i" | "i - out < 11" "out \<le> i" by linarith
    then show "?m ! i = memcpy mem out (resample32to22_block ?x) ! i"
    proof cases
      case 3
      then have "i = out + (i - out)" by simp
      with below_11 [OF 3(1)] show ?thesis using i assms
        by (elim insertE) (simp_all add: nth_memcpy nth_list_update resample32to22_block_def Let_def)
    qed (use i assms in \<open>simp_all add: nth_memcpy nth_list_update resample32to22_block_def Let_def\<close>)
  qed (use assms in \<open>simp\<close>)
  then show ?thesis
    using assms by (simp add: WebRtcSpl_DotProdIntToInt_def Let_def d [symmetric] add.assoc)
qed

lemma block32to22_short:
  assumes "out + 11 \<le> length Out"
  shows "WebRtcSpl_32khzTo22khzIntToShort (Suc K) mem inp Out out =
    WebRtcSpl_32khzTo22khzIntToShort K mem (inp + 16) (memcpy Out out (sat_block (\<lambda>j. mem ! (inp + j)))) (out + 11)"
proof -
  let ?k = "kCoefficients32To22" and ?x = "\<lambda>j. mem ! (inp + j)"
  have d: "dot9 c (\<lambda>j. mem ! (inp + q - j)) = dot9 c (\<lambda>j. mem ! (inp + (q - j)))" if "8 \<le> q" for c q
    using that by (intro dot9_cong) simp
  let ?m = "Out[out := sat_short (?x 3), out + 1 := sat15 (dot9 (?k ! 0) ?x), out + 10 := sat15 (dot9 (?k ! 0) (\<lambda>j. ?x (22 - j))),
      out + 2 := sat15 (dot9 (?k ! 1) (\<lambda>j. ?x (2 + j))), out + 9 := sat15 (dot9 (?k ! 1) (\<lambda>j. ?x (20 - j))),
      out + 3 := sat15 (dot9 (?k ! 2) (\<lambda>j. ?x (3 + j))), out + 8 := sat15 (dot9 (?k ! 2) (\<lambda>j. ?x (19 - j))),
      out + 4 := sat15 (dot9 (?k ! 3) (\<lambda>j. ?x (5 + j))), out + 7 := sat15 (dot9 (?k ! 3) (\<lambda>j. ?x (17 - j))),
      out + 5 := sat15 (dot9 (?k ! 4) (\<lambda>j. ?x (6 + j))), out + 6 := sat15 (dot9 (?k ! 4) (\<lambda>j. ?x (16 - j)))]"
  have "?m = memcpy Out out (sat_block ?x)"
  proof (rule nth_equalityI)
    fix i assume i: "i < length ?m"
    consider "i < out" | "out + 11 \<le> i" | "i - out < 11" "out \<le> i" by linarith
    then show "?m ! i = memcpy Out out (sat_block ?x) ! i"
    proof cases
      case 3
      then have "i = out + (i - out)" by simp
      with below_11 [OF 3(1)] show ?thesis using i assms
        by (elim insertE) (simp_all add: nth_memcpy nth_list_update sat_block_def resample32to22_block_def Let_def)
    qed (use i assms in \<open>simp_all add: nth_memcpy nth_list_update sat_block_def resample32to22_block_def Let_def\<close>)
  qed (use assms in \<open>simp\<close>)
  then show ?thesis
    by (simp add: WebRtcSpl_DotProdIntToShort_def sat15_def Let_def d [symmetric] add.assoc)
qed

text \<open>An interpolator that runs in place, its output \<open>g\<close> cells behind its input.\<close>

lemma in_place:
  assumes step: "\<And>K mem inp out. out + g \<le> inp \<Longrightarrow> inp + 8 \<le> length mem \<Longrightarrow>
      code (Suc K) mem inp out = code K (memcpy mem out (f (\<lambda>j. mem ! (inp + j)))) (inp + d) (out + n)"
    and stop: "\<And>mem inp out. code 0 mem inp out = mem"
    and f: "needs w n f" "n \<le> g + 1" "n \<le> d" "0 < d" "w \<le> d + 8"
    and fits: "out + g \<le> inp" "inp + d * K + 8 \<le> length mem"
  shows "code K mem inp out = memcpy mem out (windowed f d (drop inp mem) K)"
  using fits
proof (induction K arbitrary: mem inp out)
  case 0
  then show ?case by (simp add: stop)
next
  case (Suc K)
  let ?y = "f (\<lambda>j. mem ! (inp + j))"
  have l: "length ?y = n" "length (windowed f d (drop (inp + d) mem) K) = K * n"
    using needsD(2) [OF f(1)] length_windowed [OF f(1)] by simp_all
  have Kn: "K * n \<le> d * K" using f(3) by (simp add: mult.commute)
  have fits: "out + n + K * n \<le> length mem" "inp + d \<le> length mem" "out + n \<le> inp + d" "inp + d + d * K + 8 \<le> length mem"
    using Suc.prems(1) Suc.prems(2) [unfolded mult_Suc_right] f(2-4) Kn by linarith+
  have rest: "drop (inp + d) (memcpy mem out ?y) = drop (inp + d) mem"
    using fits l(1) by (simp add: memcpy_fits)
  have "code (Suc K) mem inp out = code K (memcpy mem out ?y) (inp + d) (out + n)"
    using Suc.prems by (intro step) (simp_all add: algebra_simps)
  also have "\<dots> = memcpy (memcpy mem out ?y) (out + n) (windowed f d (drop (inp + d) mem) K)"
    using Suc.prems f(2-4) fits l(1) by (subst Suc.IH) (simp_all add: rest)
  also have "\<dots> = memcpy mem out (windowed f d (drop inp mem) (Suc K))"
    using memcpy_block [of out ?y "windowed f d (drop (inp + d) mem) K" mem] l fits by (simp add: windowed_first)
  finally show ?case .
qed

lemma Resample44khzTo32khz_in_place:
  "out + 8 \<le> inp \<Longrightarrow> inp + 11 * K + 8 \<le> length mem \<Longrightarrow>
    WebRtcSpl_Resample44khzTo32khz K mem inp out = memcpy mem out (windowed resample44to32_block 11 (drop inp mem) K)"
  by (rule in_place [where g = 8, OF _ _ resample_needs(1)])
    (simp_all add: block44to32 del: WebRtcSpl_Resample44khzTo32khz.simps(2))

lemma Resample32khzTo22khz_in_place:
  "out + 10 \<le> inp \<Longrightarrow> inp + 16 * K + 8 \<le> length mem \<Longrightarrow>
    WebRtcSpl_32khzTo22khzIntToInt K mem inp out = memcpy mem out (windowed resample32to22_block 16 (drop inp mem) K)"
  by (rule in_place [where g = 10, OF _ _ resample_needs(2)])
    (simp_all add: block32to22 del: WebRtcSpl_32khzTo22khzIntToInt.simps(2))

lemma Resample32khzTo22khz_short:
  "inp + 16 * K + 8 \<le> length mem \<Longrightarrow> out + 11 * K \<le> length Out \<Longrightarrow>
    WebRtcSpl_32khzTo22khzIntToShort K mem inp Out out = memcpy Out out (windowed sat_block 16 (drop inp mem) K)"
proof (induction K arbitrary: inp Out out)
  case (Suc K)
  have l: "length (sat_block x) = 11" for x using needsD(2) [OF sat_needs] .
  have lw: "length (windowed sat_block 16 b K) = K * 11" for b using length_windowed [OF sat_needs] .
  show ?case using Suc l lw
    by (simp add: block32to22_short windowed_first flip: memcpy_block del: WebRtcSpl_32khzTo22khzIntToShort.simps(2))
qed simp

section \<open>Frames of several blocks\<close>

text \<open>
  A filter whose frame is processed in \<open>K\<close> blocks: \<open>mem_ok k\<close> says that the work memory is good for \<open>k\<close> more blocks. Frames
  are then blocks of \<open>block_filter\<close>.
\<close>

locale frame_filter =
  fixes blk :: nat and K :: nat
    and wf :: "'s \<Rightarrow> bool"
    and mem_ok :: "nat \<Rightarrow> 'm \<Rightarrow> bool"
    and code :: "int list \<Rightarrow> 's \<Rightarrow> 'm \<Rightarrow> int list \<times> 's \<times> 'm"
    and spec :: "'s \<Rightarrow> int list \<Rightarrow> int list \<times> 's"
  assumes block: "wf s \<Longrightarrow> length x = blk \<Longrightarrow> mem_ok (Suc k) m \<Longrightarrow>
        \<exists>m'. code x s m = (fst (spec s x), snd (spec s x), m') \<and> mem_ok k m'"
    and wf_block: "wf s \<Longrightarrow> length x = blk \<Longrightarrow> wf (snd (spec s x))"
    and block_Nil: "wf s \<Longrightarrow> spec s [] = ([], s)"
    and block_append: "wf s \<Longrightarrow> length x = blk \<Longrightarrow> blk dvd length y \<Longrightarrow>
        spec s (x @ y) = (fst (spec s x) @ fst (spec (snd (spec s x)) y), snd (spec (snd (spec s x)) y))"
begin

lemma blocks_append: "wf s \<Longrightarrow> length x = blk * k \<Longrightarrow> blk dvd length y \<Longrightarrow> wf (snd (spec s x)) \<and>
    spec s (x @ y) = (fst (spec s x) @ fst (spec (snd (spec s x)) y), snd (spec (snd (spec s x)) y))"
proof (induction k arbitrary: s x)
  case 0
  then show ?case by (simp add: block_Nil)
next
  case (Suc k)
  let ?a = "take blk x" and ?b = "drop blk x"
  have l: "length ?a = blk" "length ?b = blk * k" using Suc.prems(2) by simp_all
  have x: "x = ?a @ ?b" by simp
  note w = wf_block [OF Suc.prems(1) l(1)]
  note ih = Suc.IH [OF w l(2) Suc.prems(3)]
  have "spec s x = (fst (spec s ?a) @ fst (spec (snd (spec s ?a)) ?b), snd (spec (snd (spec s ?a)) ?b))"
    using block_append [OF Suc.prems(1) l(1), of ?b] l(2) by simp
  moreover have "spec s (x @ y) = (fst (spec s ?a) @ fst (spec (snd (spec s ?a)) (?b @ y)), snd (spec (snd (spec s ?a)) (?b @ y)))"
    using block_append [OF Suc.prems(1) l(1), of "?b @ y"] l(2) Suc.prems(3) by (simp flip: append_assoc)
  ultimately show ?case using ih by simp
qed

lemma sub_blocks_spec: "wf s \<Longrightarrow> length x = blk * k \<Longrightarrow> mem_ok k m \<Longrightarrow>
    \<exists>m'. sub_blocks blk k code x s m = (fst (spec s x), snd (spec s x), m')"
proof (induction k arbitrary: s x m)
  case 0
  then show ?case by (simp add: block_Nil)
next
  case (Suc k)
  let ?a = "take blk x" and ?b = "drop blk x"
  have l: "length ?a = blk" "length ?b = blk * k" using Suc.prems(2) by simp_all
  obtain m1 where m1: "code ?a s m = (fst (spec s ?a), snd (spec s ?a), m1)" "mem_ok k m1"
    using block [OF Suc.prems(1) l(1) Suc.prems(3)] by blast
  obtain m2 where m2: "sub_blocks blk k code ?b (snd (spec s ?a)) m1 = (fst (spec (snd (spec s ?a)) ?b), snd (spec (snd (spec s ?a)) ?b), m2)"
    using Suc.IH [OF wf_block [OF Suc.prems(1) l(1)] l(2) m1(2)] by blast
  have "spec s x = (fst (spec s ?a) @ fst (spec (snd (spec s ?a)) ?b), snd (spec (snd (spec s ?a)) ?b))"
    using block_append [OF Suc.prems(1) l(1), of ?b] l(2) by simp
  then show ?case using m1 m2 by simp
qed

end

sublocale frame_filter \<subseteq> frames: block_filter "blk * K" wf "mem_ok K" "sub_blocks blk K code" spec
proof
  show "\<exists>m'. sub_blocks blk K code x s m = (fst (spec s x), snd (spec s x), m')" if "wf s" "length x = blk * K" "mem_ok K m" for s x m
    by (rule sub_blocks_spec [OF that])
  show "wf (snd (spec s x))" if "wf s" "length x = blk * K" for s x
    using blocks_append [OF that, of "[]"] by simp
  show "spec s [] = ([], s)" if "wf s" for s by (rule block_Nil [OF that])
  show "spec s (x @ y) = (fst (spec s x) @ fst (spec (snd (spec s x)) y), snd (spec (snd (spec s x)) y))"
    if "wf s" "length x = blk * K" "blk * K dvd length y" for s x y
    using blocks_append [OF that(1,2) dvd_mult_left [OF that(3)]] by simp
qed

section \<open>The chains on whole signals\<close>

definition spec22to16 :: "WebRtcSpl_State22khzTo16khz \<Rightarrow> int list \<Rightarrow> int list \<times> WebRtcSpl_State22khzTo16khz" where
  "spec22to16 st xs =
     (let x1 = map short_q15 xs; x2 = map (\<lambda>y. asr y 15) (up2 (S_22_44 st) x1);
          x3 = windowed resample44to32_block 11 (S_44_32 st @ x2) (length x2 div 11)
      in (map sat15 (down2 (S_32_16' st) x3),
          \<lparr>S_22_44 = up2_st (S_22_44 st) x1, S_44_32 = drop (length x2) (S_44_32 st @ x2), S_32_16' = down2_st (S_32_16' st) x3\<rparr>))"

definition spec16to22 :: "WebRtcSpl_State16khzTo22khz \<Rightarrow> int list \<Rightarrow> int list \<times> WebRtcSpl_State16khzTo22khz" where
  "spec16to22 st xs =
     (let x1 = map short_q15 xs; x2 = map (\<lambda>y. asr y 15) (up2 (S_16_32' st) x1)
      in (windowed sat_block 16 (S_32_22 st @ x2) (length x2 div 16),
          \<lparr>S_16_32' = up2_st (S_16_32' st) x1, S_32_22 = drop (length x2) (S_32_22 st @ x2)\<rparr>))"

definition spec22to8 :: "WebRtcSpl_State22khzTo8khz \<Rightarrow> int list \<Rightarrow> int list \<times> WebRtcSpl_State22khzTo8khz" where
  "spec22to8 st xs =
     (let x1 = map short_q15 xs; x2 = lp2 (S_22_22 st) x1;
          x3 = windowed resample44to32_block 11 (S_22_16 st @ x2) (length x2 div 11)
      in (map sat15 (down2 (S_16_8' st) x3),
          \<lparr>S_22_22 = lp2_st (S_22_22 st) x1, S_22_16 = drop (length x2) (S_22_16 st @ x2), S_16_8' = down2_st (S_16_8' st) x3\<rparr>))"

definition spec8to22 :: "WebRtcSpl_State8khzTo22khz \<Rightarrow> int list \<Rightarrow> int list \<times> WebRtcSpl_State8khzTo22khz" where
  "spec8to22 st xs =
     (let x1 = map short_q15 xs; x2 = map (\<lambda>y. asr y 15) (up2 (S_8_16' st) x1);
          x3 = windowed resample32to22_block 16 (S_16_11 st @ x2) (length x2 div 16)
      in (map sat15 (up2 (S_11_22 st) x3),
          \<lparr>S_8_16' = up2_st (S_8_16' st) x1, S_16_11 = drop (length x2) (S_16_11 st @ x2), S_11_22 = up2_st (S_11_22 st) x3\<rparr>))"

definition wf22to16 :: "WebRtcSpl_State22khzTo16khz \<Rightarrow> bool" where
  "wf22to16 st \<longleftrightarrow> length (S_22_44 st) = 8 \<and> length (S_44_32 st) = 8 \<and> length (S_32_16' st) = 8"

definition wf16to22 :: "WebRtcSpl_State16khzTo22khz \<Rightarrow> bool" where
  "wf16to22 st \<longleftrightarrow> length (S_16_32' st) = 8 \<and> length (S_32_22 st) = 8"

definition wf22to8 :: "WebRtcSpl_State22khzTo8khz \<Rightarrow> bool" where
  "wf22to8 st \<longleftrightarrow> length (S_22_22 st) = 16 \<and> length (S_22_16 st) = 8 \<and> length (S_16_8' st) = 8"

definition wf8to22 :: "WebRtcSpl_State8khzTo22khz \<Rightarrow> bool" where
  "wf8to22 st \<longleftrightarrow> length (S_8_16' st) = 8 \<and> length (S_16_11 st) = 8 \<and> length (S_11_22 st) = 8"

lemmas wf22_defs = wf22to16_def wf16to22_def wf22to8_def wf8to22_def
lemmas SUB_BLOCKS_defs [simp] = SUB_BLOCKS_22_16_def SUB_BLOCKS_16_22_def SUB_BLOCKS_22_8_def SUB_BLOCKS_8_22_def

lemma UpBy2IntToShort_part:
  assumes "len \<le> length inp" "2 * len \<le> length out" "length st = 8"
  shows "WebRtcSpl_UpBy2IntToShort inp len out st = (memcpy out 0 (map sat15 (up2 st (take len inp))), up2_st st (take len inp))"
proof -
  have "map (\<lambda>i. inp ! i) [0..<len] = take len inp" using assms(1) by (intro nth_equalityI) auto
  then show ?thesis
    unfolding WebRtcSpl_UpBy2IntToShort_def
    using up2_loops [of 0 len out "\<lambda>_ i. inp ! i" st "\<lambda>y. sat_short (asr y 15)"] assms by (simp add: sat15_def [abs_def])
qed

text \<open>The scratch array before an interpolation: eight samples of history, then the input.\<close>

lemma hist_windowed:
  assumes "length h = 8" "p + 8 + length xs \<le> length mem" "needs w n f" "w \<le> d + 8" "length xs = d * K"
  shows "windowed f d (drop p (memcpy (memcpy mem (p + 8) xs) p h)) K = windowed f d (h @ xs) K"
  unfolding hist_block(1) [OF assms(1,2)] append_assoc [symmetric]
  using assms by (intro windowed_prefix) (simp_all add: add.commute)

lemma refine22to16:
  assumes "wf22to16 st" "length xs = 44" "104 \<le> length tmpmem"
  shows "\<exists>m. length m = length tmpmem \<and> block22to16 xs st tmpmem = (fst (spec22to16 st xs), snd (spec22to16 st xs), m)"
proof -
  let ?x1 = "map short_q15 xs"
  let ?x2 = "map (\<lambda>y. asr y 15) (up2 (S_22_44 st) ?x1)" and ?h = "S_44_32 st"
  have l2: "length ?x2 = 88" using assms by simp
  have 1: "WebRtcSpl_UpBy2ShortToInt xs 44 tmpmem 16 (S_22_44 st) = (memcpy tmpmem 16 ?x2, up2_st (S_22_44 st) ?x1)"
    using assms by (intro UpBy2ShortToInt_pure) (auto simp: wf22_defs)
  let ?m = "memcpy (memcpy tmpmem 16 ?x2) 8 ?h"
  have m: "mem_slice ?m 96 8 = drop (length ?x2) (?h @ ?x2)"
    using hist_block(2) [of ?h 8 ?x2 tmpmem 96] assms l2 by (simp add: wf22_defs)
  have lm: "length ?m = length tmpmem" using assms by simp
  let ?x3 = "windowed resample44to32_block 11 (?h @ ?x2) 8"
  have l3: "length ?x3 = 64" using length_windowed [OF resample_needs(1)] by simp
  have "windowed resample44to32_block 11 (drop 8 ?m) 8 = ?x3"
    using hist_windowed [OF _ _ resample_needs(1), of ?h 8 ?x2 tmpmem 11 8] assms l2 by (simp add: wf22_defs)
  then have 2: "WebRtcSpl_Resample44khzTo32khz 8 ?m 8 0 = memcpy ?m 0 ?x3"
    using assms lm Resample44khzTo32khz_in_place [of 0 8 8 ?m] by simp
  have s: "mem_slice (memcpy ?m 0 ?x3) 0 64 = ?x3" using l3 lm assms by (intro slice_memcpy) auto
  obtain m' where "length m' = length tmpmem" "WebRtcSpl_DownBy2IntToShort (memcpy ?m 0 ?x3) 0 64 (S_32_16' st) =
    (map sat15 (down2 (S_32_16' st) ?x3), m', down2_st (S_32_16' st) ?x3)"
    using DownBy2IntToShort_pure [of 64 0 "memcpy ?m 0 ?x3" "S_32_16' st"] assms lm unfolding s by (auto simp: wf22_defs)
  then show ?thesis
    using l2 by (simp add: block22to16_def Let_def 1 m 2 spec22to16_def)
qed

lemma refine22to8:
  assumes "wf22to8 st" "length xs = 110" "126 \<le> length tmpmem"
  shows "\<exists>m. length m = length tmpmem \<and> block22to8 xs st tmpmem = (fst (spec22to8 st xs), snd (spec22to8 st xs), m)"
proof -
  let ?x1 = "map short_q15 xs"
  let ?x2 = "lp2 (S_22_22 st) ?x1" and ?h = "S_22_16 st"
  have l2: "length ?x2 = 110" using assms by simp
  have x1: "map (\<lambda>j. short_q15 (xs ! j)) [0..<110] = ?x1" using assms(2) by (intro nth_equalityI) auto
  have 1: "WebRtcSpl_LPBy2ShortToInt xs 110 tmpmem 16 (S_22_22 st) = (memcpy tmpmem 16 ?x2, lp2_st (S_22_22 st) ?x1)"
    unfolding WebRtcSpl_LPBy2ShortToInt_def
    using lp_by2_pure [of 16 110 tmpmem "\<lambda>_ j. short_q15 (xs ! j)" "S_22_22 st"] assms
    unfolding x1 by (simp add: wf22_defs)
  let ?m = "memcpy (memcpy tmpmem 16 ?x2) 8 ?h"
  have m: "mem_slice ?m 118 8 = drop (length ?x2) (?h @ ?x2)"
    using hist_block(2) [of ?h 8 ?x2 tmpmem 118] assms l2 by (simp add: wf22_defs)
  have lm: "length ?m = length tmpmem" using assms by simp
  let ?x3 = "windowed resample44to32_block 11 (?h @ ?x2) 10"
  have l3: "length ?x3 = 80" using length_windowed [OF resample_needs(1)] by simp
  have "windowed resample44to32_block 11 (drop 8 ?m) 10 = ?x3"
    using hist_windowed [OF _ _ resample_needs(1), of ?h 8 ?x2 tmpmem 11 10] assms l2 by (simp add: wf22_defs)
  then have 2: "WebRtcSpl_Resample44khzTo32khz 10 ?m 8 0 = memcpy ?m 0 ?x3"
    using assms lm Resample44khzTo32khz_in_place [of 0 8 10 ?m] by simp
  have s: "mem_slice (memcpy ?m 0 ?x3) 0 80 = ?x3" using l3 lm assms by (intro slice_memcpy) auto
  obtain m' where "length m' = length tmpmem" "WebRtcSpl_DownBy2IntToShort (memcpy ?m 0 ?x3) 0 80 (S_16_8' st) =
    (map sat15 (down2 (S_16_8' st) ?x3), m', down2_st (S_16_8' st) ?x3)"
    using DownBy2IntToShort_pure [of 80 0 "memcpy ?m 0 ?x3" "S_16_8' st"] assms lm unfolding s by (auto simp: wf22_defs)
  then show ?thesis
    using l2 by (simp add: block22to8_def Let_def 1 m 2 spec22to8_def)
qed

lemma refine16to22:
  assumes "wf16to22 st" "length xs = 40" "length out = 55 * Suc k" "88 \<le> length tmpmem"
  shows "\<exists>m. length (fst m) = 55 * k \<and> length (snd m) = length tmpmem \<and>
    block16to22 xs st (out, tmpmem) = (fst (spec16to22 st xs), snd (spec16to22 st xs), m)"
proof -
  let ?x1 = "map short_q15 xs"
  let ?x2 = "map (\<lambda>y. asr y 15) (up2 (S_16_32' st) ?x1)" and ?h = "S_32_22 st"
  have l2: "length ?x2 = 80" using assms by simp
  have 1: "WebRtcSpl_UpBy2ShortToInt xs 40 tmpmem 8 (S_16_32' st) = (memcpy tmpmem 8 ?x2, up2_st (S_16_32' st) ?x1)"
    using assms by (intro UpBy2ShortToInt_pure) (auto simp: wf22_defs)
  let ?m = "memcpy (memcpy tmpmem 8 ?x2) 0 ?h"
  have m: "mem_slice ?m 80 8 = drop (length ?x2) (?h @ ?x2)"
  proof -
    have "length ?h = 8" "0 + 8 + length ?x2 \<le> length tmpmem" using assms l2 by (simp_all add: wf22_defs)
    from hist_block(2) [OF this, of 80] show ?thesis by (simp only: add_0 l2)
  qed
  have lm: "length ?m = length tmpmem" using assms by simp
  let ?y = "windowed sat_block 16 (?h @ ?x2) 5"
  have ly: "length ?y = 55" using length_windowed [OF sat_needs] by simp
  have "windowed sat_block 16 (drop 0 ?m) 5 = ?y"
    using hist_windowed [OF _ _ sat_needs, of ?h 0 ?x2 tmpmem 16 5] assms l2 by (simp add: wf22_defs)
  then have 2: "WebRtcSpl_32khzTo22khzIntToShort 5 ?m 0 out 0 = memcpy out 0 ?y"
    using assms lm Resample32khzTo22khz_short [of 0 5 ?m 0 out] by simp
  have "take 55 (memcpy out 0 ?y) = ?y" "length (drop 55 (memcpy out 0 ?y)) = 55 * k"
    using ly assms(3) by (simp_all add: memcpy_fits)
  then show ?thesis
    using l2 lm by (simp add: block16to22_def Let_def 1 m 2 spec16to22_def)
qed

lemma refine8to22:
  assumes "wf8to22 st" "length xs = 40" "length out = 110 * Suc k" "98 \<le> length tmpmem"
  shows "\<exists>m. length (fst m) = 110 * k \<and> length (snd m) = length tmpmem \<and>
    block8to22 xs st (out, tmpmem) = (fst (spec8to22 st xs), snd (spec8to22 st xs), m)"
proof -
  let ?x1 = "map short_q15 xs"
  let ?x2 = "map (\<lambda>y. asr y 15) (up2 (S_8_16' st) ?x1)" and ?h = "S_16_11 st"
  have l2: "length ?x2 = 80" using assms by simp
  have 1: "WebRtcSpl_UpBy2ShortToInt xs 40 tmpmem 18 (S_8_16' st) = (memcpy tmpmem 18 ?x2, up2_st (S_8_16' st) ?x1)"
    using assms by (intro UpBy2ShortToInt_pure) (auto simp: wf22_defs)
  let ?m = "memcpy (memcpy tmpmem 18 ?x2) 10 ?h"
  have m: "mem_slice ?m 90 8 = drop (length ?x2) (?h @ ?x2)"
    using hist_block(2) [of ?h 10 ?x2 tmpmem 90] assms l2 by (simp add: wf22_defs)
  have lm: "length ?m = length tmpmem" using assms by simp
  let ?x3 = "windowed resample32to22_block 16 (?h @ ?x2) 5"
  have l3: "length ?x3 = 55" using length_windowed [OF resample_needs(2)] by simp
  have "windowed resample32to22_block 16 (drop 10 ?m) 5 = ?x3"
    using hist_windowed [OF _ _ resample_needs(2), of ?h 10 ?x2 tmpmem 16 5] assms l2 by (simp add: wf22_defs)
  then have 2: "WebRtcSpl_32khzTo22khzIntToInt 5 ?m 10 0 = memcpy ?m 0 ?x3"
    using assms lm Resample32khzTo22khz_in_place [of 0 10 5 ?m] by simp
  have s: "take 55 (memcpy ?m 0 ?x3) = ?x3" using l3 lm assms by (simp add: memcpy_fits)
  let ?y = "map sat15 (up2 (S_11_22 st) ?x3)"
  have 3: "WebRtcSpl_UpBy2IntToShort (memcpy ?m 0 ?x3) 55 out (S_11_22 st) = (memcpy out 0 ?y, up2_st (S_11_22 st) ?x3)"
    using UpBy2IntToShort_part [of 55 "memcpy ?m 0 ?x3" out "S_11_22 st"] assms lm unfolding s by (simp add: wf22_defs)
  have "take 110 (memcpy out 0 ?y) = ?y" "length (drop 110 (memcpy out 0 ?y)) = 110 * k"
    using l3 assms(3) by (simp_all add: memcpy_fits)
  then show ?thesis
    using l2 lm l3 by (simp add: block8to22_def Let_def 1 m 2 3 spec8to22_def)
qed

interpretation f22to16: frame_filter 44 5 wf22to16 "\<lambda>_ m. 104 \<le> length m" block22to16 spec22to16
proof
  fix s :: WebRtcSpl_State22khzTo16khz and x y m :: "int list"
  assume s: "wf22to16 s" and x: "length x = 44"
  show "\<exists>m'. block22to16 x s m = (fst (spec22to16 s x), snd (spec22to16 s x), m') \<and> 104 \<le> length m'"
    if "104 \<le> length m" using refine22to16 [OF s x that] that by auto
  show "wf22to16 (snd (spec22to16 s x))" using s x by (simp add: wf22_defs spec22to16_def Let_def)
  assume "44 dvd length y"
  then obtain k where k: "length y = 44 * k" by blast
  let ?x2 = "map (\<lambda>y. asr y 15) (up2 (S_22_44 s) (map short_q15 x))"
  note w = s [unfolded wf22to16_def]
  have l2: "length ?x2 = 11 * 8" using x by simp
  have h: "length (S_44_32 s) = 8" using w by simp
  have d: "2 * (44 + 44 * k) div 11 = 8 + 8 * k" "2 * (44 * k) div 11 = 8 * k" by simp_all
  have e: "even (length (windowed resample44to32_block 11 b 8))" for b using length_windowed [OF resample_needs(1)] by simp
  show "spec22to16 s (x @ y) = (fst (spec22to16 s x) @ fst (spec22to16 (snd (spec22to16 s x)) y),
     snd (spec22to16 (snd (spec22to16 s x)) y))"
    using x k w e
    by (simp add: spec22to16_def Let_def up2_append d add.commute [of 80] windowed_history [OF resample_needs(1) _ h l2] down2_append)
qed (simp add: wf22_defs spec22to16_def Let_def)

interpretation f22to8: frame_filter 110 2 wf22to8 "\<lambda>_ m. 126 \<le> length m" block22to8 spec22to8
proof
  fix s :: WebRtcSpl_State22khzTo8khz and x y m :: "int list"
  assume s: "wf22to8 s" and x: "length x = 110"
  show "\<exists>m'. block22to8 x s m = (fst (spec22to8 s x), snd (spec22to8 s x), m') \<and> 126 \<le> length m'"
    if "126 \<le> length m" using refine22to8 [OF s x that] that by auto
  show "wf22to8 (snd (spec22to8 s x))" using s x by (simp add: wf22_defs spec22to8_def Let_def)
  assume "110 dvd length y"
  then obtain k where k: "length y = 110 * k" by blast
  let ?x2 = "lp2 (S_22_22 s) (map short_q15 x)"
  note w = s [unfolded wf22to8_def]
  have l2: "length ?x2 = 11 * 10" using x by simp
  have h: "length (S_22_16 s) = 8" using w by simp
  have d: "(110 + 110 * k) div 11 = 10 + 10 * k" "110 * k div 11 = 10 * k" "2 * (110 * k div 2) = 110 * k" by simp_all
  have e: "even (length (windowed resample44to32_block 11 b 10))" for b using length_windowed [OF resample_needs(1)] by simp
  show "spec22to8 s (x @ y) = (fst (spec22to8 s x) @ fst (spec22to8 (snd (spec22to8 s x)) y),
     snd (spec22to8 (snd (spec22to8 s x)) y))"
    using x k w e
    by (simp add: spec22to8_def Let_def lp2_append d add.commute [of 102] windowed_history [OF resample_needs(1) _ h l2] down2_append)
qed (simp add: wf22_defs spec22to8_def Let_def)

interpretation f16to22: frame_filter 40 4 wf16to22 "\<lambda>k m. length (fst m) = 55 * k \<and> 88 \<le> length (snd m)" block16to22 spec16to22
proof
  fix s :: WebRtcSpl_State16khzTo22khz and x y :: "int list" and m :: "int list \<times> int list" and k :: nat
  assume s: "wf16to22 s" and x: "length x = 40"
  show "\<exists>m'. block16to22 x s m = (fst (spec16to22 s x), snd (spec16to22 s x), m') \<and> length (fst m') = 55 * k \<and> 88 \<le> length (snd m')"
    if "length (fst m) = 55 * Suc k \<and> 88 \<le> length (snd m)"
    using refine16to22 [OF s x, of "fst m" k "snd m"] that by auto
  show "wf16to22 (snd (spec16to22 s x))" using s x by (simp add: wf22_defs spec16to22_def Let_def)
  assume "40 dvd length y"
  then obtain k where k: "length y = 40 * k" by blast
  let ?x2 = "map (\<lambda>y. asr y 15) (up2 (S_16_32' s) (map short_q15 x))"
  note w = s [unfolded wf16to22_def]
  have l2: "length ?x2 = 16 * 5" using x by simp
  have h: "length (S_32_22 s) = 8" using w by simp
  have d: "2 * (40 + 40 * k) div 16 = 5 + 5 * k" "2 * (40 * k) div 16 = 5 * k" by simp_all
  show "spec16to22 s (x @ y) = (fst (spec16to22 s x) @ fst (spec16to22 (snd (spec16to22 s x)) y),
     snd (spec16to22 (snd (spec16to22 s x)) y))"
    using x k w by (simp add: spec16to22_def Let_def up2_append d add.commute [of 72] windowed_history [OF sat_needs _ h l2])
qed (simp add: wf22_defs spec16to22_def Let_def)

interpretation f8to22: frame_filter 40 2 wf8to22 "\<lambda>k m. length (fst m) = 110 * k \<and> 98 \<le> length (snd m)" block8to22 spec8to22
proof
  fix s :: WebRtcSpl_State8khzTo22khz and x y :: "int list" and m :: "int list \<times> int list" and k :: nat
  assume s: "wf8to22 s" and x: "length x = 40"
  show "\<exists>m'. block8to22 x s m = (fst (spec8to22 s x), snd (spec8to22 s x), m') \<and> length (fst m') = 110 * k \<and> 98 \<le> length (snd m')"
    if "length (fst m) = 110 * Suc k \<and> 98 \<le> length (snd m)"
    using refine8to22 [OF s x, of "fst m" k "snd m"] that by auto
  show "wf8to22 (snd (spec8to22 s x))" using s x by (simp add: wf22_defs spec8to22_def Let_def)
  assume "40 dvd length y"
  then obtain k where k: "length y = 40 * k" by blast
  let ?x2 = "map (\<lambda>y. asr y 15) (up2 (S_8_16' s) (map short_q15 x))"
  note w = s [unfolded wf8to22_def]
  have l2: "length ?x2 = 16 * 5" using x by simp
  have h: "length (S_16_11 s) = 8" using w by simp
  have d: "2 * (40 + 40 * k) div 16 = 5 + 5 * k" "2 * (40 * k) div 16 = 5 * k" by simp_all
  show "spec8to22 s (x @ y) = (fst (spec8to22 s x) @ fst (spec8to22 (snd (spec8to22 s x)) y),
     snd (spec8to22 (snd (spec8to22 s x)) y))"
    using x k w by (simp add: spec8to22_def Let_def up2_append d add.commute [of 72] windowed_history [OF resample_needs(2) _ h l2])
qed (simp add: wf22_defs spec8to22_def Let_def)

lemma windowed_is16: "list_all is16 (windowed sat_block d b K)"
  by (auto simp: windowed_def list_all_iff sat_block_def sat15_is16) (simp add: sat_short_def is16_def)

text \<open>C9. The four chains between 22 kHz and 8 or 16 kHz, run frame by frame, produce exactly the output and the final state of
  their filter pipeline applied to the whole signal, although each frame is cut into sub-blocks and all stages share one
  small scratch array, in which the interpolators run in place; whatever that array holds at each call, from the sizes
  on that \<^verbatim>\<open>resampler.cc\<close> allocates (104, 126, 88 and 98 cells). A frame of 10 ms gives
  160, 80 or 220 samples, all of 16 bits.\<close>

theorem resample_22khz_streaming:
  assumes "wf22to16 s1" "wf22to8 s2" "wf16to22 s3" "wf8to22 s4"
    and "list_all (\<lambda>b. length (fst b) = 220 \<and> 104 \<le> length (snd b)) bs"
    and "list_all (\<lambda>b. length (fst b) = 220 \<and> 126 \<le> length (snd b)) es"
    and "list_all (\<lambda>b. length (fst b) = 160 \<and> length (fst (snd b)) = 220 \<and> 88 \<le> length (snd (snd b))) cs"
    and "list_all (\<lambda>b. length (fst b) = 80 \<and> length (fst (snd b)) = 220 \<and> 98 \<le> length (snd (snd b))) ds"
  shows "run_blocks WebRtcSpl_Resample22khzTo16khz s1 bs = spec22to16 s1 (concat (map fst bs)) \<and>
    run_blocks WebRtcSpl_Resample22khzTo8khz s2 es = spec22to8 s2 (concat (map fst es)) \<and>
    run_blocks WebRtcSpl_Resample16khzTo22khz s3 cs = spec16to22 s3 (concat (map fst cs)) \<and>
    run_blocks WebRtcSpl_Resample8khzTo22khz s4 ds = spec8to22 s4 (concat (map fst ds)) \<and>
    map length [fst (spec22to16 s1 (concat (map fst bs))), fst (spec22to8 s2 (concat (map fst es))),
       fst (spec16to22 s3 (concat (map fst cs))), fst (spec8to22 s4 (concat (map fst ds)))] =
     [160 * length bs, 80 * length es, 220 * length cs, 220 * length ds] \<and>
    list_all is16 (fst (spec22to16 s1 (concat (map fst bs))) @ fst (spec22to8 s2 (concat (map fst es))) @
       fst (spec16to22 s3 (concat (map fst cs))) @ fst (spec8to22 s4 (concat (map fst ds))))"
proof -
  have b: "list_all (\<lambda>b. length (fst b) = 44 * 5 \<and> 104 \<le> length (snd b)) bs"
    "list_all (\<lambda>b. length (fst b) = 110 * 2 \<and> 126 \<le> length (snd b)) es"
    "list_all (\<lambda>b. length (fst b) = 40 * 4 \<and> length (fst (snd b)) = 55 * 4 \<and> 88 \<le> length (snd (snd b))) cs"
    "list_all (\<lambda>b. length (fst b) = 40 * 2 \<and> length (fst (snd b)) = 110 * 2 \<and> 98 \<le> length (snd (snd b))) ds"
    using assms(5-8) by (auto simp: list_all_iff)
  have r1: "run_blocks WebRtcSpl_Resample22khzTo16khz s1 bs = spec22to16 s1 (concat (map fst bs))"
    using f22to16.frames.run_blocks_spec [OF assms(1) b(1)] by (simp add: WebRtcSpl_Resample22khzTo16khz_def)
  have r2: "run_blocks WebRtcSpl_Resample22khzTo8khz s2 es = spec22to8 s2 (concat (map fst es))"
    using f22to8.frames.run_blocks_spec [OF assms(2) b(2)] by (simp add: WebRtcSpl_Resample22khzTo8khz_def)
  have r3: "run_blocks WebRtcSpl_Resample16khzTo22khz s3 cs = spec16to22 s3 (concat (map fst cs))"
    using f16to22.frames.run_blocks_spec [OF assms(3) b(3)] by (simp add: WebRtcSpl_Resample16khzTo22khz_def)
  have r4: "run_blocks WebRtcSpl_Resample8khzTo22khz s4 ds = spec8to22 s4 (concat (map fst ds))"
    using f8to22.frames.run_blocks_spec [OF assms(4) b(4)] by (simp add: WebRtcSpl_Resample8khzTo22khz_def)
  have l: "length (concat (map fst bs)) = 220 * length bs" "length (concat (map fst es)) = 220 * length es" "length (concat (map fst cs)) = 160 * length cs"
    "length (concat (map fst ds)) = 80 * length ds"
    using assms(5-8) by (auto intro!: length_concat_blocks)
  have d: "2 * (220 * n) div 11 = 40 * (n :: nat)" "2 * (220 * n div 2) div 11 = 20 * n" "2 * (160 * n) div 16 = 20 * n"
    "2 * (80 * n) div 16 = 10 * n" for n by simp_all
  note lw = length_windowed [OF resample_needs(1)] length_windowed [OF resample_needs(2)] length_windowed [OF sat_needs]
  have r5: "map length [fst (spec22to16 s1 (concat (map fst bs))), fst (spec22to8 s2 (concat (map fst es))),
       fst (spec16to22 s3 (concat (map fst cs))), fst (spec8to22 s4 (concat (map fst ds)))] =
     [160 * length bs, 80 * length es, 220 * length cs, 220 * length ds]"
    by (simp add: spec22to16_def spec22to8_def spec16to22_def spec8to22_def Let_def l d lw)
  have r6: "list_all is16 (fst (spec22to16 s1 (concat (map fst bs))) @ fst (spec22to8 s2 (concat (map fst es))) @
       fst (spec16to22 s3 (concat (map fst cs))) @ fst (spec8to22 s4 (concat (map fst ds))))"
    by (simp add: spec22to16_def spec22to8_def spec16to22_def spec8to22_def Let_def all_sat15 windowed_is16)
  show ?thesis using r1 r2 r3 r4 r5 r6 by blast
qed

theorem resample_22khz_streaming_witness:
  "run_blocks WebRtcSpl_Resample22khzTo16khz WebRtcSpl_ResetResample22khzTo16khz [(replicate 220 5, replicate 104 0), (replicate 220 (- 9), replicate 104 7)] =
     spec22to16 WebRtcSpl_ResetResample22khzTo16khz (replicate 220 5 @ replicate 220 (- 9)) \<and>
   run_blocks WebRtcSpl_Resample22khzTo8khz WebRtcSpl_ResetResample22khzTo8khz [(replicate 220 2, replicate 126 7)] =
     spec22to8 WebRtcSpl_ResetResample22khzTo8khz (replicate 220 2) \<and>
   run_blocks WebRtcSpl_Resample8khzTo22khz WebRtcSpl_ResetResample8khzTo22khz [(replicate 80 3, replicate 220 0, replicate 98 1)] =
     spec8to22 WebRtcSpl_ResetResample8khzTo22khz (replicate 80 3)"
proof -
  have wf: "wf22to16 WebRtcSpl_ResetResample22khzTo16khz" "wf22to8 WebRtcSpl_ResetResample22khzTo8khz"
    "wf16to22 WebRtcSpl_ResetResample16khzTo22khz" "wf8to22 WebRtcSpl_ResetResample8khzTo22khz"
    by (simp_all add: wf22_defs WebRtcSpl_ResetResample22khzTo16khz_def WebRtcSpl_ResetResample22khzTo8khz_def
      WebRtcSpl_ResetResample16khzTo22khz_def WebRtcSpl_ResetResample8khzTo22khz_def)
  show ?thesis
    using resample_22khz_streaming [OF wf, where bs = "[(replicate 220 5, replicate 104 0), (replicate 220 (- 9), replicate 104 7)]"
      and es = "[(replicate 220 2, replicate 126 7)]" and cs = "[]" and ds = "[(replicate 80 3, replicate 220 0, replicate 98 1)]"] by simp
qed

end
