(* ===== verification/SplAllpass.thy ===== *)
theory SplAllpass
  imports ResampleStream
begin

text \<open>
  The resamplers by two of the signal processing library (\<^verbatim>\<open>resample_by_2.c\<close>, portable version): two chains of three
  first-order all-pass filters with 16-bit coefficients.  The bounds on the states that follow from the coefficients show that
  the 32-bit arithmetic of the code is exact.
\<close>

section \<open>The code\<close>

definition kResampleAllpass1 :: "int list" where
  "kResampleAllpass1 = [3284, 24441, 49528]"

definition kResampleAllpass2 :: "int list" where
  "kResampleAllpass2 = [12199, 37471, 60255]"

definition WEBRTC_SPL_SCALEDIFF32 :: "int \<Rightarrow> int \<Rightarrow> int \<Rightarrow> int" where
  "WEBRTC_SPL_SCALEDIFF32 A B C =
     s32 (s32 (C + s32 (asr B 16 * A)) + asr (u32 (u32 (0x0000FFFF AND B) * A)) 16)"

text \<open>A chain works on four cells of the state from \<open>k\<close> on.\<close>

definition by2_allpass :: "int list \<Rightarrow> nat \<Rightarrow> int list \<Rightarrow> int \<Rightarrow> int list" where
  "by2_allpass c k state in32 =
     (let diff = s32 (in32 - state ! (k + 1));
          tmp1 = WEBRTC_SPL_SCALEDIFF32 (c ! 0) diff (state ! k);
          diff = s32 (tmp1 - state ! (k + 2));
          tmp2 = WEBRTC_SPL_SCALEDIFF32 (c ! 1) diff (state ! (k + 1));
          diff = s32 (tmp2 - state ! (k + 3));
          state3 = WEBRTC_SPL_SCALEDIFF32 (c ! 2) diff (state ! (k + 2))
      in state[k := in32, k + 1 := tmp1, k + 2 := tmp2, k + 3 := state3])"

fun downsample_by2_loop :: "int list \<Rightarrow> int list \<Rightarrow> int list \<times> int list" where
  "downsample_by2_loop (x # y # inp) state =
     (let state = by2_allpass kResampleAllpass2 0 state (s32 (shl x 10));
          state = by2_allpass kResampleAllpass1 4 state (s32 (shl y 10));
          out32 = asr (s32 (s32 (state ! 3 + state ! 7) + 1024)) 11;
          (out, state) = downsample_by2_loop inp state
      in (WebRtcSpl_SatW32ToW16 out32 # out, state))"
| "downsample_by2_loop inp state = ([], state)"

definition WebRtcSpl_DownsampleBy2 :: "int list \<Rightarrow> int \<Rightarrow> int list \<Rightarrow> int list \<times> int list" where
  "WebRtcSpl_DownsampleBy2 inp len filtState = downsample_by2_loop (take (2 * nat (asr len 1)) inp) filtState"

primrec upsample_by2_loop :: "int list \<Rightarrow> int list \<Rightarrow> int list \<times> int list" where
  "upsample_by2_loop [] state = ([], state)"
| "upsample_by2_loop (x # inp) state =
     (let in32 = s32 (shl x 10);
          state = by2_allpass kResampleAllpass1 0 state in32;
          out1 = asr (s32 (state ! 3 + 512)) 10;
          state = by2_allpass kResampleAllpass2 4 state in32;
          out2 = asr (s32 (state ! 7 + 512)) 10;
          (out, state) = upsample_by2_loop inp state
      in (WebRtcSpl_SatW32ToW16 out1 # WebRtcSpl_SatW32ToW16 out2 # out, state))"

definition WebRtcSpl_UpsampleBy2 :: "int list \<Rightarrow> int \<Rightarrow> int list \<Rightarrow> int list \<times> int list" where
  "WebRtcSpl_UpsampleBy2 inp len filtState = upsample_by2_loop (take (nat len) inp) filtState"

section \<open>Filters without overflow\<close>

text \<open>The same filters in unbounded arithmetic.\<close>

definition exact_allpass :: "int list \<Rightarrow> nat \<Rightarrow> int list \<Rightarrow> int \<Rightarrow> int list" where
  "exact_allpass c k st x =
     (let t1 = st ! k + c ! 0 * (x - st ! (k + 1)) div 65536;
          t2 = st ! (k + 1) + c ! 1 * (t1 - st ! (k + 2)) div 65536;
          t3 = st ! (k + 2) + c ! 2 * (t2 - st ! (k + 3)) div 65536
      in st[k := x, k + 1 := t1, k + 2 := t2, k + 3 := t3])"

fun exact_down :: "int list \<Rightarrow> int list \<Rightarrow> int list \<times> int list" where
  "exact_down st (x # y # xs) =
     (let st = exact_allpass kResampleAllpass1 4 (exact_allpass kResampleAllpass2 0 st (1024 * x)) (1024 * y)
      in apfst (Cons (clamp16 ((st ! 3 + st ! 7 + 1024) div 2048))) (exact_down st xs))"
| "exact_down st xs = ([], st)"

primrec exact_up :: "int list \<Rightarrow> int list \<Rightarrow> int list \<times> int list" where
  "exact_up st [] = ([], st)"
| "exact_up st (x # xs) =
     (let st = exact_allpass kResampleAllpass2 4 (exact_allpass kResampleAllpass1 0 st (1024 * x)) (1024 * x)
      in apfst (append [clamp16 ((st ! 3 + 512) div 1024), clamp16 ((st ! 7 + 512) div 1024)]) (exact_up st xs))"

text \<open>The state of a filter: last input \<open>x\<close> and last output \<open>y\<close>. For a filter with gain \<open>a\<close> and inputs up to \<open>X\<close> the combination
  \<open>65536 * y - a * x\<close> stays in a range that the filter maps into itself, rounding included.\<close>

definition filter_ok :: "int \<Rightarrow> int \<Rightarrow> int \<Rightarrow> int \<Rightarrow> bool" where
  "filter_ok a X x y \<longleftrightarrow> \<bar>x\<bar> \<le> X \<and> \<bar>65536 * y - a * x\<bar> \<le> (65536 + a) * X + 1769472"

lemma filter_ok_step:
  assumes "filter_ok a X x' y'" "\<bar>x\<bar> \<le> X" "0 \<le> a" "a \<le> 63010"
  shows "filter_ok a X x (x' + a * (x - y') div 65536)"
proof -
  define q where "q = a * (x - y') div 65536"
  define w where "w = 65536 * y' - a * x'"
  have q: "65536 * q \<le> a * (x - y')" "a * (x - y') \<le> 65536 * q + 65535"
    using div_mult_mod_eq [of "a * (x - y')" 65536] pos_mod_bound [of 65536 "a * (x - y')"] pos_mod_sign [of 65536 "a * (x - y')"]
    unfolding q_def by linarith+
  have w: "\<bar>w\<bar> \<le> (65536 + a) * X + 1769472" "\<bar>x'\<bar> \<le> X" using assms(1) by (simp_all add: filter_ok_def w_def)
  let ?v = "65536 * (x' + q) - a * x"
  have v: "65536 * x' - a * y' - 65535 \<le> ?v" "?v \<le> 65536 * x' - a * y'" using q by (simp_all add: right_diff_distrib)
  have e: "65536 * (65536 * x' - a * y') = (65536 * 65536 - a * a) * x' - a * w"
    by (simp add: w_def algebra_simps)
  have "a * a \<le> 63010 * 63010" using assms(3,4) by (intro mult_mono) auto
  then have "\<bar>(65536 * 65536 - a * a) * x'\<bar> \<le> (65536 * 65536 - a * a) * X"
    using w(2) by (simp add: abs_mult mult_left_mono)
  moreover have "\<bar>a * w\<bar> \<le> a * ((65536 + a) * X + 1769472)" using w(1) assms(3) by (simp add: abs_mult mult_left_mono)
  ultimately have "\<bar>65536 * (65536 * x' - a * y')\<bar> \<le> (65536 * 65536 - a * a) * X + a * ((65536 + a) * X + 1769472)"
    unfolding e by linarith
  also have "\<dots> = 65536 * ((65536 + a) * X) + 1769472 * a" by (simp add: algebra_simps)
  finally have "\<bar>65536 * x' - a * y'\<bar> \<le> (65536 + a) * X + 27 * a" by simp
  then have "\<bar>?v\<bar> \<le> (65536 + a) * X + 1769472" using v assms(4) by linarith
  then show ?thesis using assms(2) by (simp add: filter_ok_def q_def)
qed

lemma low_half: "0x0000FFFF AND B = B mod 65536" for B :: int
proof -
  have "(0x0000FFFF :: int) = mask 16" by (simp add: mask_eq_exp_minus_1)
  then show ?thesis by (simp only: and.commute [of "mask 16"] take_bit_eq_mask [symmetric] take_bit_eq_mod) simp
qed

lemma SCALEDIFF32_exact:
  assumes "0 \<le> A" "A \<le> 63010" "\<bar>B\<bar> \<le> 1100000000" "\<bar>C\<bar> \<le> 500000000"
  shows "WEBRTC_SPL_SCALEDIFF32 A B C = C + A * B div 65536"
proof -
  define h l where "h = B div 65536" and "l = B mod 65536"
  have B: "B = 65536 * h + l" "0 \<le> l" "l < 65536" by (simp_all add: h_def l_def)
  have h: "\<bar>h\<bar> \<le> 16785" using assms(3) unfolding h_def by linarith
  have hA: "\<bar>h * A\<bar> \<le> 16785 * 63010" unfolding abs_mult using h assms(1,2) by (intro mult_mono) auto
  have lA: "0 \<le> l * A" "l * A \<le> 65535 * 63010" using B(2,3) assms(1,2) mult_mono [of l 65535 A 63010] by simp_all
  have low: "0x0000FFFF AND B = l" "asr B 16 = h"
    by (simp_all add: l_def h_def low_half asr_div)
  have "A * B = 65536 * (h * A) + l * A" by (simp add: B(1) algebra_simps)
  then have q: "A * B div 65536 = h * A + l * A div 65536" by simp
  have d: "0 \<le> l * A div 65536" "l * A div 65536 \<le> 65535" using lA by linarith+
  have s: "s32 (h * A) = h * A" "s32 (C + h * A) = C + h * A" "s32 (C + h * A + l * A div 65536) = C + h * A + l * A div 65536"
    using hA d assms(4) by (intro s32_id; linarith)+
  have u: "u32 l = l" "u32 (l * A) = l * A" using B(2,3) lA by (simp_all add: u32_id)
  have a: "asr (l * A) 16 = l * A div 65536" by (simp add: asr_div)
  show ?thesis
    unfolding WEBRTC_SPL_SCALEDIFF32_def low u a s q add.assoc [symmetric] ..
qed

lemma filter_ok_out: "filter_ok a X x y \<Longrightarrow> 0 \<le> a \<Longrightarrow> 65536 * \<bar>y\<bar> \<le> (65536 + 2 * a) * X + 1769472"
proof -
  assume "filter_ok a X x y" "0 \<le> a"
  then have "\<bar>65536 * y - a * x\<bar> \<le> (65536 + a) * X + 1769472" "\<bar>a * x\<bar> \<le> a * X"
    by (simp_all add: filter_ok_def abs_mult mult_left_mono)
  then have "\<bar>65536 * y\<bar> \<le> (65536 + a) * X + 1769472 + a * X" by linarith
  then show ?thesis by (simp add: abs_mult algebra_simps)
qed

text \<open>A chain of three filters with gains \<open>c\<close> and input bounds \<open>X0\<close>, \<open>X1\<close>, \<open>X2\<close>.\<close>

definition chain_ok :: "int list \<Rightarrow> int \<Rightarrow> int \<Rightarrow> int \<Rightarrow> nat \<Rightarrow> int list \<Rightarrow> bool" where
  "chain_ok c X0 X1 X2 k st \<longleftrightarrow> filter_ok (c ! 0) X0 (st ! k) (st ! (k + 1)) \<and> filter_ok (c ! 1) X1 (st ! (k + 1)) (st ! (k + 2)) \<and>
     filter_ok (c ! 2) X2 (st ! (k + 2)) (st ! (k + 3))"

definition bounds_ok :: "int list \<Rightarrow> int \<Rightarrow> int \<Rightarrow> int \<Rightarrow> int \<Rightarrow> bool" where
  "bounds_ok c X0 X1 X2 X3 \<longleftrightarrow> (\<forall>i<3. 0 \<le> c ! i \<and> c ! i \<le> 63010) \<and> 0 \<le> X0 \<and> X0 \<le> X1 \<and> X1 \<le> X2 \<and> X2 \<le> X3 \<and> X2 \<le> 277000000 \<and> X3 \<le> 809000000 \<and>
     (65536 + 2 * c ! 0) * X0 + 1769472 < 65536 * (X1 + 1) \<and> (65536 + 2 * c ! 1) * X1 + 1769472 < 65536 * (X2 + 1) \<and>
     (65536 + 2 * c ! 2) * X2 + 1769472 < 65536 * (X3 + 1)"

lemma allpass_exact:
  assumes "chain_ok c X0 X1 X2 k st" "bounds_ok c X0 X1 X2 X3" "\<bar>x\<bar> \<le> X0" "k + 3 < length st"
  shows "by2_allpass c k st x = exact_allpass c k st x" "chain_ok c X0 X1 X2 k (exact_allpass c k st x)"
    "\<bar>exact_allpass c k st x ! (k + 3)\<bar> \<le> X3"
proof -
  have c: "0 \<le> c ! 0" "c ! 0 \<le> 63010" "0 \<le> c ! 1" "c ! 1 \<le> 63010" "0 \<le> c ! 2" "c ! 2 \<le> 63010"
    and X: "0 \<le> X0" "X0 \<le> X1" "X1 \<le> X2" "X2 \<le> X3" "X2 \<le> 277000000" "X3 \<le> 809000000"
    and g: "(65536 + 2 * c ! 0) * X0 + 1769472 < 65536 * (X1 + 1)" "(65536 + 2 * c ! 1) * X1 + 1769472 < 65536 * (X2 + 1)"
      "(65536 + 2 * c ! 2) * X2 + 1769472 < 65536 * (X3 + 1)"
    using assms(2) by (simp_all add: bounds_ok_def)
  have f: "filter_ok (c ! 0) X0 (st ! k) (st ! (k + 1))" "filter_ok (c ! 1) X1 (st ! (k + 1)) (st ! (k + 2))"
    "filter_ok (c ! 2) X2 (st ! (k + 2)) (st ! (k + 3))" using assms(1) by (simp_all add: chain_ok_def)
  have out: "\<bar>y\<bar> \<le> Y" if "filter_ok a X z y" "0 \<le> a" "(65536 + 2 * a) * X + 1769472 < 65536 * (Y + 1)" for a X z y Y
    using le_less_trans [OF filter_ok_out [OF that(1,2)] that(3)] by simp
  have s: "\<bar>st ! k\<bar> \<le> X0" "\<bar>st ! (k + 1)\<bar> \<le> X1" "\<bar>st ! (k + 2)\<bar> \<le> X2" "\<bar>st ! (k + 3)\<bar> \<le> X3"
    using f out [OF f(3) c(5) g(3)] by (simp_all add: filter_ok_def)
  define t1 where "t1 = st ! k + c ! 0 * (x - st ! (k + 1)) div 65536"
  define t2 where "t2 = st ! (k + 1) + c ! 1 * (t1 - st ! (k + 2)) div 65536"
  define t3 where "t3 = st ! (k + 2) + c ! 2 * (t2 - st ! (k + 3)) div 65536"
  have f1: "filter_ok (c ! 0) X0 x t1" unfolding t1_def by (rule filter_ok_step [OF f(1) assms(3) c(1,2)])
  then have t1: "\<bar>t1\<bar> \<le> X1" using out c(1) g(1) by blast
  have f2: "filter_ok (c ! 1) X1 t1 t2" unfolding t2_def by (rule filter_ok_step [OF f(2) t1 c(3,4)])
  then have t2: "\<bar>t2\<bar> \<le> X2" using out c(3) g(2) by blast
  have f3: "filter_ok (c ! 2) X2 t2 t3" unfolding t3_def by (rule filter_ok_step [OF f(3) t2 c(5,6)])
  then have t3: "\<bar>t3\<bar> \<le> X3" using out c(5) g(3) by blast
  have d: "s32 (x - st ! (k + 1)) = x - st ! (k + 1)" "s32 (t1 - st ! (k + 2)) = t1 - st ! (k + 2)" "s32 (t2 - st ! (k + 3)) = t2 - st ! (k + 3)"
    using s t1 t2 X assms(3) by (intro s32_id; linarith)+
  have e1: "WEBRTC_SPL_SCALEDIFF32 (c ! 0) (x - st ! (k + 1)) (st ! k) = t1"
    unfolding t1_def using s X assms(3) c by (intro SCALEDIFF32_exact) linarith+
  have e2: "WEBRTC_SPL_SCALEDIFF32 (c ! 1) (t1 - st ! (k + 2)) (st ! (k + 1)) = t2"
    unfolding t2_def using s X t1 c by (intro SCALEDIFF32_exact) linarith+
  have e3: "WEBRTC_SPL_SCALEDIFF32 (c ! 2) (t2 - st ! (k + 3)) (st ! (k + 2)) = t3"
    unfolding t3_def using s X t2 c by (intro SCALEDIFF32_exact) linarith+
  have ex: "exact_allpass c k st x = st[k := x, k + 1 := t1, k + 2 := t2, k + 3 := t3]"
    by (simp add: exact_allpass_def t1_def t2_def t3_def Let_def)
  show "by2_allpass c k st x = exact_allpass c k st x"
    unfolding by2_allpass_def Let_def d e1 e2 e3 ex ..
  show "chain_ok c X0 X1 X2 k (exact_allpass c k st x)" "\<bar>exact_allpass c k st x ! (k + 3)\<bar> \<le> X3"
    using f1 f2 f3 t3 assms(4) by (simp_all add: ex chain_ok_def)
qed

lemma exact_allpass_other: "j < k \<or> k + 3 < j \<Longrightarrow> exact_allpass c k st x ! j = st ! j"
  and length_exact_allpass [simp]: "length (exact_allpass c k st x) = length st"
  by (auto simp: exact_allpass_def Let_def)

lemma chain_ok_other: "k' + 3 < k \<or> k + 3 < k' \<Longrightarrow> chain_ok c X0 X1 X2 k (exact_allpass c' k' st x) = chain_ok c X0 X1 X2 k st"
  by (erule disjE) (simp_all add: chain_ok_def exact_allpass_other)

text \<open>The two chains: gains and bounds.\<close>

definition ok1 :: "nat \<Rightarrow> int list \<Rightarrow> bool" where
  "ok1 = chain_ok kResampleAllpass1 33554432 36917276 64453166"

definition ok2 :: "nat \<Rightarrow> int list \<Rightarrow> bool" where
  "ok2 = chain_ok kResampleAllpass2 33554432 46046236 98701247"

lemma by2_bounds: "bounds_ok kResampleAllpass1 33554432 36917276 64453166 161872517" "bounds_ok kResampleAllpass2 33554432 46046236 98701247 280196747"
  by (simp_all add: bounds_ok_def kResampleAllpass1_def kResampleAllpass2_def less_Suc_eq numeral_eq_Suc all_conj_distrib)

lemma chain1:
  assumes "ok1 k st" "is16 x" "k + 3 < length st"
  shows "by2_allpass kResampleAllpass1 k st (s32 (shl x 10)) = exact_allpass kResampleAllpass1 k st (1024 * x)"
    "ok1 k (exact_allpass kResampleAllpass1 k st (1024 * x))" "\<bar>exact_allpass kResampleAllpass1 k st (1024 * x) ! (k + 3)\<bar> \<le> 161872517"
proof -
  have x: "s32 (shl x 10) = 1024 * x" "\<bar>1024 * x\<bar> \<le> 33554432" using assms(2) by (auto simp: is16_def shl_mult s32_id)
  show "by2_allpass kResampleAllpass1 k st (s32 (shl x 10)) = exact_allpass kResampleAllpass1 k st (1024 * x)"
    "ok1 k (exact_allpass kResampleAllpass1 k st (1024 * x))" "\<bar>exact_allpass kResampleAllpass1 k st (1024 * x) ! (k + 3)\<bar> \<le> 161872517"
    using allpass_exact [OF assms(1) [unfolded ok1_def] by2_bounds(1) x(2) assms(3)] by (simp_all add: x(1) ok1_def)
qed

lemma chain2:
  assumes "ok2 k st" "is16 x" "k + 3 < length st"
  shows "by2_allpass kResampleAllpass2 k st (s32 (shl x 10)) = exact_allpass kResampleAllpass2 k st (1024 * x)"
    "ok2 k (exact_allpass kResampleAllpass2 k st (1024 * x))" "\<bar>exact_allpass kResampleAllpass2 k st (1024 * x) ! (k + 3)\<bar> \<le> 280196747"
proof -
  have x: "s32 (shl x 10) = 1024 * x" "\<bar>1024 * x\<bar> \<le> 33554432" using assms(2) by (auto simp: is16_def shl_mult s32_id)
  show "by2_allpass kResampleAllpass2 k st (s32 (shl x 10)) = exact_allpass kResampleAllpass2 k st (1024 * x)"
    "ok2 k (exact_allpass kResampleAllpass2 k st (1024 * x))" "\<bar>exact_allpass kResampleAllpass2 k st (1024 * x) ! (k + 3)\<bar> \<le> 280196747"
    using allpass_exact [OF assms(1) [unfolded ok2_def] by2_bounds(2) x(2) assms(3)] by (simp_all add: x(1) ok2_def)
qed

definition down_ok :: "int list \<Rightarrow> bool" where
  "down_ok st \<longleftrightarrow> length st = 8 \<and> ok2 0 st \<and> ok1 4 st"

definition up_ok :: "int list \<Rightarrow> bool" where
  "up_ok st \<longleftrightarrow> length st = 8 \<and> ok1 0 st \<and> ok2 4 st"

lemma ok_other: "k' + 3 < k \<or> k + 3 < k' \<Longrightarrow> ok1 k (exact_allpass c k' st x) = ok1 k st"
  "k' + 3 < k \<or> k + 3 < k' \<Longrightarrow> ok2 k (exact_allpass c k' st x) = ok2 k st"
  by (simp_all add: ok1_def ok2_def chain_ok_other)

lemma down_step:
  assumes "down_ok st" "is16 x" "is16 y"
  defines "st' \<equiv> exact_allpass kResampleAllpass1 4 (exact_allpass kResampleAllpass2 0 st (1024 * x)) (1024 * y)"
  shows "by2_allpass kResampleAllpass1 4 (by2_allpass kResampleAllpass2 0 st (s32 (shl x 10))) (s32 (shl y 10)) = st'"
    "down_ok st'" "s32 (s32 (st' ! 3 + st' ! 7) + 1024) = st' ! 3 + st' ! 7 + 1024"
proof -
  have s: "length st = 8" "ok2 0 st" "ok1 4 st" using assms(1) by (simp_all add: down_ok_def)
  note a = chain2 [OF s(2) assms(2)]
  let ?s = "exact_allpass kResampleAllpass2 0 st (1024 * x)"
  have o: "ok1 4 ?s" using s(3) by (simp add: ok_other)
  note b = chain1 [OF o assms(3)]
  show "by2_allpass kResampleAllpass1 4 (by2_allpass kResampleAllpass2 0 st (s32 (shl x 10))) (s32 (shl y 10)) = st'"
    using a(1) b(1) s(1) by (simp add: st'_def)
  show "down_ok st'" using a(2) b(2) s(1) by (simp add: down_ok_def st'_def ok_other)
  have "\<bar>st' ! 3\<bar> \<le> 280196747" "\<bar>st' ! 7\<bar> \<le> 161872517" using a(3) b(3) s(1) by (simp_all add: st'_def exact_allpass_other)
  then have "s32 (st' ! 3 + st' ! 7) = st' ! 3 + st' ! 7" "s32 (st' ! 3 + st' ! 7 + 1024) = st' ! 3 + st' ! 7 + 1024"
    by (intro s32_id; linarith)+
  then show "s32 (s32 (st' ! 3 + st' ! 7) + 1024) = st' ! 3 + st' ! 7 + 1024" by (simp only:)
qed

lemma up_step:
  assumes "up_ok st" "is16 x"
  defines "st1 \<equiv> exact_allpass kResampleAllpass1 0 st (1024 * x)"
  defines "st' \<equiv> exact_allpass kResampleAllpass2 4 st1 (1024 * x)"
  shows "by2_allpass kResampleAllpass1 0 st (s32 (shl x 10)) = st1" "by2_allpass kResampleAllpass2 4 st1 (s32 (shl x 10)) = st'"
    "up_ok st'" "s32 (st1 ! 3 + 512) = st' ! 3 + 512" "s32 (st' ! 7 + 512) = st' ! 7 + 512"
proof -
  have s: "length st = 8" "ok1 0 st" "ok2 4 st" using assms(1) by (simp_all add: up_ok_def)
  note a = chain1 [OF s(2) assms(2)]
  have o: "ok2 4 st1" using s(3) by (simp add: ok_other st1_def)
  note b = chain2 [OF o assms(2)]
  show "by2_allpass kResampleAllpass1 0 st (s32 (shl x 10)) = st1" using a(1) s(1) by (simp add: st1_def)
  show "by2_allpass kResampleAllpass2 4 st1 (s32 (shl x 10)) = st'" using b(1) s(1) by (simp add: st1_def st'_def)
  show "up_ok st'" using a(2) b(2) s(1) by (simp add: up_ok_def st'_def st1_def ok_other)
  have "\<bar>st1 ! 3\<bar> \<le> 161872517" "\<bar>st' ! 7\<bar> \<le> 280196747" "st' ! 3 = st1 ! 3" using a(3) b(3) s(1) by (simp_all add: st'_def st1_def exact_allpass_other)
  then show "s32 (st1 ! 3 + 512) = st' ! 3 + 512" "s32 (st' ! 7 + 512) = st' ! 7 + 512" by (simp_all add: s32_id)
qed

lemma down_exact:
  "down_ok st \<Longrightarrow> list_all is16 xs \<Longrightarrow> downsample_by2_loop xs st = exact_down st xs \<and> down_ok (snd (exact_down st xs))
    \<and> list_all is16 (fst (exact_down st xs)) \<and> length (fst (exact_down st xs)) = length xs div 2"
proof (induction st xs rule: exact_down.induct)
  case (1 st x y xs)
  define st' where "st' = exact_allpass kResampleAllpass1 4 (exact_allpass kResampleAllpass2 0 st (1024 * x)) (1024 * y)"
  have "is16 x" "is16 y" "list_all is16 xs" using 1(3) by simp_all
  note s = down_step [OF 1(2) this(1,2), folded st'_def]
  show ?case using "1.IH" [OF st'_def s(2) \<open>list_all is16 xs\<close>] s(1,3)
    by (simp add: Let_def split_def SatW32ToW16_clamp16 asr_div apfst_def map_prod_def flip: st'_def)
qed simp_all

lemma up_exact:
  "up_ok st \<Longrightarrow> list_all is16 xs \<Longrightarrow> upsample_by2_loop xs st = exact_up st xs \<and> up_ok (snd (exact_up st xs))
    \<and> list_all is16 (fst (exact_up st xs)) \<and> length (fst (exact_up st xs)) = 2 * length xs"
proof (induction xs arbitrary: st)
  case (Cons x xs)
  define st1 where "st1 = exact_allpass kResampleAllpass1 0 st (1024 * x)"
  define st' where "st' = exact_allpass kResampleAllpass2 4 st1 (1024 * x)"
  have x: "is16 x" "list_all is16 xs" using Cons(3) by simp_all
  note s = up_step [OF Cons(2) x(1), folded st1_def, folded st'_def]
  show ?case using Cons.IH [OF s(3) x(2)] s(1,2,4,5)
    by (simp add: Let_def split_def SatW32ToW16_clamp16 asr_div apfst_def map_prod_def flip: st1_def st'_def)
qed simp

lemma exact_down_append: "even (length xs) \<Longrightarrow>
    exact_down st (xs @ ys) = apfst (append (fst (exact_down st xs))) (exact_down (snd (exact_down st xs)) ys)"
  by (induction st xs rule: exact_down.induct) (simp_all add: Let_def apfst_def map_prod_def split_def)

lemma exact_up_append: "exact_up st (xs @ ys) = apfst (append (fst (exact_up st xs))) (exact_up (snd (exact_up st xs)) ys)"
  by (induction xs arbitrary: st) (simp_all add: Let_def apfst_def map_prod_def split_def)

text \<open>A sequence of calls with the frames \<open>bs\<close>.\<close>

primrec by2_calls :: "(int list \<Rightarrow> int \<Rightarrow> int list \<Rightarrow> int list \<times> int list) \<Rightarrow> int list list \<Rightarrow> int list \<Rightarrow> int list \<times> int list" where
  "by2_calls f [] st = ([], st)"
| "by2_calls f (b # bs) st = (let (out, st) = f b (int (length b)) st; (out', st) = by2_calls f bs st in (out @ out', st))"

lemma down_calls: "down_ok st \<Longrightarrow> list_all (\<lambda>b. even (length b) \<and> list_all is16 b) bs \<Longrightarrow>
    by2_calls WebRtcSpl_DownsampleBy2 bs st = exact_down st (concat bs)"
proof (induction bs arbitrary: st)
  case (Cons b bs)
  have b: "even (length b)" "list_all is16 b" using Cons.prems(2) by simp_all
  then have "WebRtcSpl_DownsampleBy2 b (int (length b)) st = downsample_by2_loop b st"
    by (auto simp: WebRtcSpl_DownsampleBy2_def asr_div elim!: evenE)
  then show ?case using Cons.IH [of "snd (exact_down st b)"] Cons.prems down_exact [OF Cons.prems(1) b(2)] exact_down_append [OF b(1), of st "concat bs"]
    by (simp add: Let_def split_def apfst_def map_prod_def)
qed simp

lemma up_calls: "up_ok st \<Longrightarrow> list_all (list_all is16) bs \<Longrightarrow> by2_calls WebRtcSpl_UpsampleBy2 bs st = exact_up st (concat bs)"
proof (induction bs arbitrary: st)
  case (Cons b bs)
  have b: "list_all is16 b" using Cons.prems(2) by simp
  show ?case using Cons.IH [of "snd (exact_up st b)"] Cons.prems up_exact [OF Cons.prems(1) b] exact_up_append [of st b "concat bs"]
    by (simp add: WebRtcSpl_UpsampleBy2_def Let_def split_def apfst_def map_prod_def)
qed simp

lemma zero_ok: "down_ok (replicate 8 0)" "up_ok (replicate 8 0)"
  by (simp_all add: down_ok_def up_ok_def ok1_def ok2_def chain_ok_def filter_ok_def nth_Cons' numeral_eq_Suc kResampleAllpass1_def kResampleAllpass2_def)

text \<open>C10. The resamplers by two never overflow: from the zero state, on 16-bit samples of any amount and any division into
  calls (of an even number of samples for the decimator, with lengths that an \<^verbatim>\<open>int16_t\<close> holds), the code with its 32-bit arithmetic and its split products computes
  the three-stage all-pass filters in unbounded arithmetic on the whole signal. The outputs are 16-bit samples of the right
  number.\<close>

theorem resample_by2_exact:
  assumes "list_all (\<lambda>b. even (length b) \<and> length b < 2 ^ 15 \<and> list_all is16 b) bs" "list_all (\<lambda>c. length c < 2 ^ 15 \<and> list_all is16 c) cs"
  shows "by2_calls WebRtcSpl_DownsampleBy2 bs (replicate 8 0) = exact_down (replicate 8 0) (concat bs) \<and>
    by2_calls WebRtcSpl_UpsampleBy2 cs (replicate 8 0) = exact_up (replicate 8 0) (concat cs) \<and>
    length (fst (exact_down (replicate 8 0) (concat bs))) = length (concat bs) div 2 \<and>
    length (fst (exact_up (replicate 8 0) (concat cs))) = 2 * length (concat cs) \<and>
    list_all is16 (fst (exact_down (replicate 8 0) (concat bs)) @ fst (exact_up (replicate 8 0) (concat cs)))"
proof -
  have "list_all is16 (concat bs)" "list_all is16 (concat cs)" using assms by (auto simp: list_all_iff)
  moreover have "list_all (\<lambda>b. even (length b) \<and> list_all is16 b) bs" "list_all (list_all is16) cs"
    using assms by (simp_all add: list_all_iff)
  ultimately show ?thesis using down_calls [OF zero_ok(1)] up_calls [OF zero_ok(2)] down_exact [OF zero_ok(1)] up_exact [OF zero_ok(2)]
    by simp
qed

theorem resample_by2_exact_witness:
  "by2_calls WebRtcSpl_DownsampleBy2 [[32767, - 32768], [32767, - 32768, 5, 6]] (replicate 8 0) =
     exact_down (replicate 8 0) [32767, - 32768, 32767, - 32768, 5, 6] \<and>
   by2_calls WebRtcSpl_UpsampleBy2 [[32767], [- 32768, 5]] (replicate 8 0) = exact_up (replicate 8 0) [32767, - 32768, 5]"
  using resample_by2_exact [of "[[32767, - 32768], [32767, - 32768, 5, 6]]" "[[32767], [- 32768, 5]]"]
  by (simp add: is16_def)

end
