(* ===== verification/SplQmf.thy ===== *)
theory SplQmf
  imports SplAllpass
begin

text \<open>
  The two-band filter bank of the signal processing library (\<^verbatim>\<open>splitting_filter.c\<close>): analysis into a low and a high band and
  synthesis, by two cascades of all-pass filters over the whole block, with saturating subtractions.
\<close>

section \<open>The two-band filter bank\<close>

definition kMaxBandFrameLength :: nat where
  "kMaxBandFrameLength = 240"

definition WebRtcSpl_kAllPassFilter1 :: "int list" where
  "WebRtcSpl_kAllPassFilter1 = [6418, 36982, 57261]"

definition WebRtcSpl_kAllPassFilter2 :: "int list" where
  "WebRtcSpl_kAllPassFilter2 = [21333, 49062, 63010]"

text \<open>One cascade: the previous input \<open>xp\<close> and output \<open>yp\<close> come from the filter state for the first sample and from the
  arrays for the others.\<close>

primrec qmf_cascade :: "int \<Rightarrow> int \<Rightarrow> int \<Rightarrow> int list \<Rightarrow> int list" where
  "qmf_cascade a xp yp [] = []"
| "qmf_cascade a xp yp (x # xs) =
     (let diff = WebRtcSpl_SubSatW32 x yp; y = WEBRTC_SPL_SCALEDIFF32 a diff xp in y # qmf_cascade a x y xs)"

text \<open>The result is \<open>out_data\<close> and the new state; \<open>in_data\<close> holds the output of the second cascade in between.\<close>

definition WebRtcSpl_AllPassQMF :: "int list \<Rightarrow> int list \<Rightarrow> int list \<Rightarrow> int list \<times> int list" where
  "WebRtcSpl_AllPassQMF in_data filter_coefficients filter_state =
     (let n = length in_data - 1; st = filter_state;
          out_data = qmf_cascade (filter_coefficients ! 0) (st ! 0) (st ! 1) in_data;
          st = st[0 := in_data ! n, 1 := out_data ! n];
          in_data = qmf_cascade (filter_coefficients ! 1) (st ! 2) (st ! 3) out_data;
          st = st[2 := out_data ! n, 3 := in_data ! n];
          out_data = qmf_cascade (filter_coefficients ! 2) (st ! 4) (st ! 5) in_data;
          st = st[4 := in_data ! n, 5 := out_data ! n]
      in (out_data, st))"

definition WebRtcSpl_AnalysisQMF :: "int list \<Rightarrow> int list \<Rightarrow> int list \<Rightarrow> int list \<times> int list \<times> int list \<times> int list" where
  "WebRtcSpl_AnalysisQMF in_data filter_state1 filter_state2 =
     (let band_length = length in_data div 2;
          half_in2 = map (\<lambda>i. s32 (shl (in_data ! (2 * i)) 10)) [0..<band_length];
          half_in1 = map (\<lambda>i. s32 (shl (in_data ! (2 * i + 1)) 10)) [0..<band_length];
          (filter1, filter_state1) = WebRtcSpl_AllPassQMF half_in1 WebRtcSpl_kAllPassFilter1 filter_state1;
          (filter2, filter_state2) = WebRtcSpl_AllPassQMF half_in2 WebRtcSpl_kAllPassFilter2 filter_state2;
          low_band = map (\<lambda>i. WebRtcSpl_SatW32ToW16 (asr (s32 (s32 (filter1 ! i + filter2 ! i) + 1024)) 11)) [0..<band_length];
          high_band = map (\<lambda>i. WebRtcSpl_SatW32ToW16 (asr (s32 (s32 (filter1 ! i - filter2 ! i) + 1024)) 11)) [0..<band_length]
      in (low_band, high_band, filter_state1, filter_state2))"

definition WebRtcSpl_SynthesisQMF :: "int list \<Rightarrow> int list \<Rightarrow> int list \<Rightarrow> int list \<Rightarrow> int list \<times> int list \<times> int list" where
  "WebRtcSpl_SynthesisQMF low_band high_band filter_state1 filter_state2 =
     (let band_length = length low_band;
          half_in1 = map (\<lambda>i. s32 (shl (s32 (low_band ! i + high_band ! i)) 10)) [0..<band_length];
          half_in2 = map (\<lambda>i. s32 (shl (s32 (low_band ! i - high_band ! i)) 10)) [0..<band_length];
          (filter1, filter_state1) = WebRtcSpl_AllPassQMF half_in1 WebRtcSpl_kAllPassFilter2 filter_state1;
          (filter2, filter_state2) = WebRtcSpl_AllPassQMF half_in2 WebRtcSpl_kAllPassFilter1 filter_state2;
          out_data = concat (map (\<lambda>i. [WebRtcSpl_SatW32ToW16 (asr (s32 (filter2 ! i + 512)) 10),
                                       WebRtcSpl_SatW32ToW16 (asr (s32 (filter1 ! i + 512)) 10)]) [0..<band_length])
      in (out_data, filter_state1, filter_state2))"

text \<open>The same in unbounded arithmetic, on a whole signal.\<close>

primrec exact_cascade :: "int \<Rightarrow> int \<Rightarrow> int \<Rightarrow> int list \<Rightarrow> int list" where
  "exact_cascade a xp yp [] = []"
| "exact_cascade a xp yp (x # xs) = (let y = xp + a * (x - yp) div 65536 in y # exact_cascade a x y xs)"

definition exact_qmf :: "int list \<Rightarrow> int list \<Rightarrow> int list \<Rightarrow> int list \<times> int list" where
  "exact_qmf c st xs =
     (let y1 = exact_cascade (c ! 0) (st ! 0) (st ! 1) xs; y2 = exact_cascade (c ! 1) (st ! 2) (st ! 3) y1;
          y3 = exact_cascade (c ! 2) (st ! 4) (st ! 5) y2
      in (y3, [last (st ! 0 # xs), last (st ! 1 # y1), last (st ! 2 # y1), last (st ! 3 # y2), last (st ! 4 # y2), last (st ! 5 # y3)]))"

lemma length_exact_cascade [simp]: "length (exact_cascade a xp yp xs) = length xs"
  by (induction xs arbitrary: xp yp) (simp_all add: Let_def)

lemma exact_cascade_append: "exact_cascade a xp yp (xs @ ys) =
    exact_cascade a xp yp xs @ exact_cascade a (last (xp # xs)) (last (yp # exact_cascade a xp yp xs)) ys"
  by (induction xs arbitrary: xp yp) (simp_all add: Let_def)

lemma last_append_Cons: "last (a # xs @ ys) = last (last (a # xs) # ys)"
  by (cases ys rule: rev_cases) simp_all

lemma exact_qmf_append: "exact_qmf c st (xs @ ys) = apfst (append (fst (exact_qmf c st xs))) (exact_qmf c (snd (exact_qmf c st xs)) ys)"
  unfolding exact_qmf_def Let_def exact_cascade_append last_append_Cons
  by (simp add: numeral_eq_Suc del: last.simps)

lemma cascade_exact:
  assumes "filter_ok a X xp yp" "\<forall>x \<in> set xs. \<bar>x\<bar> \<le> X" "0 \<le> a" "a \<le> 63010" "0 \<le> X" "X \<le> 277000000" "Y \<le> 809000000"
    "(65536 + 2 * a) * X + 1769472 < 65536 * (Y + 1)"
  shows "qmf_cascade a xp yp xs = exact_cascade a xp yp xs" "\<forall>y \<in> set (exact_cascade a xp yp xs). \<bar>y\<bar> \<le> Y"
    "filter_ok a X (last (xp # xs)) (last (yp # exact_cascade a xp yp xs))"
proof -
  have "qmf_cascade a xp yp xs = exact_cascade a xp yp xs \<and> (\<forall>y \<in> set (exact_cascade a xp yp xs). \<bar>y\<bar> \<le> Y) \<and>
    filter_ok a X (last (xp # xs)) (last (yp # exact_cascade a xp yp xs))"
    using assms(1,2)
  proof (induction xs arbitrary: xp yp)
    case (Cons x xs)
    define y where "y = xp + a * (x - yp) div 65536"
    have x: "\<bar>x\<bar> \<le> X" "\<forall>x \<in> set xs. \<bar>x\<bar> \<le> X" using Cons.prems(2) by simp_all
    have out: "\<bar>y\<bar> \<le> Y" if "filter_ok a X z y" for z y
      using le_less_trans [OF filter_ok_out [OF that assms(3)] assms(8)] by simp
    have ok: "filter_ok a X x y" unfolding y_def by (rule filter_ok_step [OF Cons.prems(1) x(1) assms(3,4)])
    have s: "\<bar>xp\<bar> \<le> X" "\<bar>yp\<bar> \<le> Y" using Cons.prems(1) out by (auto simp: filter_ok_def)
    have "is32 x" "is32 yp" using x s assms(6,7) by (auto simp: is32_def)
    then have "WebRtcSpl_SubSatW32 x yp = x - yp" using x s assms(6,7) by (simp add: SubSatW32_clamp)
    moreover have "WEBRTC_SPL_SCALEDIFF32 a (x - yp) xp = y"
      unfolding y_def using x s assms(3-7) by (intro SCALEDIFF32_exact) linarith+
    ultimately show ?case using Cons.IH [OF ok x(2)] out [OF ok] by (simp add: Let_def flip: y_def)
  qed simp
  then show "qmf_cascade a xp yp xs = exact_cascade a xp yp xs" "\<forall>y \<in> set (exact_cascade a xp yp xs). \<bar>y\<bar> \<le> Y"
    "filter_ok a X (last (xp # xs)) (last (yp # exact_cascade a xp yp xs))" by auto
qed

definition qmf_ok :: "int list \<Rightarrow> int \<Rightarrow> int \<Rightarrow> int \<Rightarrow> int list \<Rightarrow> bool" where
  "qmf_ok c X0 X1 X2 st \<longleftrightarrow> length st = 6 \<and> filter_ok (c ! 0) X0 (st ! 0) (st ! 1) \<and> filter_ok (c ! 1) X1 (st ! 2) (st ! 3) \<and>
     filter_ok (c ! 2) X2 (st ! 4) (st ! 5)"

lemma last_nth: "xs \<noteq> [] \<Longrightarrow> last (a # xs) = xs ! (length xs - 1)"
  by (simp add: last_conv_nth)

lemma six_cells: "length st = 6 \<Longrightarrow> st[0 := a, 1 := b, 2 := c, 3 := d, 4 := e, 5 := f] = [a, b, c, d, e, f]"
  by (auto simp: list_eq_iff_nth_eq less_Suc_eq numeral_eq_Suc nth_list_update)

lemma AllPassQMF_exact:
  assumes "qmf_ok c X0 X1 X2 st" "bounds_ok c X0 X1 X2 X3" "\<forall>x \<in> set xs. \<bar>x\<bar> \<le> X0" "xs \<noteq> []"
  shows "WebRtcSpl_AllPassQMF xs c st = exact_qmf c st xs" "\<forall>y \<in> set (fst (exact_qmf c st xs)). \<bar>y\<bar> \<le> X3"
    "qmf_ok c X0 X1 X2 (snd (exact_qmf c st xs))" "length (fst (exact_qmf c st xs)) = length xs"
proof -
  have c: "0 \<le> c ! 0" "c ! 0 \<le> 63010" "0 \<le> c ! 1" "c ! 1 \<le> 63010" "0 \<le> c ! 2" "c ! 2 \<le> 63010"
    and X: "0 \<le> X0" "X0 \<le> 277000000" "0 \<le> X1" "X1 \<le> 277000000" "0 \<le> X2" "X2 \<le> 277000000" "X1 \<le> 809000000" "X2 \<le> 809000000" "X3 \<le> 809000000"
    and g: "(65536 + 2 * c ! 0) * X0 + 1769472 < 65536 * (X1 + 1)" "(65536 + 2 * c ! 1) * X1 + 1769472 < 65536 * (X2 + 1)"
      "(65536 + 2 * c ! 2) * X2 + 1769472 < 65536 * (X3 + 1)"
    using assms(2) by (simp_all add: bounds_ok_def)
  have s: "length st = 6" "filter_ok (c ! 0) X0 (st ! 0) (st ! 1)" "filter_ok (c ! 1) X1 (st ! 2) (st ! 3)" "filter_ok (c ! 2) X2 (st ! 4) (st ! 5)"
    using assms(1) by (simp_all add: qmf_ok_def)
  define y1 where "y1 = exact_cascade (c ! 0) (st ! 0) (st ! 1) xs"
  define y2 where "y2 = exact_cascade (c ! 1) (st ! 2) (st ! 3) y1"
  define y3 where "y3 = exact_cascade (c ! 2) (st ! 4) (st ! 5) y2"
  note a = cascade_exact [OF s(2) assms(3) c(1,2) X(1,2,7) g(1), folded y1_def]
  note b = cascade_exact [OF s(3) a(2) c(3,4) X(3,4,8) g(2), folded y2_def]
  note d = cascade_exact [OF s(4) b(2) c(5,6) X(5,6,9) g(3), folded y3_def]
  have l: "length y1 = length xs" "length y2 = length xs" "length y3 = length xs" by (simp_all add: y1_def y2_def y3_def)
  have ne: "y1 \<noteq> []" "y2 \<noteq> []" "y3 \<noteq> []" using l assms(4) by auto
  have ex: "exact_qmf c st xs = (y3, [last (st ! 0 # xs), last (st ! 1 # y1), last (st ! 2 # y1), last (st ! 3 # y2), last (st ! 4 # y2), last (st ! 5 # y3)])"
    by (simp add: exact_qmf_def Let_def y1_def y2_def y3_def)
  have "WebRtcSpl_AllPassQMF xs c st = (y3, st[0 := xs ! (length xs - 1), 1 := y1 ! (length xs - 1), 2 := y1 ! (length xs - 1),
      3 := y2 ! (length xs - 1), 4 := y2 ! (length xs - 1), 5 := y3 ! (length xs - 1)])"
    using a(1) b(1) d(1) by (simp add: WebRtcSpl_AllPassQMF_def Let_def)
  then show "WebRtcSpl_AllPassQMF xs c st = exact_qmf c st xs"
    using last_nth [OF assms(4)] last_nth [OF ne(1)] last_nth [OF ne(2)] last_nth [OF ne(3)] l by (simp only: ex six_cells [OF s(1)])
  show "\<forall>y \<in> set (fst (exact_qmf c st xs)). \<bar>y\<bar> \<le> X3" "length (fst (exact_qmf c st xs)) = length xs" using d(2) l by (simp_all add: ex)
  show "qmf_ok c X0 X1 X2 (snd (exact_qmf c st xs))" using a(3) b(3) d(3) by (simp add: ex qmf_ok_def numeral_eq_Suc)
qed

lemma length_exact_qmf: "length (fst (exact_qmf c st xs)) = length xs"
  by (simp add: exact_qmf_def Let_def)

lemma qmf_bounds:
  "bounds_ok WebRtcSpl_kAllPassFilter1 33554432 40126492 85413321 234670312"
  "bounds_ok WebRtcSpl_kAllPassFilter2 33554432 55399452 138346498 404374749"
  "bounds_ok WebRtcSpl_kAllPassFilter1 67108864 80252956 170826556 469340360"
  "bounds_ok WebRtcSpl_kAllPassFilter2 67108864 110798876 276692899 808749188"
  by (simp_all add: bounds_ok_def WebRtcSpl_kAllPassFilter1_def WebRtcSpl_kAllPassFilter2_def less_Suc_eq numeral_eq_Suc all_conj_distrib)

definition exact_analysis :: "int list \<Rightarrow> int list \<Rightarrow> int list \<Rightarrow> int list \<times> int list \<times> int list \<times> int list" where
  "exact_analysis st1 st2 xs =
     (let (f1, st1) = exact_qmf WebRtcSpl_kAllPassFilter1 st1 (map ((*) 1024) (odds xs));
          (f2, st2) = exact_qmf WebRtcSpl_kAllPassFilter2 st2 (map ((*) 1024) (evens xs))
      in (map2 (\<lambda>a b. clamp16 ((a + b + 1024) div 2048)) f1 f2, map2 (\<lambda>a b. clamp16 ((a - b + 1024) div 2048)) f1 f2, st1, st2))"

definition exact_synthesis :: "int list \<Rightarrow> int list \<Rightarrow> int list \<Rightarrow> int list \<Rightarrow> int list \<times> int list \<times> int list" where
  "exact_synthesis st1 st2 low high =
     (let (f1, st1) = exact_qmf WebRtcSpl_kAllPassFilter2 st1 (map2 (\<lambda>l h. 1024 * (l + h)) low high);
          (f2, st2) = exact_qmf WebRtcSpl_kAllPassFilter1 st2 (map2 (\<lambda>l h. 1024 * (l - h)) low high)
      in (interleave (map (\<lambda>y. clamp16 ((y + 512) div 1024)) f2) (map (\<lambda>y. clamp16 ((y + 512) div 1024)) f1), st1, st2))"

definition analysis_ok :: "int list \<Rightarrow> int list \<Rightarrow> bool" where
  "analysis_ok st1 st2 \<longleftrightarrow> qmf_ok WebRtcSpl_kAllPassFilter1 33554432 40126492 85413321 st1 \<and>
     qmf_ok WebRtcSpl_kAllPassFilter2 33554432 55399452 138346498 st2"

definition synthesis_ok :: "int list \<Rightarrow> int list \<Rightarrow> bool" where
  "synthesis_ok st1 st2 \<longleftrightarrow> qmf_ok WebRtcSpl_kAllPassFilter2 67108864 110798876 276692899 st1 \<and>
     qmf_ok WebRtcSpl_kAllPassFilter1 67108864 80252956 170826556 st2"

lemma q10: "is16 x \<Longrightarrow> s32 (shl x 10) = 1024 * x"
  by (simp add: is16_def shl_mult s32_id)

lemma q10_sum:
  assumes "is16 a" "is16 b"
  shows "s32 (shl (s32 (a + b)) 10) = 1024 * (a + b)" "s32 (shl (s32 (a - b)) 10) = 1024 * (a - b)"
proof -
  have "s32 (a + b) = a + b" "s32 (a - b) = a - b" using assms by (simp_all add: is16_def s32_id)
  then show "s32 (shl (s32 (a + b)) 10) = 1024 * (a + b)" "s32 (shl (s32 (a - b)) 10) = 1024 * (a - b)"
    using assms by (simp_all add: is16_def shl_mult s32_id)
qed

lemma evens_odds_bound: "list_all is16 xs \<Longrightarrow> (\<forall>x \<in> set (evens xs). is16 x) \<and> (\<forall>x \<in> set (odds xs). is16 x)"
  by (auto simp: evens_def odds_def list_all_length)

lemma AnalysisQMF_exact:
  assumes "analysis_ok st1 st2" "list_all is16 xs" "even (length xs)" "xs \<noteq> []"
  shows "WebRtcSpl_AnalysisQMF xs st1 st2 = exact_analysis st1 st2 xs"
    "\<exists>low high st1' st2'. exact_analysis st1 st2 xs = (low, high, st1', st2') \<and> analysis_ok st1' st2' \<and> length low = length xs div 2 \<and>
       length high = length xs div 2 \<and> list_all is16 (low @ high)"
proof -
  have l: "1 < length xs" using assms(3,4) by (cases xs rule: rev_cases) auto
  have i: "map (\<lambda>i. s32 (shl (xs ! (2 * i + 1)) 10)) [0..<length xs div 2] = map ((*) 1024) (odds xs)"
    "map (\<lambda>i. s32 (shl (xs ! (2 * i)) 10)) [0..<length xs div 2] = map ((*) 1024) (evens xs)"
    using assms(2,3) by (auto simp: odds_def evens_def list_all_length q10 elim!: evenE)
  have b: "\<forall>x \<in> set (map ((*) 1024) (odds xs)). \<bar>x\<bar> \<le> 33554432" "\<forall>x \<in> set (map ((*) 1024) (evens xs)). \<bar>x\<bar> \<le> 33554432"
    using evens_odds_bound [OF assms(2)] by (auto simp: is16_def)
  have ne: "map ((*) 1024) (odds xs) \<noteq> []" "map ((*) 1024) (evens xs) \<noteq> []" using l by (auto simp: odds_def evens_def)
  note o = assms(1) [unfolded analysis_ok_def]
  note f1 = AllPassQMF_exact [OF conjunct1 [OF o] qmf_bounds(1) b(1) ne(1)]
  note f2 = AllPassQMF_exact [OF conjunct2 [OF o] qmf_bounds(2) b(2) ne(2)]
  obtain y1 t1 where y1: "exact_qmf WebRtcSpl_kAllPassFilter1 st1 (map ((*) 1024) (odds xs)) = (y1, t1)" by fastforce
  obtain y2 t2 where y2: "exact_qmf WebRtcSpl_kAllPassFilter2 st2 (map ((*) 1024) (evens xs)) = (y2, t2)" by fastforce
  have ly: "length y1 = length xs div 2" "length y2 = length xs div 2" using f1(4) f2(4) by (simp_all add: y1 y2)
  have r: "s32 (s32 (y1 ! j + y2 ! j) + 1024) = y1 ! j + y2 ! j + 1024" "s32 (s32 (y1 ! j - y2 ! j) + 1024) = y1 ! j - y2 ! j + 1024"
    if "j < length xs div 2" for j
  proof -
    have "\<bar>y1 ! j\<bar> \<le> 234670312" "\<bar>y2 ! j\<bar> \<le> 404374749" using f1(2) f2(2) that ly by (simp_all add: y1 y2)
    then show "s32 (s32 (y1 ! j + y2 ! j) + 1024) = y1 ! j + y2 ! j + 1024" "s32 (s32 (y1 ! j - y2 ! j) + 1024) = y1 ! j - y2 ! j + 1024"
      by (simp_all add: s32_id)
  qed
  have "map (\<lambda>i. WebRtcSpl_SatW32ToW16 (asr (s32 (s32 (y1 ! i + y2 ! i) + 1024)) 11)) [0..<length xs div 2] =
      map2 (\<lambda>a b. clamp16 ((a + b + 1024) div 2048)) y1 y2"
    "map (\<lambda>i. WebRtcSpl_SatW32ToW16 (asr (s32 (s32 (y1 ! i - y2 ! i) + 1024)) 11)) [0..<length xs div 2] =
      map2 (\<lambda>a b. clamp16 ((a - b + 1024) div 2048)) y1 y2"
    using ly r by (auto intro!: nth_equalityI simp: SatW32ToW16_clamp16 asr_div)
  then show "WebRtcSpl_AnalysisQMF xs st1 st2 = exact_analysis st1 st2 xs"
    by (simp only: WebRtcSpl_AnalysisQMF_def Let_def i f1(1) f2(1) y1 y2 prod.case exact_analysis_def)
  show "\<exists>low high st1' st2'. exact_analysis st1 st2 xs = (low, high, st1', st2') \<and> analysis_ok st1' st2' \<and> length low = length xs div 2 \<and>
       length high = length xs div 2 \<and> list_all is16 (low @ high)"
    using ly f1(3) f2(3) by (auto simp: exact_analysis_def y1 y2 analysis_ok_def list_all_iff SatW32ToW16_clamp16)
qed

lemma list_all_interleave: "list_all P xs \<Longrightarrow> list_all P ys \<Longrightarrow> list_all P (interleave xs ys)"
  by (auto simp: interleave_def list_all_iff dest: set_zip_leftD set_zip_rightD)

lemma SynthesisQMF_exact:
  assumes "synthesis_ok st1 st2" "list_all is16 low" "list_all is16 high" "length high = length low" "low \<noteq> []"
  shows "WebRtcSpl_SynthesisQMF low high st1 st2 = exact_synthesis st1 st2 low high"
    "\<exists>out st1' st2'. exact_synthesis st1 st2 low high = (out, st1', st2') \<and> synthesis_ok st1' st2' \<and> length out = 2 * length low \<and> list_all is16 out"
proof -
  let ?x1 = "map2 (\<lambda>l h. 1024 * (l + h)) low high" and ?x2 = "map2 (\<lambda>l h. 1024 * (l - h)) low high"
  have lh: "is16 (low ! j)" "is16 (high ! j)" if "j < length low" for j using assms(2-4) that by (simp_all add: list_all_length)
  have i: "map (\<lambda>i. s32 (shl (s32 (low ! i + high ! i)) 10)) [0..<length low] = ?x1"
    "map (\<lambda>i. s32 (shl (s32 (low ! i - high ! i)) 10)) [0..<length low] = ?x2"
    using assms(4) lh q10_sum by (auto intro!: nth_equalityI)
  have b: "\<forall>x \<in> set ?x1. \<bar>x\<bar> \<le> 67108864" "\<forall>x \<in> set ?x2. \<bar>x\<bar> \<le> 67108864"
  proof -
    have "\<bar>1024 * (low ! j + high ! j)\<bar> \<le> 67108864 \<and> \<bar>1024 * (low ! j - high ! j)\<bar> \<le> 67108864" if "j < length low" for j
      using lh [OF that] by (auto simp: is16_def)
    then show "\<forall>x \<in> set ?x1. \<bar>x\<bar> \<le> 67108864" "\<forall>x \<in> set ?x2. \<bar>x\<bar> \<le> 67108864"
      using assms(4) by (simp_all add: all_set_conv_all_nth)
  qed
  have ne: "?x1 \<noteq> []" "?x2 \<noteq> []" using assms(4,5) by (auto simp: zip_eq_Nil_iff)
  note o = assms(1) [unfolded synthesis_ok_def]
  note f1 = AllPassQMF_exact [OF conjunct1 [OF o] qmf_bounds(4) b(1) ne(1)]
  note f2 = AllPassQMF_exact [OF conjunct2 [OF o] qmf_bounds(3) b(2) ne(2)]
  obtain y1 t1 where y1: "exact_qmf WebRtcSpl_kAllPassFilter2 st1 ?x1 = (y1, t1)" by fastforce
  obtain y2 t2 where y2: "exact_qmf WebRtcSpl_kAllPassFilter1 st2 ?x2 = (y2, t2)" by fastforce
  have ly: "length y1 = length low" "length y2 = length low" using f1(4) f2(4) assms(4) unfolding y1 y2 by simp_all
  have r: "s32 (y1 ! j + 512) = y1 ! j + 512" "s32 (y2 ! j + 512) = y2 ! j + 512" if "j < length low" for j
  proof -
    have "\<bar>y1 ! j\<bar> \<le> 808749188" "\<bar>y2 ! j\<bar> \<le> 469340360" using f1(2) f2(2) that ly unfolding y1 y2 by simp_all
    then show "s32 (y1 ! j + 512) = y1 ! j + 512" "s32 (y2 ! j + 512) = y2 ! j + 512" by (simp_all add: s32_id)
  qed
  have "concat (map (\<lambda>i. [WebRtcSpl_SatW32ToW16 (asr (s32 (y2 ! i + 512)) 10), WebRtcSpl_SatW32ToW16 (asr (s32 (y1 ! i + 512)) 10)]) [0..<length low]) =
      interleave (map (\<lambda>y. clamp16 ((y + 512) div 1024)) y2) (map (\<lambda>y. clamp16 ((y + 512) div 1024)) y1)"
    unfolding interleave_def using ly r by (intro arg_cong [where f = concat] nth_equalityI) (auto simp: SatW32ToW16_clamp16 asr_div)
  then show "WebRtcSpl_SynthesisQMF low high st1 st2 = exact_synthesis st1 st2 low high"
    by (simp only: WebRtcSpl_SynthesisQMF_def Let_def i f1(1) f2(1) y1 y2 prod.case exact_synthesis_def)
  have "list_all is16 (interleave (map (\<lambda>y. clamp16 ((y + 512) div 1024)) y2) (map (\<lambda>y. clamp16 ((y + 512) div 1024)) y1))"
    by (intro list_all_interleave) (simp_all add: list_all_iff SatW32ToW16_clamp16)
  then show "\<exists>out st1' st2'. exact_synthesis st1 st2 low high = (out, st1', st2') \<and> synthesis_ok st1' st2' \<and> length out = 2 * length low \<and> list_all is16 out"
    using ly f1(3) f2(3) unfolding exact_synthesis_def synthesis_ok_def y1 y2 by (simp add: length_interleave)
qed

text \<open>Sequences of calls.\<close>

primrec analysis_calls :: "int list list \<Rightarrow> int list \<Rightarrow> int list \<Rightarrow> int list \<times> int list \<times> int list \<times> int list" where
  "analysis_calls [] st1 st2 = ([], [], st1, st2)"
| "analysis_calls (b # bs) st1 st2 =
     (let (low, high, st1, st2) = WebRtcSpl_AnalysisQMF b st1 st2; (low', high', st) = analysis_calls bs st1 st2
      in (low @ low', high @ high', st))"

primrec synthesis_calls :: "(int list \<times> int list) list \<Rightarrow> int list \<Rightarrow> int list \<Rightarrow> int list \<times> int list \<times> int list" where
  "synthesis_calls [] st1 st2 = ([], st1, st2)"
| "synthesis_calls (b # bs) st1 st2 =
     (let (out, st1, st2) = WebRtcSpl_SynthesisQMF (fst b) (snd b) st1 st2; (out', st) = synthesis_calls bs st1 st2 in (out @ out', st))"

lemma exact_analysis_append:
  assumes "even (length xs)" "exact_analysis st1 st2 xs = (low, high, st1', st2')" "exact_analysis st1' st2' ys = (low', high', st')"
  shows "exact_analysis st1 st2 (xs @ ys) = (low @ low', high @ high', st')"
  using assms(2,3) length_exact_qmf [of WebRtcSpl_kAllPassFilter1 st1 "map ((*) 1024) (odds xs)"]
    length_exact_qmf [of WebRtcSpl_kAllPassFilter2 st2 "map ((*) 1024) (evens xs)"]
  by (auto simp: exact_analysis_def evens_append odds_append assms(1) exact_qmf_append apfst_def map_prod_def split: prod.splits)

lemma exact_synthesis_append:
  assumes "length high = length low" "exact_synthesis st1 st2 low high = (out, st1', st2')" "exact_synthesis st1' st2' low' high' = (out', st')"
  shows "exact_synthesis st1 st2 (low @ low') (high @ high') = (out @ out', st')"
  using assms(1-3) length_exact_qmf [of WebRtcSpl_kAllPassFilter2 st1 "map2 (\<lambda>l h. 1024 * (l + h)) low high"]
    length_exact_qmf [of WebRtcSpl_kAllPassFilter1 st2 "map2 (\<lambda>l h. 1024 * (l - h)) low high"]
  by (auto simp: exact_synthesis_def exact_qmf_append interleave_append apfst_def map_prod_def split: prod.splits)

lemma analysis_calls_exact:
  "analysis_ok st1 st2 \<Longrightarrow> list_all (\<lambda>b. even (length b) \<and> b \<noteq> [] \<and> list_all is16 b) bs \<Longrightarrow> bs \<noteq> [] \<Longrightarrow>
    analysis_calls bs st1 st2 = exact_analysis st1 st2 (concat bs) \<and>
    (\<exists>low high st. exact_analysis st1 st2 (concat bs) = (low, high, st) \<and> length low = length (concat bs) div 2 \<and>
      length high = length (concat bs) div 2 \<and> list_all is16 (low @ high))"
proof (induction bs arbitrary: st1 st2)
  case (Cons b bs)
  have b: "list_all is16 b" "even (length b)" "b \<noteq> []" "list_all (\<lambda>b. even (length b) \<and> b \<noteq> [] \<and> list_all is16 b) bs"
    using Cons.prems(2) by simp_all
  obtain low high t1 t2 where e: "exact_analysis st1 st2 b = (low, high, t1, t2)" "analysis_ok t1 t2" "length low = length b div 2"
    "length high = length b div 2" "list_all is16 (low @ high)"
    using AnalysisQMF_exact(2) [OF Cons.prems(1) b(1-3)] by blast
  note c = AnalysisQMF_exact(1) [OF Cons.prems(1) b(1-3)]
  show ?case
  proof (cases "bs = []")
    case True
    then show ?thesis using c e by simp
  next
    case False
    from Cons.IH [OF e(2) b(4) False] obtain low' high' st where r: "analysis_calls bs t1 t2 = (low', high', st)"
      "exact_analysis t1 t2 (concat bs) = (low', high', st)" "length low' = length (concat bs) div 2" "length high' = length (concat bs) div 2"
      "list_all is16 (low' @ high')" by auto
    have "(length b + length (concat bs)) div 2 = length b div 2 + length (concat bs) div 2" using b(2) by (auto elim!: evenE)
    then show ?thesis using c e r exact_analysis_append [OF b(2) e(1) r(2)] by simp
  qed
qed simp

lemma synthesis_calls_exact:
  "synthesis_ok st1 st2 \<Longrightarrow> list_all (\<lambda>(l, h). l \<noteq> [] \<and> length h = length l \<and> list_all is16 l \<and> list_all is16 h) bs \<Longrightarrow> bs \<noteq> [] \<Longrightarrow>
    synthesis_calls bs st1 st2 = exact_synthesis st1 st2 (concat (map fst bs)) (concat (map snd bs)) \<and>
    (\<exists>out st. exact_synthesis st1 st2 (concat (map fst bs)) (concat (map snd bs)) = (out, st) \<and>
      length out = 2 * length (concat (map fst bs)) \<and> list_all is16 out)"
proof (induction bs arbitrary: st1 st2)
  case (Cons b bs)
  obtain l h where lh: "b = (l, h)" by (cases b)
  have b: "list_all is16 l" "list_all is16 h" "length h = length l" "l \<noteq> []"
    "list_all (\<lambda>(l, h). l \<noteq> [] \<and> length h = length l \<and> list_all is16 l \<and> list_all is16 h) bs"
    using Cons.prems(2) by (simp_all add: lh)
  obtain out t1 t2 where e: "exact_synthesis st1 st2 l h = (out, t1, t2)" "synthesis_ok t1 t2" "length out = 2 * length l" "list_all is16 out"
    using SynthesisQMF_exact(2) [OF Cons.prems(1) b(1-4)] by blast
  note c = SynthesisQMF_exact(1) [OF Cons.prems(1) b(1-4)]
  show ?case
  proof (cases "bs = []")
    case True
    then show ?thesis using c e by (simp add: lh)
  next
    case False
    from Cons.IH [OF e(2) b(5) False] obtain out' st where r: "synthesis_calls bs t1 t2 = (out', st)"
      "exact_synthesis t1 t2 (concat (map fst bs)) (concat (map snd bs)) = (out', st)" "length out' = 2 * length (concat (map fst bs))"
      "list_all is16 out'" by auto
    show ?thesis using c e r exact_synthesis_append [OF b(3) e(1) r(2)] by (simp add: lh)
  qed
qed simp

lemma zero_qmf_ok: "analysis_ok (replicate 6 0) (replicate 6 0)" "synthesis_ok (replicate 6 0) (replicate 6 0)"
  by (simp_all add: analysis_ok_def synthesis_ok_def qmf_ok_def filter_ok_def numeral_eq_Suc WebRtcSpl_kAllPassFilter1_def WebRtcSpl_kAllPassFilter2_def)

text \<open>C8. The two-band filter bank never overflows, although its intermediate values exceed the \<open>2^25\<close> that its comment gives:
  from the zero states, on 16-bit samples of any amount and any division into calls that the code's assertions accept, analysis and synthesis compute their
  all-pass cascades in unbounded arithmetic on the whole signal: no saturating subtraction saturates and no product or sum
  wraps. All outputs are 16-bit samples of the right number.\<close>

theorem qmf_exact:
  assumes "list_all (\<lambda>b. even (length b) \<and> b \<noteq> [] \<and> length b div 2 \<le> kMaxBandFrameLength \<and> list_all is16 b) bs" "bs \<noteq> []"
    "list_all (\<lambda>(l, h). l \<noteq> [] \<and> length l \<le> kMaxBandFrameLength \<and> length h = length l \<and> list_all is16 l \<and> list_all is16 h) cs" "cs \<noteq> []"
  shows "\<exists>low high out st st'.
    analysis_calls bs (replicate 6 0) (replicate 6 0) = (low, high, st) \<and>
    exact_analysis (replicate 6 0) (replicate 6 0) (concat bs) = (low, high, st) \<and>
    synthesis_calls cs (replicate 6 0) (replicate 6 0) = (out, st') \<and>
    exact_synthesis (replicate 6 0) (replicate 6 0) (concat (map fst cs)) (concat (map snd cs)) = (out, st') \<and>
    length low = length (concat bs) div 2 \<and> length high = length (concat bs) div 2 \<and>
    length out = 2 * length (concat (map fst cs)) \<and> list_all is16 (low @ high @ out)"
proof -
  have "list_all (\<lambda>b. even (length b) \<and> b \<noteq> [] \<and> list_all is16 b) bs"
    "list_all (\<lambda>(l, h). l \<noteq> [] \<and> length h = length l \<and> list_all is16 l \<and> list_all is16 h) cs"
    using assms(1,3) by (auto simp: list_all_iff)
  then show ?thesis
    using analysis_calls_exact [OF zero_qmf_ok(1) _ assms(2)] synthesis_calls_exact [OF zero_qmf_ok(2) _ assms(4)] by fastforce
qed

theorem qmf_exact_witness:
  "\<exists>low high out st st'.
    analysis_calls [[32767, - 32768], [5, 6]] (replicate 6 0) (replicate 6 0) = (low, high, st) \<and>
    exact_analysis (replicate 6 0) (replicate 6 0) [32767, - 32768, 5, 6] = (low, high, st) \<and>
    synthesis_calls [([32767], [- 32768])] (replicate 6 0) (replicate 6 0) = (out, st') \<and>
    exact_synthesis (replicate 6 0) (replicate 6 0) [32767] [- 32768] = (out, st') \<and>
    length low = 2 \<and> length high = 2 \<and> length out = 2 \<and> list_all is16 (low @ high @ out)"
proof -
  have "is16 32767" "is16 (- 32768)" "is16 5" "is16 6" by (simp_all add: is16_def)
  moreover have "Suc (Suc (Suc (Suc 0))) div Suc (Suc 0) = Suc (Suc 0)" by code_simp
  ultimately show ?thesis
    using qmf_exact [of "[[32767, - 32768], [5, 6]]" "[([32767], [- 32768])]"]
    by (simp del: analysis_calls.simps synthesis_calls.simps add: kMaxBandFrameLength_def numeral_2_eq_2)
qed

end
