(* ===== verification/Spec2Isabelle.thy ===== *)
theory Spec2Isabelle
  imports RingBuffer PaRingBuffer SplVector G711 IlbcRoundtrip IsacFixDec IsacCrc G722Sync VadProps
    Resample22Stream SplQmf
begin

text \<open>
  A verification development for the C core of the WebRTC voice path.

  \<^bold>\<open>The program.\<close>  The repository is a WebRTC tree (\<^verbatim>\<open>src/webrtc\<close>, \<^verbatim>\<open>src/talk\<close>).  Audio captured by a
  device module passes through ring buffers, is resampled and analysed by the fixed-point
  signal processing library, classified by the voice activity detector, and coded by one of the
  codecs; the receiving side runs the decoders.  These parts are written in C and are called by
  the C++ engine.  The development models the C parts that carry state or a coding contract.

  \<^bold>\<open>Theories and sources.\<close>
  \<^item> \<open>Prelude\<close>: C integer conversions, shifts, byte copies and list lemmas shared by all theories.
  \<^item> \<open>Fifo\<close>: the interface of a bounded queue as locales, with the client lemma that any sequence
    of writes and reads delivers the accepted bytes in order.
  \<^item> \<open>RingBuffer\<close> (\<^verbatim>\<open>modules/audio_processing/utility/ring_buffer.c\<close>): the buffer struct with its wrap
    flag as a record; create, init, write, read, move of the read pointer, available space; it is an
    instance of \<open>Fifo\<close>.
  \<^item> \<open>PaRingBuffer\<close> (\<^verbatim>\<open>modules/audio_device/mac/portaudio/pa_ringbuffer.c\<close>): the lock-free variant with
    masked indices, another instance of \<open>Fifo\<close>.
  \<^item> \<open>SplMath\<close> and \<open>SplVector\<close> (\<^verbatim>\<open>common_audio/signal_processing\<close>): saturation, normalisation, division,
    square root, random numbers; maxima, copies, scaling, correlation, energy, decimation.
  \<^item> \<open>SplResample\<close> (\<^verbatim>\<open>resample_by_2_internal.c\<close>, \<^verbatim>\<open>resample_fractional.c\<close>, \<^verbatim>\<open>resample_48khz.c\<close>): the
    all-pass filters, the fractional stages and the chains between 48 kHz and 8 or 16 kHz, with
    the overlapping scratch array threaded through every loop; \<open>ResampleStream\<close>: the chains as
    instances of the interface \<open>block_filter\<close>.
  \<^item> \<open>SplResample22\<close> (\<^verbatim>\<open>resample.c\<close>, the rest of \<^verbatim>\<open>resample_fractional.c\<close>): the chains between 22 kHz and 8 or
    16 kHz, which cut a frame into sub-blocks; \<open>Resample22Stream\<close>: the interface \<open>frame_filter\<close>, which lifts a
    correct sub-block to a \<open>block_filter\<close> on frames, and its four instances.
  \<^item> \<open>SplAllpass\<close> (\<^verbatim>\<open>resample_by_2.c\<close>) and \<open>SplQmf\<close> (\<^verbatim>\<open>splitting_filter.c\<close>): the resamplers by two and the two-band
    filter bank, both made of all-pass filters with 16-bit coefficients, with an invariant on the state of
    a filter that rounding preserves.
  \<^item> \<open>Vad\<close> (\<^verbatim>\<open>common_audio/vad\<close>): the whole voice activity detector, which calls the resampler and
    the energy and division routines; \<open>VadMinima\<close>: the tracking of the smallest energies;
    \<open>VadProps\<close>: the invariant and the interface.
  \<^item> \<open>G711\<close> (\<^verbatim>\<open>codecs/g711\<close>, \<^verbatim>\<open>codecs/pcm16b\<close>): companding, transcoding tables, the byte packing.
  \<^item> \<open>G722\<close> and \<open>G722Sync\<close> (\<^verbatim>\<open>codecs/g722\<close>): the two-band ADPCM codec.
  \<^item> \<open>IlbcBits\<close> and \<open>IlbcRoundtrip\<close> (\<^verbatim>\<open>codecs/ilbc\<close>): the bit stream, index conversion and quantiser.
  \<^item> \<open>IsacArith\<close> (\<^verbatim>\<open>codecs/isac/main/source/arith_routines_hist.c\<close>, \<^verbatim>\<open>arith_routines.c\<close>): the arithmetic
    coder of the floating-point codec with its table decoders; \<open>IsacLogist\<close>
    (\<^verbatim>\<open>arith_routines_logist.c\<close>): the coder of a spectrum, with the piecewise distribution function;
    \<open>IsacPacket\<close>: packets of both kinds of calls, with the interface \<open>interval_decoder\<close> of what a decoder
    promises; \<open>IsacCrc\<close> (\<^verbatim>\<open>crc.c\<close>): the checksum.
  \<^item> \<open>IsacFix\<close> (\<^verbatim>\<open>codecs/isac/fix/source/arith_routines.c\<close>, \<^verbatim>\<open>arith_routines_hist.c\<close>,
    \<^verbatim>\<open>arith_routines_logist.c\<close>): the same coder in the fixed-point codec, on a stream of 16-bit words;
    \<open>IsacFixEnc\<close>: its encoder simulates the byte encoder; \<open>IsacFixDec\<close>: its decoders simulate the byte
    decoders and are another instance of \<open>interval_decoder\<close>.

  \<^bold>\<open>Correspondence.\<close>  A struct is a record with the source's member names, an enum a datatype, a
  function of the source a definition of the same name; the loops of a long function are
  definitions of their own.  Pointers that may be null are options, errors are the returned codes
  of the source, arrays are lists, and a pointer into an array is an offset.  Integers are HOL
  integers with every conversion and every sum that can leave its type reduced explicitly
  (\<open>s16\<close>, \<open>s32\<close>, \<open>u32\<close>), or machine words where the code works on bit patterns.

  \<^bold>\<open>What is shown.\<close>
  \<^item> Queues: refinement of a FIFO by both ring buffers over all operation sequences, behaviour of
    every operation, and the arguments for which creation goes wrong.
  \<^item> Arithmetic: the scalar routines equal their mathematical definitions; the correlation and
    energy routines do not overflow, with the exact exception.
  \<^item> Resamplers: frame-by-frame processing equals a filter pipeline on the whole signal, whatever
    the scratch array holds; the outputs are 16-bit values of the right number.
  \<^item> All-pass filters: the resamplers by two and the filter bank never overflow from their initial states, so
    that they equal the same filters in unbounded arithmetic on the whole signal.
  \<^item> Detector: an invariant of the instance over all call sequences, the exact error contract,
    the refinement of the minimum tracking by operations on sorted lists, the exact length of the
    hang-over, the range of the probability, and that the 48 kHz path only sees 10 ms.
  \<^item> Codecs: round trips of companding, PCM, bit stream, index conversion and of whole packets of
    the arithmetic coder of iSAC, in both implementations, which write the same bytes, for
    envelope values from 11 on and coefficients whose symbols have 16-bit edges; what happens outside of that range (streams
    that the decoder refuses, calls that never return, symbols outside of the alphabet); that the encoder's carry and output stay
    inside the array. Encoder and decoder of G.722 stay in lock step in the unpacked modes and inside their stability region; the checksum
    is the CRC-32 division and detects every single byte error.

  \<^bold>\<open>Bounds, fuel and termination.\<close>  No model uses fuel.  The renormalisation loop of the arithmetic
  coder, the clipping loop of the spectrum encoder, the candidate walks of its decoder and the
  decimation loop may run forever on some arguments and are partial functions with an option
  result; that they return on valid arguments is proved (\<open>EncHistMulti_safe\<close>,
  \<open>EncLogisticMulti2_contract\<close>, the round trips, \<open>DownsampleFast_correct\<close>), and that they do not on some
  others too (\<open>logistic_coder_hangs\<close>).  All other loops are structural or have a measure.  The hypotheses on
  lengths (480 samples and a scratch array of at least 496 cells, 104, 126, 88 or 98 cells for the chains at
  22 kHz, frames of at least the announced length) are the sizes the code's own declarations fix.

  \<^bold>\<open>Not modelled.\<close>  The C++ engine, the peer connection layer and the device modules are threads,
  sockets and callbacks around the C core.  The floating point parts (iSAC analysis, echo
  cancellation, noise suppression) have no executable counterpart in the image's libraries.  The
  remaining fixed-point code (iLBC analysis and synthesis, analysis and transforms
  of the fixed-point iSAC codec, mobile echo control,
  gain control, comfort noise, the transforms and the direct-form and lattice filters of the signal
  processing library, the delay estimator) is
  independent of the modelled parts and can be added component by component.  Assembly and
  processor-specific replacements are represented by their portable versions.
\<close>

end
